(* ===== verification/Prelude.thy ===== *)
theory Prelude
  imports Main "HOL-Library.Word" "HOL-Library.Monad_Syntax"
begin

text \<open>
  Shared vocabulary of the development: bytes and views of memory as a C pointer gives
  them, unsigned 32-bit arithmetic on \<^typ>\<open>nat\<close> with its wrap-around written out,
  little-endian encodings of multi-byte fields, and the generic lemmas on lists, words and
  the option monad that the component theories use.
\<close>

unbundle bit_operations_syntax

named_theorems ring_simps \<open>facts that evaluate ring positions and 32-bit arithmetic\<close>
named_theorems flash_simps \<open>facts that describe what a flash operation leaves in the device\<close>

section \<open>Bytes and memory views\<close>

type_synonym byte = "8 word"

text \<open>
  A C pointer to bytes is a view of the memory that starts there: index 0 is the byte the
  pointer points to. A view has no length, as in C; the length travels beside it.
\<close>

type_synonym view = "nat \<Rightarrow> byte"

definition view_of :: "byte list \<Rightarrow> view" where
  "view_of bs i = (if i < length bs then bs ! i else 0)"

definition advance :: "view \<Rightarrow> nat \<Rightarrow> view" where
  "advance p k = (\<lambda>i. p (k + i))"

definition take_view :: "nat \<Rightarrow> view \<Rightarrow> byte list" where
  "take_view n p = map p [0..<n]"

text \<open>\<open>memcpy(&dst[off], src, n)\<close> with the copied bytes given as a list.\<close>

definition store :: "view \<Rightarrow> nat \<Rightarrow> byte list \<Rightarrow> view" where
  "store p off bs = (\<lambda>i. if off \<le> i \<and> i < off + length bs then bs ! (i - off) else p i)"

definition memset_ff :: "view \<Rightarrow> nat \<Rightarrow> view" where
  "memset_ff p n = (\<lambda>i. if i < n then 0xff else p i)"

text \<open>\<open>memcmp(a, b, n) == 0\<close>.\<close>

definition mem_equal :: "view \<Rightarrow> view \<Rightarrow> nat \<Rightarrow> bool" where
  "mem_equal a b n \<longleftrightarrow> take_view n a = take_view n b"

lemma advance_0 [simp]: "advance p 0 = p"
  by (simp add: advance_def)

lemma advance_advance [simp]: "advance (advance p a) b = advance p (a + b)"
  by (simp add: advance_def add.assoc)

lemma advance_apply [simp]: "advance p k i = p (k + i)"
  by (simp add: advance_def)

lemma length_take_view [simp]: "length (take_view n p) = n"
  by (simp add: take_view_def)

lemma nth_take_view [simp]: "i < n \<Longrightarrow> take_view n p ! i = p i"
  by (simp add: take_view_def)

lemma take_view_0 [simp]: "take_view 0 p = []"
  by (simp add: take_view_def)

lemma take_view_cong: "(\<And>i. i < n \<Longrightarrow> p i = q i) \<Longrightarrow> take_view n p = take_view n q"
  by (simp add: take_view_def)

lemma take_view_eq_iff: "take_view n p = take_view n q \<longleftrightarrow> (\<forall>i<n. p i = q i)"
  by (auto simp: take_view_def)

lemma take_view_append: "take_view (m + n) p = take_view m p @ take_view n (advance p m)"
proof (rule nth_equalityI)
  fix i assume i: "i < length (take_view (m + n) p)"
  then show "take_view (m + n) p ! i = (take_view m p @ take_view n (advance p m)) ! i"
    by (cases "i < m") (simp_all add: nth_append)
qed simp

lemma take_view_view_of: "take_view (length bs) (view_of bs) = bs"
  by (rule nth_equalityI) (simp_all add: view_of_def)

lemma view_of_nth [simp]: "i < length bs \<Longrightarrow> view_of bs i = bs ! i"
  by (simp add: view_of_def)

lemma store_Nil [simp]: "store p off [] = p"
  by (rule ext) (auto simp: store_def)

lemma store_outside: "i < off \<or> off + length bs \<le> i \<Longrightarrow> store p off bs i = p i"
  by (auto simp: store_def)

lemma store_inside: "off \<le> i \<Longrightarrow> i < off + length bs \<Longrightarrow> store p off bs i = bs ! (i - off)"
  by (simp add: store_def)

text \<open>Two stores side by side are one.\<close>

lemma store_chain: "m = k + length a \<Longrightarrow> store (store p k a) m b = store p k (a @ b)"
  by (rule ext) (auto simp: store_def nth_append)

lemma take_view_store_0: "take_view (length bs + n) (store p 0 bs) = bs @ take_view n (advance p (length bs))"
  by (rule nth_equalityI) (auto simp: store_def nth_append)

lemma memset_ff_inside [simp]: "i < n \<Longrightarrow> memset_ff p n i = 0xff"
  by (simp add: memset_ff_def)

lemma mem_equal_iff: "mem_equal a b n \<longleftrightarrow> (\<forall>i<n. a i = b i)"
  by (simp add: mem_equal_def take_view_eq_iff)

text \<open>The characters of a literal.\<close>

definition bytes_of :: "string \<Rightarrow> byte list" where
  "bytes_of s = map of_char s"

section \<open>Unsigned 32-bit arithmetic on natural numbers\<close>

definition add32 :: "nat \<Rightarrow> nat \<Rightarrow> nat" where
  "add32 a b = (a + b) mod 2 ^ 32"

text \<open>Adding a C \<open>int\<close> to a \<open>uint32_t\<close>, and converting an \<open>int\<close> to \<open>uint32_t\<close>.\<close>

definition u32_of_int :: "int \<Rightarrow> nat" where
  "u32_of_int i = nat (i mod 2 ^ 32)"

text \<open>An \<open>int\<close> that wraps around, and an \<open>int\<close> stored in a \<open>uint16_t\<close>.\<close>

definition wrap_int :: "int \<Rightarrow> int" where
  "wrap_int i = (i + 2 ^ 31) mod 2 ^ 32 - 2 ^ 31"

definition u16_of_int :: "int \<Rightarrow> nat" where
  "u16_of_int i = nat (i mod 2 ^ 16)"

definition sub32 :: "nat \<Rightarrow> nat \<Rightarrow> nat" where
  "sub32 a b = u32_of_int (int a - int b)"

lemma add32_small [ring_simps]: "a + b < 2 ^ 32 \<Longrightarrow> add32 a b = a + b"
  by (simp add: add32_def)

lemma sub32_small [ring_simps]: "b \<le> a \<Longrightarrow> a < 2 ^ 32 \<Longrightarrow> sub32 a b = a - b"
  by (simp add: sub32_def u32_of_int_def)

lemma add32_less: "add32 a b < 2 ^ 32"
  by (simp add: add32_def)

lemma u32_of_int_nonneg [ring_simps]: "0 \<le> i \<Longrightarrow> i < 2 ^ 32 \<Longrightarrow> u32_of_int i = nat i"
  by (simp add: u32_of_int_def)

lemma u32_of_int_of_nat [ring_simps]: "n < 2 ^ 32 \<Longrightarrow> u32_of_int (int n) = n"
  by (simp add: u32_of_int_def)

section \<open>Masks and remainders\<close>

lemma and_4095 [simp]: "(a :: nat) AND 4095 = a mod 4096"
proof -
  have e: "(4095 :: nat) = mask 12" by (simp add: mask_eq_exp_minus_1)
  show ?thesis by (simp only: e take_bit_eq_mask [symmetric] take_bit_eq_mod) simp
qed

lemma and_255 [simp]: "(a :: nat) AND 255 = a mod 256"
proof -
  have e: "(255 :: nat) = mask 8" by (simp add: mask_eq_exp_minus_1)
  show ?thesis by (simp only: e take_bit_eq_mask [symmetric] take_bit_eq_mod) simp
qed

lemma bit_int_byte_mask: "bit (0xff :: int) n \<longleftrightarrow> n < 8"
proof -
  have e: "(0xff::int) = mask 8" by (simp add: mask_eq_exp_minus_1)
  show ?thesis by (simp only: e bit_simps) auto
qed

lemma byte_and_ff [simp]: "(b :: byte) AND 0xff = b"
  by (rule bit_word_eqI) (auto simp: bit_simps bit_int_byte_mask)

lemma byte_ff_and [simp]: "0xff AND (b :: byte) = b"
  by (simp only: and.commute [of "0xff"] byte_and_ff)

lemma mod_4096_256: "(n :: nat) mod 4096 = 0 \<Longrightarrow> n mod 256 = 0"
  using mod_mod_cancel [of 256 4096 n] by simp

lemma block_fits:
  assumes "n < N" and "N mod k = (0 :: nat)"
  shows "n div k * k + k \<le> N"
proof -
  from assms(2) obtain q where q: "N = q * k" by (metis mod_0_imp_dvd dvdE mult.commute)
  with assms(1) have "n div k < q" by (simp add: less_mult_imp_div_less)
  then have "Suc (n div k) * k \<le> q * k" by (intro mult_le_mono1) simp
  then show ?thesis by (simp add: q)
qed

lemma mod_lt_4096 [simp]: "(p :: nat) mod 4096 < 4096"
  by simp

section \<open>Little-endian fields\<close>

fun le_bytes :: "nat \<Rightarrow> nat \<Rightarrow> byte list" where
  "le_bytes 0 v = []"
| "le_bytes (Suc n) v = of_nat v # le_bytes n (v div 256)"

fun le_value :: "byte list \<Rightarrow> nat" where
  "le_value [] = 0"
| "le_value (b # bs) = unat b + 256 * le_value bs"

lemma length_le_bytes [simp]: "length (le_bytes n v) = n"
  by (induction n arbitrary: v) simp_all

lemma unat_byte_of_nat: "unat (of_nat v :: byte) = v mod 256"
  by (simp add: unat_of_nat)

lemma le_value_le_bytes: "le_value (le_bytes n v) = v mod 256 ^ n"
proof (induction n arbitrary: v)
  case 0
  show ?case by simp
next
  case (Suc n)
  have "v mod (256 * 256 ^ n) = 256 * (v div 256 mod 256 ^ n) + v mod 256"
    by (rule mod_mult2_eq)
  then show ?case by (simp add: Suc unat_byte_of_nat)
qed

lemma le_value_le_bytes_id: "v < 256 ^ n \<Longrightarrow> le_value (le_bytes n v) = v"
  by (simp add: le_value_le_bytes)

lemma le_value_less: "le_value bs < 256 ^ length bs"
proof (induction bs)
  case Nil
  show ?case by simp
next
  case (Cons b bs)
  have "unat b < 256" using unsigned_less [of b] by simp
  with Cons show ?case by simp
qed

lemma byte_256: "(256 :: byte) = 0"
  by simp

lemma le_bytes_le_value: "le_bytes (length bs) (le_value bs) = bs"
proof (induction bs)
  case Nil
  show ?case by simp
next
  case (Cons b bs)
  have b: "unat b < 256" using unsigned_less [of b] by simp
  have "(of_nat (unat b + 256 * le_value bs) :: byte) = b"
    by (simp add: byte_256)
  with b Cons show ?case by simp
qed

end
