(* ===== verification/Crc.thy ===== *)
theory Crc
  imports Prelude
begin

text \<open>
  The 5-bit CRC of \<^verbatim>\<open>include/crc.h\<close> and \<^verbatim>\<open>crc_update\<close> of \<^verbatim>\<open>ring_buffer.c\<close>.
  \<^verbatim>\<open>crc_t\<close> is \<^verbatim>\<open>uint_fast8_t\<close>, whose width the C standard leaves open; the
  definitions are polymorphic in it and \<open>crc_width_independent\<close> shows that the width is
  not observable.
\<close>

section \<open>Definitions\<close>

definition crc_init :: "'a::len word" where
  "crc_init = 0x1f"

definition crc_finalize :: "'a::len word \<Rightarrow> 'a word" where
  "crc_finalize crc = crc XOR 0x1f"

text \<open>One round of the inner loop; \<open>i\<close> is the mask of the bit it consumes.\<close>

definition crc_round :: "byte \<Rightarrow> 'a::len word \<Rightarrow> byte \<Rightarrow> 'a word" where
  "crc_round c crc i =
     (let bit = (crc AND 0x10) XOR (if c AND i \<noteq> 0 then 0x10 else 0);
          crc' = push_bit 1 crc
      in if bit \<noteq> 0 then crc' XOR 0x05 else crc')"

text \<open>The masks \<open>i = 0x01; i & 0xff; i <<= 1\<close> runs through.\<close>

definition crc_masks :: "byte list" where
  "crc_masks = [0x01, 0x02, 0x04, 0x08, 0x10, 0x20, 0x40, 0x80]"

definition crc_byte :: "'a::len word \<Rightarrow> byte \<Rightarrow> 'a word" where
  "crc_byte crc c = foldl (crc_round c) crc crc_masks AND 0x1f"

definition crc_update :: "'a::len word \<Rightarrow> byte list \<Rightarrow> 'a word" where
  "crc_update crc data = foldl crc_byte crc data AND 0x1f"

text \<open>The sequence \<open>crc_init\<close>, \<open>crc_update\<close>, \<open>crc_finalize\<close> every caller makes.\<close>

definition crc_of :: "byte list \<Rightarrow> 'a::len word" where
  "crc_of data = crc_finalize (crc_update crc_init data)"

section \<open>Range and width independence\<close>

text \<open>Two words of any widths that agree on the five bits of the CRC.\<close>

definition same_low5 :: "'a::len word \<Rightarrow> 'b::len word \<Rightarrow> bool" where
  "same_low5 x y \<longleftrightarrow> (\<forall>n<5. bit x n = bit y n)"

lemma bit_int_16: "bit (16::int) n \<longleftrightarrow> n = 4"
proof -
  have e: "(16::int) = push_bit 4 1" by (simp add: push_bit_eq_mult)
  show ?thesis by (simp only: e bit_simps) auto
qed
lemma bit_int_31: "bit (31::int) n \<longleftrightarrow> n < 5"
proof -
  have e: "(31::int) = mask 5" by (simp add: mask_eq_exp_minus_1)
  show ?thesis by (simp only: e bit_simps) auto
qed
lemma bit_int_5: "bit (5::int) n \<longleftrightarrow> n = 0 \<or> n = 2"
proof -
  have e: "(5::int) = set_bit 2 1" by (simp add: set_bit_eq_or push_bit_eq_mult)
  show ?thesis by (simp only: e bit_simps) auto
qed
lemma crc_feedback: "5 \<le> LENGTH('a) \<Longrightarrow> ((x::'a::len word) AND 0x10) XOR (if t then 0x10 else 0) \<noteq> 0 \<longleftrightarrow> bit x 4 \<noteq> t"
proof -
  assume l: "5 \<le> LENGTH('a)"
  have "x AND 0x10 = (if bit x 4 then 0x10 else 0)"
    by (rule bit_word_eqI) (auto simp: bit_simps bit_int_16)
  moreover have "bit (0x10 :: 'a word) 4" using l by (simp add: bit_int_16)
  then have "(0x10 :: 'a word) \<noteq> 0" by (metis bit_0_eq bot_apply bot_bool_def)
  ultimately show ?thesis by simp
qed
lemma crc_round_bit:
  assumes "5 \<le> LENGTH('a)" and "n < 5"
  shows "bit (crc_round c (x :: 'a::len word) i) n \<longleftrightarrow>
     (0 < n \<and> bit x (n - 1)) \<noteq> (bit x 4 \<noteq> (c AND i \<noteq> 0) \<and> (n = 0 \<or> n = 2))"
proof -
  have p: "bit (push_bit 1 x) n \<longleftrightarrow> 0 < n \<and> bit x (n - 1)"
     using assms by (auto simp only: bit_simps possible_bit_word)
  show ?thesis
  using assms p unfolding crc_round_def Let_def crc_feedback [OF assms(1)] 
  by (auto simp: bit_simps bit_int_5)
qed
lemma same_low5_round:
  assumes "5 \<le> LENGTH('a)" and "5 \<le> LENGTH('b)"
    and "same_low5 (x :: 'a::len word) (y :: 'b::len word)"
  shows "same_low5 (crc_round c x i) (crc_round c y i)"
  using assms by (simp add: same_low5_def crc_round_bit)
lemma same_low5_mask:
  "same_low5 (x :: 'a::len word) (y :: 'b::len word) \<Longrightarrow> 5 \<le> LENGTH('a) \<Longrightarrow> 5 \<le> LENGTH('b) \<Longrightarrow> same_low5 (x AND 0x1f) (y AND 0x1f)"
  by (auto simp: same_low5_def bit_simps bit_int_31)

lemma same_low5_byte:
  assumes "5 \<le> LENGTH('a)" and "5 \<le> LENGTH('b)"
    and "same_low5 (x :: 'a::len word) (y :: 'b::len word)"
  shows "same_low5 (crc_byte x c) (crc_byte y c)"
proof -
  have "same_low5 (foldl (crc_round c) x ms) (foldl (crc_round c) y ms)" for ms
    using assms(3)
    by (induction ms arbitrary: x y) (auto intro: same_low5_round [OF assms(1,2)])
  then show ?thesis
    unfolding crc_byte_def by (rule same_low5_mask [OF _ assms(1,2)])
qed

lemma same_low5_update:
  assumes "5 \<le> LENGTH('a)" and "5 \<le> LENGTH('b)"
    and "same_low5 (x :: 'a::len word) (y :: 'b::len word)"
  shows "same_low5 (crc_update x ds) (crc_update y ds)"
proof -
  have "same_low5 (foldl crc_byte x ds) (foldl crc_byte y ds)"
    using assms(3)
    by (induction ds arbitrary: x y) (auto intro: same_low5_byte [OF assms(1,2)])
  then show ?thesis
    unfolding crc_update_def by (rule same_low5_mask [OF _ assms(1,2)])
qed

lemma bit_crc_of: "bit (crc_of ds :: 'a::len word) n \<Longrightarrow> n < 5"
  by (auto simp: crc_of_def crc_finalize_def crc_update_def bit_simps bit_int_31)

lemma crc_of_mask [simp]: "crc_of ds AND (0x1f :: 'a::len word) = crc_of ds"
  by (rule bit_word_eqI) (auto simp: bit_simps bit_int_31 dest: bit_crc_of)

lemma crc_of_same_low5:
  assumes "5 \<le> LENGTH('a)" and "5 \<le> LENGTH('b)"
  shows "same_low5 (crc_of ds :: 'a::len word) (crc_of ds :: 'b::len word)"
proof -
  have "same_low5 (crc_update crc_init ds :: 'a word) (crc_update crc_init ds :: 'b word)"
    by (rule same_low5_update) (use assms in \<open>auto simp: same_low5_def crc_init_def bit_simps bit_int_31\<close>)
  with assms show ?thesis
    by (auto simp: same_low5_def crc_of_def crc_finalize_def bit_simps bit_int_31)
qed

lemma crc_of_less: "unat (crc_of ds :: 'a::len word) < 32"
proof -
  have "unat (crc_of ds :: 'a word) = take_bit 5 (unat (crc_of ds :: 'a word))"
    by (rule bit_eqI) (auto simp: bit_simps dest: bit_crc_of)
  also have "\<dots> < 2 ^ 5" by (rule take_bit_nat_less_exp)
  finally show ?thesis by simp
qed
section \<open>Properties\<close>

text \<open>
  The check value a caller computes does not depend on the width the platform chooses for
  \<^verbatim>\<open>uint_fast8_t\<close>, as long as it has the eight bits C guarantees.
\<close>

theorem crc_width_independent:
  assumes "8 \<le> LENGTH('a)" and "8 \<le> LENGTH('b)"
  shows "unat (crc_of ds :: 'a::len word) = unat (crc_of ds :: 'b::len word)"
proof (rule bit_eqI)
  fix n
  have s: "same_low5 (crc_of ds :: 'a word) (crc_of ds :: 'b word)"
    by (rule crc_of_same_low5) (use assms in simp_all)
  then show "bit (unat (crc_of ds :: 'a word)) n = bit (unat (crc_of ds :: 'b word)) n"
    by (cases "n < 5") (auto simp: same_low5_def bit_simps dest: bit_crc_of)
qed

theorem crc_width_independent_witness:
  "unat (crc_of [1, 2, 3] :: 8 word) = unat (crc_of [1, 2, 3] :: 32 word)"
  by (rule crc_width_independent) simp_all

end
