(* ===== verification/Flash_Onboard.thy ===== *)
theory Flash_Onboard
  imports Prelude
begin

text \<open>
  The flash driver \<^verbatim>\<open>flash_onboard.c\<close>. The SDK calls it makes and the memory-mapped window
  it reads are not part of the repository; they are the fields of a record \<open>flash_dev\<close> that
  every operation takes as an argument. The locale \<open>nor_flash\<close> states what the SDK documents
  of them; \<open>nor_array\<close> is a device that satisfies it.
\<close>

section \<open>The device\<close>

abbreviation FLASH_PAGE_SIZE :: nat where "FLASH_PAGE_SIZE \<equiv> 256"
abbreviation FLASH_SECTOR_SIZE :: nat where "FLASH_SECTOR_SIZE \<equiv> 4096"
abbreviation PICO_FLASH_SIZE_BYTES :: nat where "PICO_FLASH_SIZE_BYTES \<equiv> 2097152"

text \<open>
  \<open>flash_range_program\<close> takes the flash offset and the bytes, \<open>flash_range_erase\<close> the offset
  and the count, and \<open>xip\<close> is the byte at a flash offset as the memory-mapped window
  \<^verbatim>\<open>XIP_NOCACHE_NOALLOC_BASE\<close> shows it.
\<close>

record 'd flash_dev =
  flash_range_program :: "nat \<Rightarrow> byte list \<Rightarrow> 'd \<Rightarrow> 'd"
  flash_range_erase :: "nat \<Rightarrow> nat \<Rightarrow> 'd \<Rightarrow> 'd"
  xip :: "'d \<Rightarrow> nat \<Rightarrow> byte"

section \<open>flash\_onboard.c\<close>

text \<open>The interrupt masking around the SDK calls has no effect on the bytes.\<close>

definition flash_read :: "'d flash_dev \<Rightarrow> 'd \<Rightarrow> nat \<Rightarrow> nat \<Rightarrow> byte list" where
  "flash_read dev d address sz = take_view sz (advance (xip dev d) address)"

definition flash_prog :: "'d flash_dev \<Rightarrow> nat \<Rightarrow> byte list \<Rightarrow> 'd \<Rightarrow> 'd" where
  "flash_prog dev address buffer d = flash_range_program dev address buffer d"

definition flash_erase :: "'d flash_dev \<Rightarrow> nat \<Rightarrow> nat \<Rightarrow> 'd \<Rightarrow> 'd" where
  "flash_erase dev address sz d = flash_range_erase dev address sz d"

lemma length_flash_read [simp]: "length (flash_read dev d a n) = n"
  by (simp add: flash_read_def)

lemma nth_flash_read [simp]: "i < n \<Longrightarrow> flash_read dev d a n ! i = xip dev d (a + i)"
  by (simp add: flash_read_def)

lemma flash_read_cong:
  "(\<And>i. i < n \<Longrightarrow> xip dev d (a + i) = xip dev d' (a + i)) \<Longrightarrow> flash_read dev d a n = flash_read dev d' a n"
  by (simp add: flash_read_def take_view_eq_iff)

section \<open>What the SDK documents of a NOR flash\<close>

text \<open>
  Programming whole pages clears bits and never sets one; erasing whole sectors sets every bit.
  Neither touches a byte outside its range.
\<close>

locale nor_flash =
  fixes dev :: "'d flash_dev"
  assumes program_spec:
    "a mod FLASH_PAGE_SIZE = 0 \<Longrightarrow> length bs mod FLASH_PAGE_SIZE = 0 \<Longrightarrow>
     a + length bs \<le> PICO_FLASH_SIZE_BYTES \<Longrightarrow> x < PICO_FLASH_SIZE_BYTES \<Longrightarrow>
     xip dev (flash_range_program dev a bs d) x =
       (if a \<le> x \<and> x < a + length bs then xip dev d x AND bs ! (x - a) else xip dev d x)"
  assumes erase_spec:
    "a mod FLASH_SECTOR_SIZE = 0 \<Longrightarrow> n mod FLASH_SECTOR_SIZE = 0 \<Longrightarrow>
     a + n \<le> PICO_FLASH_SIZE_BYTES \<Longrightarrow> x < PICO_FLASH_SIZE_BYTES \<Longrightarrow>
     xip dev (flash_range_erase dev a n d) x =
       (if a \<le> x \<and> x < a + n then 0xff else xip dev d x)"
begin

text \<open>Programming 0xff leaves a byte as it is, programming an erased byte stores the value.\<close>

lemma prog_byte [flash_simps]:
  assumes "a mod FLASH_PAGE_SIZE = 0" and "a + FLASH_PAGE_SIZE \<le> PICO_FLASH_SIZE_BYTES"
    and "x < PICO_FLASH_SIZE_BYTES"
  shows "xip dev (flash_prog dev a (take_view FLASH_PAGE_SIZE p) d) x =
    (if a \<le> x \<and> x < a + FLASH_PAGE_SIZE then xip dev d x AND p (x - a) else xip dev d x)"
  using assms by (auto simp: flash_prog_def program_spec)

lemma erase_byte [flash_simps]:
  assumes "a mod FLASH_SECTOR_SIZE = 0" and "n mod FLASH_SECTOR_SIZE = 0"
    and "a + n \<le> PICO_FLASH_SIZE_BYTES" and "x < PICO_FLASH_SIZE_BYTES"
  shows "xip dev (flash_erase dev a n d) x = (if a \<le> x \<and> x < a + n then 0xff else xip dev d x)"
  using assms by (simp add: flash_erase_def erase_spec)

end

section \<open>A device that satisfies the contract\<close>

definition nor_array :: "(nat \<Rightarrow> byte) flash_dev" where
  "nor_array =
     \<lparr> flash_range_program = (\<lambda>a bs m x.
         if a \<le> x \<and> x < a + length bs then m x AND bs ! (x - a) else m x),
       flash_range_erase = (\<lambda>a n m x. if a \<le> x \<and> x < a + n then 0xff else m x),
       xip = (\<lambda>m. m) \<rparr>"

interpretation nor_array: nor_flash nor_array
  by unfold_locales (simp_all add: nor_array_def)

end
