(* ===== verification/Ring_Header.thy ===== *)
theory Ring_Header
  imports Crc Flash_Onboard
begin

text \<open>
  The two on-flash headers of \<^verbatim>\<open>ring_buffer.c\<close> and \<^verbatim>\<open>include/ring_buffer.h\<close>: the record
  header (length, id, CRC and flag bits) and the sector header (24-bit index and CRC), their
  byte layout, how they are made and how they are checked.
\<close>

section \<open>Constants\<close>

abbreviation RB_OK :: int where "RB_OK \<equiv> 0"
abbreviation RB_BAD_CALLER_DATA :: int where "RB_BAD_CALLER_DATA \<equiv> - 1"
abbreviation RB_BLANK_HDR :: int where "RB_BLANK_HDR \<equiv> - 3"
abbreviation RB_BAD_HDR :: int where "RB_BAD_HDR \<equiv> - 4"
abbreviation RB_WRAPPED_SECTOR_USED :: int where "RB_WRAPPED_SECTOR_USED \<equiv> - 5"
abbreviation RB_HDR_LOOP :: int where "RB_HDR_LOOP \<equiv> - 6"
abbreviation RB_HDR_ID_NOT_FOUND :: int where "RB_HDR_ID_NOT_FOUND \<equiv> - 7"
abbreviation RB_FULL :: int where "RB_FULL \<equiv> - 8"

abbreviation RB_HEADER_SPLIT :: byte where "RB_HEADER_SPLIT \<equiv> 0x80"
abbreviation RB_HEADER_NOT_SMUDGED :: byte where "RB_HEADER_NOT_SMUDGED \<equiv> 0x40"
abbreviation RB_HEADER_UNUSED :: byte where "RB_HEADER_UNUSED \<equiv> 0x20"

abbreviation RB_INDEX_MASK :: "32 word" where "RB_INDEX_MASK \<equiv> 0xffffff"
abbreviation RB_MAX_LEN_VALUE :: nat where "RB_MAX_LEN_VALUE \<equiv> 65535"

text \<open>\<^verbatim>\<open>sizeof(rb_header)\<close> and \<^verbatim>\<open>sizeof(rb_sector_header)\<close> are both 4.\<close>

abbreviation HEADER_SIZE :: nat where "HEADER_SIZE \<equiv> 4"
abbreviation RB_MAX_APPEND_SIZE :: nat where "RB_MAX_APPEND_SIZE \<equiv> FLASH_SECTOR_SIZE - 4 - 4"

text \<open>The linker script reserves 16k at the end of flash.\<close>

abbreviation PERSISTENT_LEN :: nat where "PERSISTENT_LEN \<equiv> 16384"

section \<open>Record headers\<close>

text \<open>\<open>len\<close> is a \<^verbatim>\<open>uint16_t\<close>; the struct is stored little endian.\<close>

record rb_header =
  hlen :: nat
  hid :: byte
  hcrc :: byte

definition hdr_bytes :: "rb_header \<Rightarrow> byte list" where
  "hdr_bytes h = le_bytes 2 (hlen h) @ [hid h, hcrc h]"

definition hdr_of_bytes :: "byte list \<Rightarrow> rb_header" where
  "hdr_of_bytes bs = \<lparr> hlen = le_value (take 2 bs), hid = bs ! 2, hcrc = bs ! 3 \<rparr>"

definition is_crc_good :: "rb_header \<Rightarrow> int" where
  "is_crc_good rbh =
     (if hcrc rbh AND NOT (RB_HEADER_SPLIT OR RB_HEADER_NOT_SMUDGED OR RB_HEADER_UNUSED)
         \<noteq> crc_of (take 3 (hdr_bytes rbh))
      then RB_BAD_HDR else RB_OK)"

definition is_header_good :: "rb_header \<Rightarrow> int" where
  "is_header_good rbh =
     (if hid rbh = 0xff \<and> hcrc rbh = 0xff \<and> hlen rbh = RB_MAX_LEN_VALUE then RB_BLANK_HDR
      else if hid rbh = 0xff \<or> hlen rbh = 0 \<or> hlen rbh > PERSISTENT_LEN then RB_BAD_HDR
      else is_crc_good rbh)"

text \<open>The result and the header as the call leaves it.\<close>

definition make_header :: "rb_header \<Rightarrow> byte \<Rightarrow> nat \<Rightarrow> int \<times> rb_header" where
  "make_header rbh i sz =
     (if sz = 0 \<or> i = 0xff then (RB_BAD_CALLER_DATA, rbh)
      else let h = rbh\<lparr> hid := i, hlen := sz mod 2 ^ 16 \<rparr>
           in (RB_OK, h\<lparr> hcrc := crc_of (take 3 (hdr_bytes h)) \<rparr>))"

section \<open>Sector headers\<close>

record rb_sector_header =
  header :: "32 word"

definition shdr_bytes :: "rb_sector_header \<Rightarrow> byte list" where
  "shdr_bytes p = le_bytes 4 (unat (header p))"

definition shdr_of_bytes :: "byte list \<Rightarrow> rb_sector_header" where
  "shdr_of_bytes bs = \<lparr> header = of_nat (le_value (take 4 bs)) \<rparr>"

definition get_crc :: "rb_sector_header \<Rightarrow> 32 word" where
  "get_crc p = header p AND 0xff"

definition set_index :: "rb_sector_header \<Rightarrow> 32 word \<Rightarrow> rb_sector_header" where
  "set_index p n = p\<lparr> header := push_bit 8 (n AND RB_INDEX_MASK) OR get_crc p \<rparr>"

definition get_index :: "rb_sector_header \<Rightarrow> 32 word" where
  "get_index p = drop_bit 8 (header p)"

definition set_crc :: "rb_sector_header \<Rightarrow> 32 word \<Rightarrow> rb_sector_header" where
  "set_crc p n = p\<lparr> header := push_bit 8 (get_index p) OR (n AND 0xff) \<rparr>"

definition is_sector_header_good :: "rb_sector_header \<Rightarrow> int" where
  "is_sector_header_good shdr =
     (if sint (header shdr) = - 1 then RB_BLANK_HDR
      else if crc_of (le_bytes 4 (unat (get_index shdr))) = get_crc shdr then RB_OK
      else RB_BAD_HDR)"

text \<open>
  \<^verbatim>\<open>make_sector_header\<close> increments \<^verbatim>\<open>rb->sector_index\<close> and builds the header for the new
  value; the pair is the header and the new index.
\<close>

definition make_sector_header :: "32 word \<Rightarrow> rb_sector_header \<times> 32 word" where
  "make_sector_header sector_index =
     (let n = sector_index + 1;
          s = set_index \<lparr> header = 0 \<rparr> n
      in (set_crc s (crc_of (le_bytes 4 (unat (get_index s)))), n))"

section \<open>Byte layout\<close>

lemma length_hdr_bytes [simp]: "length (hdr_bytes h) = 4"
  by (simp add: hdr_bytes_def)

lemma length_shdr_bytes [simp]: "length (shdr_bytes h) = 4"
  by (simp add: shdr_bytes_def)

lemma hdr_of_bytes_hdr_bytes: "hlen h < 2 ^ 16 \<Longrightarrow> hdr_of_bytes (hdr_bytes h) = h"
proof -
  assume "hlen h < 2 ^ 16"
  then have "le_value (le_bytes 2 (hlen h)) = hlen h" by (simp add: le_value_le_bytes_id)
  then show ?thesis by (simp add: hdr_of_bytes_def hdr_bytes_def nth_append)
qed

lemma hdr_bytes_hdr_of_bytes:
  assumes "length bs = 4"
  shows "hdr_bytes (hdr_of_bytes bs) = bs"
proof -
  have "bs = take 2 bs @ [bs ! 2, bs ! 3]"
    by (rule nth_equalityI) (use assms in \<open>auto simp: nth_append less_Suc_eq numeral_eq_Suc\<close>)
  moreover have "le_bytes 2 (le_value (take 2 bs)) = take 2 bs"
    using le_bytes_le_value [of "take 2 bs"] assms by simp
  ultimately show ?thesis
    by (simp add: hdr_bytes_def hdr_of_bytes_def)
qed

lemma shdr_of_bytes_shdr_bytes: "shdr_of_bytes (shdr_bytes p) = p"
proof -
  have "unat (header p) < 256 ^ 4"
    using unsigned_less [of "header p", where 'a = nat] by simp
  then show ?thesis by (simp add: shdr_of_bytes_def shdr_bytes_def le_value_le_bytes_id)
qed

lemma take3_hdr_bytes: "take 3 (hdr_bytes h) = le_bytes 2 (hlen h) @ [hid h]"
  by (simp add: hdr_bytes_def)

lemma crc_mask_eq: "NOT (RB_HEADER_SPLIT OR RB_HEADER_NOT_SMUDGED OR RB_HEADER_UNUSED) = 0x1f"
  by simp

lemma is_crc_good_iff:
  "is_crc_good h = RB_OK \<longleftrightarrow> hcrc h AND 0x1f = crc_of (le_bytes 2 (hlen h) @ [hid h])"
  by (simp only: is_crc_good_def take3_hdr_bytes crc_mask_eq) simp

lemma crc_or_flags:
  assumes "f AND 0x1f = (0 :: byte)"
  shows "(crc_of ds OR f) AND 0x1f = (crc_of ds :: byte)"
  using assms by (simp add: bit.conj_disj_distrib2)

lemma make_header_good:
  assumes "0 < sz" "sz \<le> PERSISTENT_LEN" "i \<noteq> 0xff" "f AND 0x1f = 0"
    and "make_header h i sz = (res, h')"
  shows "res = RB_OK" "hlen h' = sz" "hid h' = i" "is_header_good (h'\<lparr>hcrc := hcrc h' OR f\<rparr>) = RB_OK"
  using assms by (auto simp: make_header_def Let_def is_header_good_def is_crc_good_iff crc_or_flags take3_hdr_bytes)

lemma bit_int_index_mask: "bit (0xffffff :: int) n \<longleftrightarrow> n < 24"
proof -
  have e: "(0xffffff::int) = mask 24" by (simp add: mask_eq_exp_minus_1)
  show ?thesis by (simp only: e bit_simps) auto
qed

lemma get_index_set: "get_index (set_crc (set_index p n) c) = n AND RB_INDEX_MASK"
  by (rule bit_word_eqI)
     (auto simp: get_index_def set_crc_def set_index_def get_crc_def bit_simps bit_int_index_mask bit_int_byte_mask)

lemma get_crc_set: "get_crc (set_crc p c) = c AND 0xff"
  by (rule bit_word_eqI)
     (auto simp: get_index_def set_crc_def get_crc_def bit_simps bit_int_byte_mask)

lemma get_index_set_crc: "get_index (set_crc p c) = get_index p"
  by (rule bit_word_eqI)
     (auto simp: get_index_def set_crc_def get_crc_def bit_simps bit_int_byte_mask dest: bit_imp_le_length)

lemma crc_of_byte_mask: "crc_of ds AND (0xff :: 'a::len word) = crc_of ds"
  by (rule bit_word_eqI) (auto simp: bit_simps bit_int_byte_mask dest: bit_crc_of)

lemma sector_header_blank_iff: "sint (header p) = - 1 \<longleftrightarrow> header p = - 1"
proof -
  have "sint (header p) = - 1 \<longleftrightarrow> sint (header p) = sint (- 1 :: 32 word)" by simp
  also have "\<dots> \<longleftrightarrow> header p = - 1" by (rule word_eq_iff_signed [symmetric])
  finally show ?thesis by simp
qed

lemma make_sector_header_good:
  assumes "make_sector_header n = (p, n')"
  shows "n' = n + 1" "get_index p = (n + 1) AND RB_INDEX_MASK" "is_sector_header_good p = RB_OK"
proof -
  let ?s = "set_index \<lparr>header = 0\<rparr> (n + 1)"
  have p: "p = set_crc ?s (crc_of (le_bytes 4 (unat (get_index ?s))))" and "n' = n + 1"
    using assms by (auto simp: make_sector_header_def Let_def)
  then show "n' = n + 1" and "get_index p = (n + 1) AND RB_INDEX_MASK"
    by (simp_all add: get_index_set)
  have c: "get_crc p = crc_of (le_bytes 4 (unat (get_index p)))"
    by (simp add: p get_crc_set get_index_set_crc crc_of_byte_mask)
  have "bit (get_crc p) 7 = False"
    unfolding c by (auto dest: bit_crc_of)
  then have "header p \<noteq> - 1"
    by (auto simp: get_crc_def)
  with c show "is_sector_header_good p = RB_OK"
    by (simp add: is_sector_header_good_def sector_header_blank_iff)
qed

lemma bit_int_flag_mask: "bit (0xe0 :: int) n \<longleftrightarrow> n = 5 \<or> n = 6 \<or> n = 7"
proof -
  have e: "(0xe0::int) = set_bit 5 (set_bit 6 (set_bit 7 0))"
    by (simp add: set_bit_eq_or push_bit_eq_mult)
  show ?thesis by (simp only: e bit_simps) auto
qed

lemma crc_or_flag_bits: "((crc_of ds :: byte) OR f) AND 0xe0 = f AND 0xe0"
  by (rule bit_word_eqI) (auto simp: bit_simps bit_int_flag_mask dest: bit_crc_of)

lemma blank_hdr_of_bytes: "is_header_good (hdr_of_bytes [0xff, 0xff, 0xff, 0xff]) = RB_BLANK_HDR"
  by (simp add: is_header_good_def hdr_of_bytes_def)

lemma blank_shdr_of_bytes: "is_sector_header_good (shdr_of_bytes [0xff, 0xff, 0xff, 0xff]) = RB_BLANK_HDR"
  by (simp add: is_sector_header_good_def shdr_of_bytes_def)

lemma is_sector_header_good_cases: "is_sector_header_good s \<in> {RB_OK, RB_BLANK_HDR, RB_BAD_HDR}"
  by (simp add: is_sector_header_good_def)

lemma is_header_good_cases: "is_header_good s \<in> {RB_OK, RB_BLANK_HDR, RB_BAD_HDR}"
  by (simp add: is_header_good_def is_crc_good_def)

lemma is_header_good_OK:
  "is_header_good h = RB_OK \<longleftrightarrow> hid h \<noteq> 0xff \<and> 0 < hlen h \<and> hlen h \<le> PERSISTENT_LEN \<and>
     hcrc h AND 0x1f = crc_of (le_bytes 2 (hlen h) @ [hid h])"
  by (auto simp: is_header_good_def is_crc_good_iff)

lemma is_header_good_smudge:
  "is_header_good h = RB_OK \<Longrightarrow> is_header_good (h\<lparr>hcrc := hcrc h AND NOT RB_HEADER_NOT_SMUDGED\<rparr>) = RB_OK"
proof -
  have "(hcrc h AND NOT RB_HEADER_NOT_SMUDGED) AND 0x1f = hcrc h AND 0x1f"
    by (simp add: and.assoc)
  then show "is_header_good h = RB_OK \<Longrightarrow> ?thesis" by (simp only: is_header_good_OK) simp
qed

section \<open>Properties\<close>

text \<open>
  C22. A record header built by \<^verbatim>\<open>make_header\<close> for a legal id and a length the ring accepts,
  with any of the three flag bits set, reads back from its four bytes as it was written and is
  accepted by \<^verbatim>\<open>is_header_good\<close> with that length and id.
\<close>

theorem record_header_roundtrip:
  assumes "0 < sz" "sz \<le> PERSISTENT_LEN" "i \<noteq> 0xff" "f AND 0x1f = 0"
    and "make_header h0 i sz = (res, h)"
    and "w = h\<lparr>hcrc := hcrc h OR f\<rparr>"
  shows "res = RB_OK \<and> hdr_of_bytes (hdr_bytes w) = w \<and> is_header_good w = RB_OK \<and>
     hlen w = sz \<and> hid w = i \<and> hcrc w AND 0xe0 = f"
proof -
  note g = make_header_good [OF assms(1-5)]
  have c: "hcrc h = crc_of (take 3 (hdr_bytes (h0\<lparr>hid := i, hlen := sz mod 2 ^ 16\<rparr>)))"
    using assms(1,3,5) by (auto simp: make_header_def Let_def)
  have "f AND 0xe0 = f"
  proof (rule bit_word_eqI)
    fix n assume n: "n < LENGTH(8)"
    have "\<not> bit f n" if "n < 5"
    proof -
      from that have "bit (f AND 0x1f) n = bit f n" by (simp add: bit_simps bit_int_31)
      with assms(4) show ?thesis by simp
    qed
    moreover have "n < 5 \<or> n = 5 \<or> n = 6 \<or> n = 7" using n by auto
    ultimately show "bit (f AND 0xe0) n = bit f n"
      by (auto simp: bit_simps bit_int_flag_mask)
  qed
  with g assms(2,6) show ?thesis
    by (simp add: hdr_of_bytes_hdr_bytes c crc_or_flag_bits)
qed

theorem record_header_roundtrip_witness:
  "is_header_good (\<lparr>hlen = 7, hid = 1, hcrc = crc_of (take 3 (hdr_bytes \<lparr>hlen = 7, hid = 1, hcrc = 0\<rparr>)) OR 0x40\<rparr>) = RB_OK"
proof -
  let ?h0 = "\<lparr>hlen = 0, hid = 0, hcrc = 0\<rparr>"
  obtain res h where m: "make_header ?h0 1 7 = (res, h)" by fastforce
  from record_header_roundtrip [OF _ _ _ _ m, of "0x40"]
  have "is_header_good (h\<lparr>hcrc := hcrc h OR 0x40\<rparr>) = RB_OK" by simp
  moreover have "h = \<lparr>hlen = 7, hid = 1, hcrc = crc_of (take 3 (hdr_bytes \<lparr>hlen = 7, hid = 1, hcrc = 0\<rparr>))\<rparr>"
    using m by (auto simp: make_header_def Let_def)
  ultimately show ?thesis by simp
qed

text \<open>
  A sector header built by \<^verbatim>\<open>make_sector_header\<close> reads back from its four bytes as it was
  written, is accepted by \<^verbatim>\<open>is_sector_header_good\<close> and carries the incremented sector index,
  exactly while that index fits in 24 bits.
\<close>

theorem sector_header_roundtrip:
  assumes "make_sector_header n = (p, n')"
  shows "shdr_of_bytes (shdr_bytes p) = p \<and> is_sector_header_good p = RB_OK \<and> n' = n + 1 \<and>
     (get_index p = n' \<longleftrightarrow> n' < 2 ^ 24)"
proof -
  note g = make_sector_header_good [OF assms]
  have "n' AND RB_INDEX_MASK = n' \<longleftrightarrow> n' < 2 ^ 24"
    using mask_eq_iff [of n' 24] by (simp add: mask_eq_exp_minus_1 word_less_def)
  with g show ?thesis by (simp add: shdr_of_bytes_shdr_bytes)
qed

theorem sector_header_roundtrip_witness:
  "is_sector_header_good (fst (make_sector_header 41)) = RB_OK \<and>
   get_index (fst (make_sector_header 41)) = 42"
proof -
  obtain p n' where m: "make_sector_header 41 = (p, n')" by fastforce
  have "n' = 42" using make_sector_header_good(1) [OF m] by simp
  with sector_header_roundtrip [OF m] m show ?thesis by simp
qed

end
