(* ===== verification/Ring_Buffer.thy ===== *)
theory Ring_Buffer
  imports Ring_Header
begin

text \<open>
  The operations of \<^verbatim>\<open>ring_buffer.c\<close>, in the order of the source. Every operation takes the
  flash device and its content; an operation that programs or erases returns the new content.
  \<^typ>\<open>'a option\<close> is the type of what may not return: \<^term>\<open>None\<close> stands for a failed
  \<^verbatim>\<open>assert\<close> (the firmware panics) and for a loop that never ends. Result codes are C integers,
  because \<^verbatim>\<open>rb_read\<close> and \<^verbatim>\<open>rb_find\<close> return counts and offsets through the same type.
\<close>

section \<open>Addresses\<close>

definition MOD_MASK :: "nat \<Rightarrow> nat" where
  "MOD_MASK a = a - 1"

definition MOD_SECTOR :: "nat \<Rightarrow> nat" where
  "MOD_SECTOR a = a AND MOD_MASK FLASH_SECTOR_SIZE"

definition MOD_PAGE :: "nat \<Rightarrow> nat" where
  "MOD_PAGE a = a AND MOD_MASK FLASH_PAGE_SIZE"

definition FLASH_PAGE :: "nat \<Rightarrow> nat" where
  "FLASH_PAGE a = a div FLASH_PAGE_SIZE * FLASH_PAGE_SIZE"

definition FLASH_SECTOR :: "nat \<Rightarrow> nat" where
  "FLASH_SECTOR a = a div FLASH_SECTOR_SIZE * FLASH_SECTOR_SIZE"

lemma MOD_SECTOR_eq [simp]: "MOD_SECTOR a = a mod 4096"
  by (simp add: MOD_SECTOR_def MOD_MASK_def)

lemma MOD_PAGE_eq [simp]: "MOD_PAGE a = a mod 256"
  by (simp add: MOD_PAGE_def MOD_MASK_def)

abbreviation XIP_BASE :: nat where "XIP_BASE \<equiv> 0x10000000"

section \<open>The control block\<close>

text \<open>
  The \<^verbatim>\<open>uint32_t\<close> offsets are natural numbers below \<open>2 ^ 32\<close>; \<open>rb_page\<close> is the content of the
  page buffer the pointer names.
\<close>

record rb_t =
  base_address :: nat
  number_of_bytes :: nat
  next_offs :: nat
  last_wrote :: nat
  sector_index :: "32 word"
  rb_page :: view

datatype init_choices = CREATE_FAIL | CREATE_INIT_IF_FAIL | CREATE_INIT_ALWAYS

section \<open>Moving through the ring\<close>

definition rb_incr :: "nat \<Rightarrow> nat \<Rightarrow> nat \<Rightarrow> nat" where
  "rb_incr oldlen len maxlen =
     (let nextaddr =
        (if len > FLASH_SECTOR_SIZE then add32 (FLASH_SECTOR oldlen) FLASH_SECTOR_SIZE
         else if add32 (MOD_SECTOR oldlen) len > FLASH_SECTOR_SIZE - (HEADER_SIZE + 1)
           then add32 (FLASH_SECTOR oldlen) FLASH_SECTOR_SIZE
         else add32 oldlen len)
      in if nextaddr \<ge> maxlen then 0 else nextaddr)"

definition nextincr :: "rb_t \<Rightarrow> nat \<Rightarrow> rb_t" where
  "nextincr rb incr =
     (let n = add32 (next_offs rb) incr
      in if n \<ge> number_of_bytes rb then rb\<lparr> next_offs := 0 \<rparr> else rb\<lparr> next_offs := n \<rparr>)"

text \<open>The result code, the header as it was last read, and the control block.\<close>

definition fetch_and_check_header ::
    "'d flash_dev \<Rightarrow> 'd \<Rightarrow> rb_t \<Rightarrow> int \<Rightarrow> (int \<times> rb_header \<times> rb_t) option" where
  "fetch_and_check_header dev d rb jumpto =
     (let nextoffs = u32_of_int (int (next_offs rb) + jumpto) in
      if \<not> nextoffs < number_of_bytes rb then None
      else
        let bs = flash_read dev d (add32 (base_address rb) nextoffs) HEADER_SIZE in
        if MOD_SECTOR nextoffs = 0 then
          let t = is_sector_header_good (shdr_of_bytes bs) in
          if t \<noteq> RB_OK then Some (t, hdr_of_bytes bs, rb)
          else
            let rb' = rb\<lparr> next_offs := add32 (next_offs rb) HEADER_SIZE \<rparr>;
                h = hdr_of_bytes (flash_read dev d
                      (u32_of_int (int (base_address rb) + int (next_offs rb') + jumpto)) HEADER_SIZE)
            in Some (is_header_good h, h, rb')
        else Some (is_header_good (hdr_of_bytes bs), hdr_of_bytes bs, rb))"

fun count_blanks_from :: "view \<Rightarrow> byte \<Rightarrow> nat \<Rightarrow> nat \<Rightarrow> nat" where
  "count_blanks_from buffer val i 0 = i"
| "count_blanks_from buffer val i (Suc n) =
     (if buffer i \<noteq> val then i else count_blanks_from buffer val (Suc i) n)"

definition count_blanks :: "view \<Rightarrow> byte \<Rightarrow> nat \<Rightarrow> nat" where
  "count_blanks buffer val maxscan = count_blanks_from buffer val 0 maxscan"

definition sector_blank_scan :: "'d flash_dev \<Rightarrow> 'd \<Rightarrow> rb_t \<Rightarrow> nat" where
  "sector_blank_scan dev d rb =
     (let size_in_sector = FLASH_SECTOR_SIZE - MOD_SECTOR (next_offs rb);
          blanks = count_blanks (advance (xip dev d) (base_address rb + next_offs rb)) 0xff size_in_sector
      in if blanks = size_in_sector then
           let offs0 = add32 (FLASH_SECTOR (next_offs rb)) FLASH_SECTOR_SIZE;
               offs = (if offs0 \<ge> number_of_bytes rb then 0 else offs0);
               nextblanks = count_blanks (advance (xip dev d) (base_address rb + offs)) 0xff FLASH_SECTOR_SIZE
           in blanks + nextblanks
         else blanks)"

partial_function (option) findnext_loop ::
    "'d flash_dev \<Rightarrow> 'd \<Rightarrow> nat \<Rightarrow> rb_t \<Rightarrow> (int \<times> rb_t) option" where
  "findnext_loop dev d origrb rb =
     (let rb1 = (if MOD_SECTOR (next_offs rb) > FLASH_SECTOR_SIZE - HEADER_SIZE - 1
                 then nextincr rb (FLASH_SECTOR_SIZE - MOD_SECTOR (next_offs rb)) else rb)
      in do {
        (hdr_res, hdr, rb2) \<leftarrow> fetch_and_check_header dev d rb1 0;
        if hdr_res \<noteq> RB_OK then Some (hdr_res, rb2)
        else
          let rb3 = rb2\<lparr> next_offs := rb_incr (next_offs rb2) (hlen hdr + HEADER_SIZE) (number_of_bytes rb2) \<rparr>
          in if next_offs rb3 = origrb
             then Some (RB_HDR_LOOP, rb3\<lparr> next_offs := FLASH_SECTOR (next_offs rb3) \<rparr>)
             else findnext_loop dev d origrb rb3
      })"

definition rb_findnext_writeable :: "'d flash_dev \<Rightarrow> 'd \<Rightarrow> rb_t \<Rightarrow> (int \<times> rb_t) option" where
  "rb_findnext_writeable dev d rb =
     (if \<not> next_offs rb < number_of_bytes rb then None
      else findnext_loop dev d (next_offs rb) rb)"

section \<open>Sector bookkeeping\<close>

function oldest_loop ::
    "'d flash_dev \<Rightarrow> 'd \<Rightarrow> rb_t \<Rightarrow> nat \<Rightarrow> 32 word \<Rightarrow> int \<Rightarrow> int \<times> rb_t" where
  "oldest_loop dev d rb oldnext oldest_sector_number offs =
     (let rb1 = rb\<lparr> next_offs := u32_of_int offs \<rparr>;
          hdr = shdr_of_bytes (flash_read dev d (add32 (base_address rb1) (next_offs rb1)) HEADER_SIZE);
          hdr_res = is_sector_header_good hdr;
          older = hdr_res = RB_OK \<and> get_index hdr < oldest_sector_number;
          oldest' = (if older then get_index hdr else oldest_sector_number);
          oldnext' = (if older then next_offs rb1 else oldnext);
          rb2 = (if hdr_res = RB_OK \<and> get_index hdr \<ge> sector_index rb1
                 then rb1\<lparr> sector_index := get_index hdr \<rparr> else rb1)
      in if hdr_res \<noteq> RB_OK \<and> hdr_res \<noteq> RB_BLANK_HDR then (hdr_res, rb1)
         else if offs - int FLASH_SECTOR_SIZE \<ge> 0
              then oldest_loop dev d rb2 oldnext' oldest' (offs - int FLASH_SECTOR_SIZE)
         else (hdr_res, rb2\<lparr> next_offs := oldnext' \<rparr>))"
  by pat_completeness auto
termination
  by (relation "measure (\<lambda>(dev, d, rb, oldnext, oldest, offs). nat offs)") auto

definition rb_find_ring_oldest_sector :: "'d flash_dev \<Rightarrow> 'd \<Rightarrow> rb_t \<Rightarrow> int \<times> rb_t" where
  "rb_find_ring_oldest_sector dev d rb =
     oldest_loop dev d rb 0 RB_INDEX_MASK (int (number_of_bytes rb) - int FLASH_SECTOR_SIZE)"

text \<open>
  The first loop of \<^verbatim>\<open>rb_check_sector_ring\<close>: the state is the control block, the number of
  blank sectors, the last blank one and the check status. The counter \<open>i\<close> is a \<^verbatim>\<open>uint32_t\<close> that
  cannot wrap, since \<^verbatim>\<open>rb_create\<close> bounds the ring by the size of the flash.
\<close>

function check_headers_loop ::
    "'d flash_dev \<Rightarrow> 'd \<Rightarrow> rb_t \<Rightarrow> nat \<Rightarrow> nat \<Rightarrow> int \<Rightarrow> nat \<Rightarrow> rb_t \<times> nat \<times> nat \<times> int" where
  "check_headers_loop dev d rb blankcount last_blank_sector check_status i =
     (if i < number_of_bytes rb then
        let rb1 = rb\<lparr> next_offs := i \<rparr>;
            hdr = shdr_of_bytes (flash_read dev d (add32 (base_address rb1) i) HEADER_SIZE);
            hdr_res = is_sector_header_good hdr
        in if hdr_res = RB_OK then
             check_headers_loop dev d
               (if get_index hdr \<ge> sector_index rb1 then rb1\<lparr> sector_index := get_index hdr \<rparr> else rb1)
               blankcount last_blank_sector check_status (i + FLASH_SECTOR_SIZE)
           else if hdr_res = RB_BLANK_HDR then
             check_headers_loop dev d rb1 (blankcount + 1) i check_status (i + FLASH_SECTOR_SIZE)
           else
             check_headers_loop dev d rb1 blankcount last_blank_sector RB_BAD_HDR (i + FLASH_SECTOR_SIZE)
      else (rb, blankcount, last_blank_sector, check_status))"
  by pat_completeness auto
termination
  by (relation "measure (\<lambda>(dev, d, rb, bc, lb, st, i). number_of_bytes rb - i)") auto

text \<open>The second loop: sector indices have to grow from \<open>last_blank_sector\<close> on.\<close>

function check_order_loop ::
    "'d flash_dev \<Rightarrow> 'd \<Rightarrow> rb_t \<Rightarrow> nat \<Rightarrow> int \<Rightarrow> 32 word \<Rightarrow> nat \<Rightarrow> rb_t \<times> int" where
  "check_order_loop dev d rb last_blank_sector check_status low i =
     (if i < number_of_bytes rb \<and> check_status = RB_OK then
        let n0 = add32 i last_blank_sector;
            n = (if n0 > number_of_bytes rb then sub32 n0 (number_of_bytes rb) else n0);
            rb1 = rb\<lparr> next_offs := n \<rparr>;
            hdr = shdr_of_bytes (flash_read dev d (add32 (base_address rb1) n) HEADER_SIZE);
            hdr_res = is_sector_header_good hdr
        in if hdr_res = RB_OK then
             check_order_loop dev d rb1 last_blank_sector
               (if get_index hdr < low then RB_BAD_HDR else check_status) (get_index hdr)
               (i + FLASH_SECTOR_SIZE)
           else (rb1, check_status)
      else (rb, check_status))"
  by pat_completeness auto
termination
  by (relation "measure (\<lambda>(dev, d, rb, lb, st, low, i). number_of_bytes rb - i)") auto

declare oldest_loop.simps [simp del] check_headers_loop.simps [simp del] check_order_loop.simps [simp del]

definition rb_check_sector_ring :: "'d flash_dev \<Rightarrow> 'd \<Rightarrow> rb_t \<Rightarrow> int \<times> rb_t" where
  "rb_check_sector_ring dev d rb =
     (let (rb1, blankcount, last_blank, check_status) = check_headers_loop dev d rb 0 0 RB_OK 0;
          (rb2, start) =
            (if blankcount = 0
             then let (hdr_res, r) = rb_find_ring_oldest_sector dev d rb1 in (r, next_offs r)
             else (rb1, last_blank));
          (rb3, status) = check_order_loop dev d rb2 start check_status 0 0
      in (status, rb3))"

section \<open>Writing\<close>

text \<open>The bytes still to be written, the control block and the flash.\<close>

definition rb_partial :: "'d flash_dev \<Rightarrow> 'd \<Rightarrow> rb_t \<Rightarrow> view \<Rightarrow> nat \<Rightarrow> nat \<times> rb_t \<times> 'd" where
  "rb_partial dev d rb data sz =
     (let pagerem = FLASH_PAGE_SIZE - MOD_PAGE (next_offs rb);
          wrlen = min pagerem sz;
          page = store (rb_page rb) (MOD_PAGE (next_offs rb)) (take_view wrlen data);
          d' = flash_prog dev (add32 (base_address rb) (FLASH_PAGE (next_offs rb)))
                 (take_view FLASH_PAGE_SIZE page) d;
          rb' = nextincr (rb\<lparr> rb_page := memset_ff page FLASH_PAGE_SIZE \<rparr>) wrlen
      in (sz - wrlen, rb', d'))"

lemma rb_partial_less:
  assumes "rb_partial dev d rb data sz = (rem', rb', d')" and "sz \<noteq> 0"
  shows "rem' < sz"
  using assms by (auto simp: rb_partial_def Let_def)

text \<open>The \<^verbatim>\<open>while (remaining)\<close> loop of \<^verbatim>\<open>rb_append_page\<close>; \<open>sz\<close> is the caller's size.\<close>

function append_page_loop ::
    "'d flash_dev \<Rightarrow> 'd \<Rightarrow> rb_t \<Rightarrow> view \<Rightarrow> nat \<Rightarrow> nat \<Rightarrow> rb_t \<times> 'd" where
  "append_page_loop dev d rb data sz remaining =
     (if remaining \<noteq> 0 then
        let (rem', rb', d') = rb_partial dev d rb (advance data (sz - remaining)) remaining
        in append_page_loop dev d' rb' data sz rem'
      else (rb, d))"
  by pat_completeness auto

termination
  by (relation "measure (\<lambda>(dev, d, rb, data, sz, remaining). remaining)")
     (auto dest: rb_partial_less [OF sym])

declare append_page_loop.simps [simp del]

definition rb_append_page :: "'d flash_dev \<Rightarrow> 'd \<Rightarrow> rb_t \<Rightarrow> view \<Rightarrow> nat \<Rightarrow> rb_t \<times> 'd" where
  "rb_append_page dev d rb data sz =
     (let rb0 = rb\<lparr> rb_page := memset_ff (rb_page rb) FLASH_PAGE_SIZE \<rparr>;
          (remaining, rb1, d1) = rb_partial dev d rb0 data sz
      in append_page_loop dev d1 rb1 data sz remaining)"

text \<open>
  \<^verbatim>\<open>write_headers\<close> returns the header as it was written. \<^verbatim>\<open>rb_append_page\<close> always returns
  \<^verbatim>\<open>RB_OK\<close>, and it is the last call, so this is also the result of \<^verbatim>\<open>write_headers\<close>.
\<close>

definition write_headers ::
    "'d flash_dev \<Rightarrow> 'd \<Rightarrow> rb_t \<Rightarrow> rb_header \<Rightarrow> nat \<Rightarrow> byte \<Rightarrow> rb_header \<times> rb_t \<times> 'd" where
  "write_headers dev d rb hdr sz flag =
     (let rb0 = rb\<lparr> last_wrote := next_offs rb \<rparr>;
          (rb1, d1) =
            (if MOD_SECTOR (next_offs rb0) = 0 then
               let (rbsh, n) = make_sector_header (sector_index rb0)
               in rb_append_page dev d (rb0\<lparr> sector_index := n \<rparr>) (view_of (shdr_bytes rbsh)) HEADER_SIZE
             else (rb0, d));
          (hdr_res, h) = make_header hdr (hid hdr) sz;
          h' = h\<lparr> hcrc := hcrc h OR flag \<rparr>;
          (rb2, d2) = rb_append_page dev d1 rb1 (view_of (hdr_bytes h')) HEADER_SIZE
      in (h', rb2, d2))"

partial_function (option) rb_sector_append ::
    "'d flash_dev \<Rightarrow> 'd \<Rightarrow> rb_t \<Rightarrow> rb_header \<Rightarrow> view \<Rightarrow> nat \<Rightarrow> (int \<times> rb_t \<times> 'd) option" where
  "rb_sector_append dev d rb hdr data sz =
     (let hdrsize = HEADER_SIZE;
          size_needed = add32 sz hdrsize
      in
      if sz = 0 \<or> hid hdr \<ge> 0xff \<or> size_needed > number_of_bytes rb \<or> sz > RB_MAX_APPEND_SIZE
        then Some (RB_BAD_CALLER_DATA, rb, d)
      else if sector_blank_scan dev d rb < size_needed then Some (RB_FULL, rb, d)
      else if size_needed < FLASH_SECTOR_SIZE - MOD_SECTOR (next_offs rb) then
        let (hdr1, rb1, d1) = write_headers dev d rb hdr sz RB_HEADER_NOT_SMUDGED;
            (rb2, d2) = rb_append_page dev d1 rb1 data sz
        in Some (RB_OK, rb2, d2)
      else
        let size_in_first_sector = min (sub32 (FLASH_SECTOR_SIZE - MOD_SECTOR (next_offs rb)) hdrsize) sz;
            nextsector0 = add32 (FLASH_SECTOR (next_offs rb)) FLASH_SECTOR_SIZE;
            nextsector = (if nextsector0 \<ge> number_of_bytes rb then 0 else nextsector0);
            savenext = next_offs rb
        in do {
          (hdr_res, rbh2, rb0) \<leftarrow> fetch_and_check_header dev d rb (int nextsector - int (next_offs rb));
          if hdr_res = RB_BLANK_HDR then
            let (hdr1, rb1, d1) = write_headers dev d rb0 hdr size_in_first_sector RB_HEADER_NOT_SMUDGED;
                (rb2, d2) = rb_append_page dev d1 rb1 data size_in_first_sector;
                size_in_second_sector =
                  min (sub32 sz size_in_first_sector)
                      (sub32 (FLASH_SECTOR_SIZE - MOD_SECTOR (next_offs rb2)) hdrsize);
                (hdr3, rb3, d3) = write_headers dev d2 rb2 hdr1 size_in_second_sector
                                    (RB_HEADER_SPLIT OR RB_HEADER_NOT_SMUDGED);
                (rb4, d4) = rb_append_page dev d3 rb3 (advance data size_in_second_sector) size_in_second_sector
            in if sub32 (sub32 sz size_in_first_sector) size_in_second_sector > 0
               then rb_sector_append dev d4 rb4 hdr3
                      (advance data (add32 size_in_second_sector size_in_first_sector))
                      (sub32 (sub32 sz size_in_second_sector) size_in_first_sector)
               else Some (RB_OK, rb4, d4)
          else
            Some (if hdr_res = RB_OK then RB_WRAPPED_SECTOR_USED else hdr_res,
                  rb0\<lparr> next_offs := savenext \<rparr>, d)
        })"

text \<open>
  The loop of \<^verbatim>\<open>rb_append\<close>. Only the id of the local header is set before the call; its other
  fields are written before they are read.
\<close>

partial_function (option) append_loop ::
    "'d flash_dev \<Rightarrow> 'd \<Rightarrow> rb_t \<Rightarrow> nat \<Rightarrow> byte \<Rightarrow> view \<Rightarrow> nat \<Rightarrow> bool \<Rightarrow> (int \<times> rb_t \<times> 'd) option" where
  "append_loop dev d rb oldnext i data sz erase_if_full =
     (let (r0, rb0) = rb_find_ring_oldest_sector dev d rb in
      if \<not> (r0 = RB_OK \<or> r0 = RB_BLANK_HDR) then Some (r0, rb0, d)
      else do {
        (r1, rb1) \<leftarrow> rb_findnext_writeable dev d rb0;
        let (r2, rb2, d2) =
          (if r1 = RB_HDR_LOOP \<and> erase_if_full then
             let rbe = snd (rb_find_ring_oldest_sector dev d rb1)
             in (RB_BLANK_HDR, rbe,
                 flash_erase dev (add32 (base_address rbe) (next_offs rbe)) FLASH_SECTOR_SIZE d)
           else (r1, rb1, d));
        if r2 = RB_BLANK_HDR then do {
          (r3, rb3, d3) \<leftarrow> rb_sector_append dev d2 rb2 \<lparr> hlen = 0, hid = i, hcrc = 0 \<rparr> data sz;
          if (r3 = RB_WRAPPED_SECTOR_USED \<or> r3 = RB_FULL) \<and> erase_if_full then
            let rbe = snd (rb_find_ring_oldest_sector dev d3 rb3)
            in append_loop dev
                 (flash_erase dev (add32 (base_address rbe) (next_offs rbe)) FLASH_SECTOR_SIZE d3)
                 rbe oldnext i data sz erase_if_full
          else Some (r3, rb3\<lparr> next_offs := oldnext \<rparr>, d3)
        }
        else Some (r2, rb2\<lparr> next_offs := oldnext \<rparr>, d2)
      })"

definition rb_append ::
    "'d flash_dev \<Rightarrow> 'd \<Rightarrow> rb_t \<Rightarrow> byte \<Rightarrow> view \<Rightarrow> nat \<Rightarrow> view \<Rightarrow> bool \<Rightarrow> (int \<times> rb_t \<times> 'd) option" where
  "rb_append dev d rb i data sz pagebuffer erase_if_full =
     (if sz = 0 \<or> i = 0xff \<or> sz > sub32 (number_of_bytes rb) HEADER_SIZE
      then Some (RB_BAD_CALLER_DATA, rb, d)
      else append_loop dev d (rb\<lparr> rb_page := pagebuffer \<rparr>) (next_offs rb) i data sz erase_if_full)"

section \<open>Reading, finding and deleting\<close>

text \<open>
  \<open>buf\<close> is the caller's buffer and \<open>pos\<close> how far the pointer \<^verbatim>\<open>data\<close> has advanced into it. The
  loop and the recursion of \<^verbatim>\<open>rb_read\<close> are one function of the parameters that change.
\<close>

partial_function (option) rb_read_loop ::
    "'d flash_dev \<Rightarrow> 'd \<Rightarrow> byte \<Rightarrow> nat \<Rightarrow> nat \<Rightarrow> rb_t \<Rightarrow> view \<Rightarrow> nat \<Rightarrow> (int \<times> rb_t \<times> view) option" where
  "rb_read_loop dev d i sz orignext rb buf pos = do {
     (hdr_res, hdr, rb1) \<leftarrow> fetch_and_check_header dev d rb 0;
     if hdr_res \<noteq> RB_OK then Some (hdr_res, rb1, buf)
     else if hid hdr \<noteq> i \<or> hcrc hdr AND RB_HEADER_NOT_SMUDGED = 0 then
       let rb2 = rb1\<lparr> next_offs := rb_incr (next_offs rb1) (hlen hdr + HEADER_SIZE) (number_of_bytes rb1) \<rparr>
       in if orignext = next_offs rb2 then Some (RB_HDR_ID_NOT_FOUND, rb2, buf)
          else rb_read_loop dev d i sz orignext rb2 buf pos
     else
       let read_size = min (hlen hdr) sz;
           rb2 = rb1\<lparr> next_offs := add32 (next_offs rb1) HEADER_SIZE \<rparr>;
           buf1 = store buf pos (flash_read dev d (add32 (base_address rb2) (next_offs rb2)) read_size);
           rb3 = rb2\<lparr> next_offs := rb_incr (next_offs rb2) (hlen hdr) (number_of_bytes rb2) \<rparr>;
           remaining_size = sz - read_size
       in if MOD_SECTOR (next_offs rb3) = 0 then do {
            (pre_res, hdr2, rb4) \<leftarrow> fetch_and_check_header dev d rb3 0;
            if \<not> (pre_res = RB_OK \<or> pre_res = RB_BLANK_HDR) then Some (pre_res, rb4, buf1)
            else if hid hdr2 = i \<and> hcrc hdr2 AND RB_HEADER_SPLIT \<noteq> 0 then
              if remaining_size = 0 \<or> remaining_size > sub32 (number_of_bytes rb4) HEADER_SIZE \<or> i = 0xff \<or> i = 0
              then Some (int read_size, rb4, buf1)
              else do {
                (res, rb5, buf2) \<leftarrow> rb_read_loop dev d i remaining_size (FLASH_SECTOR (next_offs rb4))
                                     rb4 buf1 (pos + read_size);
                Some (if res > 0 then int read_size + res else int read_size, rb5, buf2)
              }
            else Some (int read_size, rb4, buf1)
          }
          else Some (int read_size, rb3, buf1)
   }"

definition rb_read ::
    "'d flash_dev \<Rightarrow> 'd \<Rightarrow> rb_t \<Rightarrow> byte \<Rightarrow> view \<Rightarrow> nat \<Rightarrow> (int \<times> rb_t \<times> view) option" where
  "rb_read dev d rb i buf sz =
     (if sz = 0 \<or> i = 0xff \<or> i = 0 \<or> sz > sub32 (number_of_bytes rb) HEADER_SIZE
      then Some (RB_BAD_CALLER_DATA, rb, buf)
      else rb_read_loop dev d i sz (FLASH_SECTOR (next_offs rb)) rb buf 0)"

partial_function (option) rb_find_loop ::
    "'d flash_dev \<Rightarrow> 'd \<Rightarrow> byte \<Rightarrow> view \<Rightarrow> nat \<Rightarrow> nat \<Rightarrow> rb_t \<Rightarrow> view \<Rightarrow> (int \<times> rb_t \<times> view) option" where
  "rb_find_loop dev d i data sz orignext rb scratch = do {
     (hdr_res, hdr, rb1) \<leftarrow> fetch_and_check_header dev d rb 0;
     if hdr_res \<noteq> RB_OK then Some (hdr_res, rb1, scratch)
     else if hid hdr \<noteq> i \<or> hcrc hdr AND RB_HEADER_NOT_SMUDGED = 0 then
       let rb2 = rb1\<lparr> next_offs := rb_incr (next_offs rb1) (hlen hdr + HEADER_SIZE) (number_of_bytes rb1) \<rparr>
       in if orignext = next_offs rb2 then Some (RB_HDR_ID_NOT_FOUND, rb2, scratch)
          else rb_find_loop dev d i data sz orignext rb2 scratch
     else do {
       (res, rb2, scratch') \<leftarrow> rb_read dev d rb1 i scratch sz;
       if res > 0 then
         if mem_equal data scratch' sz then Some (int (next_offs rb1), rb2, scratch')
         else rb_find_loop dev d i data sz orignext rb2 scratch'
       else Some (res, rb2, scratch')
     }
   }"

definition rb_find ::
    "'d flash_dev \<Rightarrow> 'd \<Rightarrow> rb_t \<Rightarrow> byte \<Rightarrow> view \<Rightarrow> nat \<Rightarrow> view \<Rightarrow> (int \<times> rb_t \<times> view) option" where
  "rb_find dev d rb i data sz scratch =
     (if sz = 0 \<or> i = 0xff \<or> i = 0 \<or> sz > sub32 (number_of_bytes rb) HEADER_SIZE
      then Some (RB_BAD_CALLER_DATA, rb, scratch)
      else rb_find_loop dev d i data sz (FLASH_SECTOR (next_offs rb)) rb scratch)"

definition rb_smudge :: "'d flash_dev \<Rightarrow> 'd \<Rightarrow> rb_t \<Rightarrow> nat \<Rightarrow> (int \<times> rb_t \<times> 'd) option" where
  "rb_smudge dev d rb offset_to_smudge =
     (let savenext = next_offs rb in do {
        (hdr_res, hdr, rb1) \<leftarrow> fetch_and_check_header dev d (rb\<lparr> next_offs := offset_to_smudge \<rparr>) 0;
        if hdr_res \<noteq> RB_OK then Some (hdr_res, rb1, d)
        else
          let crc' = hcrc hdr AND NOT RB_HEADER_NOT_SMUDGED;
              (rb2, d2) = rb_append_page dev d (rb1\<lparr> next_offs := add32 (next_offs rb1) 3 \<rparr>) (view_of [crc']) 1
          in Some (RB_OK, rb2\<lparr> next_offs := savenext \<rparr>, d2)
      })"

text \<open>
  \<^verbatim>\<open>rb_delete\<close> uses the page buffer as the scratch area of \<^verbatim>\<open>rb_find\<close> and then as the page to
  program, so the buffer's content is carried from one to the other.
\<close>

definition rb_delete ::
    "'d flash_dev \<Rightarrow> 'd \<Rightarrow> rb_t \<Rightarrow> byte \<Rightarrow> view \<Rightarrow> nat \<Rightarrow> view \<Rightarrow> (int \<times> rb_t \<times> 'd) option" where
  "rb_delete dev d rb i data sz pagebuffer =
     (if i = 0 \<or> i = 0xff then Some (RB_BAD_CALLER_DATA, rb, d)
      else
        let oldnext = next_offs rb;
            (hdr_err, rb0) = rb_find_ring_oldest_sector dev d (rb\<lparr> rb_page := pagebuffer \<rparr>)
        in if hdr_err \<noteq> RB_OK then Some (hdr_err, rb0, d)
           else do {
             (res, rb1, page) \<leftarrow> rb_find dev d rb0 i data sz pagebuffer;
             if res < 0 then Some (res, rb1\<lparr> rb_page := page, next_offs := oldnext \<rparr>, d)
             else do {
               (res', rb2, d2) \<leftarrow> rb_smudge dev d (rb1\<lparr> rb_page := page \<rparr>) (nat res);
               Some (res', rb2\<lparr> next_offs := oldnext \<rparr>, d2)
             }
           })"

section \<open>Creating\<close>

text \<open>
  \<open>rb\<close> is the caller's control block with whatever it held before the call; \<^verbatim>\<open>rb_create\<close> sets
  three of its fields.
\<close>

definition rb_create ::
    "'d flash_dev \<Rightarrow> 'd \<Rightarrow> rb_t \<Rightarrow> nat \<Rightarrow> nat \<Rightarrow> init_choices \<Rightarrow> int \<times> rb_t \<times> 'd" where
  "rb_create dev d rb base number_of_sectors init_choice =
     (if number_of_sectors > PICO_FLASH_SIZE_BYTES div FLASH_SECTOR_SIZE then (RB_BAD_CALLER_DATA, rb, d)
      else if number_of_sectors < 1 then (RB_BAD_CALLER_DATA, rb, d)
      else
        let rb0 = rb\<lparr> base_address := base mod XIP_BASE,
                      number_of_bytes := number_of_sectors * FLASH_SECTOR_SIZE,
                      next_offs := 0 \<rparr>
        in if init_choice = CREATE_INIT_ALWAYS
           then (RB_OK, rb0, flash_erase dev (base_address rb0) (number_of_bytes rb0) d)
           else
             let (hdr_err, rb1) = rb_check_sector_ring dev d rb0
             in if hdr_err = RB_OK
                then let (err, rb2) = rb_find_ring_oldest_sector dev d rb1 in (err, rb2, d)
                else (hdr_err, rb1, d))"

definition rb_recreate ::
    "'d flash_dev \<Rightarrow> 'd \<Rightarrow> rb_t \<Rightarrow> nat \<Rightarrow> nat \<Rightarrow> init_choices \<Rightarrow> int \<times> rb_t \<times> 'd" where
  "rb_recreate dev d rb base number_of_sectors init_choice =
     (let (err, rb1, d1) = rb_create dev d rb base number_of_sectors init_choice
      in if init_choice \<noteq> CREATE_FAIL \<and> \<not> (err = RB_OK \<or> err = RB_BLANK_HDR \<or> err = RB_HDR_LOOP)
         then rb_create dev d1 rb1 base number_of_sectors CREATE_INIT_ALWAYS
         else (err, rb1, d1))"

end
