(* ===== verification/Ring_Program.thy ===== *)
theory Ring_Program
  imports Ring_Buffer
begin

text \<open>
  What the page writer of \<^verbatim>\<open>ring_buffer.c\<close> (\<^verbatim>\<open>rb_partial\<close>, \<^verbatim>\<open>rb_append_page\<close>) leaves in
  flash: exactly the bytes of the caller, and-ed into their place, whatever pages they cross.
  The lemmas live in the context of \<open>nor_flash\<close>.
\<close>

definition wf_rb :: "rb_t \<Rightarrow> bool" where
  "wf_rb rb \<longleftrightarrow> base_address rb mod FLASH_SECTOR_SIZE = 0 \<and> number_of_bytes rb mod FLASH_SECTOR_SIZE = 0 \<and>
     0 < number_of_bytes rb \<and> base_address rb + number_of_bytes rb \<le> PICO_FLASH_SIZE_BYTES"

definition ring_wrap :: "rb_t \<Rightarrow> nat \<Rightarrow> nat" where
  "ring_wrap rb n = (if n \<ge> number_of_bytes rb then 0 else n)"

definition programmed :: "'d flash_dev \<Rightarrow> 'd \<Rightarrow> 'd \<Rightarrow> nat \<Rightarrow> nat \<Rightarrow> view \<Rightarrow> bool" where
  "programmed dev d d' a n data \<longleftrightarrow>
     (\<forall>x<PICO_FLASH_SIZE_BYTES. xip dev d' x =
        (if a \<le> x \<and> x < a + n then xip dev d x AND data (x - a) else xip dev d x))"

definition page_blank :: "rb_t \<Rightarrow> bool" where
  "page_blank rb \<longleftrightarrow> (\<forall>i<FLASH_PAGE_SIZE. rb_page rb i = 0xff)"

lemma programmed_0: "programmed dev d d a 0 data"
  by (auto simp: programmed_def)

lemma programmed_trans:
  assumes "programmed dev d d1 a m data" and "programmed dev d1 d2 (a + m) n (advance data m)"
  shows "programmed dev d d2 a (m + n) data"
  using assms by (auto simp: programmed_def)

lemma wf_rb_update [simp]:
  "wf_rb (rb\<lparr>next_offs := n\<rparr>) = wf_rb rb" "wf_rb (rb\<lparr>rb_page := p\<rparr>) = wf_rb rb"
  "wf_rb (rb\<lparr>last_wrote := l\<rparr>) = wf_rb rb" "wf_rb (rb\<lparr>sector_index := s\<rparr>) = wf_rb rb"
  by (simp_all add: wf_rb_def)

lemma wf_rb_u32: "wf_rb rb \<Longrightarrow> k \<le> number_of_bytes rb \<Longrightarrow> base_address rb + k < 2 ^ 32"
  by (simp add: wf_rb_def)

lemma wf_rb_top: "wf_rb rb \<Longrightarrow> k \<le> number_of_bytes rb \<Longrightarrow> base_address rb + k \<le> PICO_FLASH_SIZE_BYTES"
  by (simp add: wf_rb_def)

lemma nextincr_eq:
  assumes "wf_rb rb" "next_offs rb < number_of_bytes rb" "k \<le> PICO_FLASH_SIZE_BYTES"
  shows "nextincr rb k = rb\<lparr>next_offs := ring_wrap rb (next_offs rb + k)\<rparr>"
proof -
  have "next_offs rb + k < 2 ^ 32" using assms by (simp add: wf_rb_def)
  then show ?thesis by (simp add: nextincr_def ring_wrap_def add32_small)
qed

lemma rb_t_twice: "rb\<lparr>next_offs := a, rb_page := p\<rparr>\<lparr>next_offs := b, rb_page := q\<rparr> = rb\<lparr>next_offs := b, rb_page := q\<rparr>"
  by simp

context nor_flash
begin

lemma rb_partial_spec:
  assumes wf: "wf_rb rb" and nx: "next_offs rb < number_of_bytes rb" and pb: "page_blank rb"
    and w: "wrlen = min (FLASH_PAGE_SIZE - next_offs rb mod FLASH_PAGE_SIZE) sz"
  obtains p d' where "rb_partial dev d rb data sz =
      (sz - wrlen, rb\<lparr>next_offs := ring_wrap rb (next_offs rb + wrlen), rb_page := p\<rparr>, d')"
    and "\<And>i. i < FLASH_PAGE_SIZE \<Longrightarrow> p i = 0xff"
    and "programmed dev d d' (base_address rb + next_offs rb) wrlen data"
proof -
  let ?b = "base_address rb" and ?n = "next_offs rb"
  let ?page = "store (rb_page rb) (?n mod 256) (take_view wrlen data)"
  let ?a = "add32 ?b (FLASH_PAGE ?n)"
  let ?d' = "flash_prog dev ?a (take_view FLASH_PAGE_SIZE ?page) d"
  have pg: "?n div 256 * 256 + ?n mod 256 = ?n" by simp
  have a: "?a = ?b + ?n div 256 * 256"
  proof -
    have "?n div 256 * 256 \<le> ?n" by simp
    with nx have "?n div 256 * 256 \<le> number_of_bytes rb" by linarith
    from wf_rb_u32 [OF wf this] show ?thesis by (simp add: FLASH_PAGE_def add32_small)
  qed
  have "?b mod 256 = 0" and nb: "number_of_bytes rb mod 256 = 0"
    using wf by (simp_all add: wf_rb_def mod_4096_256)
  then have al: "?a mod 256 = 0" by (simp add: a)
  have "?n div 256 * 256 + 256 \<le> number_of_bytes rb"
    by (rule block_fits [OF nx nb])
  then have top: "?a + 256 \<le> PICO_FLASH_SIZE_BYTES"
    using wf a by (simp add: wf_rb_def)
  have wl: "?n mod 256 + wrlen \<le> 256" using w by simp
  have prg: "programmed dev d ?d' (?b + ?n) wrlen data"
    unfolding programmed_def
  proof (intro allI impI)
    fix x assume x: "x < PICO_FLASH_SIZE_BYTES"
    note pr = prog_byte [OF al top x, of ?page d]
    show "xip dev ?d' x = (if ?b + ?n \<le> x \<and> x < ?b + ?n + wrlen
        then xip dev d x AND data (x - (?b + ?n)) else xip dev d x)"
    proof (cases "?b + ?n \<le> x \<and> x < ?b + ?n + wrlen")
      case True
      with a pg have m: "x - ?a = ?n mod 256 + (x - (?b + ?n))" and "?a \<le> x" by linarith+
      moreover have "x - (?b + ?n) < wrlen" using True by linarith
      ultimately have "?page (x - ?a) = data (x - (?b + ?n))" and "x < ?a + 256"
        using wl by (simp_all add: store_def)
      with True pr \<open>?a \<le> x\<close> show ?thesis by simp
    next
      case False
      have "?page (x - ?a) = 0xff" if "?a \<le> x" "x < ?a + 256"
      proof -
        have "\<not> (?n mod 256 \<le> x - ?a \<and> x - ?a < ?n mod 256 + wrlen)"
          using that False a pg by linarith
        then show ?thesis using that pb by (auto simp: store_def page_blank_def)
      qed
      with False pr show ?thesis by auto
    qed
  qed
  have "rb_partial dev d rb data sz =
    (sz - wrlen, rb\<lparr>next_offs := ring_wrap rb (?n + wrlen), rb_page := memset_ff ?page 256\<rparr>, ?d')"
    using wf nx wl by (simp add: rb_partial_def Let_def w nextincr_eq ring_wrap_def)
  from that [OF this _ prg] show ?thesis by simp
qed

lemma append_page_loop_spec:
  assumes "wf_rb rb" and "next_offs rb < number_of_bytes rb" and "page_blank rb"
    and "rem \<le> sz" and "next_offs rb + rem \<le> number_of_bytes rb"
  shows "\<exists>p d'. append_page_loop dev d rb data sz rem =
      (rb\<lparr>next_offs := ring_wrap rb (next_offs rb + rem), rb_page := p\<rparr>, d') \<and>
    programmed dev d d' (base_address rb + next_offs rb) rem (advance data (sz - rem))"
  using assms
proof (induction rem arbitrary: rb d rule: less_induct)
  case (less rem)
  show ?case
  proof (cases "rem = 0")
    case True
    then show ?thesis
      using less.prems by (auto simp: append_page_loop.simps [of dev d rb data sz 0] ring_wrap_def
          intro!: exI [of _ "rb_page rb"] programmed_0)
  next
    case False
    define w where "w = min (FLASH_PAGE_SIZE - next_offs rb mod FLASH_PAGE_SIZE) rem"
    have w0: "0 < w" "w \<le> rem" using False by (simp_all add: w_def)
    obtain p d1 where part: "rb_partial dev d rb (advance data (sz - rem)) rem =
        (rem - w, rb\<lparr>next_offs := ring_wrap rb (next_offs rb + w), rb_page := p\<rparr>, d1)"
      and pff: "\<And>i. i < FLASH_PAGE_SIZE \<Longrightarrow> p i = 0xff"
      and pr: "programmed dev d d1 (base_address rb + next_offs rb) w (advance data (sz - rem))"
      using rb_partial_spec [OF less.prems(1-3) w_def] by metis
    let ?rb1 = "rb\<lparr>next_offs := ring_wrap rb (next_offs rb + w), rb_page := p\<rparr>"
    have step: "append_page_loop dev d rb data sz rem = append_page_loop dev d1 ?rb1 data sz (rem - w)"
      using False by (simp add: append_page_loop.simps [of dev d rb data sz rem] part)
    have lt: "rem - w < rem" using w0 by simp
    have pb1: "page_blank ?rb1" using pff by (simp add: page_blank_def)
    have n1: "next_offs ?rb1 < number_of_bytes ?rb1"
      using less.prems by (auto simp: ring_wrap_def wf_rb_def)
    have fit: "next_offs ?rb1 + (rem - w) \<le> number_of_bytes ?rb1"
      using less.prems w0 by (auto simp: ring_wrap_def wf_rb_def)
    obtain q d2 where rec: "append_page_loop dev d1 ?rb1 data sz (rem - w) =
        (?rb1\<lparr>next_offs := ring_wrap ?rb1 (next_offs ?rb1 + (rem - w)), rb_page := q\<rparr>, d2)"
      and pr2: "programmed dev d1 d2 (base_address ?rb1 + next_offs ?rb1) (rem - w) (advance data (sz - (rem - w)))"
    proof -
      have "wf_rb ?rb1" and "rem - w \<le> sz" using less.prems(1,4) by simp_all
      from less.IH [OF lt this(1) n1 pb1 this(2) fit, of d1] show ?thesis by (elim exE conjE) (rule that)
    qed
    have off: "sz - (rem - w) = sz - rem + w" using w0 less.prems by simp
    have "programmed dev d d2 (base_address rb + next_offs rb) rem (advance data (sz - rem))"
    proof (cases "rem = w")
      case True
      with pr2 have "\<forall>x<PICO_FLASH_SIZE_BYTES. xip dev d2 x = xip dev d1 x"
        by (auto simp: programmed_def)
      with pr True show ?thesis by (simp add: programmed_def)
    next
      case False
      then have "next_offs ?rb1 = next_offs rb + w"
        using less.prems w0 by (simp add: ring_wrap_def)
      then have "programmed dev d1 d2 (base_address rb + next_offs rb + w) (rem - w)
          (advance (advance data (sz - rem)) w)"
        using pr2 by (simp add: off add.assoc)
      from programmed_trans [OF pr this] w0 show ?thesis by simp
    qed
    moreover have "ring_wrap ?rb1 (next_offs ?rb1 + (rem - w)) = ring_wrap rb (next_offs rb + rem)"
      using less.prems w0 by (auto simp: ring_wrap_def)
    ultimately show ?thesis
      using step rec by (intro exI [of _ q] exI [of _ d2] conjI) (simp only: rb_t_twice)
  qed
qed

lemma rb_append_page_spec:
  assumes wf: "wf_rb rb" and nx: "next_offs rb < number_of_bytes rb"
    and fit: "next_offs rb + sz \<le> number_of_bytes rb"
  obtains p d' where "rb_append_page dev d rb data sz =
      (rb\<lparr>next_offs := ring_wrap rb (next_offs rb + sz), rb_page := p\<rparr>, d')"
    and "programmed dev d d' (base_address rb + next_offs rb) sz data"
proof -
  let ?rb0 = "rb\<lparr>rb_page := memset_ff (rb_page rb) FLASH_PAGE_SIZE\<rparr>"
  have pb: "page_blank ?rb0" by (simp add: page_blank_def)
  show ?thesis
  proof (cases "sz = 0")
    case True
    obtain p d1 where part: "rb_partial dev d ?rb0 data 0 = (0, ?rb0\<lparr>next_offs := ring_wrap ?rb0 (next_offs ?rb0), rb_page := p\<rparr>, d1)"
      and pr: "programmed dev d d1 (base_address rb + next_offs rb) 0 data"
      by (rule rb_partial_spec [of ?rb0 0 0 d data]) (use wf nx pb in auto)
    have "rb_append_page dev d rb data sz = (rb\<lparr>next_offs := ring_wrap rb (next_offs rb), rb_page := p\<rparr>, d1)"
      using True part by (simp add: rb_append_page_def Let_def append_page_loop.simps ring_wrap_def)
    with True pr that show ?thesis by simp
  next
    case False
    have "rb_append_page dev d rb data sz = append_page_loop dev d ?rb0 data sz sz"
      using False by (simp add: rb_append_page_def append_page_loop.simps [of dev d ?rb0 data sz sz])
    then show ?thesis
      using append_page_loop_spec [of ?rb0 sz sz d data] wf nx pb fit that
      by (fastforce simp: ring_wrap_def)
  qed
qed

end

end
