(* ===== verification/Ring_Walk.thy ===== *)
theory Ring_Walk
  imports Ring_Program
begin

text \<open>
  How the operations of \<^verbatim>\<open>ring_buffer.c\<close> move through a ring: the position after a record, the
  distance left until the walk is back at its start (the measure of every loop), and chains of
  records, the positions the walk visits one after the other.
\<close>

definition hdr_at :: "'d flash_dev \<Rightarrow> 'd \<Rightarrow> rb_t \<Rightarrow> nat \<Rightarrow> rb_header" where
  "hdr_at dev d rb p = hdr_of_bytes (flash_read dev d (base_address rb + p) HEADER_SIZE)"

definition shdr_at :: "'d flash_dev \<Rightarrow> 'd \<Rightarrow> rb_t \<Rightarrow> nat \<Rightarrow> rb_sector_header" where
  "shdr_at dev d rb p = shdr_of_bytes (flash_read dev d (base_address rb + p) HEADER_SIZE)"

definition hdr_pos :: "nat \<Rightarrow> nat" where
  "hdr_pos p = (if p mod FLASH_SECTOR_SIZE = 0 then p + HEADER_SIZE else p)"

definition pos_ok :: "rb_t \<Rightarrow> nat \<Rightarrow> bool" where
  "pos_ok rb p \<longleftrightarrow> p < number_of_bytes rb \<and> p mod FLASH_SECTOR_SIZE \<le> FLASH_SECTOR_SIZE - (HEADER_SIZE + 1)"

definition sector_ok :: "'d flash_dev \<Rightarrow> 'd \<Rightarrow> rb_t \<Rightarrow> nat \<Rightarrow> bool" where
  "sector_ok dev d rb p \<longleftrightarrow> (p mod FLASH_SECTOR_SIZE = 0 \<longrightarrow> is_sector_header_good (shdr_at dev d rb p) = RB_OK)"

definition next_pos :: "'d flash_dev \<Rightarrow> 'd \<Rightarrow> rb_t \<Rightarrow> nat \<Rightarrow> nat" where
  "next_pos dev d rb p = rb_incr (hdr_pos p) (hlen (hdr_at dev d rb (hdr_pos p)) + HEADER_SIZE) (number_of_bytes rb)"

text \<open>Everything about a ring depends on its place in flash only, not on the rest of the control block.\<close>

lemma geometry_update [simp]:
  "hdr_at dev d (rb\<lparr>next_offs := v0\<rparr>) = hdr_at dev d rb"
  "hdr_at dev d (rb\<lparr>last_wrote := v1\<rparr>) = hdr_at dev d rb"
  "hdr_at dev d (rb\<lparr>sector_index := v2\<rparr>) = hdr_at dev d rb"
  "hdr_at dev d (rb\<lparr>rb_page := v3\<rparr>) = hdr_at dev d rb"
  "shdr_at dev d (rb\<lparr>next_offs := v0\<rparr>) = shdr_at dev d rb"
  "shdr_at dev d (rb\<lparr>last_wrote := v1\<rparr>) = shdr_at dev d rb"
  "shdr_at dev d (rb\<lparr>sector_index := v2\<rparr>) = shdr_at dev d rb"
  "shdr_at dev d (rb\<lparr>rb_page := v3\<rparr>) = shdr_at dev d rb"
  "pos_ok (rb\<lparr>next_offs := v0\<rparr>) = pos_ok rb"
  "pos_ok (rb\<lparr>last_wrote := v1\<rparr>) = pos_ok rb"
  "pos_ok (rb\<lparr>sector_index := v2\<rparr>) = pos_ok rb"
  "pos_ok (rb\<lparr>rb_page := v3\<rparr>) = pos_ok rb"
  "ring_wrap (rb\<lparr>next_offs := v0\<rparr>) = ring_wrap rb"
  "ring_wrap (rb\<lparr>last_wrote := v1\<rparr>) = ring_wrap rb"
  "ring_wrap (rb\<lparr>sector_index := v2\<rparr>) = ring_wrap rb"
  "ring_wrap (rb\<lparr>rb_page := v3\<rparr>) = ring_wrap rb"
  "sector_ok dev d (rb\<lparr>next_offs := v0\<rparr>) = sector_ok dev d rb"
  "sector_ok dev d (rb\<lparr>last_wrote := v1\<rparr>) = sector_ok dev d rb"
  "sector_ok dev d (rb\<lparr>sector_index := v2\<rparr>) = sector_ok dev d rb"
  "sector_ok dev d (rb\<lparr>rb_page := v3\<rparr>) = sector_ok dev d rb"
  "next_pos dev d (rb\<lparr>next_offs := v0\<rparr>) = next_pos dev d rb"
  "next_pos dev d (rb\<lparr>last_wrote := v1\<rparr>) = next_pos dev d rb"
  "next_pos dev d (rb\<lparr>sector_index := v2\<rparr>) = next_pos dev d rb"
  "next_pos dev d (rb\<lparr>rb_page := v3\<rparr>) = next_pos dev d rb"
  by (auto simp: hdr_at_def shdr_at_def pos_ok_def ring_wrap_def sector_ok_def next_pos_def fun_eq_iff)

lemma sector_top: "wf_rb rb \<Longrightarrow> p < number_of_bytes rb \<Longrightarrow> p div 4096 * 4096 + 4096 \<le> number_of_bytes rb"
  by (rule block_fits) (simp_all add: wf_rb_def)

lemma fetch_0:
  assumes wf: "wf_rb rb" and n: "next_offs rb < number_of_bytes rb"
  shows "fetch_and_check_header dev d rb 0 =
     Some (if sector_ok dev d rb (next_offs rb)
           then (is_header_good (hdr_at dev d rb (hdr_pos (next_offs rb))),
                 hdr_at dev d rb (hdr_pos (next_offs rb)), rb\<lparr>next_offs := hdr_pos (next_offs rb)\<rparr>)
           else (is_sector_header_good (shdr_at dev d rb (next_offs rb)), hdr_at dev d rb (next_offs rb), rb))"
proof -
  have b: "base_address rb + number_of_bytes rb < 2 ^ 32" "number_of_bytes rb < 2 ^ 32"
    using wf_rb_u32 [OF wf, of "number_of_bytes rb"] by simp_all
  have top: "next_offs rb + 4 \<le> number_of_bytes rb" if "next_offs rb mod 4096 = 0"
    using sector_top [OF wf n] that div_mult_mod_eq [of "next_offs rb" 4096] by linarith
  show ?thesis
  proof (cases "next_offs rb mod 4096 = 0")
    case True
    with top b n show ?thesis
      by (auto simp: fetch_and_check_header_def Let_def sector_ok_def hdr_at_def shdr_at_def hdr_pos_def
          u32_of_int_def add32_def nat_add_distrib)
  next
    case False
    with b n show ?thesis
      by (auto simp: fetch_and_check_header_def Let_def sector_ok_def hdr_at_def shdr_at_def hdr_pos_def
          u32_of_int_def add32_def)
  qed
qed

lemma rb_incr_eq:
  assumes "wf_rb rb" and "p < number_of_bytes rb" and "len \<le> 100000"
  shows "rb_incr p len (number_of_bytes rb) =
    ring_wrap rb (if p mod 4096 + len > 4091 then p div 4096 * 4096 + 4096 else p + len)"
proof -
  have "p div 4096 * 4096 + 4096 < 2 ^ 32" "p + len < 2 ^ 32" "p mod 4096 + len < 2 ^ 32"
    using sector_top [OF assms(1,2)] assms by (simp_all add: wf_rb_def)
  then show ?thesis
    by (simp add: rb_incr_def Let_def ring_wrap_def FLASH_SECTOR_def add32_small)
qed

lemma hdr_pos_facts:
  assumes "wf_rb rb" "pos_ok rb p"
  shows "p \<le> hdr_pos p" "hdr_pos p < number_of_bytes rb" "hdr_pos p div 4096 = p div 4096"
    "hdr_pos p mod 4096 \<le> 4091" "4 \<le> hdr_pos p mod 4096 \<or> p mod 4096 \<noteq> 0"
proof -
  have e: "p div 4096 * 4096 + p mod 4096 = p" by simp
  have top: "p div 4096 * 4096 + 4096 \<le> number_of_bytes rb"
    by (rule sector_top) (use assms in \<open>simp_all add: pos_ok_def\<close>)
  show "p \<le> hdr_pos p" by (simp add: hdr_pos_def)
  show "hdr_pos p < number_of_bytes rb"
    using e top assms(2) by (auto simp: hdr_pos_def pos_ok_def)
  have "p mod 4096 = 0 \<Longrightarrow> (p + 4) div 4096 = p div 4096" "p mod 4096 = 0 \<Longrightarrow> (p + 4) mod 4096 = 4"
    by (simp_all add: div_add1_eq mod_add_eq [symmetric])
  then show "hdr_pos p div 4096 = p div 4096" "hdr_pos p mod 4096 \<le> 4091" "4 \<le> hdr_pos p mod 4096 \<or> p mod 4096 \<noteq> 0"
    using assms(2) by (auto simp: hdr_pos_def pos_ok_def)
qed

lemma next_pos_steps:
  assumes wf: "wf_rb rb" and ok: "pos_ok rb p" and len: "0 < len" "len \<le> PERSISTENT_LEN"
    and q: "q = rb_incr (hdr_pos p) (len + HEADER_SIZE) (number_of_bytes rb)"
  shows "pos_ok rb q \<and> (p < q \<and> q \<le> p div 4096 * 4096 + 4096 \<or> q = 0 \<and> p div 4096 * 4096 + 4096 = number_of_bytes rb)"
proof -
  note h = hdr_pos_facts [OF wf ok]
  let ?s = "p div 4096 * 4096"
  have top: "?s + 4096 \<le> number_of_bytes rb"
    by (rule sector_top [OF wf]) (use ok in \<open>simp add: pos_ok_def\<close>)
  have hp: "?s + hdr_pos p mod 4096 = hdr_pos p"
    using h(3) div_mult_mod_eq [of "hdr_pos p" 4096] by simp
  have e: "?s + p mod 4096 = p" by simp
  have q': "q = ring_wrap rb (if hdr_pos p mod 4096 + (len + 4) > 4091 then ?s + 4096 else hdr_pos p + (len + 4))"
    unfolding q using rb_incr_eq [OF wf h(2), of "len + 4"] len h(3) by simp
  show ?thesis
  proof (cases "hdr_pos p mod 4096 + (len + 4) > 4091")
    case True
    then have "q = ring_wrap rb (?s + 4096)" by (simp add: q')
    moreover have "(?s + 4096) mod 4096 = 0" by simp
    moreover have "p < ?s + 4096" using e mod_lt_4096 [of p] by linarith
    ultimately show ?thesis
      using top wf by (auto simp: ring_wrap_def pos_ok_def wf_rb_def)
  next
    case False
    have le: "hdr_pos p + (len + 4) \<le> ?s + 4091" using False hp by linarith
    then have "q = hdr_pos p + (len + 4)" using False top by (simp add: q' ring_wrap_def)
    moreover have "(hdr_pos p + (len + 4)) mod 4096 \<le> 4091"
    proof -
      have "hdr_pos p + (len + 4) = hdr_pos p mod 4096 + (len + 4) + p div 4096 * 4096" using hp by linarith
      then have "(hdr_pos p + (len + 4)) mod 4096 = (hdr_pos p mod 4096 + (len + 4)) mod 4096"
        by (metis mod_mult_self3 add.commute)
      then show ?thesis using False by simp
    qed
    ultimately show ?thesis using le h(1) top by (auto simp: pos_ok_def)
  qed
qed

definition ring_dist :: "rb_t \<Rightarrow> nat \<Rightarrow> nat \<Rightarrow> nat" where
  "ring_dist rb orig p = (if p < orig then orig - p else number_of_bytes rb - p + orig)"

lemma ring_dist_update [simp]:
  "ring_dist (rb\<lparr>next_offs := v0\<rparr>) = ring_dist rb"
  "ring_dist (rb\<lparr>last_wrote := v1\<rparr>) = ring_dist rb"
  "ring_dist (rb\<lparr>sector_index := v2\<rparr>) = ring_dist rb"
  "ring_dist (rb\<lparr>rb_page := v3\<rparr>) = ring_dist rb"
  by (simp_all add: ring_dist_def fun_eq_iff)

lemma ring_dist_decreases:
  assumes wf: "wf_rb rb" and ok: "pos_ok rb p" and len: "0 < len" "len \<le> PERSISTENT_LEN"
    and q: "q = rb_incr (hdr_pos p) (len + HEADER_SIZE) (number_of_bytes rb)"
    and orig: "orig mod FLASH_SECTOR_SIZE = 0" "orig < number_of_bytes rb" and ne: "q \<noteq> orig"
  shows "ring_dist rb orig q < ring_dist rb orig p"
proof -
  let ?s = "p div 4096 * 4096"
  have st: "p < q \<and> q \<le> ?s + 4096 \<or> q = 0 \<and> ?s + 4096 = number_of_bytes rb" and "q < number_of_bytes rb"
    using next_pos_steps [OF wf ok len q] by (auto simp: pos_ok_def)
  moreover have "?s + 4096 \<le> orig" if "p < orig"
    by (rule block_fits) (use that orig in simp_all)
  moreover have "p < number_of_bytes rb" using ok by (simp add: pos_ok_def)
  ultimately show ?thesis using orig ne unfolding ring_dist_def by auto
qed

lemma is_header_good_len: "is_header_good h = RB_OK \<Longrightarrow> 0 < hlen h \<and> hlen h \<le> PERSISTENT_LEN"
  by (simp add: is_header_good_OK)

lemma findnext_unfold:
  assumes wf: "wf_rb rb" and ok: "pos_ok rb (next_offs rb)"
  shows "findnext_loop dev d orig rb =
    (let p = next_offs rb; h = hdr_at dev d rb (hdr_pos p); q = next_pos dev d rb p in
     if \<not> sector_ok dev d rb p then Some (is_sector_header_good (shdr_at dev d rb p), rb)
     else if is_header_good h \<noteq> RB_OK then Some (is_header_good h, rb\<lparr>next_offs := hdr_pos p\<rparr>)
     else if q = orig then Some (RB_HDR_LOOP, rb\<lparr>next_offs := FLASH_SECTOR q\<rparr>)
     else findnext_loop dev d orig (rb\<lparr>next_offs := q\<rparr>))"
proof -
  have n: "next_offs rb < number_of_bytes rb" and m: "\<not> next_offs rb mod 4096 > 4091"
    using ok by (simp_all add: pos_ok_def)
  show ?thesis
    using m by (subst findnext_loop.simps) (auto simp: Let_def fetch_0 [OF wf n] next_pos_def sector_ok_def)
qed

lemma findnext_terminates:
  assumes "wf_rb rb" and "pos_ok rb (next_offs rb)"
    and orig: "orig mod FLASH_SECTOR_SIZE = 0" "orig < number_of_bytes rb"
  shows "\<exists>r rb'. findnext_loop dev d orig rb = Some (r, rb')"
  using assms
proof (induction "ring_dist rb orig (next_offs rb)" arbitrary: rb rule: less_induct)
  case less
  let ?p = "next_offs rb" and ?q = "next_pos dev d rb (next_offs rb)"
  let ?h = "hdr_at dev d rb (hdr_pos ?p)"
  show ?case
  proof (cases "sector_ok dev d rb ?p \<and> is_header_good ?h = RB_OK \<and> ?q \<noteq> orig")
    case True
    then have len: "0 < hlen ?h" "hlen ?h \<le> PERSISTENT_LEN" by (simp_all add: is_header_good_len)
    have q: "?q = rb_incr (hdr_pos ?p) (hlen ?h + HEADER_SIZE) (number_of_bytes rb)" by (simp add: next_pos_def)
    have "ring_dist rb orig ?q < ring_dist rb orig ?p"
      by (rule ring_dist_decreases [OF less.prems(1,2) len q less.prems(3,4)]) (use True in simp)
    moreover have "pos_ok rb ?q" using next_pos_steps [OF less.prems(1,2) len q] by simp
    ultimately have "\<exists>r rb'. findnext_loop dev d orig (rb\<lparr>next_offs := ?q\<rparr>) = Some (r, rb')"
      using less.hyps [of "rb\<lparr>next_offs := ?q\<rparr>"] less.prems by simp
    with True show ?thesis by (simp add: findnext_unfold [OF less.prems(1,2)] Let_def)
  next
    case False
    then show ?thesis by (auto simp: findnext_unfold [OF less.prems(1,2)] Let_def)
  qed
qed

definition entry_ok :: "'d flash_dev \<Rightarrow> 'd \<Rightarrow> rb_t \<Rightarrow> nat \<Rightarrow> bool" where
  "entry_ok dev d rb p \<longleftrightarrow> sector_ok dev d rb p \<and> is_header_good (hdr_at dev d rb (hdr_pos p)) = RB_OK"

fun chain :: "'d flash_dev \<Rightarrow> 'd \<Rightarrow> rb_t \<Rightarrow> nat \<Rightarrow> nat list \<Rightarrow> nat \<Rightarrow> bool" where
  "chain dev d rb p [] e \<longleftrightarrow> p = e"
| "chain dev d rb p (x # xs) e \<longleftrightarrow> x = p \<and> entry_ok dev d rb p \<and> chain dev d rb (next_pos dev d rb p) xs e"

definition entry_end :: "'d flash_dev \<Rightarrow> 'd \<Rightarrow> rb_t \<Rightarrow> nat \<Rightarrow> nat" where
  "entry_end dev d rb p = hdr_pos p + HEADER_SIZE + hlen (hdr_at dev d rb (hdr_pos p))"

lemma entry_update [simp]:
  "entry_ok dev d (rb\<lparr>next_offs := v0\<rparr>) = entry_ok dev d rb"
  "entry_ok dev d (rb\<lparr>last_wrote := v1\<rparr>) = entry_ok dev d rb"
  "entry_ok dev d (rb\<lparr>sector_index := v2\<rparr>) = entry_ok dev d rb"
  "entry_ok dev d (rb\<lparr>rb_page := v3\<rparr>) = entry_ok dev d rb"
  "entry_end dev d (rb\<lparr>next_offs := v0\<rparr>) = entry_end dev d rb"
  "entry_end dev d (rb\<lparr>last_wrote := v1\<rparr>) = entry_end dev d rb"
  "entry_end dev d (rb\<lparr>sector_index := v2\<rparr>) = entry_end dev d rb"
  "entry_end dev d (rb\<lparr>rb_page := v3\<rparr>) = entry_end dev d rb"
  by (simp_all add: entry_ok_def entry_end_def fun_eq_iff)

lemma chain_update [simp]:
  "chain dev d (rb\<lparr>next_offs := v0\<rparr>) p xs e = chain dev d rb p xs e"
  "chain dev d (rb\<lparr>last_wrote := v1\<rparr>) p xs e = chain dev d rb p xs e"
  "chain dev d (rb\<lparr>sector_index := v2\<rparr>) p xs e = chain dev d rb p xs e"
  "chain dev d (rb\<lparr>rb_page := v3\<rparr>) p xs e = chain dev d rb p xs e"
  by (induction xs arbitrary: p) simp_all

lemma entry_ok_next:
  assumes "wf_rb rb" "pos_ok rb p" "entry_ok dev d rb p"
  shows "pos_ok rb (next_pos dev d rb p)"
    "p < next_pos dev d rb p \<and> next_pos dev d rb p \<le> p div 4096 * 4096 + 4096 \<or>
     next_pos dev d rb p = 0 \<and> p div 4096 * 4096 + 4096 = number_of_bytes rb"
    "orig mod FLASH_SECTOR_SIZE = 0 \<Longrightarrow> orig < number_of_bytes rb \<Longrightarrow> next_pos dev d rb p \<noteq> orig \<Longrightarrow>
      ring_dist rb orig (next_pos dev d rb p) < ring_dist rb orig p"
proof -
  have len: "0 < hlen (hdr_at dev d rb (hdr_pos p))" "hlen (hdr_at dev d rb (hdr_pos p)) \<le> PERSISTENT_LEN"
    using assms(3) by (simp_all add: entry_ok_def is_header_good_len)
  show "pos_ok rb (next_pos dev d rb p)"
    "p < next_pos dev d rb p \<and> next_pos dev d rb p \<le> p div 4096 * 4096 + 4096 \<or>
     next_pos dev d rb p = 0 \<and> p div 4096 * 4096 + 4096 = number_of_bytes rb"
    using next_pos_steps [OF assms(1,2) len next_pos_def] by simp_all
  show "orig mod FLASH_SECTOR_SIZE = 0 \<Longrightarrow> orig < number_of_bytes rb \<Longrightarrow> next_pos dev d rb p \<noteq> orig \<Longrightarrow>
      ring_dist rb orig (next_pos dev d rb p) < ring_dist rb orig p"
    by (rule ring_dist_decreases [OF assms(1,2) len next_pos_def])
qed

lemma next_pos_same_sector:
  assumes wf: "wf_rb rb" and ok: "pos_ok rb p" "entry_ok dev d rb p"
    and lt: "next_pos dev d rb p < p div 4096 * 4096 + 4096" "p < next_pos dev d rb p"
  shows "next_pos dev d rb p = entry_end dev d rb p"
proof -
  let ?h = "hdr_at dev d rb (hdr_pos p)"
  note h = hdr_pos_facts [OF wf ok(1)]
  have "hlen ?h + 4 \<le> 100000" using ok(2) by (simp add: entry_ok_def is_header_good_OK)
  from rb_incr_eq [OF wf h(2) this] h(3) lt
  show ?thesis
    by (auto simp: next_pos_def entry_end_def ring_wrap_def split: if_splits)
qed

lemma chain_snoc: "chain dev d rb p (xs @ [x]) e \<longleftrightarrow> chain dev d rb p xs x \<and> entry_ok dev d rb x \<and> next_pos dev d rb x = e"
  by (induction xs arbitrary: p) auto

lemma chain_end_ok: "wf_rb rb \<Longrightarrow> pos_ok rb p \<Longrightarrow> chain dev d rb p xs e \<Longrightarrow> pos_ok rb e"
  by (induction xs arbitrary: p) (auto dest: entry_ok_next(1))

lemma chain_all_ok: "wf_rb rb \<Longrightarrow> pos_ok rb p \<Longrightarrow> chain dev d rb p xs e \<Longrightarrow> x \<in> set xs \<Longrightarrow> pos_ok rb x \<and> entry_ok dev d rb x"
  by (induction xs arbitrary: p) (auto dest: entry_ok_next(1))

lemma findnext_chain:
  assumes "wf_rb rb" "pos_ok rb p" "chain dev d rb p xs e" "orig \<notin> set (tl (xs @ [e]))"
  shows "findnext_loop dev d orig (rb\<lparr>next_offs := p\<rparr>) = findnext_loop dev d orig (rb\<lparr>next_offs := e\<rparr>)"
  using assms
proof (induction xs arbitrary: p)
  case Nil
  then show ?case by simp
next
  case (Cons x xs)
  let ?q = "next_pos dev d rb p"
  have ok: "entry_ok dev d rb p" and ch: "chain dev d rb ?q xs e" using Cons.prems by auto
  have hd: "?q = hd (xs @ [e])" using ch by (cases xs) auto
  then have q: "?q \<noteq> orig" using Cons.prems(4) by (cases xs) auto
  have qok: "pos_ok rb ?q" by (rule entry_ok_next(1) [OF Cons.prems(1,2) ok])
  have "findnext_loop dev d orig (rb\<lparr>next_offs := p\<rparr>) = findnext_loop dev d orig (rb\<lparr>next_offs := ?q\<rparr>)"
    using Cons.prems(1,2) ok q by (subst findnext_unfold) (simp_all add: Let_def entry_ok_def)
  also have "\<dots> = findnext_loop dev d orig (rb\<lparr>next_offs := e\<rparr>)"
    by (rule Cons.IH [OF Cons.prems(1) qok ch]) (use Cons.prems(4) in \<open>cases xs; auto\<close>)
  finally show ?case .
qed

lemma same_sector_before:
  assumes wf: "wf_rb rb" and p: "pos_ok rb p" "entry_ok dev d rb p" and e: "pos_ok rb e"
    and same: "p div 4096 = e div 4096"
    and orig: "orig mod FLASH_SECTOR_SIZE = 0" "orig < number_of_bytes rb"
    and q: "next_pos dev d rb p \<noteq> orig"
    and de: "ring_dist rb orig e \<le> ring_dist rb orig (next_pos dev d rb p)"
  shows "p < e \<and> entry_end dev d rb p \<le> e"
proof -
  let ?q = "next_pos dev d rb p" and ?S = "p div 4096 * 4096"
  have bp: "?S \<le> p" "p < ?S + 4096"
    using div_mult_mod_eq [of p 4096] mod_lt_4096 [of p] by linarith+
  have be: "?S \<le> e" "e < ?S + 4096"
    using div_mult_mod_eq [of e 4096] mod_lt_4096 [of e] same by linarith+
  have os: "orig \<le> ?S \<or> ?S + 4096 \<le> orig"
  proof (cases "p < orig")
    case True
    then show ?thesis using block_fits [OF True orig(1)] by simp
  next
    case False
    then have "orig div 4096 * 4096 \<le> ?S" by (intro mult_le_mono1 div_le_mono) simp
    then show ?thesis using orig(1) div_mult_mod_eq [of orig 4096] by linarith
  qed
  note st = entry_ok_next [OF wf p]
  have qN: "?q < number_of_bytes rb" using st(1) by (simp add: pos_ok_def)
  have "?q < ?S + 4096 \<and> p < ?q \<and> ?q \<le> e"
    using st(2) os bp be de q qN orig(2) e unfolding ring_dist_def pos_ok_def
    by (auto split: if_splits)
  then show ?thesis using next_pos_same_sector [OF wf p] by simp
qed

lemma chain_before_end:
  assumes "wf_rb rb" "pos_ok rb p" "chain dev d rb p xs e" "orig \<notin> set (tl (xs @ [e]))"
    and orig: "orig mod FLASH_SECTOR_SIZE = 0" "orig < number_of_bytes rb" and "x \<in> set xs"
  shows "ring_dist rb orig e < ring_dist rb orig x \<and>
    (x div 4096 = e div 4096 \<longrightarrow> x < e \<and> entry_end dev d rb x \<le> e)"
  using assms(1-4,7)
proof (induction xs arbitrary: p x)
  case Nil
  then show ?case by simp
next
  case (Cons y xs)
  let ?q = "next_pos dev d rb p"
  have ok: "entry_ok dev d rb p" and ch: "chain dev d rb ?q xs e" and y: "y = p" using Cons.prems by auto
  have q: "?q \<noteq> orig" using Cons.prems(4) ch by (cases xs) auto
  have qok: "pos_ok rb ?q" by (rule entry_ok_next(1) [OF Cons.prems(1,2) ok])
  have tl: "orig \<notin> set (tl (xs @ [e]))" using Cons.prems(4) by (cases xs) auto
  have dq: "ring_dist rb orig ?q < ring_dist rb orig p"
    by (rule entry_ok_next(3) [OF Cons.prems(1,2) ok orig q])
  have de: "ring_dist rb orig e \<le> ring_dist rb orig ?q"
  proof (cases xs)
    case Nil
    with ch show ?thesis by simp
  next
    case (Cons z zs)
    with ch have "?q \<in> set xs" by simp
    from Cons.IH [OF Cons.prems(1) qok ch tl this] show ?thesis by simp
  qed
  have eok: "pos_ok rb e" by (rule chain_end_ok [OF Cons.prems(1) qok ch])
  have "p < e \<and> entry_end dev d rb p \<le> e" if "p div 4096 = e div 4096"
    by (rule same_sector_before [OF Cons.prems(1,2) ok eok that orig q de])
  then show ?case using Cons.IH [OF Cons.prems(1) qok ch tl] Cons.prems(5) y dq de by auto
qed

end
