(* ===== verification/Ring_Append.thy ===== *)
theory Ring_Append
  imports Ring_Walk
begin

text \<open>
  What \<^verbatim>\<open>write_headers\<close> and \<^verbatim>\<open>rb_sector_append\<close> leave in flash: one contiguous record, with
  a sector header in front of it at the start of a sector.
\<close>

lemma programmed_cong:
  assumes "\<And>i. i < n \<Longrightarrow> p i = q i"
  shows "programmed dev d d' a n p = programmed dev d d' a n q"
  using assms unfolding programmed_def by (intro all_cong1 imp_cong) auto

lemma programmed_append:
  assumes "programmed dev d d1 a m (view_of xs)" and "programmed dev d1 d2 (a + m) n (view_of ys)"
    and "length xs = m" and "length ys = n"
  shows "programmed dev d d2 a (m + n) (view_of (xs @ ys))"
proof (rule programmed_trans)
  show "programmed dev d d1 a m (view_of (xs @ ys))"
    using assms(1,3) by (subst programmed_cong [where q = "view_of xs"]) (auto simp: nth_append)
  show "programmed dev d1 d2 (a + m) n (advance (view_of (xs @ ys)) m)"
    using assms(2-4) by (subst programmed_cong [where q = "view_of ys"]) (auto simp: nth_append)
qed

lemma programmed_take_view:
  "programmed dev d d' a n data = programmed dev d d' a n (view_of (take_view n data))"
  by (rule programmed_cong) simp

text \<open>The bytes \<^verbatim>\<open>write_headers\<close> puts in front of the data.\<close>

definition written_header :: "rb_header \<Rightarrow> nat \<Rightarrow> byte \<Rightarrow> rb_header" where
  "written_header hdr sz flag = (let h = snd (make_header hdr (hid hdr) sz) in h\<lparr>hcrc := hcrc h OR flag\<rparr>)"

definition header_prefix :: "rb_t \<Rightarrow> byte list" where
  "header_prefix rb = (if next_offs rb mod FLASH_SECTOR_SIZE = 0
     then shdr_bytes (fst (make_sector_header (sector_index rb))) else [])"

definition next_index :: "rb_t \<Rightarrow> 32 word" where
  "next_index rb = (if next_offs rb mod FLASH_SECTOR_SIZE = 0 then sector_index rb + 1 else sector_index rb)"

context nor_flash
begin

lemma write_headers_spec:
  assumes wf: "wf_rb rb" and n: "next_offs rb < number_of_bytes rb"
    and fit: "next_offs rb + length (header_prefix rb) + HEADER_SIZE \<le> number_of_bytes rb"
  obtains p d' where "write_headers dev d rb hdr sz flag = (written_header hdr sz flag,
      rb\<lparr>last_wrote := next_offs rb, sector_index := next_index rb, rb_page := p,
         next_offs := ring_wrap rb (next_offs rb + length (header_prefix rb) + HEADER_SIZE)\<rparr>, d')"
    and "programmed dev d d' (base_address rb + next_offs rb) (length (header_prefix rb) + HEADER_SIZE)
      (view_of (header_prefix rb @ hdr_bytes (written_header hdr sz flag)))"
proof (cases "next_offs rb mod FLASH_SECTOR_SIZE = 0")
  case False
  let ?rb0 = "rb\<lparr>last_wrote := next_offs rb\<rparr>"
  have pre: "header_prefix rb = []" using False by (simp add: header_prefix_def)
  obtain p d' where w: "rb_append_page dev d ?rb0 (view_of (hdr_bytes (written_header hdr sz flag))) HEADER_SIZE =
      (?rb0\<lparr>next_offs := ring_wrap ?rb0 (next_offs ?rb0 + HEADER_SIZE), rb_page := p\<rparr>, d')"
    and pr: "programmed dev d d' (base_address ?rb0 + next_offs ?rb0) HEADER_SIZE (view_of (hdr_bytes (written_header hdr sz flag)))"
    by (rule rb_append_page_spec [of ?rb0 HEADER_SIZE]) (use wf n fit pre in auto)
  have "write_headers dev d rb hdr sz flag = (written_header hdr sz flag,
      ?rb0\<lparr>next_offs := ring_wrap ?rb0 (next_offs ?rb0 + HEADER_SIZE), rb_page := p\<rparr>, d')"
    using False w unfolding written_header_def
    by (simp add: write_headers_def Let_def split_beta)
  with pr pre False show ?thesis
    by (intro that [of p d']) (simp_all add: next_index_def ring_wrap_def)
next
  case True
  obtain sh where msh: "make_sector_header (sector_index rb) = (sh, sector_index rb + 1)"
    by (simp add: make_sector_header_def Let_def)
  let ?rb0 = "rb\<lparr>last_wrote := next_offs rb, sector_index := sector_index rb + 1\<rparr>"
  have pre: "header_prefix rb = shdr_bytes sh" using True by (simp add: header_prefix_def msh)
  have fit8: "next_offs rb + 8 \<le> number_of_bytes rb" using fit pre by simp
  obtain p1 d1 where w1: "rb_append_page dev d ?rb0 (view_of (shdr_bytes sh)) HEADER_SIZE =
      (?rb0\<lparr>next_offs := ring_wrap ?rb0 (next_offs ?rb0 + HEADER_SIZE), rb_page := p1\<rparr>, d1)"
    and pr1: "programmed dev d d1 (base_address ?rb0 + next_offs ?rb0) HEADER_SIZE (view_of (shdr_bytes sh))"
    by (rule rb_append_page_spec [of ?rb0 HEADER_SIZE]) (use wf n fit8 in auto)
  let ?rb1 = "?rb0\<lparr>next_offs := next_offs rb + HEADER_SIZE, rb_page := p1\<rparr>"
  have rw: "ring_wrap ?rb0 (next_offs ?rb0 + HEADER_SIZE) = next_offs rb + HEADER_SIZE"
    using fit8 by (simp add: ring_wrap_def)
  obtain p2 d2 where w2: "rb_append_page dev d1 ?rb1 (view_of (hdr_bytes (written_header hdr sz flag))) HEADER_SIZE =
      (?rb1\<lparr>next_offs := ring_wrap ?rb1 (next_offs ?rb1 + HEADER_SIZE), rb_page := p2\<rparr>, d2)"
    and pr2: "programmed dev d1 d2 (base_address ?rb1 + next_offs ?rb1) HEADER_SIZE (view_of (hdr_bytes (written_header hdr sz flag)))"
    by (rule rb_append_page_spec [of ?rb1 HEADER_SIZE]) (use wf fit8 in auto)
  have "write_headers dev d rb hdr sz flag = (written_header hdr sz flag,
      ?rb1\<lparr>next_offs := ring_wrap ?rb1 (next_offs ?rb1 + HEADER_SIZE), rb_page := p2\<rparr>, d2)"
    using True w2 unfolding written_header_def
    by (simp add: write_headers_def Let_def split_beta msh w1 [unfolded rw, simplified])
  moreover have "programmed dev d d2 (base_address rb + next_offs rb) (4 + 4)
      (view_of (shdr_bytes sh @ hdr_bytes (written_header hdr sz flag)))"
    by (rule programmed_append [of dev d d1 _ 4]) (use pr1 pr2 in \<open>simp_all add: add.assoc\<close>)
  ultimately show ?thesis
    using pre True by (intro that [of p2 d2]) (simp_all add: next_index_def ring_wrap_def)
qed

end

lemma byte_ge_ff: "0xff \<le> (b :: byte) \<longleftrightarrow> b = 0xff"
proof -
  have "unat b < 256" using unsigned_less [of b, where 'a = nat] by simp
  then show ?thesis by (auto simp: word_le_nat_alt word_unat_eq_iff)
qed

lemma length_header_prefix:
  "length (header_prefix rb) = (if next_offs rb mod FLASH_SECTOR_SIZE = 0 then HEADER_SIZE else 0)"
  by (simp add: header_prefix_def)

definition record_bytes :: "rb_t \<Rightarrow> rb_header \<Rightarrow> view \<Rightarrow> nat \<Rightarrow> byte \<Rightarrow> byte list" where
  "record_bytes rb hdr data sz flag =
     header_prefix rb @ hdr_bytes (written_header hdr sz flag) @ take_view sz data"

definition after_record :: "rb_t \<Rightarrow> view \<Rightarrow> nat \<Rightarrow> rb_t" where
  "after_record rb p sz = rb\<lparr>last_wrote := next_offs rb, sector_index := next_index rb, rb_page := p,
     next_offs := ring_wrap rb (next_offs rb + length (header_prefix rb) + HEADER_SIZE + sz)\<rparr>"

lemma sector_offset_fits:
  assumes "wf_rb rb" "p < number_of_bytes rb" "p mod 4096 + k \<le> 4096"
  shows "p + k \<le> number_of_bytes rb"
  using sector_top [OF assms(1,2)] div_mult_mod_eq [of p 4096] assms(3) by linarith

context nor_flash
begin

lemma write_record_spec:
  assumes wf: "wf_rb rb" and n: "next_offs rb < number_of_bytes rb"
    and fit: "next_offs rb mod FLASH_SECTOR_SIZE + length (header_prefix rb) + HEADER_SIZE + sz \<le> FLASH_SECTOR_SIZE"
    and sz: "0 < sz"
  obtains p rb1 d1 d' where
    "write_headers dev d rb hdr sz flag = (written_header hdr sz flag, rb1, d1)"
    and "rb_append_page dev d1 rb1 data sz = (after_record rb p sz, d')"
    and "programmed dev d d' (base_address rb + next_offs rb) (length (record_bytes rb hdr data sz flag))
      (view_of (record_bytes rb hdr data sz flag))"
proof -
  let ?L = "length (header_prefix rb) + HEADER_SIZE"
  have room: "next_offs rb + (?L + sz) \<le> number_of_bytes rb"
    by (rule sector_offset_fits [OF wf n]) (use fit in simp)
  obtain p1 d1 where w: "write_headers dev d rb hdr sz flag = (written_header hdr sz flag,
      rb\<lparr>last_wrote := next_offs rb, sector_index := next_index rb, rb_page := p1,
         next_offs := ring_wrap rb (next_offs rb + length (header_prefix rb) + HEADER_SIZE)\<rparr>, d1)"
    and pr1: "programmed dev d d1 (base_address rb + next_offs rb) ?L
      (view_of (header_prefix rb @ hdr_bytes (written_header hdr sz flag)))"
    by (rule write_headers_spec [OF wf n]) (use room in auto)
  let ?rb1 = "rb\<lparr>last_wrote := next_offs rb, sector_index := next_index rb, rb_page := p1,
         next_offs := next_offs rb + ?L\<rparr>"
  have rw: "ring_wrap rb (next_offs rb + length (header_prefix rb) + HEADER_SIZE) = next_offs rb + ?L"
    using room sz by (simp add: ring_wrap_def)
  obtain p2 d2 where a: "rb_append_page dev d1 ?rb1 data sz =
      (?rb1\<lparr>next_offs := ring_wrap ?rb1 (next_offs ?rb1 + sz), rb_page := p2\<rparr>, d2)"
    and pr2: "programmed dev d1 d2 (base_address ?rb1 + next_offs ?rb1) sz data"
    by (rule rb_append_page_spec [of ?rb1 sz]) (use wf room sz in auto)
  have "programmed dev d d2 (base_address rb + next_offs rb) (?L + sz)
      (view_of ((header_prefix rb @ hdr_bytes (written_header hdr sz flag)) @ take_view sz data))"
    by (rule programmed_append [OF pr1])
       (use pr2 in \<open>simp_all add: programmed_take_view [of _ _ _ _ _ data, symmetric] add.assoc\<close>)
  moreover have "?rb1\<lparr>next_offs := ring_wrap ?rb1 (next_offs ?rb1 + sz), rb_page := p2\<rparr> = after_record rb p2 sz"
    by (simp add: after_record_def ring_wrap_def add.assoc)
  ultimately show ?thesis
    using that [OF w [unfolded rw]] a by (simp add: record_bytes_def add.assoc)
qed

lemma rb_sector_append_fits:
  assumes wf: "wf_rb rb" and n: "next_offs rb < number_of_bytes rb"
    and sz: "0 < sz" "sz \<le> RB_MAX_APPEND_SIZE" and i: "hid hdr \<noteq> 0xff"
    and fit: "sz + HEADER_SIZE < FLASH_SECTOR_SIZE - next_offs rb mod FLASH_SECTOR_SIZE"
    and blank: "sz + HEADER_SIZE \<le> sector_blank_scan dev d rb"
  obtains p d' where "rb_sector_append dev d rb hdr data sz = Some (RB_OK, after_record rb p sz, d')"
    and "programmed dev d d' (base_address rb + next_offs rb) (length (record_bytes rb hdr data sz RB_HEADER_NOT_SMUDGED))
      (view_of (record_bytes rb hdr data sz RB_HEADER_NOT_SMUDGED))"
proof -
  have fit': "next_offs rb mod FLASH_SECTOR_SIZE + length (header_prefix rb) + HEADER_SIZE + sz \<le> FLASH_SECTOR_SIZE"
    using fit sz by (cases "next_offs rb mod FLASH_SECTOR_SIZE = 0") (simp_all add: length_header_prefix less_diff_conv)
  obtain p rb1 d1 d' where w: "write_headers dev d rb hdr sz RB_HEADER_NOT_SMUDGED = (written_header hdr sz RB_HEADER_NOT_SMUDGED, rb1, d1)"
    and a: "rb_append_page dev d1 rb1 data sz = (after_record rb p sz, d')"
    and pr: "programmed dev d d' (base_address rb + next_offs rb) (length (record_bytes rb hdr data sz RB_HEADER_NOT_SMUDGED))
      (view_of (record_bytes rb hdr data sz RB_HEADER_NOT_SMUDGED))"
    by (rule write_record_spec [OF wf n fit' sz(1)])
  have "4096 \<le> number_of_bytes rb" using sector_top [OF wf n] by simp
  moreover have "\<not> 0xff \<le> hid hdr" using i by (simp add: byte_ge_ff)
  ultimately have "rb_sector_append dev d rb hdr data sz = Some (RB_OK, after_record rb p sz, d')"
    using sz fit blank by (subst rb_sector_append.simps) (simp add: Let_def add32_small w a)
  with pr that show ?thesis by blast
qed

end

end
