(* ===== verification/Ring_Sectors.thy ===== *)
theory Ring_Sectors
  imports Ring_Append
begin

text \<open>
  The sector headers of a ring, numbered from 0, and what \<^verbatim>\<open>rb_find_ring_oldest_sector\<close> makes of
  them: it ends at the sector with the lowest index and leaves the highest one in the control
  block.
\<close>

definition sec_res :: "'d flash_dev \<Rightarrow> 'd \<Rightarrow> rb_t \<Rightarrow> nat \<Rightarrow> int" where
  "sec_res dev d rb k = is_sector_header_good (shdr_at dev d rb (k * FLASH_SECTOR_SIZE))"

definition sec_index :: "'d flash_dev \<Rightarrow> 'd \<Rightarrow> rb_t \<Rightarrow> nat \<Rightarrow> 32 word" where
  "sec_index dev d rb k = get_index (shdr_at dev d rb (k * FLASH_SECTOR_SIZE))"

lemma sec_update [simp]:
  "sec_res dev d (rb\<lparr>next_offs := v0\<rparr>) = sec_res dev d rb"
  "sec_res dev d (rb\<lparr>last_wrote := v1\<rparr>) = sec_res dev d rb"
  "sec_res dev d (rb\<lparr>sector_index := v2\<rparr>) = sec_res dev d rb"
  "sec_res dev d (rb\<lparr>rb_page := v3\<rparr>) = sec_res dev d rb"
  "sec_index dev d (rb\<lparr>next_offs := v0\<rparr>) = sec_index dev d rb"
  "sec_index dev d (rb\<lparr>last_wrote := v1\<rparr>) = sec_index dev d rb"
  "sec_index dev d (rb\<lparr>sector_index := v2\<rparr>) = sec_index dev d rb"
  "sec_index dev d (rb\<lparr>rb_page := v3\<rparr>) = sec_index dev d rb"
  by (simp_all add: sec_res_def sec_index_def fun_eq_iff)

lemma sector_addr:
  assumes "wf_rb rb" "k * FLASH_SECTOR_SIZE < number_of_bytes rb"
  shows "add32 (base_address rb) (k * FLASH_SECTOR_SIZE) = base_address rb + k * FLASH_SECTOR_SIZE"
    "u32_of_int (int (k * FLASH_SECTOR_SIZE)) = k * FLASH_SECTOR_SIZE"
proof -
  have b: "base_address rb + k * FLASH_SECTOR_SIZE < 2 ^ 32"
    by (rule wf_rb_u32 [OF assms(1)]) (use assms(2) in simp)
  show "add32 (base_address rb) (k * FLASH_SECTOR_SIZE) = base_address rb + k * FLASH_SECTOR_SIZE"
    using b by (rule add32_small)
  show "u32_of_int (int (k * FLASH_SECTOR_SIZE)) = k * FLASH_SECTOR_SIZE"
    by (rule u32_of_int_of_nat) (use b in linarith)
qed

lemma oldest_loop_unfold:
  assumes wf: "wf_rb rb" and k: "k * FLASH_SECTOR_SIZE < number_of_bytes rb"
    and good: "sec_res dev d rb k = RB_OK \<or> sec_res dev d rb k = RB_BLANK_HDR"
  shows "oldest_loop dev d rb oldnext oldest (int (k * FLASH_SECTOR_SIZE)) =
    (let older = sec_res dev d rb k = RB_OK \<and> sec_index dev d rb k < oldest;
         oldest' = (if older then sec_index dev d rb k else oldest);
         oldnext' = (if older then k * FLASH_SECTOR_SIZE else oldnext);
         rb2 = rb\<lparr>next_offs := k * FLASH_SECTOR_SIZE,
                  sector_index := (if sec_res dev d rb k = RB_OK \<and> sector_index rb \<le> sec_index dev d rb k
                                   then sec_index dev d rb k else sector_index rb)\<rparr>
     in case k of 0 \<Rightarrow> (sec_res dev d rb 0, rb2\<lparr>next_offs := oldnext'\<rparr>)
        | Suc k' \<Rightarrow> oldest_loop dev d rb2 oldnext' oldest' (int (k' * FLASH_SECTOR_SIZE)))"
proof -
  note addr = sector_addr [OF wf k]
  have hdr: "shdr_of_bytes (flash_read dev d (base_address rb + k * FLASH_SECTOR_SIZE) HEADER_SIZE) = shdr_at dev d rb (k * FLASH_SECTOR_SIZE)"
    by (simp add: shdr_at_def)
  show ?thesis
    using good addr hdr unfolding sec_res_def sec_index_def
    by (subst oldest_loop.simps) (auto simp: Let_def sec_res_def split: nat.splits)
qed

definition oldest_sector :: "'d flash_dev \<Rightarrow> 'd \<Rightarrow> rb_t \<Rightarrow> nat \<Rightarrow> nat \<Rightarrow> bool" where
  "oldest_sector dev d rb n s \<longleftrightarrow> s < n \<and> sec_res dev d rb s = RB_OK \<and>
     (\<forall>k<n. k \<noteq> s \<longrightarrow> sec_res dev d rb k = RB_OK \<longrightarrow> sec_index dev d rb s < sec_index dev d rb k)"

definition max_index :: "'d flash_dev \<Rightarrow> 'd \<Rightarrow> rb_t \<Rightarrow> nat \<Rightarrow> 32 word \<Rightarrow> bool" where
  "max_index dev d rb n i \<longleftrightarrow> sector_index rb \<le> i \<and> (\<forall>k<n. sec_res dev d rb k = RB_OK \<longrightarrow> sec_index dev d rb k \<le> i) \<and>
     (i = sector_index rb \<or> (\<exists>k<n. sec_res dev d rb k = RB_OK \<and> i = sec_index dev d rb k))"

text \<open>
  The loop from sector \<open>k\<close> down, on sectors that are good or blank: it ends at a good sector with the least
  index among those below the one found before, or where it was sent when there is none.
\<close>

definition least_from :: "'d flash_dev \<Rightarrow> 'd \<Rightarrow> rb_t \<Rightarrow> nat \<Rightarrow> nat \<Rightarrow> 32 word \<Rightarrow> nat \<Rightarrow> bool" where
  "least_from dev d rb n oldnext oldest p \<longleftrightarrow>
     (p = oldnext \<and> (\<forall>j < n. sec_res dev d rb j = RB_OK \<longrightarrow> oldest \<le> sec_index dev d rb j)) \<or>
     (\<exists>q < n. p = q * FLASH_SECTOR_SIZE \<and> sec_res dev d rb q = RB_OK \<and> sec_index dev d rb q < oldest \<and>
        (\<forall>j < n. sec_res dev d rb j = RB_OK \<longrightarrow> sec_index dev d rb q \<le> sec_index dev d rb j))"

lemma least_from_update [simp]:
  "least_from dev d (rb\<lparr>next_offs := v0\<rparr>) = least_from dev d rb"
  "least_from dev d (rb\<lparr>sector_index := v2\<rparr>) = least_from dev d rb"
  by (simp_all add: least_from_def fun_eq_iff)

lemma least_from_Suc:
  assumes "least_from dev d rb n (if older then n * FLASH_SECTOR_SIZE else oldnext) (if older then sec_index dev d rb n else oldest) p"
    and "older \<longleftrightarrow> sec_res dev d rb n = RB_OK \<and> sec_index dev d rb n < oldest"
  shows "least_from dev d rb (Suc n) oldnext oldest p"
proof (cases older)
  case True
  from assms(1) consider "p = n * FLASH_SECTOR_SIZE" "\<forall>j < n. sec_res dev d rb j = RB_OK \<longrightarrow> sec_index dev d rb n \<le> sec_index dev d rb j"
    | q where "q < n" "p = q * FLASH_SECTOR_SIZE" "sec_res dev d rb q = RB_OK" "sec_index dev d rb q < sec_index dev d rb n"
        "\<forall>j < n. sec_res dev d rb j = RB_OK \<longrightarrow> sec_index dev d rb q \<le> sec_index dev d rb j"
    using True unfolding least_from_def by auto
  then show ?thesis
  proof cases
    case 1
    with True assms(2) show ?thesis unfolding least_from_def by (intro disjI2 exI [of _ n]) (auto simp: less_Suc_eq)
  next
    case (2 q)
    then have "sec_index dev d rb q < oldest" using True assms(2) by (auto intro: less_trans)
    with 2 show ?thesis unfolding least_from_def by (intro disjI2 exI [of _ q]) (auto simp: less_Suc_eq intro: less_imp_le)
  qed
next
  case False
  have n: "sec_res dev d rb n = RB_OK \<Longrightarrow> oldest \<le> sec_index dev d rb n" using False assms(2) by (simp add: not_less)
  from assms(1) False have "least_from dev d rb n oldnext oldest p" by simp
  then show ?thesis unfolding least_from_def
  proof (elim disjE conjE exE)
    fix q assume q: "q < n" "p = q * FLASH_SECTOR_SIZE" "sec_res dev d rb q = RB_OK" "sec_index dev d rb q < oldest"
      "\<forall>j < n. sec_res dev d rb j = RB_OK \<longrightarrow> sec_index dev d rb q \<le> sec_index dev d rb j"
    then have "\<forall>j < Suc n. sec_res dev d rb j = RB_OK \<longrightarrow> sec_index dev d rb q \<le> sec_index dev d rb j"
      using n by (auto simp: less_Suc_eq)
    with q show "p = oldnext \<and> (\<forall>j < Suc n. sec_res dev d rb j = RB_OK \<longrightarrow> oldest \<le> sec_index dev d rb j) \<or>
      (\<exists>q < Suc n. p = q * FLASH_SECTOR_SIZE \<and> sec_res dev d rb q = RB_OK \<and> sec_index dev d rb q < oldest \<and>
        (\<forall>j < Suc n. sec_res dev d rb j = RB_OK \<longrightarrow> sec_index dev d rb q \<le> sec_index dev d rb j))"
      by (intro disjI2 exI [of _ q]) simp
  qed (use n in \<open>auto simp: less_Suc_eq\<close>)
qed

lemma oldest_loop_least:
  assumes "wf_rb rb" and "k * FLASH_SECTOR_SIZE < number_of_bytes rb"
    and "\<forall>j\<le>k. sec_res dev d rb j = RB_OK \<or> sec_res dev d rb j = RB_BLANK_HDR"
  shows "\<exists>p i. oldest_loop dev d rb oldnext oldest (int (k * FLASH_SECTOR_SIZE)) =
      (sec_res dev d rb 0, rb\<lparr>next_offs := p, sector_index := i\<rparr>) \<and> max_index dev d rb (Suc k) i \<and>
      least_from dev d rb (Suc k) oldnext oldest p"
  using assms
proof (induction k arbitrary: rb oldnext oldest)
  case 0
  have g: "sec_res dev d rb 0 = RB_OK \<or> sec_res dev d rb 0 = RB_BLANK_HDR" using "0.prems"(3) by simp
  define older where "older \<longleftrightarrow> sec_res dev d rb 0 = RB_OK \<and> sec_index dev d rb 0 < oldest"
  define i where "i = (if sec_res dev d rb 0 = RB_OK \<and> sector_index rb \<le> sec_index dev d rb 0
                         then sec_index dev d rb 0 else sector_index rb)"
  let ?p = "if older then 0 * FLASH_SECTOR_SIZE else oldnext"
  have "oldest_loop dev d rb oldnext oldest (int (0 * FLASH_SECTOR_SIZE)) = (sec_res dev d rb 0, rb\<lparr>next_offs := ?p, sector_index := i\<rparr>)"
    unfolding oldest_loop_unfold [OF "0.prems"(1,2) g] by (simp add: Let_def older_def [symmetric] i_def [symmetric])
  moreover have "max_index dev d rb (Suc 0) i" by (auto simp: max_index_def i_def)
  moreover have "least_from dev d rb (Suc 0) oldnext oldest ?p"
    by (rule least_from_Suc [OF _ older_def]) (simp add: least_from_def)
  ultimately show ?case by blast
next
  case (Suc k)
  let ?K = "Suc k"
  have g: "sec_res dev d rb ?K = RB_OK \<or> sec_res dev d rb ?K = RB_BLANK_HDR" using Suc.prems(3) by simp
  define older where "older \<longleftrightarrow> sec_res dev d rb ?K = RB_OK \<and> sec_index dev d rb ?K < oldest"
  define i' where "i' = (if sec_res dev d rb ?K = RB_OK \<and> sector_index rb \<le> sec_index dev d rb ?K
                         then sec_index dev d rb ?K else sector_index rb)"
  define rb2 where "rb2 = rb\<lparr>next_offs := ?K * FLASH_SECTOR_SIZE, sector_index := i'\<rparr>"
  let ?old = "if older then sec_index dev d rb ?K else oldest" and ?next = "if older then ?K * FLASH_SECTOR_SIZE else oldnext"
  have step: "oldest_loop dev d rb oldnext oldest (int (?K * FLASH_SECTOR_SIZE)) = oldest_loop dev d rb2 ?next ?old (int (k * FLASH_SECTOR_SIZE))"
    unfolding oldest_loop_unfold [OF Suc.prems(1,2) g] by (simp add: Let_def rb2_def i'_def older_def)
  obtain p i where r: "oldest_loop dev d rb2 ?next ?old (int (k * FLASH_SECTOR_SIZE)) = (sec_res dev d rb2 0, rb2\<lparr>next_offs := p, sector_index := i\<rparr>)"
    and mx: "max_index dev d rb2 (Suc k) i" and l: "least_from dev d rb2 (Suc k) ?next ?old p"
    using Suc.IH [of rb2 ?next ?old] Suc.prems by (auto simp: rb2_def)
  have "max_index dev d rb (Suc ?K) i"
    using mx unfolding max_index_def rb2_def i'_def by (auto simp: less_Suc_eq split: if_splits)
  moreover have "least_from dev d rb (Suc ?K) oldnext oldest p"
    by (rule least_from_Suc [OF _ older_def]) (use l in \<open>simp add: rb2_def\<close>)
  ultimately show ?case using r unfolding step by (intro exI [of _ p] exI [of _ i]) (simp add: rb2_def)
qed

text \<open>A sector older than all others is the one it ends at.\<close>

lemma least_from_oldest:
  assumes "least_from dev d rb n oldnext oldest p"
    and "(oldest_sector dev d rb n s \<and> sec_index dev d rb s < oldest) \<or>
         (oldnext = s * FLASH_SECTOR_SIZE \<and> (\<forall>j<n. sec_res dev d rb j = RB_OK \<longrightarrow> oldest \<le> sec_index dev d rb j))"
  shows "p = s * FLASH_SECTOR_SIZE"
  using assms(1) unfolding least_from_def
proof (elim disjE conjE exE)
  fix q assume q: "q < n" "p = q * FLASH_SECTOR_SIZE" "sec_res dev d rb q = RB_OK" "sec_index dev d rb q < oldest"
    "\<forall>j < n. sec_res dev d rb j = RB_OK \<longrightarrow> sec_index dev d rb q \<le> sec_index dev d rb j"
  with assms(2) have o: "oldest_sector dev d rb n s" by (auto simp: not_le [symmetric])
  have "q = s"
  proof (rule ccontr)
    assume "q \<noteq> s"
    then have "sec_index dev d rb s < sec_index dev d rb q" using o q(1,3) by (simp add: oldest_sector_def)
    moreover have "sec_index dev d rb q \<le> sec_index dev d rb s" using o q(5) by (simp add: oldest_sector_def)
    ultimately show False by simp
  qed
  with q(2) show ?thesis by simp
next
  assume "p = oldnext" "\<forall>j < n. sec_res dev d rb j = RB_OK \<longrightarrow> oldest \<le> sec_index dev d rb j"
  with assms(2) show ?thesis by (auto simp: oldest_sector_def not_le [symmetric])
qed

definition sector_count :: "rb_t \<Rightarrow> nat" where
  "sector_count rb = number_of_bytes rb div FLASH_SECTOR_SIZE"

lemma sector_count_pos: "wf_rb rb \<Longrightarrow> 0 < sector_count rb \<and> number_of_bytes rb = sector_count rb * FLASH_SECTOR_SIZE"
  using div_mult_mod_eq [of "number_of_bytes rb" 4096] by (auto simp: sector_count_def wf_rb_def)

definition sectors_valid :: "'d flash_dev \<Rightarrow> 'd \<Rightarrow> rb_t \<Rightarrow> bool" where
  "sectors_valid dev d rb \<longleftrightarrow> (\<forall>k < sector_count rb. sec_res dev d rb k = RB_OK \<or> sec_res dev d rb k = RB_BLANK_HDR)"

lemma sectors_update [simp]:
  "sector_count (rb\<lparr>next_offs := v0\<rparr>) = sector_count rb"
  "sector_count (rb\<lparr>last_wrote := v1\<rparr>) = sector_count rb"
  "sector_count (rb\<lparr>sector_index := v2\<rparr>) = sector_count rb"
  "sector_count (rb\<lparr>rb_page := v3\<rparr>) = sector_count rb"
  "oldest_sector dev d (rb\<lparr>next_offs := v0\<rparr>) = oldest_sector dev d rb"
  "oldest_sector dev d (rb\<lparr>last_wrote := v1\<rparr>) = oldest_sector dev d rb"
  "oldest_sector dev d (rb\<lparr>sector_index := v2\<rparr>) = oldest_sector dev d rb"
  "oldest_sector dev d (rb\<lparr>rb_page := v3\<rparr>) = oldest_sector dev d rb"
  "sectors_valid dev d (rb\<lparr>next_offs := v0\<rparr>) = sectors_valid dev d rb"
  "sectors_valid dev d (rb\<lparr>last_wrote := v1\<rparr>) = sectors_valid dev d rb"
  "sectors_valid dev d (rb\<lparr>sector_index := v2\<rparr>) = sectors_valid dev d rb"
  "sectors_valid dev d (rb\<lparr>rb_page := v3\<rparr>) = sectors_valid dev d rb"
  by (simp_all add: sector_count_def oldest_sector_def sectors_valid_def fun_eq_iff)

lemma find_ring_oldest_least:
  assumes wf: "wf_rb rb" and val: "sectors_valid dev d rb"
  shows "\<exists>p i. rb_find_ring_oldest_sector dev d rb = (sec_res dev d rb 0, rb\<lparr>next_offs := p, sector_index := i\<rparr>) \<and>
     max_index dev d rb (sector_count rb) i \<and> least_from dev d rb (sector_count rb) 0 RB_INDEX_MASK p"
proof -
  obtain k where k: "sector_count rb = Suc k" and nb: "number_of_bytes rb = Suc k * FLASH_SECTOR_SIZE"
    using sector_count_pos [OF wf] by (metis gr0_implies_Suc)
  have "int (number_of_bytes rb) - int FLASH_SECTOR_SIZE = int (k * FLASH_SECTOR_SIZE)" by (simp add: nb)
  then show ?thesis
    using oldest_loop_least [OF wf, of k dev d 0 RB_INDEX_MASK] val k nb
    by (simp add: rb_find_ring_oldest_sector_def sectors_valid_def less_Suc_eq_le)
qed

lemma find_ring_oldest_spec:
  assumes wf: "wf_rb rb" and val: "sectors_valid dev d rb"
    and s: "(oldest_sector dev d rb (sector_count rb) s \<and> sec_index dev d rb s < RB_INDEX_MASK) \<or>
            (s = 0 \<and> (\<forall>k < sector_count rb. sec_res dev d rb k \<noteq> RB_OK))"
  shows "\<exists>i. rb_find_ring_oldest_sector dev d rb =
     (sec_res dev d rb 0, rb\<lparr>next_offs := s * FLASH_SECTOR_SIZE, sector_index := i\<rparr>) \<and>
     max_index dev d rb (sector_count rb) i"
proof -
  obtain p i where r: "rb_find_ring_oldest_sector dev d rb = (sec_res dev d rb 0, rb\<lparr>next_offs := p, sector_index := i\<rparr>)"
    "max_index dev d rb (sector_count rb) i" "least_from dev d rb (sector_count rb) 0 RB_INDEX_MASK p"
    using find_ring_oldest_least [OF wf val] by blast
  have "p = s * FLASH_SECTOR_SIZE" by (rule least_from_oldest [OF r(3)]) (use s in auto)
  with r(1,2) show ?thesis by blast
qed

end
