(* ===== verification/Ring_Log.thy ===== *)
theory Ring_Log
  imports Ring_Sectors
begin

text \<open>
  The ring as a log. \<open>ring_inv\<close> ties the bytes in flash to a list of record positions that starts
  at the oldest sector and ends at the first writeable position; \<open>ring_log\<close> reads the
  abstract log off it. \<^verbatim>\<open>rb_append\<close> refines appending to that list.
\<close>

section \<open>Entries and the invariant\<close>

record log_entry =
  ent_id :: byte
  ent_live :: bool
  ent_data :: "byte list"

definition entry_of :: "'d flash_dev \<Rightarrow> 'd \<Rightarrow> rb_t \<Rightarrow> nat \<Rightarrow> log_entry" where
  "entry_of dev d rb p =
     (let h = hdr_at dev d rb (hdr_pos p)
      in \<lparr> ent_id = hid h, ent_live = (hcrc h AND RB_HEADER_NOT_SMUDGED \<noteq> 0),
           ent_data = flash_read dev d (base_address rb + hdr_pos p + HEADER_SIZE) (hlen h) \<rparr>)"

definition ring_log :: "'d flash_dev \<Rightarrow> 'd \<Rightarrow> rb_t \<Rightarrow> nat list \<Rightarrow> log_entry list" where
  "ring_log dev d rb xs = map (entry_of dev d rb) xs"

definition sector_end :: "nat \<Rightarrow> nat" where
  "sector_end p = p div FLASH_SECTOR_SIZE * FLASH_SECTOR_SIZE + FLASH_SECTOR_SIZE"

definition whole_entry :: "'d flash_dev \<Rightarrow> 'd \<Rightarrow> rb_t \<Rightarrow> nat \<Rightarrow> bool" where
  "whole_entry dev d rb p \<longleftrightarrow> entry_end dev d rb p \<le> sector_end p \<and>
     hcrc (hdr_at dev d rb (hdr_pos p)) AND RB_HEADER_SPLIT = 0"

definition free_at :: "'d flash_dev \<Rightarrow> 'd \<Rightarrow> rb_t \<Rightarrow> nat list \<Rightarrow> nat \<Rightarrow> bool" where
  "free_at dev d rb xs p \<longleftrightarrow> p < number_of_bytes rb \<and>
     (\<forall>x\<in>set xs. x div FLASH_SECTOR_SIZE = p div FLASH_SECTOR_SIZE \<longrightarrow> entry_end dev d rb x \<le> p)"

definition index_at :: "'d flash_dev \<Rightarrow> 'd \<Rightarrow> rb_t \<Rightarrow> nat \<Rightarrow> 32 word" where
  "index_at dev d rb p = get_index (shdr_at dev d rb p)"

definition sector_starts :: "nat list \<Rightarrow> nat list" where
  "sector_starts xs = filter (\<lambda>x. x mod FLASH_SECTOR_SIZE = 0) xs"

text \<open>
  \<open>s\<close> is the start of the oldest sector, \<open>xs\<close> the positions of the records and \<open>e\<close> the position
  after the last one; \<open>e = s\<close> with a non-empty list is a full ring. \<open>m\<close> bounds the sector
  indices in use.
\<close>

definition ring_inv :: "'d flash_dev \<Rightarrow> 'd \<Rightarrow> rb_t \<Rightarrow> nat \<Rightarrow> nat list \<Rightarrow> nat \<Rightarrow> 32 word \<Rightarrow> bool" where
  "ring_inv dev d rb s xs e m \<longleftrightarrow> wf_rb rb \<and> s mod FLASH_SECTOR_SIZE = 0 \<and> s < number_of_bytes rb \<and>
     (xs = [] \<longrightarrow> s = 0) \<and> chain dev d rb s xs e \<and> s \<notin> set (tl xs) \<and>
     (\<forall>x\<in>set xs. whole_entry dev d rb x) \<and>
     (\<forall>p. free_at dev d rb xs p \<longrightarrow> xip dev d (base_address rb + p) = 0xff) \<and>
     sorted_wrt (<) (map (index_at dev d rb) (sector_starts xs)) \<and>
     (\<forall>x\<in>set (sector_starts xs). index_at dev d rb x \<le> m) \<and> sector_index rb \<le> m"

definition ring_full :: "nat \<Rightarrow> nat list \<Rightarrow> nat \<Rightarrow> bool" where
  "ring_full s xs e \<longleftrightarrow> xs \<noteq> [] \<and> e = s"

lemma log_update [simp]:
  "entry_of dev d (rb\<lparr>next_offs := v0\<rparr>) = entry_of dev d rb"
  "entry_of dev d (rb\<lparr>last_wrote := v1\<rparr>) = entry_of dev d rb"
  "entry_of dev d (rb\<lparr>sector_index := v2\<rparr>) = entry_of dev d rb"
  "entry_of dev d (rb\<lparr>rb_page := v3\<rparr>) = entry_of dev d rb"
  "whole_entry dev d (rb\<lparr>next_offs := v0\<rparr>) = whole_entry dev d rb"
  "whole_entry dev d (rb\<lparr>last_wrote := v1\<rparr>) = whole_entry dev d rb"
  "whole_entry dev d (rb\<lparr>sector_index := v2\<rparr>) = whole_entry dev d rb"
  "whole_entry dev d (rb\<lparr>rb_page := v3\<rparr>) = whole_entry dev d rb"
  "free_at dev d (rb\<lparr>next_offs := v0\<rparr>) = free_at dev d rb"
  "free_at dev d (rb\<lparr>last_wrote := v1\<rparr>) = free_at dev d rb"
  "free_at dev d (rb\<lparr>sector_index := v2\<rparr>) = free_at dev d rb"
  "free_at dev d (rb\<lparr>rb_page := v3\<rparr>) = free_at dev d rb"
  "index_at dev d (rb\<lparr>next_offs := v0\<rparr>) = index_at dev d rb"
  "index_at dev d (rb\<lparr>last_wrote := v1\<rparr>) = index_at dev d rb"
  "index_at dev d (rb\<lparr>sector_index := v2\<rparr>) = index_at dev d rb"
  "index_at dev d (rb\<lparr>rb_page := v3\<rparr>) = index_at dev d rb"
  by (simp_all add: entry_of_def whole_entry_def free_at_def index_at_def fun_eq_iff)

lemma ring_log_update [simp]:
  "ring_log dev d (rb\<lparr>next_offs := v0\<rparr>) = ring_log dev d rb"
  "ring_log dev d (rb\<lparr>last_wrote := v1\<rparr>) = ring_log dev d rb"
  "ring_log dev d (rb\<lparr>sector_index := v2\<rparr>) = ring_log dev d rb"
  "ring_log dev d (rb\<lparr>rb_page := v3\<rparr>) = ring_log dev d rb"
  by (simp_all add: ring_log_def fun_eq_iff)

lemma ring_inv_update [simp]:
  "ring_inv dev d (rb\<lparr>next_offs := v0\<rparr>) s xs e m = ring_inv dev d rb s xs e m"
  "ring_inv dev d (rb\<lparr>last_wrote := v1\<rparr>) s xs e m = ring_inv dev d rb s xs e m"
  "ring_inv dev d (rb\<lparr>rb_page := v3\<rparr>) s xs e m = ring_inv dev d rb s xs e m"
  by (simp_all add: ring_inv_def)

text \<open>Two control blocks of the same ring.\<close>

lemma same_ring:
  fixes rb rb' :: rb_t
  assumes "base_address rb' = base_address rb" "number_of_bytes rb' = number_of_bytes rb"
  shows "rb' = rb\<lparr>next_offs := next_offs rb', last_wrote := last_wrote rb', sector_index := sector_index rb', rb_page := rb_page rb'\<rparr>"
  using assms by (cases rb, cases rb') simp

lemma ring_inv_cong:
  assumes "base_address rb' = base_address rb" "number_of_bytes rb' = number_of_bytes rb" "sector_index rb' \<le> m"
    and inv: "ring_inv dev d rb s xs e m"
  shows "ring_inv dev d rb' s xs e m"
proof -
  obtain n l i p where "rb' = rb\<lparr>next_offs := n, last_wrote := l, sector_index := i, rb_page := p\<rparr>" "i \<le> m"
    using same_ring [OF assms(1,2)] assms(3) by blast
  with inv show ?thesis by (simp add: ring_inv_def)
qed

section \<open>What a byte change outside an entry leaves alone\<close>

definition same_bytes :: "'d flash_dev \<Rightarrow> 'd \<Rightarrow> 'd \<Rightarrow> rb_t \<Rightarrow> nat \<Rightarrow> nat \<Rightarrow> bool" where
  "same_bytes dev d d' rb lo hi \<longleftrightarrow>
     (\<forall>p. lo \<le> p \<and> p < hi \<longrightarrow> xip dev d' (base_address rb + p) = xip dev d (base_address rb + p))"

lemma same_bytes_read:
  assumes "same_bytes dev d d' rb lo hi" "lo \<le> p" "p + n \<le> hi"
  shows "flash_read dev d' (base_address rb + p) n = flash_read dev d (base_address rb + p) n"
  by (rule flash_read_cong) (use assms in \<open>simp add: same_bytes_def add.assoc\<close>)

lemma entry_frame:
  assumes "same_bytes dev d d' rb x (entry_end dev d rb x)"
  shows "hdr_at dev d' rb (hdr_pos x) = hdr_at dev d rb (hdr_pos x)"
    "sector_ok dev d' rb x = sector_ok dev d rb x"
    "entry_ok dev d' rb x = entry_ok dev d rb x"
    "next_pos dev d' rb x = next_pos dev d rb x"
    "entry_end dev d' rb x = entry_end dev d rb x"
    "entry_of dev d' rb x = entry_of dev d rb x"
    "whole_entry dev d' rb x = whole_entry dev d rb x"
    "x mod FLASH_SECTOR_SIZE = 0 \<Longrightarrow> index_at dev d' rb x = index_at dev d rb x"
proof -
  have le: "x \<le> hdr_pos x" by (simp add: hdr_pos_def)
  show h: "hdr_at dev d' rb (hdr_pos x) = hdr_at dev d rb (hdr_pos x)"
    using same_bytes_read [OF assms le, of 4] by (simp add: hdr_at_def entry_end_def)
  have sh: "shdr_at dev d' rb x = shdr_at dev d rb x" if "x mod 4096 = 0"
    using same_bytes_read [OF assms, of x 4] that by (simp add: shdr_at_def entry_end_def hdr_pos_def)
  then show so: "sector_ok dev d' rb x = sector_ok dev d rb x" by (simp add: sector_ok_def)
  show "x mod FLASH_SECTOR_SIZE = 0 \<Longrightarrow> index_at dev d' rb x = index_at dev d rb x"
    using sh by (simp add: index_at_def)
  show "entry_ok dev d' rb x = entry_ok dev d rb x" "next_pos dev d' rb x = next_pos dev d rb x"
    "entry_end dev d' rb x = entry_end dev d rb x" "whole_entry dev d' rb x = whole_entry dev d rb x"
    by (simp_all add: entry_ok_def next_pos_def entry_end_def whole_entry_def h so)
  have "flash_read dev d' (base_address rb + (hdr_pos x + 4)) (hlen (hdr_at dev d rb (hdr_pos x))) =
        flash_read dev d (base_address rb + (hdr_pos x + 4)) (hlen (hdr_at dev d rb (hdr_pos x)))"
    by (rule same_bytes_read [OF assms]) (use le in \<open>simp_all add: entry_end_def\<close>)
  then show "entry_of dev d' rb x = entry_of dev d rb x"
    by (simp add: entry_of_def h add.assoc)
qed

lemma chain_frame:
  assumes "\<forall>x\<in>set xs. same_bytes dev d d' rb x (entry_end dev d rb x)"
  shows "chain dev d' rb p xs e = chain dev d rb p xs e"
  using assms
proof (induction xs arbitrary: p)
  case Nil
  then show ?case by simp
next
  case (Cons x xs)
  then show ?case by (auto simp: entry_frame)
qed

lemma ring_log_frame:
  assumes "\<forall>x\<in>set xs. same_bytes dev d d' rb x (entry_end dev d rb x)"
  shows "ring_log dev d' rb xs = ring_log dev d rb xs"
  using assms by (simp add: ring_log_def entry_frame)

section \<open>Where the log ends\<close>

lemma chain_sector_start:
  assumes "wf_rb rb" "pos_ok rb p" "chain dev d rb p xs e" "x \<in> set xs"
  shows "x div 4096 = p div 4096 \<or> x div 4096 * 4096 \<in> set xs"
  using assms
proof (induction xs arbitrary: p)
  case Nil
  then show ?case by simp
next
  case (Cons y ys)
  let ?q = "next_pos dev d rb p"
  have ok: "entry_ok dev d rb p" and ch: "chain dev d rb ?q ys e" and y: "y = p" using Cons.prems by auto
  note st = entry_ok_next(1,2) [OF Cons.prems(1,2) ok]
  show ?case
  proof (cases "x = p")
    case False
    then have x: "x \<in> set ys" using Cons.prems(4) y by simp
    then have q: "?q \<in> set ys" using ch by (cases ys) auto
    from Cons.IH [OF Cons.prems(1) st(1) ch x] show ?thesis
    proof
      assume xq: "x div 4096 = ?q div 4096"
      have "?q div 4096 = p div 4096 \<or> ?q div 4096 * 4096 = ?q"
      proof (cases "?q = 0 \<or> ?q = p div 4096 * 4096 + 4096")
        case True
        then show ?thesis by auto
      next
        case False
        then have "p < ?q" "?q < p div 4096 * 4096 + 4096" using st(2) by auto
        moreover have "p div 4096 * 4096 \<le> p" by simp
        ultimately have "?q div 4096 = p div 4096"
          by (intro div_nat_eqI) (simp_all add: mult.commute)
        then show ?thesis ..
      qed
      then show ?thesis using xq q y by auto
    next
      assume "x div 4096 * 4096 \<in> set ys"
      then show ?thesis by simp
    qed
  qed simp
qed

lemma div_less_sectors: "wf_rb rb \<Longrightarrow> p < number_of_bytes rb \<Longrightarrow> p div 4096 < sector_count rb"
  using sector_count_pos [of rb] by (simp add: less_mult_imp_div_less)

lemma ring_invD:
  assumes "ring_inv dev d rb s xs e m"
  shows "wf_rb rb" "s mod 4096 = 0" "s < number_of_bytes rb" "chain dev d rb s xs e" "pos_ok rb s" "pos_ok rb e"
    "\<And>x. x \<in> set xs \<Longrightarrow> pos_ok rb x" "\<And>x. x \<in> set xs \<Longrightarrow> entry_ok dev d rb x" "\<And>x. x \<in> set xs \<Longrightarrow> whole_entry dev d rb x"
    "\<not> ring_full s xs e \<Longrightarrow> s \<notin> set (tl (xs @ [e]))"
    "\<And>p. free_at dev d rb xs p \<Longrightarrow> xip dev d (base_address rb + p) = 0xff"
proof -
  show wf: "wf_rb rb" and "s mod 4096 = 0" "s < number_of_bytes rb" and ch: "chain dev d rb s xs e"
    and "\<And>x. x \<in> set xs \<Longrightarrow> whole_entry dev d rb x"
    "\<And>p. free_at dev d rb xs p \<Longrightarrow> xip dev d (base_address rb + p) = 0xff"
    using assms by (simp_all add: ring_inv_def)
  then show s: "pos_ok rb s" by (simp add: pos_ok_def)
  show "pos_ok rb e" by (rule chain_end_ok [OF wf s ch])
  show "\<And>x. x \<in> set xs \<Longrightarrow> pos_ok rb x" "\<And>x. x \<in> set xs \<Longrightarrow> entry_ok dev d rb x"
    using chain_all_ok [OF wf s ch] by simp_all
  show "\<not> ring_full s xs e \<Longrightarrow> s \<notin> set (tl (xs @ [e]))"
    using assms by (cases xs) (auto simp: ring_inv_def ring_full_def)
qed

lemma free_after_end:
  assumes inv: "ring_inv dev d rb s xs e m" and nf: "\<not> ring_full s xs e"
    and p: "e \<le> p" "p < sector_end e"
  shows "free_at dev d rb xs p"
proof -
  note D = ring_invD [OF inv]
  have e: "e < number_of_bytes rb" using D(6) by (simp add: pos_ok_def)
  have "e div 4096 * 4096 \<le> p" using p(1) div_mult_mod_eq [of e 4096] by linarith
  then have same: "p div 4096 = e div 4096"
    using p(2) by (intro div_nat_eqI) (simp_all add: sector_end_def mult.commute)
  have "p < number_of_bytes rb"
    using p(2) sector_top [OF D(1) e] by (simp add: sector_end_def)
  moreover have "entry_end dev d rb x \<le> p" if "x \<in> set xs" "x div 4096 = p div 4096" for x
    using chain_before_end [OF D(1,5,4) D(10) [OF nf] D(2,3) that(1)] that(2) same p(1) by simp
  ultimately show ?thesis by (simp add: free_at_def)
qed

lemma blank_read:
  assumes "\<And>i. i < n \<Longrightarrow> xip dev d (a + i) = 0xff"
  shows "flash_read dev d a n = replicate n 0xff"
  by (rule nth_equalityI) (use assms in simp_all)

lemma blank_headers:
  assumes "\<And>i. i < 4 \<Longrightarrow> xip dev d (base_address rb + p + i) = 0xff"
  shows "is_sector_header_good (shdr_at dev d rb p) = RB_BLANK_HDR" "is_header_good (hdr_at dev d rb p) = RB_BLANK_HDR"
proof -
  have "flash_read dev d (base_address rb + p) 4 = [0xff, 0xff, 0xff, 0xff]"
    by (subst blank_read) (use assms in \<open>simp_all add: numeral_eq_Suc\<close>)
  then show "is_sector_header_good (shdr_at dev d rb p) = RB_BLANK_HDR" "is_header_good (hdr_at dev d rb p) = RB_BLANK_HDR"
    using blank_shdr_of_bytes blank_hdr_of_bytes by (simp_all add: shdr_at_def hdr_at_def)
qed

lemma visited_sector:
  assumes inv: "ring_inv dev d rb s xs e m" and x: "x \<in> set xs"
  shows "x div 4096 * 4096 \<in> set (sector_starts xs)" "sec_res dev d rb (x div 4096) = RB_OK"
    "sec_index dev d rb (x div 4096) = index_at dev d rb (x div 4096 * 4096)"
proof -
  note D = ring_invD [OF inv]
  have "s \<in> set xs" using D(4) x by (cases xs) auto
  moreover have "s div 4096 * 4096 = s" using D(2) by auto
  ultimately have "x div 4096 * 4096 \<in> set xs"
    using chain_sector_start [OF D(1,5,4) x] by metis
  then show "x div 4096 * 4096 \<in> set (sector_starts xs)" by (simp add: sector_starts_def)
  have "sector_ok dev d rb (x div 4096 * 4096)"
    using D(8) [OF \<open>x div 4096 * 4096 \<in> set xs\<close>] by (simp add: entry_ok_def)
  then show "sec_res dev d rb (x div 4096) = RB_OK" by (simp add: sector_ok_def sec_res_def)
  show "sec_index dev d rb (x div 4096) = index_at dev d rb (x div 4096 * 4096)"
    by (simp add: sec_index_def index_at_def)
qed

lemma unvisited_sector:
  assumes inv: "ring_inv dev d rb s xs e m" and k: "k < sector_count rb" and u: "\<forall>x\<in>set xs. x div 4096 \<noteq> k"
  shows "sec_res dev d rb k = RB_BLANK_HDR"
proof -
  note D = ring_invD [OF inv]
  have "Suc k * 4096 \<le> sector_count rb * 4096" by (rule mult_le_mono1) (use k in simp)
  then have N: "k * 4096 + 4096 \<le> number_of_bytes rb" using sector_count_pos [OF D(1)] by simp
  have "xip dev d (base_address rb + (k * 4096 + i)) = 0xff" if "i < 4" for i
    by (rule D(11)) (use u that N in \<open>auto simp: free_at_def\<close>)
  then show ?thesis
    unfolding sec_res_def by (intro blank_headers(1)) (simp add: add.assoc)
qed

lemma ring_inv_sectors_valid:
  assumes inv: "ring_inv dev d rb s xs e m"
  shows "sectors_valid dev d rb"
  using visited_sector(2) [OF inv] unvisited_sector [OF inv] unfolding sectors_valid_def by metis

lemma ring_inv_max:
  assumes inv: "ring_inv dev d rb s xs e m" and mx: "max_index dev d rb (sector_count rb) i"
  shows "i \<le> m" "\<And>x. x \<in> set (sector_starts xs) \<Longrightarrow> index_at dev d rb x \<le> i"
proof -
  note D = ring_invD [OF inv]
  have vis: "sec_index dev d rb k \<le> m" if ok: "sec_res dev d rb k = RB_OK" and k: "k < sector_count rb" for k
  proof -
    obtain x where "x \<in> set xs" "x div 4096 = k" using unvisited_sector [OF inv k] ok by force
    then show ?thesis using visited_sector [OF inv] inv by (auto simp: ring_inv_def)
  qed
  then show "i \<le> m" using mx inv by (auto simp: max_index_def ring_inv_def)
  fix x assume x: "x \<in> set (sector_starts xs)"
  then have xs: "x \<in> set xs" "x div 4096 * 4096 = x" by (auto simp: sector_starts_def)
  have "x div 4096 < sector_count rb"
    using div_less_sectors [OF D(1)] D(7) [OF xs(1)] by (simp add: pos_ok_def)
  with visited_sector(2) [OF inv xs(1)] mx have "sec_index dev d rb (x div 4096) \<le> i"
    by (simp add: max_index_def)
  with visited_sector(3) [OF inv xs(1)] xs(2) show "index_at dev d rb x \<le> i" by simp
qed

lemma ring_inv_oldest:
  assumes inv: "ring_inv dev d rb s xs e m" and ne: "xs \<noteq> []"
  shows "oldest_sector dev d rb (sector_count rb) (s div 4096)" "sec_index dev d rb (s div 4096) \<le> m"
proof -
  note D = ring_invD [OF inv]
  obtain ys where xs: "xs = s # ys" using D(4) ne by (cases xs) auto
  have ss: "sector_starts xs = s # sector_starts ys" using D(2) by (simp add: xs sector_starts_def)
  have s: "s div 4096 * 4096 = s" using D(2) by auto
  have sx: "s \<in> set xs" by (simp add: xs)
  note vs = visited_sector [OF inv sx]
  have "sec_index dev d rb (s div 4096) < sec_index dev d rb k"
    if k: "k < sector_count rb" "k \<noteq> s div 4096" "sec_res dev d rb k = RB_OK" for k
  proof -
    obtain x where x: "x \<in> set xs" "x div 4096 = k" using unvisited_sector [OF inv k(1)] k(3) by force
    then have "k * 4096 \<in> set (sector_starts xs)" using visited_sector(1) [OF inv x(1)] by simp
    then have "k * 4096 \<in> set (sector_starts ys)" using ss s k(2) by force
    then have "index_at dev d rb s < index_at dev d rb (k * 4096)"
      using inv ss by (simp add: ring_inv_def)
    then show ?thesis using vs visited_sector(3) [OF inv x(1)] x(2) s by simp
  qed
  then show "oldest_sector dev d rb (sector_count rb) (s div 4096)"
    using vs(2) div_less_sectors [OF D(1,3)] by (simp add: oldest_sector_def)
  show "sec_index dev d rb (s div 4096) \<le> m" using vs inv by (auto simp: ring_inv_def)
qed

lemma rb_swap: "rb\<lparr>next_offs := a, sector_index := b\<rparr> = rb\<lparr>sector_index := b, next_offs := a\<rparr>"
  by simp

lemma ring_inv_find_oldest:
  assumes inv: "ring_inv dev d rb s xs e m" and m: "m < RB_INDEX_MASK"
  obtains r i where "rb_find_ring_oldest_sector dev d rb = (r, rb\<lparr>sector_index := i, next_offs := s\<rparr>)"
    and "r = RB_OK \<or> r = RB_BLANK_HDR" and "i \<le> m" and "r = sec_res dev d rb 0"
    and "\<And>x. x \<in> set (sector_starts xs) \<Longrightarrow> index_at dev d rb x \<le> i"
proof -
  note D = ring_invD [OF inv]
  have s: "s div 4096 * 4096 = s" using D(2) by auto
  have "(oldest_sector dev d rb (sector_count rb) (s div 4096) \<and> sec_index dev d rb (s div 4096) < RB_INDEX_MASK) \<or>
      (s div 4096 = 0 \<and> (\<forall>k < sector_count rb. sec_res dev d rb k \<noteq> RB_OK))"
  proof (cases "xs = []")
    case True
    then have "\<forall>k < sector_count rb. sec_res dev d rb k = RB_BLANK_HDR"
      using unvisited_sector [OF inv] by simp
    moreover have "s = 0" using True inv by (simp add: ring_inv_def)
    ultimately show ?thesis by simp
  next
    case False
    from ring_inv_oldest [OF inv this] m show ?thesis by (auto intro: le_less_trans)
  qed
  from find_ring_oldest_spec [OF D(1) ring_inv_sectors_valid [OF inv] this, unfolded rb_swap] s
  obtain i where i: "rb_find_ring_oldest_sector dev d rb = (sec_res dev d rb 0, rb\<lparr>sector_index := i, next_offs := s\<rparr>)"
    and mx: "max_index dev d rb (sector_count rb) i" by auto
  moreover have "sec_res dev d rb 0 = RB_OK \<or> sec_res dev d rb 0 = RB_BLANK_HDR"
    using ring_inv_sectors_valid [OF inv] sector_count_pos [OF D(1)] by (auto simp: sectors_valid_def)
  ultimately show ?thesis using that ring_inv_max [OF inv mx] by blast
qed

lemma findnext_room:
  assumes inv: "ring_inv dev d rb s xs e m" and nf: "\<not> ring_full s xs e"
  shows "rb_findnext_writeable dev d (rb\<lparr>next_offs := s\<rparr>) = Some (RB_BLANK_HDR, rb\<lparr>next_offs := e\<rparr>)"
proof -
  note D = ring_invD [OF inv]
  have top: "e + 4 \<le> sector_end e"
    using D(6) div_mult_mod_eq [of e 4096] unfolding sector_end_def pos_ok_def by linarith
  have ff: "xip dev d (base_address rb + e + i) = 0xff" if "i < 4" for i
    using D(11) [OF free_after_end [OF inv nf, of "e + i"]] that top by (simp add: add.assoc)
  note b = blank_headers [of dev d rb e, OF ff]
  have "findnext_loop dev d s (rb\<lparr>next_offs := e\<rparr>) = Some (RB_BLANK_HDR, rb\<lparr>next_offs := e\<rparr>)"
    using D(1,6) b
    by (subst findnext_unfold) (auto simp: Let_def sector_ok_def hdr_pos_def)
  then show ?thesis
    using D(3) findnext_chain [OF D(1,5,4) D(10) [OF nf]]
    by (simp add: rb_findnext_writeable_def)
qed

lemma findnext_full:
  assumes inv: "ring_inv dev d rb s xs e m" and f: "ring_full s xs e"
  shows "rb_findnext_writeable dev d (rb\<lparr>next_offs := s\<rparr>) = Some (RB_HDR_LOOP, rb\<lparr>next_offs := s\<rparr>)"
proof -
  note D = ring_invD [OF inv]
  obtain ys x where xs: "xs = ys @ [x]" using f by (cases xs rule: rev_exhaust) (auto simp: ring_full_def)
  have ch: "chain dev d rb s ys x" "entry_ok dev d rb x" "next_pos dev d rb x = s"
    using D(4) f by (simp_all add: xs chain_snoc ring_full_def)
  have tl: "s \<notin> set (tl (ys @ [x]))" using inv by (simp add: ring_inv_def xs)
  have "FLASH_SECTOR s = s" using D(2) by (auto simp: FLASH_SECTOR_def)
  then have "findnext_loop dev d s (rb\<lparr>next_offs := x\<rparr>) = Some (RB_HDR_LOOP, rb\<lparr>next_offs := s\<rparr>)"
    using D(1) D(7) [of x] ch(2,3) by (subst findnext_unfold) (auto simp: Let_def entry_ok_def xs)
  then show ?thesis
    using D(3) findnext_chain [OF D(1,5) ch(1) tl] by (simp add: rb_findnext_writeable_def)
qed

lemma written_header_facts:
  assumes "0 < sz" "sz \<le> PERSISTENT_LEN" "hid hdr \<noteq> 0xff" and w: "w = written_header hdr sz RB_HEADER_NOT_SMUDGED"
  shows "hlen w = sz" "hid w = hid hdr" "is_header_good w = RB_OK" "hcrc w AND RB_HEADER_NOT_SMUDGED \<noteq> 0"
    "hcrc w AND RB_HEADER_SPLIT = 0" "hdr_of_bytes (hdr_bytes w) = w"
proof -
  obtain res h where mh: "make_header hdr (hid hdr) sz = (res, h)" by fastforce
  note g = make_header_good [OF assms(1-3) _ mh, of "0x40"]
  have wh: "w = h\<lparr>hcrc := hcrc h OR 0x40\<rparr>" by (simp add: w written_header_def mh)
  show "hlen w = sz" "hid w = hid hdr" "is_header_good w = RB_OK" using g wh by simp_all
  then show "hdr_of_bytes (hdr_bytes w) = w" using assms(2) by (intro hdr_of_bytes_hdr_bytes) simp
  have "hcrc h = crc_of (take 3 (hdr_bytes (hdr\<lparr>hid := hid hdr, hlen := sz mod 2 ^ 16\<rparr>)))"
    using assms(1,3) mh by (auto simp: make_header_def Let_def)
  then have f: "hcrc w AND 0xe0 = 0x40" by (simp add: wh crc_or_flag_bits)
  have "hcrc w AND 0x80 = (hcrc w AND 0xe0) AND 0x80" "hcrc w AND 0x40 = (hcrc w AND 0xe0) AND 0x40"
    by (simp_all add: and.assoc)
  then show "hcrc w AND RB_HEADER_NOT_SMUDGED \<noteq> 0" "hcrc w AND RB_HEADER_SPLIT = 0" by (simp_all add: f)
qed

lemma programmed_blank_read:
  assumes "programmed dev d d' a n (view_of bs)" "length bs = n" "a + n \<le> PICO_FLASH_SIZE_BYTES"
    and "\<And>i. i < n \<Longrightarrow> xip dev d (a + i) = 0xff"
  shows "flash_read dev d' a n = bs"
  by (rule nth_equalityI) (use assms in \<open>simp_all add: programmed_def\<close>)

lemma flash_read_part:
  assumes "flash_read dev d a n = xs @ ys @ zs"
  shows "flash_read dev d (a + length xs) (length ys) = ys"
proof (rule nth_equalityI)
  have n: "n = length xs + length ys + length zs" using arg_cong [OF assms, of length] by simp
  fix i assume "i < length (flash_read dev d (a + length xs) (length ys))"
  then have i: "i < length ys" by simp
  then have "flash_read dev d a n ! (length xs + i) = xip dev d (a + length xs + i)" by (simp add: n add.assoc)
  with i show "flash_read dev d (a + length xs) (length ys) ! i = ys ! i"
    by (simp add: assms nth_append)
qed simp

text \<open>A record written at the end of the log.\<close>

definition appended :: "'d flash_dev \<Rightarrow> 'd \<Rightarrow> 'd \<Rightarrow> rb_t \<Rightarrow> nat \<Rightarrow> rb_header \<Rightarrow> view \<Rightarrow> nat \<Rightarrow> bool" where
  "appended dev d d' rb e hdr data sz \<longleftrightarrow>
     programmed dev d d' (base_address rb + e) (length (record_bytes (rb\<lparr>next_offs := e\<rparr>) hdr data sz RB_HEADER_NOT_SMUDGED))
       (view_of (record_bytes (rb\<lparr>next_offs := e\<rparr>) hdr data sz RB_HEADER_NOT_SMUDGED))"

lemma length_record_bytes: "length (record_bytes (rb\<lparr>next_offs := e\<rparr>) hdr data sz f) = hdr_pos e - e + HEADER_SIZE + sz"
  by (simp add: record_bytes_def length_header_prefix hdr_pos_def)

lemma appended_entry:
  assumes wf: "wf_rb rb" and ap: "appended dev d d' rb e hdr data sz"
    and sz: "0 < sz" "sz \<le> PERSISTENT_LEN" and i: "hid hdr \<noteq> 0xff"
    and ff: "\<And>p. e \<le> p \<Longrightarrow> p < hdr_pos e + HEADER_SIZE + sz \<Longrightarrow> xip dev d (base_address rb + p) = 0xff"
    and top: "hdr_pos e + HEADER_SIZE + sz \<le> number_of_bytes rb"
  shows "hdr_at dev d' rb (hdr_pos e) = written_header hdr sz RB_HEADER_NOT_SMUDGED"
    "entry_ok dev d' rb e" "entry_end dev d' rb e = hdr_pos e + HEADER_SIZE + sz"
    "entry_of dev d' rb e = \<lparr>ent_id = hid hdr, ent_live = True, ent_data = take_view sz data\<rparr>"
    "e mod FLASH_SECTOR_SIZE = 0 \<Longrightarrow> shdr_at dev d' rb e = fst (make_sector_header (sector_index rb))"
proof -
  let ?w = "written_header hdr sz RB_HEADER_NOT_SMUDGED" and ?pre = "header_prefix (rb\<lparr>next_offs := e\<rparr>)"
  note w = written_header_facts [OF sz i refl]
  have le: "e \<le> hdr_pos e" by (simp add: hdr_pos_def)
  have lp: "length ?pre = hdr_pos e - e" by (simp add: length_header_prefix hdr_pos_def)
  have rd: "flash_read dev d' (base_address rb + e) (hdr_pos e - e + HEADER_SIZE + sz) = ?pre @ hdr_bytes ?w @ take_view sz data"
  proof -
    have "flash_read dev d' (base_address rb + e) (hdr_pos e - e + HEADER_SIZE + sz) =
        record_bytes (rb\<lparr>next_offs := e\<rparr>) hdr data sz RB_HEADER_NOT_SMUDGED"
    proof (rule programmed_blank_read)
      show "base_address rb + e + (hdr_pos e - e + HEADER_SIZE + sz) \<le> PICO_FLASH_SIZE_BYTES"
        using wf_rb_top [OF wf top] le by simp
      show "xip dev d (base_address rb + e + k) = 0xff" if "k < hdr_pos e - e + HEADER_SIZE + sz" for k
        using ff [of "e + k"] that le by (simp add: add.assoc)
    qed (use ap in \<open>simp_all only: appended_def length_record_bytes\<close>)
    then show ?thesis by (simp add: record_bytes_def)
  qed
  have p: "base_address rb + e + length ?pre = base_address rb + hdr_pos e" using le by (simp add: lp)
  have "flash_read dev d' (base_address rb + hdr_pos e) 4 = hdr_bytes ?w"
    using flash_read_part [OF rd] by (simp add: p)
  then show h: "hdr_at dev d' rb (hdr_pos e) = ?w" by (simp add: hdr_at_def w(6))
  have rd2: "flash_read dev d' (base_address rb + e) (hdr_pos e - e + HEADER_SIZE + sz) = (?pre @ hdr_bytes ?w) @ take_view sz data @ []"
    using rd by simp
  have dat: "flash_read dev d' (base_address rb + hdr_pos e + 4) sz = take_view sz data"
    using flash_read_part [OF rd2] p by (simp add: add.assoc [symmetric])
  show sh: "shdr_at dev d' rb e = fst (make_sector_header (sector_index rb))" if "e mod FLASH_SECTOR_SIZE = 0"
  proof -
    have "?pre = shdr_bytes (fst (make_sector_header (sector_index rb)))" using that by (simp add: header_prefix_def)
    then have "flash_read dev d' (base_address rb + e) 4 = shdr_bytes (fst (make_sector_header (sector_index rb)))"
      using flash_read_part [of dev d' "base_address rb + e" _ "[]", simplified, OF rd] by simp
    then show ?thesis by (simp add: shdr_at_def shdr_of_bytes_shdr_bytes)
  qed
  have "is_sector_header_good (fst (make_sector_header (sector_index rb))) = RB_OK"
    by (metis make_sector_header_good(3) prod.collapse)
  then show "entry_ok dev d' rb e" using sh h w(3) by (simp add: entry_ok_def sector_ok_def)
  show "entry_end dev d' rb e = hdr_pos e + HEADER_SIZE + sz" by (simp add: entry_end_def h w(1))
  show "entry_of dev d' rb e = \<lparr>ent_id = hid hdr, ent_live = True, ent_data = take_view sz data\<rparr>"
    using w by (simp add: entry_of_def h dat)
qed

lemma sector_end_mono: "p \<le> sector_end p" "p div 4096 \<noteq> q div 4096 \<Longrightarrow> sector_end p \<le> q \<or> sector_end q \<le> p"
proof -
  show "p \<le> sector_end p"
    using div_mult_mod_eq [of p 4096] mod_lt_4096 [of p] unfolding sector_end_def by linarith
  assume "p div 4096 \<noteq> q div 4096"
  then have "Suc (p div 4096) * 4096 \<le> q div 4096 * 4096 \<or> Suc (q div 4096) * 4096 \<le> p div 4096 * 4096"
    by (simp only: mult_le_cancel2) linarith
  moreover have "q div 4096 * 4096 \<le> q" "p div 4096 * 4096 \<le> p" by simp_all
  ultimately show "sector_end p \<le> q \<or> sector_end q \<le> p" unfolding sector_end_def by auto
qed

lemma index_step:
  assumes "(i :: 32 word) \<le> m" "m < 0xfffffe"
  shows "(i + 1) AND RB_INDEX_MASK = i + 1" "i < i + 1" "i + 1 \<le> m + 1"
proof -
  have im: "unat i \<le> unat m" "unat m < 0xfffffe" using assms by (simp_all add: word_le_nat_alt word_less_nat_alt)
  then have u: "unat (i + 1) = unat i + 1" "unat (m + 1) = unat m + 1"
    by (simp_all add: unat_word_ariths)
  then show "i < i + 1" "i + 1 \<le> m + 1" using im by (simp_all add: word_le_nat_alt word_less_nat_alt)
  have "i + 1 < 2 ^ 24" using u im by (simp add: word_less_nat_alt)
  then show "(i + 1) AND RB_INDEX_MASK = i + 1"
    using mask_eq_iff [of "i + 1" 24] by (simp add: mask_eq_exp_minus_1 word_less_def)
qed

lemma appended_elsewhere:
  assumes wf: "wf_rb rb" and ap: "appended dev d d' rb e hdr data sz"
    and p: "p < number_of_bytes rb" "p < e \<or> hdr_pos e + HEADER_SIZE + sz \<le> p"
  shows "xip dev d' (base_address rb + p) = xip dev d (base_address rb + p)"
proof -
  have "e \<le> hdr_pos e" by (simp add: hdr_pos_def)
  moreover have "base_address rb + p < PICO_FLASH_SIZE_BYTES" using wf p(1) by (simp add: wf_rb_def)
  ultimately show ?thesis
    using ap p(2) by (auto simp: appended_def length_record_bytes programmed_def)
qed

lemma appended_frame:
  assumes inv: "ring_inv dev d rb s xs e m" and nf: "\<not> ring_full s xs e"
    and fit: "hdr_pos e + HEADER_SIZE + sz \<le> sector_end e" and ap: "appended dev d d' rb e hdr data sz"
  shows "\<forall>x\<in>set xs. same_bytes dev d d' rb x (entry_end dev d rb x)"
  unfolding same_bytes_def
proof (intro ballI allI impI)
  note D = ring_invD [OF inv]
  fix x p assume x: "x \<in> set xs" and p: "x \<le> p \<and> p < entry_end dev d rb x"
  have xe: "entry_end dev d rb x \<le> sector_end x" using D(9) [OF x] by (simp add: whole_entry_def)
  have xN: "sector_end x \<le> number_of_bytes rb"
    using D(7) [OF x] sector_top [OF D(1)] by (simp add: sector_end_def pos_ok_def)
  have "p < e \<or> sector_end e \<le> p"
  proof (cases "x div 4096 = e div 4096")
    case True
    then show ?thesis using chain_before_end [OF D(1,5,4) D(10) [OF nf] D(2,3) x] p by auto
  next
    case False
    then show ?thesis using sector_end_mono(2) [OF False] p xe by linarith
  qed
  then show "xip dev d' (base_address rb + p) = xip dev d (base_address rb + p)"
    by (intro appended_elsewhere [OF D(1) ap]) (use p xe xN fit in linarith)+
qed

lemma sector_starts_snoc: "sector_starts (xs @ [e]) = sector_starts xs @ (if e mod 4096 = 0 then [e] else [])"
  by (simp add: sector_starts_def)

text \<open>A sector opened at the end of the log gets the next index, so the indices keep growing.\<close>

lemma indices_snoc:
  assumes srt: "sorted_wrt (<) (map (index_at dev d rb) (sector_starts xs))"
    and ix: "\<And>x. x \<in> set (sector_starts xs) \<Longrightarrow> index_at dev d rb x \<le> n" and n: "n \<le> m" "m < 0xfffffe"
    and fr: "\<forall>x\<in>set xs. same_bytes dev d d' rb x (entry_end dev d rb x)"
    and e: "e mod 4096 = 0 \<Longrightarrow> shdr_at dev d' rb e = fst (make_sector_header n)"
  shows "sorted_wrt (<) (map (index_at dev d' rb) (sector_starts (xs @ [e])))"
    "\<And>x. x \<in> set (sector_starts (xs @ [e])) \<Longrightarrow> index_at dev d' rb x \<le> m + 1"
    "n \<le> m + 1" "n + 1 \<le> m + 1"
proof -
  note st = index_step [OF n]
  have io: "index_at dev d' rb x = index_at dev d rb x" if "x \<in> set (sector_starts xs)" for x
    using that entry_frame(8) [OF bspec [OF fr]] by (simp add: sector_starts_def)
  have ie: "index_at dev d' rb e = n + 1" if "e mod 4096 = 0"
  proof -
    obtain sh k where ms: "make_sector_header n = (sh, k)" by fastforce
    show ?thesis using e [OF that] make_sector_header_good(2) [OF ms] st(1) by (simp add: index_at_def ms)
  qed
  have old: "index_at dev d rb x < n + 1" if "x \<in> set (sector_starts xs)" for x
    using ix [OF that] st(2) by (rule le_less_trans)
  have "map (index_at dev d' rb) (sector_starts xs) = map (index_at dev d rb) (sector_starts xs)" using io by simp
  from srt [folded this] ie old io show "sorted_wrt (<) (map (index_at dev d' rb) (sector_starts (xs @ [e])))"
    by (auto simp: sector_starts_snoc sorted_wrt_append)
  show "n \<le> m + 1" "n + 1 \<le> m + 1" using st by (auto intro: less_imp_le less_le_trans)
  show "index_at dev d' rb x \<le> m + 1" if "x \<in> set (sector_starts (xs @ [e]))" for x
    using that ie io st(3) less_imp_le [OF less_le_trans [OF old st(3)]]
    by (auto simp: sector_starts_snoc split: if_splits)
qed

lemma appended_ring_inv:
  assumes inv: "ring_inv dev d rb s xs e m" and nf: "\<not> ring_full s xs e"
    and ix: "\<And>x. x \<in> set (sector_starts xs) \<Longrightarrow> index_at dev d rb x \<le> sector_index rb" and m: "m < 0xfffffe"
    and sz: "0 < sz" and i: "hid hdr \<noteq> 0xff" and fit: "hdr_pos e + HEADER_SIZE + sz \<le> sector_end e"
    and ap: "appended dev d d' rb e hdr data sz"
  shows "ring_inv dev d' (rb\<lparr>sector_index := next_index (rb\<lparr>next_offs := e\<rparr>)\<rparr>) s (xs @ [e]) (next_pos dev d' rb e) (m + 1)"
    and "ring_log dev d' rb (xs @ [e]) = ring_log dev d rb xs @ [\<lparr>ent_id = hid hdr, ent_live = True, ent_data = take_view sz data\<rparr>]"
proof -
  note D = ring_invD [OF inv]
  have eN: "e < number_of_bytes rb" using D(6) by (simp add: pos_ok_def)
  have se: "sector_end e \<le> number_of_bytes rb" using sector_top [OF D(1) eN] by (simp add: sector_end_def)
  have "sz \<le> PERSISTENT_LEN"
    using fit div_mult_mod_eq [of e 4096] by (simp add: sector_end_def hdr_pos_def split: if_splits)
  moreover have "xip dev d (base_address rb + p) = 0xff" if "e \<le> p" "p < hdr_pos e + HEADER_SIZE + sz" for p
    by (rule D(11) [OF free_after_end [OF inv nf]]) (use that fit in linarith)+
  ultimately have E: "hdr_at dev d' rb (hdr_pos e) = written_header hdr sz RB_HEADER_NOT_SMUDGED" "entry_ok dev d' rb e"
    "entry_end dev d' rb e = hdr_pos e + HEADER_SIZE + sz"
    "entry_of dev d' rb e = \<lparr>ent_id = hid hdr, ent_live = True, ent_data = take_view sz data\<rparr>"
    "e mod FLASH_SECTOR_SIZE = 0 \<Longrightarrow> shdr_at dev d' rb e = fst (make_sector_header (sector_index rb))"
    "hcrc (written_header hdr sz RB_HEADER_NOT_SMUDGED) AND RB_HEADER_SPLIT = 0"
    using appended_entry [OF D(1) ap sz _ i] fit se written_header_facts(5) [OF sz _ i refl] by simp_all
  note fr = appended_frame [OF inv nf fit ap]
  show "ring_log dev d' rb (xs @ [e]) = ring_log dev d rb xs @ [\<lparr>ent_id = hid hdr, ent_live = True, ent_data = take_view sz data\<rparr>]"
    using ring_log_frame [OF fr] E(4) by (simp add: ring_log_def)
  have ch: "chain dev d' rb s (xs @ [e]) (next_pos dev d' rb e)"
    using chain_frame [OF fr] D(4) E(2) by (simp add: chain_snoc)
  have wh: "\<forall>x\<in>set (xs @ [e]). whole_entry dev d' rb x"
    using D(9) entry_frame(7) [OF bspec [OF fr]] E(1,3,6) fit by (simp add: whole_entry_def)
  have free: "\<forall>p. free_at dev d' rb (xs @ [e]) p \<longrightarrow> xip dev d' (base_address rb + p) = 0xff"
  proof (intro allI impI)
    fix p assume p: "free_at dev d' rb (xs @ [e]) p"
    have "free_at dev d rb xs p" using p entry_frame(5) [OF bspec [OF fr]] by (simp add: free_at_def)
    moreover have "p < e \<or> hdr_pos e + HEADER_SIZE + sz \<le> p"
      using p E(3) sector_end_mono(2) [of e p] sector_end_mono(1) [of p] fit
      by (cases "e div 4096 = p div 4096") (auto simp: free_at_def)
    ultimately show "xip dev d' (base_address rb + p) = 0xff" using D(11) appended_elsewhere [OF D(1) ap] by (simp add: free_at_def)
  qed
  have srt: "sorted_wrt (<) (map (index_at dev d rb) (sector_starts xs))" and sm: "sector_index rb \<le> m"
    using inv by (simp_all add: ring_inv_def)
  note I = indices_snoc [OF srt ix sm m fr E(5)]
  have "next_index (rb\<lparr>next_offs := e\<rparr>) \<le> m + 1" using I(3,4) by (simp add: next_index_def)
  moreover have "\<forall>x\<in>set (sector_starts (xs @ [e])). index_at dev d' rb x \<le> m + 1" using I(2) by simp
  ultimately
  show "ring_inv dev d' (rb\<lparr>sector_index := next_index (rb\<lparr>next_offs := e\<rparr>)\<rparr>) s (xs @ [e]) (next_pos dev d' rb e) (m + 1)"
    unfolding ring_inv_def using D(1-3) ch D(10) [OF nf] wh free I(1) by (intro conjI) simp_all
qed

section \<open>Appending\<close>

lemma count_blanks_from_all:
  "(\<And>j. j < n \<Longrightarrow> buffer (i + j) = v) \<Longrightarrow> count_blanks_from buffer v i n = i + n"
proof (induction n arbitrary: i)
  case (Suc n)
  have "buffer (Suc i + j) = v" if "j < n" for j using Suc.prems [of "Suc j"] that by simp
  moreover have "buffer i = v" using Suc.prems [of 0] by simp
  ultimately show ?case using Suc.IH [of "Suc i"] by simp
qed simp

lemma blank_scan_sector:
  assumes "\<And>p. next_offs rb \<le> p \<Longrightarrow> p < sector_end (next_offs rb) \<Longrightarrow> xip dev d (base_address rb + p) = 0xff"
  shows "FLASH_SECTOR_SIZE - next_offs rb mod FLASH_SECTOR_SIZE \<le> sector_blank_scan dev d rb"
proof -
  let ?n = "next_offs rb"
  have "?n + j < sector_end ?n" if "j < 4096 - ?n mod 4096" for j
    using that div_mult_mod_eq [of ?n 4096] mod_lt_4096 [of ?n] unfolding sector_end_def by linarith
  then have "count_blanks (advance (xip dev d) (base_address rb + ?n)) 0xff (4096 - ?n mod 4096) = 4096 - ?n mod 4096"
    using assms by (simp add: count_blanks_def count_blanks_from_all add.assoc)
  then show ?thesis by (simp add: sector_blank_scan_def Let_def)
qed

text \<open>The room \<^verbatim>\<open>rb_sector_append\<close> asks for to write a record without splitting it.\<close>

definition record_fits :: "nat \<Rightarrow> nat \<Rightarrow> bool" where
  "record_fits e sz \<longleftrightarrow> 0 < sz \<and> sz \<le> RB_MAX_APPEND_SIZE \<and> sz + HEADER_SIZE < FLASH_SECTOR_SIZE - e mod FLASH_SECTOR_SIZE"

lemma record_fits_end:
  assumes "record_fits e sz"
  shows "hdr_pos e + HEADER_SIZE + sz \<le> sector_end e"
proof -
  have "hdr_pos e = (if e mod 4096 = 0 then e + 4 else e)" by (simp add: hdr_pos_def)
  with assms div_mult_mod_eq [of e 4096] show ?thesis
    unfolding record_fits_def sector_end_def by (cases "e mod 4096 = 0"; simp; linarith)
qed

lemma append_size_ok: "wf_rb rb \<Longrightarrow> sz \<le> RB_MAX_APPEND_SIZE \<Longrightarrow> sz \<le> sub32 (number_of_bytes rb) HEADER_SIZE"
  using sector_top [of rb 0] by (simp add: sub32_small wf_rb_def)

context nor_flash
begin

lemma sector_append_log:
  assumes inv: "ring_inv dev d rb s xs e m" and nf: "\<not> ring_full s xs e"
    and ix: "\<And>x. x \<in> set (sector_starts xs) \<Longrightarrow> index_at dev d rb x \<le> sector_index rb" and m: "m < 0xfffffe"
    and i: "hid hdr \<noteq> 0xff" and fit: "record_fits e sz" and nx: "next_offs rb = e"
  obtains p d' where "rb_sector_append dev d rb hdr data sz = Some (RB_OK, after_record rb p sz, d')"
    and "ring_inv dev d' (after_record rb p sz) s (xs @ [e]) (next_pos dev d' rb e) (m + 1)"
    and "ring_log dev d' rb (xs @ [e]) = ring_log dev d rb xs @ [\<lparr>ent_id = hid hdr, ent_live = True, ent_data = take_view sz data\<rparr>]"
    and "appended dev d d' rb e hdr data sz"
proof -
  note D = ring_invD [OF inv]
  have blank: "xip dev d (base_address rb + p) = 0xff" if "e \<le> p" "p < sector_end e" for p
    by (rule D(11) [OF free_after_end [OF inv nf that]])
  have scan: "sz + HEADER_SIZE \<le> sector_blank_scan dev d rb"
    using blank_scan_sector [of rb dev d] blank fit nx by (simp add: record_fits_def)
  have nN: "next_offs rb < number_of_bytes rb" using D(6) nx by (simp add: pos_ok_def)
  have rb: "rb\<lparr>next_offs := e\<rparr> = rb" using nx by simp
  obtain p d' where ok: "rb_sector_append dev d rb hdr data sz = Some (RB_OK, after_record rb p sz, d')"
    and pr: "programmed dev d d' (base_address rb + next_offs rb) (length (record_bytes rb hdr data sz RB_HEADER_NOT_SMUDGED))
      (view_of (record_bytes rb hdr data sz RB_HEADER_NOT_SMUDGED))"
    by (rule rb_sector_append_fits [OF D(1) nN _ _ i _ scan, of data]) (use fit nx in \<open>simp_all add: record_fits_def\<close>)
  have ap: "appended dev d d' rb e hdr data sz" using pr nx by (simp add: appended_def rb)
  have "0 < sz" using fit by (simp add: record_fits_def)
  note R = appended_ring_inv [OF inv nf ix m this i record_fits_end [OF fit] ap]
  have "ring_inv dev d' (after_record rb p sz) s (xs @ [e]) (next_pos dev d' rb e) (m + 1)"
    using R(1) by (simp add: rb after_record_def ring_inv_def)
  with ok R(2) ap that show ?thesis by blast
qed

lemma rb_append_room:
  assumes inv: "ring_inv dev d rb s xs e m" and nf: "\<not> ring_full s xs e" and m: "m < 0xfffffe"
    and i: "i \<noteq> 0xff" and fit: "record_fits e sz"
  shows "\<exists>rb' d'. rb_append dev d rb i data sz page erase = Some (RB_OK, rb', d') \<and>
    next_offs rb' = next_offs rb \<and> base_address rb' = base_address rb \<and> number_of_bytes rb' = number_of_bytes rb \<and>
    ring_inv dev d' rb' s (xs @ [e]) (next_pos dev d' rb e) (m + 1) \<and>
    ring_log dev d' rb' (xs @ [e]) = ring_log dev d rb xs @ [\<lparr>ent_id = i, ent_live = True, ent_data = take_view sz data\<rparr>] \<and>
    (\<forall>a<PICO_FLASH_SIZE_BYTES. a < base_address rb + e \<or> base_address rb + sector_end e \<le> a \<longrightarrow> xip dev d' a = xip dev d a)"
proof -
  note D = ring_invD [OF inv]
  let ?rb = "rb\<lparr>rb_page := page\<rparr>" and ?hdr = "\<lparr>hlen = 0, hid = i, hcrc = 0\<rparr>"
  have inv0: "ring_inv dev d ?rb s xs e m" using inv by simp
  have "m < RB_INDEX_MASK" using m by (rule less_trans) simp
  then obtain r n where fo: "rb_find_ring_oldest_sector dev d ?rb = (r, ?rb\<lparr>sector_index := n, next_offs := s\<rparr>)"
    and r: "r = RB_OK \<or> r = RB_BLANK_HDR" and n: "n \<le> m"
    and ix: "\<And>x. x \<in> set (sector_starts xs) \<Longrightarrow> index_at dev d ?rb x \<le> n"
    using ring_inv_find_oldest [OF inv0] by metis
  let ?rb1 = "?rb\<lparr>sector_index := n, next_offs := e\<rparr>"
  have inv1: "ring_inv dev d ?rb1 s xs e m" using inv n by (simp add: ring_inv_def)
  have fw: "rb_findnext_writeable dev d (?rb\<lparr>sector_index := n, next_offs := s\<rparr>) = Some (RB_BLANK_HDR, ?rb1)"
    using findnext_room [OF inv1 nf] by simp
  obtain p d' where ok: "rb_sector_append dev d ?rb1 ?hdr data sz = Some (RB_OK, after_record ?rb1 p sz, d')"
    and R: "ring_inv dev d' (after_record ?rb1 p sz) s (xs @ [e]) (next_pos dev d' ?rb1 e) (m + 1)"
      "ring_log dev d' ?rb1 (xs @ [e]) = ring_log dev d ?rb1 xs @ [\<lparr>ent_id = i, ent_live = True, ent_data = take_view sz data\<rparr>]"
    and ap: "appended dev d d' ?rb1 e ?hdr data sz"
    by (rule sector_append_log [OF inv1 nf, of ?hdr sz data]) (use ix m i fit in simp_all)
  have "sz \<le> sub32 (number_of_bytes rb) HEADER_SIZE"
    by (rule append_size_ok [OF D(1)]) (use fit in \<open>simp add: record_fits_def\<close>)
  then have "rb_append dev d rb i data sz page erase = Some (RB_OK, (after_record ?rb1 p sz)\<lparr>next_offs := next_offs rb\<rparr>, d')"
    using fit i fo r fw ok
    by (auto simp: rb_append_def record_fits_def append_loop.simps [of dev d ?rb])
  moreover have "\<forall>a<PICO_FLASH_SIZE_BYTES. a < base_address rb + e \<or> base_address rb + sector_end e \<le> a \<longrightarrow> xip dev d' a = xip dev d a"
    using ap record_fits_end [OF fit] by (auto simp: appended_def programmed_def length_record_bytes hdr_pos_def split: if_splits)
  ultimately show ?thesis using R by (simp add: after_record_def)
qed

lemma rb_append_full:
  assumes inv: "ring_inv dev d rb s xs e m" and f: "ring_full s xs e" and m: "m < RB_INDEX_MASK"
    and i: "i \<noteq> 0xff" and sz: "0 < sz" "sz \<le> RB_MAX_APPEND_SIZE"
  shows "\<exists>rb'. rb_append dev d rb i data sz page False = Some (RB_HDR_LOOP, rb', d) \<and>
    next_offs rb' = next_offs rb \<and> ring_inv dev d rb' s xs e m \<and> ring_log dev d rb' xs = ring_log dev d rb xs"
proof -
  note D = ring_invD [OF inv]
  let ?rb = "rb\<lparr>rb_page := page\<rparr>"
  have inv0: "ring_inv dev d ?rb s xs e m" using inv by simp
  obtain r n where fo: "rb_find_ring_oldest_sector dev d ?rb = (r, ?rb\<lparr>sector_index := n, next_offs := s\<rparr>)"
    and r: "r = RB_OK \<or> r = RB_BLANK_HDR" and n: "n \<le> m"
    using ring_inv_find_oldest [OF inv0 m] by metis
  have inv1: "ring_inv dev d (?rb\<lparr>sector_index := n\<rparr>) s xs e m" using inv n by (simp add: ring_inv_def)
  have fw: "rb_findnext_writeable dev d (?rb\<lparr>sector_index := n, next_offs := s\<rparr>) = Some (RB_HDR_LOOP, ?rb\<lparr>sector_index := n, next_offs := s\<rparr>)"
    using findnext_full [OF inv1 f] by simp
  have "sz \<le> sub32 (number_of_bytes rb) HEADER_SIZE"
    by (rule append_size_ok [OF D(1)]) (use sz in \<open>simp add: record_fits_def\<close>)
  then have "rb_append dev d rb i data sz page False = Some (RB_HDR_LOOP, ?rb\<lparr>sector_index := n, next_offs := next_offs rb\<rparr>, d)"
    using sz i fo r fw by (auto simp: rb_append_def append_loop.simps [of dev d ?rb])
  then show ?thesis using inv1 by simp
qed

end

end
