(* ===== verification/Ring_Evict.thy ===== *)
theory Ring_Evict
  imports Ring_Log
begin

text \<open>
  Appending when the ring is full: the oldest sector is erased and the rest of the log survives.
  The theory ends with the theorems that tie \<^verbatim>\<open>rb_append\<close> to the abstract log, on a full ring and
  on one with room.
\<close>

section \<open>Evicting the oldest sector\<close>

lemma chain_append: "chain dev d rb p (xs @ ys) e \<longleftrightarrow> (\<exists>q. chain dev d rb p xs q \<and> chain dev d rb q ys e)"
  by (induction xs arbitrary: p) auto

lemma chain_dist_sorted:
  assumes "wf_rb rb" "pos_ok rb p" "chain dev d rb p xs e" "orig \<notin> set (tl xs)"
    and orig: "orig mod FLASH_SECTOR_SIZE = 0" "orig < number_of_bytes rb"
  shows "sorted_wrt (\<lambda>x y. ring_dist rb orig y < ring_dist rb orig x) xs"
  using assms(1-4)
proof (induction xs arbitrary: p)
  case (Cons x xs)
  let ?q = "next_pos dev d rb p"
  have ok: "entry_ok dev d rb p" and ch: "chain dev d rb ?q xs e" and x: "x = p" using Cons.prems by auto
  have qok: "pos_ok rb ?q" by (rule entry_ok_next(1) [OF Cons.prems(1,2) ok])
  have IH: "sorted_wrt (\<lambda>x y. ring_dist rb orig y < ring_dist rb orig x) xs"
    using Cons.IH [OF Cons.prems(1) qok ch] Cons.prems(4) by (cases xs) auto
  show ?case
  proof (cases xs)
    case (Cons q ys)
    then have q: "q = ?q" "?q \<noteq> orig" using ch \<open>orig \<notin> set (tl (x # xs))\<close> by auto
    have "ring_dist rb orig q < ring_dist rb orig x"
      using entry_ok_next(3) [OF \<open>wf_rb rb\<close> \<open>pos_ok rb p\<close> ok orig q(2)] q x by simp
    with IH show ?thesis unfolding Cons by (auto intro: less_trans)
  qed simp
qed simp

lemma next_pos_other_sector:
  assumes wf: "wf_rb rb" and p: "pos_ok rb p" "entry_ok dev d rb p" and q: "next_pos dev d rb p div 4096 \<noteq> p div 4096"
  shows "next_pos dev d rb p = ring_wrap rb (p div 4096 * 4096 + 4096)"
proof -
  let ?q = "next_pos dev d rb p" and ?S = "p div 4096 * 4096"
  note st = entry_ok_next(1,2) [OF wf p]
  show ?thesis
  proof (cases "?q = 0 \<and> ?S + 4096 = number_of_bytes rb")
    case False
    then have lt: "p < ?q" "?q \<le> ?S + 4096" using st(2) by auto
    moreover have "?S \<le> p" by simp
    ultimately have "?q = ?S + 4096"
      using q div_nat_eqI [of 4096 "p div 4096" ?q] by (cases "?q = ?S + 4096") (auto simp: mult.commute)
    then show ?thesis using st(1) by (simp add: ring_wrap_def pos_ok_def)
  qed (simp add: ring_wrap_def)
qed

text \<open>The records that are left when the oldest sector is erased.\<close>

definition evict :: "nat \<Rightarrow> nat list \<Rightarrow> nat list" where
  "evict s xs = dropWhile (\<lambda>x. x div FLASH_SECTOR_SIZE = s div FLASH_SECTOR_SIZE) xs"

lemma full_ring_split:
  assumes inv: "ring_inv dev d rb s xs e m" and f: "ring_full s xs e"
  obtains q where "chain dev d rb q (evict s xs) s" "q = ring_wrap rb (s + 4096)" "q < number_of_bytes rb"
    "evict s xs = [] \<longrightarrow> q = s" "evict s xs \<noteq> [] \<longrightarrow> q \<noteq> s \<and> q \<notin> set (tl (evict s xs))"
    "\<forall>x\<in>set (evict s xs). x div 4096 \<noteq> s div 4096"
proof -
  note D = ring_invD [OF inv]
  define as where "as = takeWhile (\<lambda>x. x div 4096 = s div 4096) xs"
  have xs: "xs = as @ evict s xs" by (simp add: as_def evict_def)
  obtain q where q: "chain dev d rb s as q" "chain dev d rb q (evict s xs) s"
    using D(4) f by (subst (asm) xs) (auto simp: chain_append ring_full_def)
  have "s \<in> set as" using D(4) f by (cases xs) (auto simp: as_def ring_full_def)
  then obtain bs a where as: "as = bs @ [a]" by (cases as rule: rev_exhaust) auto
  have "a \<in> set as" by (simp add: as)
  then have a: "a div 4096 = s div 4096" "a \<in> set xs" by (auto simp: as_def dest: set_takeWhileD)
  have aq: "next_pos dev d rb a = q" using q(1) by (simp add: as chain_snoc)
  note aok = D(7) [OF a(2)] D(8) [OF a(2)]
  have s: "s div 4096 * 4096 = s" using D(2) by auto
  have wrap: "q = ring_wrap rb (s + 4096)" if "q div 4096 \<noteq> s div 4096"
    using next_pos_other_sector [OF D(1) aok] that by (simp add: aq a(1) s)
  have hd: "q = hd (evict s xs)" "q div 4096 \<noteq> s div 4096" if "evict s xs \<noteq> []"
    using q(2) hd_dropWhile [of "\<lambda>x. x div 4096 = s div 4096" xs] that
    by (cases "evict s xs"; auto simp: evict_def)+
  have single: "q = ring_wrap rb (s + 4096)" if "evict s xs = []"
  proof -
    have "q = s" using q(2) that by simp
    with entry_ok_next(2) [OF D(1) aok, unfolded aq a(1) s] have "a < s \<or> s = 0 \<and> s + 4096 = number_of_bytes rb" by auto
    moreover have "s \<le> a" using s a(1) div_mult_mod_eq [of a 4096] by linarith
    ultimately show ?thesis using \<open>q = s\<close> by (auto simp: ring_wrap_def)
  qed
  have qw: "q = ring_wrap rb (s + 4096)" using wrap hd(2) single by blast
  have qN: "q < number_of_bytes rb" using entry_ok_next(1) [OF D(1) aok] by (simp add: aq pos_ok_def)
  have srt: "sorted_wrt (\<lambda>x y. ring_dist rb s y < ring_dist rb s x) xs"
    by (rule chain_dist_sorted [OF D(1,5,4) _ D(2,3)]) (use inv in \<open>simp add: ring_inv_def\<close>)
  then have tl: "ring_dist rb s x < ring_dist rb s q" if "x \<in> set (tl (evict s xs))" for x
    using that q(2) by (subst (asm) xs) (cases "evict s xs"; auto simp: sorted_wrt_append)
  have "x div 4096 \<noteq> s div 4096" if x: "x \<in> set (evict s xs)" for x
  proof
    assume xs: "x div 4096 = s div 4096"
    then have xt: "x \<in> set (tl (evict s xs))" using hd x by (cases "evict s xs") auto
    have "s \<le> x" "x < s + 4096" using s xs div_mult_mod_eq [of x 4096] mod_lt_4096 [of x] by linarith+
    moreover have "s \<noteq> q" using hd(2) x by (cases "evict s xs") auto
    ultimately show False
      using tl [OF xt] qw sector_top [OF D(1,3)] D(3) s by (auto simp: ring_dist_def ring_wrap_def split: if_splits)
  qed
  moreover have "q \<notin> set (tl (evict s xs))" using tl by auto
  ultimately show ?thesis using that q(2) qw qN hd(2) by (cases "evict s xs = []") auto
qed

text \<open>What erasing one sector does to the bytes of the ring.\<close>

definition sector_erased :: "'d flash_dev \<Rightarrow> 'd \<Rightarrow> 'd \<Rightarrow> rb_t \<Rightarrow> nat \<Rightarrow> bool" where
  "sector_erased dev d d' rb s \<longleftrightarrow> (\<forall>p < number_of_bytes rb. xip dev d' (base_address rb + p) =
     (if s \<le> p \<and> p < s + FLASH_SECTOR_SIZE then 0xff else xip dev d (base_address rb + p)))"

context nor_flash
begin

lemma erase_sector:
  assumes wf: "wf_rb rb" and s: "s mod 4096 = 0" "s < number_of_bytes rb"
    and d': "d' = flash_erase dev (base_address rb + s) FLASH_SECTOR_SIZE d"
  shows "sector_erased dev d d' rb s"
    "\<And>p. p < PICO_FLASH_SIZE_BYTES \<Longrightarrow> p < base_address rb \<or> base_address rb + number_of_bytes rb \<le> p \<Longrightarrow> xip dev d' p = xip dev d p"
proof -
  have "s div 4096 * 4096 = s" using s(1) by auto
  then have top: "s + 4096 \<le> number_of_bytes rb" using sector_top [OF wf s(2)] by simp
  have al: "(base_address rb + s) mod 4096 = 0" "base_address rb + s + 4096 \<le> PICO_FLASH_SIZE_BYTES"
    using wf s wf_rb_top [OF wf top] by (auto simp: wf_rb_def mod_add_eq [symmetric])
  have er: "xip dev d' p = (if base_address rb + s \<le> p \<and> p < base_address rb + s + 4096 then 0xff else xip dev d p)"
    if "p < PICO_FLASH_SIZE_BYTES" for p
    unfolding d' by (rule erase_byte) (use al that in auto)
  then show "sector_erased dev d d' rb s" using wf by (simp add: sector_erased_def wf_rb_def)
  show "\<And>p. p < PICO_FLASH_SIZE_BYTES \<Longrightarrow> p < base_address rb \<or> base_address rb + number_of_bytes rb \<le> p \<Longrightarrow> xip dev d' p = xip dev d p"
    using er top by auto
qed

end

lemma evict_frame:
  assumes inv: "ring_inv dev d rb s xs e m" and er: "sector_erased dev d d' rb s"
    and ys: "set ys \<subseteq> set xs" "\<forall>x\<in>set ys. x div 4096 \<noteq> s div 4096"
  shows "\<forall>x\<in>set ys. same_bytes dev d d' rb x (entry_end dev d rb x)"
  unfolding same_bytes_def
proof (intro ballI allI impI)
  note D = ring_invD [OF inv]
  fix x p assume x: "x \<in> set ys" and p: "x \<le> p \<and> p < entry_end dev d rb x"
  have xx: "x \<in> set xs" "x div 4096 \<noteq> s div 4096" using x ys by auto
  have "entry_end dev d rb x \<le> sector_end x" using D(9) xx by (simp add: whole_entry_def)
  moreover have "sector_end x \<le> number_of_bytes rb"
    using D(7) [OF xx(1)] sector_top [OF D(1)] by (simp add: sector_end_def pos_ok_def)
  moreover have "sector_end s = s + 4096" using D(2) by (auto simp: sector_end_def)
  ultimately show "xip dev d' (base_address rb + p) = xip dev d (base_address rb + p)"
    using sector_end_mono(2) [OF xx(2)] p er by (auto simp: sector_erased_def)
qed

lemma evict_mem: "x \<in> set xs \<Longrightarrow> x div 4096 \<noteq> s div 4096 \<Longrightarrow> x \<in> set (evict s xs)"
  by (induction xs) (auto simp: evict_def)

lemma evict_subset: "set (evict s xs) \<subseteq> set xs"
  by (auto simp: evict_def dest: set_dropWhileD)

lemma evict_free:
  assumes inv: "ring_inv dev d rb s xs e m" and er: "sector_erased dev d d' rb s"
    and fr: "\<forall>x\<in>set (evict s xs). same_bytes dev d d' rb x (entry_end dev d rb x)"
    and p: "free_at dev d' rb (evict s xs) p"
  shows "xip dev d' (base_address rb + p) = 0xff"
proof (cases "s \<le> p \<and> p < s + 4096")
  case True
  with p er show ?thesis by (simp add: free_at_def sector_erased_def)
next
  case False
  have "s div 4096 * 4096 = s" using ring_invD(2) [OF inv] by auto
  with False have ps: "p div 4096 \<noteq> s div 4096"
    using div_mult_mod_eq [of p 4096] mod_lt_4096 [of p] by linarith
  have "entry_end dev d rb x \<le> p" if "x \<in> set xs" "x div 4096 = p div 4096" for x
    using evict_mem [OF that(1), of s] that(2) ps p entry_frame(5) [OF bspec [OF fr]] by (auto simp: free_at_def)
  then have "free_at dev d rb xs p" using p by (simp add: free_at_def)
  with ring_invD(11) [OF inv] False p er show ?thesis by (auto simp: free_at_def sector_erased_def)
qed

lemma evict_indices:
  "sorted_wrt (<) (map f (sector_starts xs)) \<Longrightarrow> sorted_wrt (<) (map f (sector_starts (evict s xs)))"
proof -
  have "sector_starts xs = sector_starts (takeWhile (\<lambda>x. x div 4096 = s div 4096) xs) @ sector_starts (evict s xs)"
    by (simp add: sector_starts_def evict_def filter_append [symmetric])
  then show "sorted_wrt (<) (map f (sector_starts xs)) \<Longrightarrow> ?thesis" by (simp add: sorted_wrt_append)
qed

lemma evict_ring_inv:
  assumes inv: "ring_inv dev d rb s xs e m" and f: "ring_full s xs e" and er: "sector_erased dev d d' rb s"
  obtains q where "ring_inv dev d' rb q (evict s xs) s m" "\<not> ring_full q (evict s xs) s"
    "ring_log dev d' rb (evict s xs) = ring_log dev d rb (evict s xs)"
    "\<And>x. x \<in> set (sector_starts (evict s xs)) \<Longrightarrow> x \<in> set (sector_starts xs) \<and> index_at dev d' rb x = index_at dev d rb x"
proof -
  note D = ring_invD [OF inv]
  let ?ys = "evict s xs"
  obtain q where q: "chain dev d rb q ?ys s" "q = ring_wrap rb (s + 4096)" "q < number_of_bytes rb"
    "?ys = [] \<longrightarrow> q = s" "?ys \<noteq> [] \<longrightarrow> q \<noteq> s \<and> q \<notin> set (tl ?ys)" "\<forall>x\<in>set ?ys. x div 4096 \<noteq> s div 4096"
    by (rule full_ring_split [OF inv f])
  note fr = evict_frame [OF inv er evict_subset q(6)]
  have io: "x \<in> set (sector_starts xs) \<and> index_at dev d' rb x = index_at dev d rb x" if "x \<in> set (sector_starts ?ys)" for x
    using that evict_subset [of s xs] entry_frame(8) [OF bspec [OF fr]] by (auto simp: sector_starts_def)
  have "map (index_at dev d' rb) (sector_starts ?ys) = map (index_at dev d rb) (sector_starts ?ys)" using io by simp
  moreover have "sorted_wrt (<) (map (index_at dev d rb) (sector_starts ?ys))"
    by (rule evict_indices) (use inv in \<open>simp add: ring_inv_def\<close>)
  ultimately have srt: "sorted_wrt (<) (map (index_at dev d' rb) (sector_starts ?ys))" by (simp only:)
  have bnd: "\<forall>x\<in>set (sector_starts ?ys). index_at dev d' rb x \<le> m" "sector_index rb \<le> m"
    using io inv by (auto simp: ring_inv_def)
  have wh: "\<forall>x\<in>set ?ys. whole_entry dev d' rb x"
    using D(9) entry_frame(7) [OF bspec [OF fr]] evict_subset [of s xs] by auto
  have "q mod 4096 = 0" using q(2) D(2) by (simp add: ring_wrap_def mod_add_eq [symmetric])
  moreover have "?ys = [] \<longrightarrow> q = 0" using q(2,4) by (auto simp: ring_wrap_def split: if_splits)
  moreover have "q \<notin> set (tl ?ys)" using q(5) by (cases ?ys) auto
  ultimately have "ring_inv dev d' rb q ?ys s m"
    unfolding ring_inv_def using D(1) q(1,3) chain_frame [OF fr] wh evict_free [OF inv er fr] srt bnd by blast
  with q(5) io ring_log_frame [OF fr] show ?thesis
    by (intro that [of q]) (auto simp: ring_full_def)
qed

context nor_flash
begin


lemma rb_append_evict:
  assumes inv: "ring_inv dev d rb s xs e m" and f: "ring_full s xs e" and m: "m < 0xfffffe"
    and i: "i \<noteq> 0xff" and fit: "0 < sz" "sz \<le> RB_MAX_APPEND_SIZE"
  shows "\<exists>rb' d' q. rb_append dev d rb i data sz page True = Some (RB_OK, rb', d') \<and>
    next_offs rb' = next_offs rb \<and> base_address rb' = base_address rb \<and> number_of_bytes rb' = number_of_bytes rb \<and>
    ring_inv dev d' rb' q (evict s xs @ [s]) (next_pos dev d' rb s) (m + 1) \<and>
    ring_log dev d' rb' (evict s xs @ [s]) =
      ring_log dev d rb (evict s xs) @ [\<lparr>ent_id = i, ent_live = True, ent_data = take_view sz data\<rparr>] \<and>
    (\<forall>a<PICO_FLASH_SIZE_BYTES. a < base_address rb \<or> base_address rb + number_of_bytes rb \<le> a \<longrightarrow> xip dev d' a = xip dev d a)"
proof -
  note D = ring_invD [OF inv]
  let ?rb = "rb\<lparr>rb_page := page\<rparr>" and ?hdr = "\<lparr>hlen = 0, hid = i, hcrc = 0\<rparr>" and ?ys = "evict s xs"
  have inv0: "ring_inv dev d ?rb s xs e m" using inv by simp
  have mm: "m < RB_INDEX_MASK" using m by (rule less_trans) simp
  obtain r n where fo: "rb_find_ring_oldest_sector dev d ?rb = (r, ?rb\<lparr>sector_index := n, next_offs := s\<rparr>)"
    and r: "r = RB_OK \<or> r = RB_BLANK_HDR" and n: "n \<le> m"
    using ring_inv_find_oldest [OF inv0 mm] by metis
  have inv1: "ring_inv dev d (?rb\<lparr>sector_index := n\<rparr>) s xs e m" using inv n by (simp add: ring_inv_def)
  have fw: "rb_findnext_writeable dev d (?rb\<lparr>sector_index := n, next_offs := s\<rparr>) = Some (RB_HDR_LOOP, ?rb\<lparr>sector_index := n, next_offs := s\<rparr>)"
    using findnext_full [OF inv1 f] by simp
  have inv2: "ring_inv dev d (?rb\<lparr>sector_index := n, next_offs := s\<rparr>) s xs e m" using inv1 by simp
  obtain r' k where fo2: "rb_find_ring_oldest_sector dev d (?rb\<lparr>sector_index := n, next_offs := s\<rparr>) = (r', ?rb\<lparr>sector_index := k, next_offs := s\<rparr>)"
    and k: "k \<le> m" and ix: "\<And>x. x \<in> set (sector_starts xs) \<Longrightarrow> index_at dev d rb x \<le> k"
    using ring_inv_find_oldest [OF inv2 mm, simplified] by metis
  let ?rbe = "?rb\<lparr>sector_index := k, next_offs := s\<rparr>"
  define d1 where "d1 = flash_erase dev (base_address rb + s) FLASH_SECTOR_SIZE d"
  note er = erase_sector [OF D(1-3) d1_def]
  have inv3: "ring_inv dev d ?rbe s xs e m" using inv k by (simp add: ring_inv_def)
  have ere: "sector_erased dev d d1 ?rbe s" using er(1) by (simp add: sector_erased_def)
  obtain q where q: "ring_inv dev d1 ?rbe q ?ys s m" "\<not> ring_full q ?ys s" "ring_log dev d1 ?rbe ?ys = ring_log dev d ?rbe ?ys"
    "\<And>x. x \<in> set (sector_starts ?ys) \<Longrightarrow> x \<in> set (sector_starts xs) \<and> index_at dev d1 ?rbe x = index_at dev d ?rbe x"
    using evict_ring_inv [OF inv3 f ere] by metis
  have rf: "record_fits s sz" using fit D(2) by (simp add: record_fits_def)
  obtain p d' where ok: "rb_sector_append dev d1 ?rbe ?hdr data sz = Some (RB_OK, after_record ?rbe p sz, d')"
    and R: "ring_inv dev d' (after_record ?rbe p sz) q (?ys @ [s]) (next_pos dev d' ?rbe s) (m + 1)"
      "ring_log dev d' ?rbe (?ys @ [s]) = ring_log dev d1 ?rbe ?ys @ [\<lparr>ent_id = i, ent_live = True, ent_data = take_view sz data\<rparr>]"
    and ap: "appended dev d1 d' ?rbe s ?hdr data sz"
    by (rule sector_append_log [OF q(1,2), of ?hdr sz data]) (use q(4) ix m i rf in simp_all)
  have "sz \<le> sub32 (number_of_bytes rb) HEADER_SIZE" by (rule append_size_ok [OF D(1) fit(2)])
  moreover have "add32 (base_address rb) s = base_address rb + s"
    using wf_rb_u32 [OF D(1), of s] D(3) by (simp add: add32_small)
  ultimately have "rb_append dev d rb i data sz page True = Some (RB_OK, (after_record ?rbe p sz)\<lparr>next_offs := next_offs rb\<rparr>, d')"
    using fit i fo r fw fo2 ok d1_def
    by (auto simp: rb_append_def append_loop.simps [of dev d ?rb] Let_def)
  moreover have "xip dev d' a = xip dev d a"
    if a: "a < PICO_FLASH_SIZE_BYTES" "a < base_address rb \<or> base_address rb + number_of_bytes rb \<le> a" for a
  proof -
    have "sector_end s \<le> number_of_bytes rb" using sector_top [OF D(1,3)] by (simp add: sector_end_def)
    then have "xip dev d' a = xip dev d1 a"
      using ap a record_fits_end [OF rf] by (auto simp: appended_def programmed_def length_record_bytes hdr_pos_def split: if_splits)
    with er(2) [OF a] show ?thesis by simp
  qed
  ultimately show ?thesis using R q(3) by (auto simp: after_record_def)
qed

end

section \<open>An empty ring\<close>

definition blank_flash :: "nat \<Rightarrow> byte" where
  "blank_flash a = 0xff"

definition storage_rb :: "nat \<Rightarrow> rb_t" where
  "storage_rb n = \<lparr> base_address = 2080768, number_of_bytes = n * FLASH_SECTOR_SIZE, next_offs = 0, last_wrote = 0,
     sector_index = 0, rb_page = (\<lambda>_. 0) \<rparr>"

lemma ring_inv_blank:
  assumes "wf_rb rb" and "\<And>p. p < number_of_bytes rb \<Longrightarrow> xip dev d (base_address rb + p) = 0xff"
  shows "ring_inv dev d rb 0 [] 0 (sector_index rb)"
  using assms by (auto simp: ring_inv_def wf_rb_def free_at_def sector_starts_def)

lemma storage_inv: "0 < n \<Longrightarrow> n \<le> 4 \<Longrightarrow> ring_inv nor_array blank_flash (storage_rb n) 0 [] 0 0"
  using ring_inv_blank [of "storage_rb n" nor_array blank_flash]
  by (simp add: wf_rb_def storage_rb_def nor_array_def blank_flash_def)

section \<open>Properties\<close>

text \<open>
  C1. Refinement of \<^verbatim>\<open>rb_append\<close>. On a well-formed ring that is not full, appending a record
  that fits in the current sector returns \<^verbatim>\<open>RB_OK\<close>, adds exactly that record, live, at the end of
  the log, keeps the invariant and the caller's read position, and changes no byte of the flash
  outside the sector it writes.
\<close>

theorem append_extends_log:
  assumes "nor_flash dev" and "ring_inv dev d rb s xs e m" and "\<not> ring_full s xs e" and "m < 0xfffffe"
    and "i \<noteq> 0xff" and "record_fits e sz"
  shows "\<exists>rb' d'. rb_append dev d rb i data sz page erase = Some (RB_OK, rb', d') \<and>
    next_offs rb' = next_offs rb \<and> base_address rb' = base_address rb \<and> number_of_bytes rb' = number_of_bytes rb \<and>
    ring_inv dev d' rb' s (xs @ [e]) (next_pos dev d' rb e) (m + 1) \<and>
    ring_log dev d' rb' (xs @ [e]) = ring_log dev d rb xs @ [\<lparr>ent_id = i, ent_live = True, ent_data = take_view sz data\<rparr>] \<and>
    (\<forall>a<PICO_FLASH_SIZE_BYTES. a < base_address rb + e \<or> base_address rb + sector_end e \<le> a \<longrightarrow> xip dev d' a = xip dev d a)"
  by (rule nor_flash.rb_append_room [OF assms])

theorem append_extends_log_witness:
  "\<exists>rb' d'. rb_append nor_array blank_flash (storage_rb 4) 1 (view_of [72, 105]) 2 (\<lambda>_. 0) False = Some (RB_OK, rb', d') \<and>
     ring_log nor_array d' rb' [0] = [\<lparr>ent_id = 1, ent_live = True, ent_data = [72, 105]\<rparr>]"
proof -
  have "take_view 2 (view_of [72, 105]) = [72, 105]" by (simp add: take_view_def view_of_def numeral_eq_Suc)
  then show ?thesis
    using append_extends_log [OF nor_array.nor_flash_axioms storage_inv [of 4], of 1 2 "view_of [72, 105]" "\<lambda>_. 0" False]
    by (auto simp: ring_full_def record_fits_def ring_log_def)
qed

text \<open>
  C19. A full ring is never overwritten unless the caller allows it: without \<^verbatim>\<open>erase_if_full\<close>,
  \<^verbatim>\<open>rb_append\<close> returns \<^verbatim>\<open>RB_HDR_LOOP\<close> and leaves flash, log and read position as they were.
\<close>

theorem append_full_refused:
  assumes "nor_flash dev" and "ring_inv dev d rb s xs e m" and "ring_full s xs e" and "m < RB_INDEX_MASK"
    and "i \<noteq> 0xff" and "0 < sz" and "sz \<le> RB_MAX_APPEND_SIZE"
  shows "\<exists>rb'. rb_append dev d rb i data sz page False = Some (RB_HDR_LOOP, rb', d) \<and>
    next_offs rb' = next_offs rb \<and> ring_inv dev d rb' s xs e m \<and> ring_log dev d rb' xs = ring_log dev d rb xs"
  by (rule nor_flash.rb_append_full [OF assms])

text \<open>
  C2. With \<^verbatim>\<open>erase_if_full\<close>, appending to a full ring drops exactly the records of the oldest
  sector and adds the new one: every other record survives, in order, nothing outside the ring
  changes, and the invariant holds again from the next oldest sector on.
\<close>

theorem append_evicts_oldest:
  assumes "nor_flash dev" and "ring_inv dev d rb s xs e m" and "ring_full s xs e" and "m < 0xfffffe"
    and "i \<noteq> 0xff" and "0 < sz" and "sz \<le> RB_MAX_APPEND_SIZE"
  shows "\<exists>rb' d' q. rb_append dev d rb i data sz page True = Some (RB_OK, rb', d') \<and>
    next_offs rb' = next_offs rb \<and> base_address rb' = base_address rb \<and> number_of_bytes rb' = number_of_bytes rb \<and>
    ring_inv dev d' rb' q (evict s xs @ [s]) (next_pos dev d' rb s) (m + 1) \<and>
    ring_log dev d' rb' (evict s xs @ [s]) =
      ring_log dev d rb (evict s xs) @ [\<lparr>ent_id = i, ent_live = True, ent_data = take_view sz data\<rparr>] \<and>
    (\<forall>a<PICO_FLASH_SIZE_BYTES. a < base_address rb \<or> base_address rb + number_of_bytes rb \<le> a \<longrightarrow> xip dev d' a = xip dev d a)"
  by (rule nor_flash.rb_append_evict [OF assms])

text \<open>One record of the largest size fills a ring of one sector.\<close>

lemma full_ring_exists:
  "\<exists>d rb. ring_inv nor_array d rb 0 [0] 0 1 \<and> ring_full 0 [0] 0 \<and> ring_log nor_array d rb [0] =
     [\<lparr>ent_id = 7, ent_live = True, ent_data = replicate 4088 0\<rparr>]"
proof -
  obtain rb d where R: "ring_inv nor_array d rb 0 ([] @ [0]) (next_pos nor_array d (storage_rb 1) 0) (0 + 1)"
    and L: "ring_log nor_array d rb ([] @ [0]) = ring_log nor_array blank_flash (storage_rb 1) [] @
        [\<lparr>ent_id = 7, ent_live = True, ent_data = take_view 4088 (\<lambda>_. 0)\<rparr>]"
    and B: "base_address rb = base_address (storage_rb 1)"
    using nor_array.rb_append_room [OF storage_inv [of 1], of 7 4088 "\<lambda>_. 0" "\<lambda>_. 0" False]
    by (auto simp: ring_full_def record_fits_def)
  have l: "hlen (hdr_at nor_array d (storage_rb 1) 4) = 4088"
    using arg_cong [OF L, of "\<lambda>l. length (ent_data (hd l))"] B
    by (simp add: ring_log_def entry_of_def Let_def hdr_at_def hdr_pos_def)
  have "next_pos nor_array d (storage_rb 1) 0 = 0"
  proof -
    have "number_of_bytes (storage_rb 1) = 4096" by (simp add: storage_rb_def)
    then show ?thesis
      unfolding next_pos_def by (simp add: hdr_pos_def l rb_incr_def FLASH_SECTOR_def add32_def Let_def del: One_nat_def)
  qed
  moreover have "take_view 4088 (\<lambda>_. 0) = replicate 4088 0" by (rule nth_equalityI) simp_all
  ultimately show ?thesis using R L by (auto simp: ring_full_def ring_log_def)
qed

theorem append_full_refused_witness:
  "\<exists>d rb rb'. rb_append nor_array d rb 1 (view_of [72]) 1 (\<lambda>_. 0) False = Some (RB_HDR_LOOP, rb', d)"
proof -
  obtain d rb where "ring_inv nor_array d rb 0 [0] 0 1" "ring_full 0 [0] 0" using full_ring_exists by blast
  from append_full_refused [OF nor_array.nor_flash_axioms this, of 1 1 "view_of [72]" "\<lambda>_. 0"] show ?thesis by auto
qed

theorem append_evicts_oldest_witness:
  "\<exists>d rb rb' d'. ring_log nor_array d rb [0] = [\<lparr>ent_id = 7, ent_live = True, ent_data = replicate 4088 0\<rparr>] \<and>
     rb_append nor_array d rb 1 (view_of [72]) 1 (\<lambda>_. 0) True = Some (RB_OK, rb', d') \<and>
     ring_log nor_array d' rb' [0] = [\<lparr>ent_id = 1, ent_live = True, ent_data = [72]\<rparr>]"
proof -
  obtain d rb where R: "ring_inv nor_array d rb 0 [0] 0 1" "ring_full 0 [0] 0"
    and L: "ring_log nor_array d rb [0] = [\<lparr>ent_id = 7, ent_live = True, ent_data = replicate 4088 0\<rparr>]"
    using full_ring_exists by blast
  have "evict 0 [0] = []" by (simp add: evict_def)
  moreover have "take_view 1 (view_of [72]) = [72]" by (simp add: take_view_def view_of_def)
  ultimately show ?thesis
    using append_evicts_oldest [OF nor_array.nor_flash_axioms R, of 1 1 "view_of [72]" "\<lambda>_. 0"] L
    by (auto simp: ring_log_def)
qed

end
