(* ===== verification/Ring_Read.thy ===== *)
theory Ring_Read
  imports Ring_Evict
begin

text \<open>
  Reading the log back: \<^verbatim>\<open>rb_read\<close> returns on every flash content, and on a well-formed ring it
  delivers the first live record with the id it looks for.
\<close>

section \<open>Termination\<close>

text \<open>The walk accepts the start of a sector and the record header behind its sector header alike.\<close>

definition at_pos :: "rb_t \<Rightarrow> nat \<Rightarrow> bool" where
  "at_pos rb p \<longleftrightarrow> next_offs rb = p \<or> next_offs rb = hdr_pos p"

lemma hdr_pos_idem: "hdr_pos (hdr_pos p) = hdr_pos p"
  by (auto simp: hdr_pos_def mod_add_eq [symmetric])

lemma pos_ok_hdr_pos: "wf_rb rb \<Longrightarrow> pos_ok rb p \<Longrightarrow> pos_ok rb (hdr_pos p)"
  using hdr_pos_facts by (simp add: pos_ok_def)

lemma add_in_sector:
  assumes "(h :: nat) mod 4096 + k < 4096"
  shows "(h + k) mod 4096 = h mod 4096 + k" "(h + k) div 4096 = h div 4096"
proof -
  show d: "(h + k) div 4096 = h div 4096"
    by (rule div_nat_eqI; simp only: mult_Suc_right; use assms div_mult_mod_eq [of h 4096] in linarith)
  show "(h + k) mod 4096 = h mod 4096 + k"
    using div_mult_mod_eq [of "h + k" 4096] div_mult_mod_eq [of h 4096] unfolding d by linarith
qed

lemma rb_incr_split:
  assumes wf: "wf_rb rb" and p: "pos_ok rb p" and len: "len \<le> PERSISTENT_LEN"
  shows "rb_incr (hdr_pos p + HEADER_SIZE) len (number_of_bytes rb) = rb_incr (hdr_pos p) (len + HEADER_SIZE) (number_of_bytes rb)"
proof -
  note h = hdr_pos_facts [OF wf p]
  let ?h = "hdr_pos p"
  have m: "(?h + 4) mod 4096 = ?h mod 4096 + 4" "(?h + 4) div 4096 = ?h div 4096"
    by (rule add_in_sector; use h(4) in simp)+
  have "?h + 4 \<le> number_of_bytes rb - 1"
    using sector_offset_fits [OF wf h(2), of 5] h(4) by simp
  then have "?h + 4 < number_of_bytes rb" using h(2) by linarith
  from rb_incr_eq [OF wf this, of len] rb_incr_eq [OF wf h(2), of "len + 4"] len m
  show ?thesis by (simp add: add.assoc add.commute [of 4])
qed

lemma flash_sector_start:
  assumes "p < number_of_bytes rb"
  shows "FLASH_SECTOR p mod 4096 = 0" "FLASH_SECTOR p < number_of_bytes rb" "FLASH_SECTOR p \<le> p"
proof -
  show "FLASH_SECTOR p \<le> p" by (simp add: FLASH_SECTOR_def)
  with assms show "FLASH_SECTOR p < number_of_bytes rb" by linarith
qed (simp add: FLASH_SECTOR_def)

definition read_match :: "byte \<Rightarrow> rb_header \<Rightarrow> bool" where
  "read_match i h \<longleftrightarrow> hid h = i \<and> hcrc h AND RB_HEADER_NOT_SMUDGED \<noteq> 0"

lemma fetch_entry:
  assumes wf: "wf_rb rb" and ok: "pos_ok rb p" "entry_ok dev d rb p" and at: "at_pos rb p"
  shows "fetch_and_check_header dev d rb 0 = Some (RB_OK, hdr_at dev d rb (hdr_pos p), rb\<lparr>next_offs := hdr_pos p\<rparr>)"
proof -
  have "hdr_pos p mod 4096 \<noteq> 0 \<or> hdr_pos p = p" by (auto simp: hdr_pos_def mod_add_eq [symmetric])
  then have "entry_ok dev d rb (next_offs rb)" "hdr_pos (next_offs rb) = hdr_pos p"
    using at ok(2) by (auto simp: at_pos_def hdr_pos_idem entry_ok_def sector_ok_def)
  moreover have "next_offs rb < number_of_bytes rb"
    using at ok(1) hdr_pos_facts(2) [OF wf ok(1)] by (auto simp: at_pos_def pos_ok_def)
  ultimately show ?thesis by (simp add: fetch_0 [OF wf] entry_ok_def)
qed

lemma rb_read_loop_entry:
  assumes wf: "wf_rb rb" and ok: "pos_ok rb p" "entry_ok dev d rb p" and at: "at_pos rb p"
    and h: "h = hdr_at dev d rb (hdr_pos p)" and q: "q = next_pos dev d rb p"
  shows "rb_read_loop dev d i sz orig rb buf pos =
    (if \<not> read_match i h then
       if orig = q then Some (RB_HDR_ID_NOT_FOUND, rb\<lparr>next_offs := q\<rparr>, buf)
       else rb_read_loop dev d i sz orig (rb\<lparr>next_offs := q\<rparr>) buf pos
     else
       let n = min (hlen h) sz;
           buf1 = store buf pos (flash_read dev d (base_address rb + hdr_pos p + HEADER_SIZE) n)
       in if q mod FLASH_SECTOR_SIZE = 0 then do {
            (pre_res, hdr2, rb4) \<leftarrow> fetch_and_check_header dev d (rb\<lparr>next_offs := q\<rparr>) 0;
            if \<not> (pre_res = RB_OK \<or> pre_res = RB_BLANK_HDR) then Some (pre_res, rb4, buf1)
            else if hid hdr2 = i \<and> hcrc hdr2 AND RB_HEADER_SPLIT \<noteq> 0 then
              if sz - n = 0 \<or> sz - n > sub32 (number_of_bytes rb4) HEADER_SIZE \<or> i = 0xff \<or> i = 0
              then Some (int n, rb4, buf1)
              else do {
                (res, rb5, buf2) \<leftarrow> rb_read_loop dev d i (sz - n) (FLASH_SECTOR (next_offs rb4)) rb4 buf1 (pos + n);
                Some (if res > 0 then int n + res else int n, rb5, buf2)
              }
            else Some (int n, rb4, buf1)
          }
          else Some (int n, rb\<lparr>next_offs := q\<rparr>, buf1))"
proof -
  note hp = hdr_pos_facts [OF wf ok(1)]
  have len: "hlen h \<le> PERSISTENT_LEN" using ok(2) by (simp add: entry_ok_def is_header_good_len h)
  have top: "hdr_pos p + 4 \<le> number_of_bytes rb"
    by (rule sector_offset_fits [OF wf hp(2)]) (use hp(4) in simp)
  have a: "add32 (hdr_pos p) 4 = hdr_pos p + 4" "add32 (base_address rb) (hdr_pos p + 4) = base_address rb + (hdr_pos p + 4)"
    using wf_rb_u32 [OF wf top] by (simp_all add: add32_small)
  have inc: "rb_incr (hdr_pos p + 4) (hlen h) (number_of_bytes rb) = q" "rb_incr (hdr_pos p) (hlen h + 4) (number_of_bytes rb) = q"
    using rb_incr_split [OF wf ok(1) len] by (simp_all add: next_pos_def h q)
  show ?thesis
    by (subst rb_read_loop.simps, cases "fetch_and_check_header dev d (rb\<lparr>next_offs := q\<rparr>) 0")
       (auto simp: fetch_entry [OF wf ok at] h [symmetric] a inc Let_def read_match_def add.assoc [symmetric])
qed

lemma rb_read_loop_terminates:
  assumes "wf_rb rb" and "pos_ok rb (next_offs rb)" and "orig mod FLASH_SECTOR_SIZE = 0" "orig < number_of_bytes rb"
  shows "\<exists>r. rb_read_loop dev d i sz orig rb buf pos = Some r"
  using assms
proof (induction "(sz, ring_dist rb orig (next_offs rb))" arbitrary: sz orig rb buf pos rule: wf_induct [OF wf_lex_prod [OF wf_less_than wf_less_than]])
  case 1
  note wf = "1.prems"(1) and pok = "1.prems"(2) and orig = "1.prems"(3,4)
  have IH: "\<exists>r. rb_read_loop dev d i sz' orig' rb' buf' pos' = Some r"
    if "sz' < sz \<or> sz' = sz \<and> ring_dist rb' orig' (next_offs rb') < ring_dist rb orig (next_offs rb)"
      "wf_rb rb'" "pos_ok rb' (next_offs rb')" "orig' mod 4096 = 0" "orig' < number_of_bytes rb'" for sz' orig' rb' buf' pos'
    using "1.hyps" that by auto
  let ?p = "next_offs rb" and ?h = "hdr_at dev d rb (hdr_pos (next_offs rb))"
  let ?q = "next_pos dev d rb ?p"
  have pN: "?p < number_of_bytes rb" using pok by (simp add: pos_ok_def)
  show ?case
  proof (cases "entry_ok dev d rb ?p")
    case False
    then show ?thesis
      by (subst rb_read_loop.simps) (auto simp: fetch_0 [OF wf pN] entry_ok_def sector_ok_def)
  next
    case True
    note st = entry_ok_next [OF wf pok True]
    have len: "0 < hlen ?h" using True by (simp add: entry_ok_def is_header_good_len)
    have q: "?q < number_of_bytes rb" "pos_ok rb ?q" using st(1) by (simp_all add: pos_ok_def)
    obtain r2 h2 rb4 where f2: "fetch_and_check_header dev d (rb\<lparr>next_offs := ?q\<rparr>) 0 = Some (r2, h2, rb4)"
      and rb4: "rb4 = rb\<lparr>next_offs := ?q\<rparr> \<or> rb4 = rb\<lparr>next_offs := hdr_pos ?q\<rparr>"
      using fetch_0 [of "rb\<lparr>next_offs := ?q\<rparr>" dev d] wf q by (auto split: if_splits)
    have ok4: "wf_rb rb4" "pos_ok rb4 (next_offs rb4)" using rb4 wf q pos_ok_hdr_pos by auto
    have s4: "FLASH_SECTOR (next_offs rb4) mod 4096 = 0" "FLASH_SECTOR (next_offs rb4) < number_of_bytes rb4"
      by (rule flash_sector_start [of _ rb4]; use ok4(2) in \<open>simp add: pos_ok_def\<close>)+
    have rec: "\<exists>r. rb_read_loop dev d i (sz - min (hlen ?h) sz) (FLASH_SECTOR (next_offs rb4)) rb4 buf' pos' = Some r"
      if "sz - min (hlen ?h) sz \<noteq> 0" for buf' pos'
      by (rule IH) (use that len ok4 s4 in auto)
    have skip: "\<exists>r. rb_read_loop dev d i sz orig (rb\<lparr>next_offs := ?q\<rparr>) buf pos = Some r" if "orig \<noteq> ?q"
      by (rule IH) (use that wf q st(3) [OF orig] orig in auto)
    have "at_pos rb ?p" by (simp add: at_pos_def)
    note unf = rb_read_loop_entry [OF wf pok True this refl refl]
    show ?thesis
    proof (cases "read_match i ?h")
      case False
      with skip show ?thesis by (subst unf) auto
    next
      case m: True
      obtain x where x: "sz - min (hlen ?h) sz \<noteq> 0 \<Longrightarrow> rb_read_loop dev d i (sz - min (hlen ?h) sz) (FLASH_SECTOR (next_offs rb4)) rb4
          (store buf pos (flash_read dev d (base_address rb + hdr_pos ?p + 4) (min (hlen ?h) sz))) (pos + min (hlen ?h) sz) = Some x"
        using rec by metis
      obtain x1 x2 x3 where xx: "x = (x1, x2, x3)" by (cases x)
      show ?thesis using m x by (subst unf) (auto simp: f2 Let_def xx)
    qed
  qed
qed

section \<open>What a read delivers\<close>

lemma at_pos_update [simp]: "at_pos (rb\<lparr>next_offs := n\<rparr>) p \<longleftrightarrow> n = p \<or> n = hdr_pos p"
  by (simp add: at_pos_def)

lemma read_match_entry: "read_match i (hdr_at dev d rb (hdr_pos p)) \<longleftrightarrow> ent_id (entry_of dev d rb p) = i \<and> ent_live (entry_of dev d rb p)"
  by (simp add: read_match_def entry_of_def Let_def)

definition wanted :: "byte \<Rightarrow> log_entry \<Rightarrow> bool" where
  "wanted i e \<longleftrightarrow> ent_id e = i \<and> ent_live e"

lemma rb_read_skip:
  assumes "wf_rb rb" "pos_ok rb p" "chain dev d rb p xs e" "orig \<notin> set (tl (xs @ [e]))" "at_pos rb p"
    and "\<forall>x\<in>set xs. \<not> wanted i (entry_of dev d rb x)"
  shows "\<exists>n. (n = e \<or> n = hdr_pos e) \<and>
    rb_read_loop dev d i sz orig rb buf pos = rb_read_loop dev d i sz orig (rb\<lparr>next_offs := n\<rparr>) buf pos"
  using assms
proof (induction xs arbitrary: p rb)
  case Nil
  then have "rb\<lparr>next_offs := next_offs rb\<rparr> = rb" by simp
  with Nil show ?case by (metis at_pos_def chain.simps(1))
next
  case (Cons x xs)
  let ?q = "next_pos dev d rb p" and ?rb' = "rb\<lparr>next_offs := next_pos dev d rb p\<rparr>"
  have ok: "entry_ok dev d rb p" and ch: "chain dev d rb ?q xs e" and x: "x = p" using Cons.prems by auto
  have q: "?q \<noteq> orig" using Cons.prems(4) ch by (cases xs) auto
  have qok: "pos_ok rb ?q" by (rule entry_ok_next(1) [OF Cons.prems(1,2) ok])
  have tl: "orig \<notin> set (tl (xs @ [e]))" using Cons.prems(4) by (cases xs) auto
  have nm: "\<not> read_match i (hdr_at dev d rb (hdr_pos p))" using Cons.prems(6) x by (simp add: read_match_entry wanted_def)
  have "rb_read_loop dev d i sz orig rb buf pos = rb_read_loop dev d i sz orig ?rb' buf pos"
    using nm q by (subst rb_read_loop_entry [OF Cons.prems(1,2) ok Cons.prems(5) refl refl]) simp
  moreover have "\<exists>n. (n = e \<or> n = hdr_pos e) \<and>
      rb_read_loop dev d i sz orig ?rb' buf pos = rb_read_loop dev d i sz orig (?rb'\<lparr>next_offs := n\<rparr>) buf pos"
    by (rule Cons.IH [of _ ?q]) (use Cons.prems(1,6) qok ch tl in simp_all)
  ultimately show ?case by simp
qed

lemma ring_next_cases:
  assumes inv: "ring_inv dev d rb s xs e m" and x: "x \<in> set xs"
  shows "next_pos dev d rb x \<in> set xs \<or> next_pos dev d rb x = e"
proof -
  obtain as bs where xs: "xs = as @ x # bs" using split_list [OF x] by blast
  have "chain dev d rb (next_pos dev d rb x) bs e" using ring_invD(4) [OF inv] by (auto simp: xs chain_append)
  then show ?thesis by (cases bs) (auto simp: xs)
qed

text \<open>What a reader finds at the start of the next sector: a whole record or a blank sector.\<close>

lemma fetch_after:
  assumes inv: "ring_inv dev d rb s xs e m" and q: "q \<in> set xs \<or> q = e" and al: "q mod 4096 = 0" and i: "i \<noteq> 0xff"
  obtains r h n where "fetch_and_check_header dev d (rb\<lparr>next_offs := q\<rparr>) 0 = Some (r, h, rb\<lparr>next_offs := n\<rparr>)"
    "r = RB_OK \<or> r = RB_BLANK_HDR" "\<not> (hid h = i \<and> hcrc h AND RB_HEADER_SPLIT \<noteq> 0)" "n = q \<or> n = hdr_pos q"
proof (cases "q \<in> set xs")
  case True
  note D = ring_invD [OF inv]
  have "fetch_and_check_header dev d (rb\<lparr>next_offs := q\<rparr>) 0 = Some (RB_OK, hdr_at dev d rb (hdr_pos q), rb\<lparr>next_offs := hdr_pos q\<rparr>)"
    using fetch_entry [of "rb\<lparr>next_offs := q\<rparr>" q dev d] D(1,7,8) True by simp
  with that D(9) [OF True] show ?thesis by (auto simp: whole_entry_def)
next
  case False
  note D = ring_invD [OF inv]
  have qe: "q = e" using False q by simp
  have nf: "\<not> ring_full s xs e" using False D(4) qe by (cases xs) (auto simp: ring_full_def)
  have "sector_end e = e + 4096" using al qe by (auto simp: sector_end_def)
  then have ff: "xip dev d (base_address rb + q + k) = 0xff" if "k < 4" for k
    using D(11) [OF free_after_end [OF inv nf, of "q + k"]] that by (simp add: qe add.assoc)
  have "is_sector_header_good (shdr_at dev d rb q) = RB_BLANK_HDR" by (rule blank_headers(1)) (rule ff)
  moreover have "hid (hdr_at dev d rb q) = 0xff" using ff [of 2] by (simp add: hdr_at_def hdr_of_bytes_def)
  moreover have "q < number_of_bytes rb" using D(6) by (simp add: qe pos_ok_def)
  ultimately show ?thesis
    using fetch_0 [of "rb\<lparr>next_offs := q\<rparr>" dev d] D(1) al i that by (auto simp: sector_ok_def)
qed

lemma rb_read_hit:
  assumes inv: "ring_inv dev d rb s xs e m" and x: "x \<in> set xs" and at: "at_pos rb x" and i: "i \<noteq> 0xff"
    and w: "wanted i (entry_of dev d rb x)"
  shows "\<exists>n. rb_read_loop dev d i sz orig rb buf pos =
      Some (int (min (length (ent_data (entry_of dev d rb x))) sz), rb\<lparr>next_offs := n\<rparr>,
            store buf pos (take sz (ent_data (entry_of dev d rb x)))) \<and>
      (n = next_pos dev d rb x \<or> n = hdr_pos (next_pos dev d rb x))"
proof -
  note D = ring_invD [OF inv]
  let ?h = "hdr_at dev d rb (hdr_pos x)" and ?q = "next_pos dev d rb x"
  let ?a = "base_address rb + hdr_pos x + HEADER_SIZE"
  have m: "read_match i ?h" using w by (simp add: read_match_entry wanted_def)
  have dat: "flash_read dev d ?a (min (hlen ?h) sz) = take sz (ent_data (entry_of dev d rb x))"
    by (rule nth_equalityI) (simp_all add: entry_of_def Let_def)
  have len: "length (ent_data (entry_of dev d rb x)) = hlen ?h" by (simp add: entry_of_def Let_def)
  note unf = rb_read_loop_entry [OF D(1) D(7,8) [OF x] at refl refl, of i sz orig buf pos]
  show ?thesis
  proof (cases "?q mod 4096 = 0")
    case True
    obtain r h n
      where f: "fetch_and_check_header dev d (rb\<lparr>next_offs := ?q\<rparr>) 0 = Some (r, h, rb\<lparr>next_offs := n\<rparr>)"
        and r: "r = RB_OK \<or> r = RB_BLANK_HDR" and h: "\<not> (hid h = i \<and> hcrc h AND RB_HEADER_SPLIT \<noteq> 0)"
        and n: "n = ?q \<or> n = hdr_pos ?q"
      by (rule fetch_after [OF inv ring_next_cases [OF inv x] True i])
    have "rb_read_loop dev d i sz orig rb buf pos =
      Some (int (min (length (ent_data (entry_of dev d rb x))) sz), rb\<lparr>next_offs := n\<rparr>,
            store buf pos (take sz (ent_data (entry_of dev d rb x))))"
      by (subst unf, simp only: Let_def True m f dat len h if_True not_True_eq_False if_False Option.bind.bind_lunit split)
         (use r in \<open>elim disjE; simp\<close>)
    with n show ?thesis by blast
  next
    case False
    with m show ?thesis by (intro exI [of _ ?q], subst unf) (simp add: Let_def dat len)
  qed
qed

lemma fetch_end:
  assumes inv: "ring_inv dev d rb s xs e m" and nf: "\<not> ring_full s xs e" and at: "at_pos rb e"
  shows "\<exists>h. fetch_and_check_header dev d rb 0 = Some (RB_BLANK_HDR, h, rb)"
proof -
  note D = ring_invD [OF inv]
  let ?n = "next_offs rb"
  note hp = hdr_pos_facts [OF D(1,6)]
  have n: "e \<le> ?n" "?n < number_of_bytes rb" "?n div 4096 = e div 4096" "?n mod 4096 \<le> 4091"
    using at hp D(6) by (auto simp: at_pos_def pos_ok_def)
  have top: "?n + 4 \<le> sector_end e"
    using n(3,4) div_mult_mod_eq [of ?n 4096] unfolding sector_end_def by linarith
  have ff: "xip dev d (base_address rb + ?n + k) = 0xff" if "k < 4" for k
    using D(11) [OF free_after_end [OF inv nf, of "?n + k"]] that n(1) top by (simp add: add.assoc)
  note b = blank_headers [of dev d rb ?n, OF ff]
  have "rb\<lparr>next_offs := hdr_pos ?n\<rparr> = rb" if "?n mod 4096 \<noteq> 0" using that by (simp add: hdr_pos_def)
  with b show ?thesis
    by (cases "?n mod 4096 = 0") (auto simp: fetch_0 [OF D(1) n(2)] sector_ok_def hdr_pos_def)
qed

lemma ring_dist_room:
  assumes inv: "ring_inv dev d rb s xs e m" and nf: "\<not> ring_full s xs e"
  shows "sorted_wrt (\<lambda>x y. ring_dist rb s y < ring_dist rb s x) (xs @ [e])"
proof -
  note D = ring_invD [OF inv]
  have "sorted_wrt (\<lambda>x y. ring_dist rb s y < ring_dist rb s x) xs"
    by (rule chain_dist_sorted [OF D(1,5,4) _ D(2,3)]) (use inv in \<open>simp add: ring_inv_def\<close>)
  then show ?thesis
    using chain_before_end [OF D(1,5,4) D(10) [OF nf] D(2,3)] by (simp add: sorted_wrt_append)
qed

lemma sector_start_dist:
  assumes "s mod 4096 = 0" "p < number_of_bytes rb"
  shows "ring_dist rb s p \<le> ring_dist rb s (FLASH_SECTOR p)"
proof -
  have "FLASH_SECTOR p \<le> p" by (simp add: FLASH_SECTOR_def)
  moreover have "s \<le> FLASH_SECTOR p" if "s \<le> p"
  proof -
    have "s div 4096 * 4096 \<le> FLASH_SECTOR p" unfolding FLASH_SECTOR_def by (intro mult_le_mono1 div_le_mono that)
    moreover have "s div 4096 * 4096 = s" using assms(1) by auto
    ultimately show ?thesis by simp
  qed
  ultimately show ?thesis using assms(2) unfolding ring_dist_def by auto
qed

text \<open>A reader that stands at the head of \<open>bs\<close>, the records still ahead of it.\<close>

definition reading :: "rb_t \<Rightarrow> nat \<Rightarrow> nat list \<Rightarrow> nat \<Rightarrow> nat list \<Rightarrow> bool" where
  "reading rb s xs e bs \<longleftrightarrow> (\<exists>as. xs = as @ bs \<and> (as = [] \<or> \<not> ring_full s xs e)) \<and> at_pos rb (hd (bs @ [e]))"

lemma flash_sector_hdr_pos:
  assumes "wf_rb rb" "pos_ok rb p" "at_pos rb p"
  shows "FLASH_SECTOR (next_offs rb) = FLASH_SECTOR p"
  using assms hdr_pos_facts(3) [OF assms(1,2)] by (auto simp: at_pos_def FLASH_SECTOR_def)

lemma reading_no_wrap:
  assumes inv: "ring_inv dev d rb s xs e m" and rd: "reading rb s xs e bs" and nf: "\<not> ring_full s xs e"
  shows "FLASH_SECTOR (next_offs rb) \<notin> set (tl (bs @ [e]))"
proof
  note D = ring_invD [OF inv]
  let ?p = "hd (bs @ [e])"
  assume y: "FLASH_SECTOR (next_offs rb) \<in> set (tl (bs @ [e]))"
  obtain as where xs: "xs = as @ bs" using rd by (auto simp: reading_def)
  have p: "?p \<in> set xs \<or> ?p = e" by (cases bs) (auto simp: xs)
  then have pok: "pos_ok rb ?p" using D(6,7) by auto
  have F: "FLASH_SECTOR (next_offs rb) = FLASH_SECTOR ?p"
    by (rule flash_sector_hdr_pos [OF D(1) pok]) (use rd in \<open>simp add: reading_def\<close>)
  have "sorted_wrt (\<lambda>x y. ring_dist rb s y < ring_dist rb s x) (bs @ [e])"
    using ring_dist_room [OF inv nf] by (simp add: xs sorted_wrt_append)
  then have "ring_dist rb s (FLASH_SECTOR ?p) < ring_dist rb s ?p" using y F by (cases bs) auto
  then show False using sector_start_dist [OF D(2), of ?p rb] pok by (simp add: pos_ok_def)
qed

lemma chain_suffix: "chain dev d rb p (as @ bs) e \<Longrightarrow> chain dev d rb (hd (bs @ [e])) bs e"
  by (induction as arbitrary: p) (cases bs; auto)+

lemma read_none:
  assumes inv: "ring_inv dev d rb s xs e m" and rd: "reading rb s xs e bs"
    and none: "\<forall>x\<in>set bs. \<not> wanted i (entry_of dev d rb x)"
  shows "\<exists>rb'. rb_read_loop dev d i sz (FLASH_SECTOR (next_offs rb)) rb buf pos =
    Some (if ring_full s xs e then RB_HDR_ID_NOT_FOUND else RB_BLANK_HDR, rb', buf)"
proof (cases "ring_full s xs e")
  case False
  note D = ring_invD [OF inv]
  obtain as where xs: "xs = as @ bs" using rd by (auto simp: reading_def)
  let ?p = "hd (bs @ [e])"
  have ch: "chain dev d rb ?p bs e" by (rule chain_suffix [OF D(4) [unfolded xs]])
  have "?p \<in> set xs \<or> ?p = e" by (cases bs) (auto simp: xs)
  then have pok: "pos_ok rb ?p" using D(6,7) by auto
  have at: "at_pos rb ?p" using rd by (simp add: reading_def)
  obtain n where n: "n = e \<or> n = hdr_pos e" and
    eq: "rb_read_loop dev d i sz (FLASH_SECTOR (next_offs rb)) rb buf pos =
      rb_read_loop dev d i sz (FLASH_SECTOR (next_offs rb)) (rb\<lparr>next_offs := n\<rparr>) buf pos"
    using rb_read_skip [OF D(1) pok ch reading_no_wrap [OF inv rd False] at none] by blast
  have "ring_inv dev d (rb\<lparr>next_offs := n\<rparr>) s xs e m" "at_pos (rb\<lparr>next_offs := n\<rparr>) e" using inv n by auto
  from fetch_end [OF this(1) False this(2)] show ?thesis
    using False eq by (auto simp: rb_read_loop.simps [of dev d i sz _ "rb\<lparr>next_offs := n\<rparr>"])
next
  case True
  note D = ring_invD [OF inv]
  have bs: "bs = xs" using rd True by (auto simp: reading_def)
  obtain zs z where xs: "xs = zs @ [z]" using True by (cases xs rule: rev_exhaust) (auto simp: ring_full_def)
  have ch: "chain dev d rb s zs z" "entry_ok dev d rb z" "next_pos dev d rb z = s"
    using D(4) True by (simp_all add: xs chain_snoc ring_full_def)
  have hd: "hd (xs @ [e]) = s" using D(4) True by (cases xs) (auto simp: ring_full_def)
  then have at: "at_pos rb s" using rd bs by (simp add: reading_def)
  have "FLASH_SECTOR s = s" using D(2) by (auto simp: FLASH_SECTOR_def)
  then have F: "FLASH_SECTOR (next_offs rb) = s" using flash_sector_hdr_pos [OF D(1,5) at] by simp
  have tl: "s \<notin> set (tl (zs @ [z]))" using inv by (simp add: ring_inv_def xs)
  obtain n where n: "n = z \<or> n = hdr_pos z" and
    eq: "rb_read_loop dev d i sz s rb buf pos = rb_read_loop dev d i sz s (rb\<lparr>next_offs := n\<rparr>) buf pos"
    using rb_read_skip [OF D(1,5) ch(1) tl at, of i sz buf pos] none bs by (auto simp: xs)
  have "\<not> read_match i (hdr_at dev d (rb\<lparr>next_offs := n\<rparr>) (hdr_pos z))" using none bs by (simp add: xs read_match_entry wanted_def)
  then have "rb_read_loop dev d i sz s (rb\<lparr>next_offs := n\<rparr>) buf pos = Some (RB_HDR_ID_NOT_FOUND, rb\<lparr>next_offs := s\<rparr>, buf)"
    using rb_read_loop_entry [of "rb\<lparr>next_offs := n\<rparr>" z dev d _ s] D(1) D(7) [of z] ch(2,3) n by (simp add: xs)
  with True eq F show ?thesis by simp
qed

lemma read_first:
  assumes inv: "ring_inv dev d rb s xs e m" and rd: "reading rb s xs e bs" and i: "i \<noteq> 0xff"
    and bs: "bs = cs @ x # ds" "\<forall>y\<in>set cs. \<not> wanted i (entry_of dev d rb y)" "wanted i (entry_of dev d rb x)"
  shows "\<exists>n. rb_read_loop dev d i sz (FLASH_SECTOR (next_offs rb)) rb buf pos =
      Some (int (min (length (ent_data (entry_of dev d rb x))) sz), rb\<lparr>next_offs := n\<rparr>,
            store buf pos (take sz (ent_data (entry_of dev d rb x)))) \<and>
    at_pos (rb\<lparr>next_offs := n\<rparr>) (hd (ds @ [e]))"
proof -
  note D = ring_invD [OF inv]
  obtain as where xs: "xs = as @ bs" and ar: "as = [] \<or> \<not> ring_full s xs e" using rd by (auto simp: reading_def)
  let ?p = "hd (bs @ [e])"
  have ch: "chain dev d rb ?p (cs @ x # ds) e" using chain_suffix [OF D(4) [unfolded xs]] unfolding bs(1) .
  have p: "?p \<in> set xs" by (cases cs) (auto simp: xs bs(1))
  obtain q where q: "chain dev d rb ?p cs x" using ch by (auto simp: chain_append)
  have nx: "next_pos dev d rb x = hd (ds @ [e])" using ch by (cases ds) (auto simp: chain_append)
  have at: "at_pos rb ?p" using rd by (simp add: reading_def)
  have tl: "FLASH_SECTOR (next_offs rb) \<notin> set (tl (cs @ [x]))"
  proof (cases "ring_full s xs e")
    case False
    then show ?thesis using reading_no_wrap [OF inv rd] by (cases cs) (auto simp: bs(1))
  next
    case True
    have "FLASH_SECTOR s = s" using D(2) by (auto simp: FLASH_SECTOR_def)
    moreover have "?p = s" using D(4) True ar by (cases xs) (auto simp: ring_full_def xs bs(1))
    ultimately have "FLASH_SECTOR (next_offs rb) = s" using flash_sector_hdr_pos [OF D(1,5)] at by simp
    then show ?thesis using inv True ar by (cases cs) (auto simp: ring_inv_def xs bs(1))
  qed
  obtain n where n: "n = x \<or> n = hdr_pos x" and
    eq: "rb_read_loop dev d i sz (FLASH_SECTOR (next_offs rb)) rb buf pos =
      rb_read_loop dev d i sz (FLASH_SECTOR (next_offs rb)) (rb\<lparr>next_offs := n\<rparr>) buf pos"
    using rb_read_skip [OF D(1) D(7) [OF p] q tl at bs(2)] by blast
  have "ring_inv dev d (rb\<lparr>next_offs := n\<rparr>) s xs e m" "at_pos (rb\<lparr>next_offs := n\<rparr>) x" "x \<in> set xs"
    using inv n by (auto simp: xs bs(1))
  from rb_read_hit [OF this(1,3,2) i, of sz "FLASH_SECTOR (next_offs rb)" buf pos] bs(3) show ?thesis
    unfolding eq by (auto simp: nx)
qed

end
