(* ===== verification/Ring_Delete.thy ===== *)
theory Ring_Delete
  imports Ring_Read
begin

text \<open>
  Finding and deleting records: \<^verbatim>\<open>rb_find\<close> locates the first live record with the id and the bytes
  it is given, \<^verbatim>\<open>rb_smudge\<close> clears one bit of its header, and \<^verbatim>\<open>rb_delete\<close> combines them.
\<close>

section \<open>Finding\<close>

text \<open>
  The search as a function of the log. The comparison reads \<open>sz\<close> bytes of the scratch buffer even
  when the record is shorter, so the buffer is threaded through.
\<close>

fun log_find :: "byte \<Rightarrow> view \<Rightarrow> nat \<Rightarrow> view \<Rightarrow> log_entry list \<Rightarrow> nat option" where
  "log_find i data sz scratch [] = None"
| "log_find i data sz scratch (e # es) =
     (if wanted i e then
        let scratch' = store scratch 0 (take sz (ent_data e))
        in if mem_equal data scratch' sz then Some 0 else map_option Suc (log_find i data sz scratch' es)
      else map_option Suc (log_find i data sz scratch es))"

lemma log_find_Some:
  "log_find i data sz scratch es = Some k \<Longrightarrow> k < length es \<and> wanted i (es ! k) \<and>
     (sz \<le> length (ent_data (es ! k)) \<longrightarrow> take sz (ent_data (es ! k)) = take_view sz data)"
proof (induction es arbitrary: scratch k)
  case (Cons e es)
  have eq: "take sz (ent_data e) = take_view sz data" if "mem_equal data (store scratch 0 (take sz (ent_data e))) sz" "sz \<le> length (ent_data e)"
    by (rule nth_equalityI) (use that in \<open>auto simp: mem_equal_iff store_def\<close>)
  show ?case
  proof (cases "wanted i e \<and> mem_equal data (store scratch 0 (take sz (ent_data e))) sz")
    case True
    with Cons.prems eq show ?thesis by (auto simp: Let_def)
  next
    case False
    with Cons.prems obtain scratch' k' where "log_find i data sz scratch' es = Some k'" "k = Suc k'"
      by (auto simp: Let_def split: if_splits)
    with Cons.IH show ?thesis by auto
  qed
qed simp

lemma log_find_None:
  assumes "log_find i data sz scratch es = None" "e \<in> set es" "wanted i e" "sz \<le> length (ent_data e)"
  shows "take sz (ent_data e) \<noteq> take_view sz data"
  using assms
proof (induction es arbitrary: scratch)
  case (Cons x es)
  show ?case
  proof (cases "e = x")
    case True
    with Cons.prems have ne: "\<not> mem_equal data (store scratch 0 (take sz (ent_data x))) sz" by (auto simp: Let_def)
    show ?thesis
    proof
      assume eq: "take sz (ent_data e) = take_view sz data"
      have "mem_equal data (store scratch 0 (take sz (ent_data x))) sz"
        using eq Cons.prems(4) True by (simp add: mem_equal_iff store_def)
      with ne show False ..
    qed
  next
    case False
    from Cons.prems obtain scratch' where "log_find i data sz scratch' es = None" by (auto simp: Let_def split: if_splits)
    with Cons False show ?thesis by auto
  qed
qed simp

lemma rb_find_loop_log:
  assumes "ring_inv dev d rb s xs e m" and "reading rb s xs e bs" and "\<not> ring_full s xs e"
    and i: "i \<noteq> 0xff" "i \<noteq> 0" and sz: "0 < sz" "sz \<le> sub32 (number_of_bytes rb) HEADER_SIZE"
    and "orig \<notin> set (tl (bs @ [e]))"
  shows "\<exists>n scratch'. rb_find_loop dev d i data sz orig rb scratch =
    Some (case log_find i data sz scratch (map (entry_of dev d rb) bs) of None \<Rightarrow> RB_BLANK_HDR
          | Some k \<Rightarrow> int (hdr_pos (bs ! k)), rb\<lparr>next_offs := n\<rparr>, scratch') \<and>
    (\<forall>k. log_find i data sz scratch (map (entry_of dev d rb) bs) = Some k \<longrightarrow> at_pos (rb\<lparr>next_offs := n\<rparr>) (hd (drop (Suc k) bs @ [e])))"
  using assms(1-3,6-)
proof (induction bs arbitrary: rb scratch)
  case Nil
  have "at_pos rb e" using Nil.prems(2) by (simp add: reading_def)
  from fetch_end [OF Nil.prems(1,3) this] have "rb_find_loop dev d i data sz orig rb scratch = Some (RB_BLANK_HDR, rb, scratch)"
    by (subst rb_find_loop.simps) auto
  then show ?case by (intro exI [of _ "next_offs rb"] exI [of _ scratch]) simp
next
  case (Cons x bs)
  note D = ring_invD [OF Cons.prems(1)]
  let ?h = "hdr_at dev d rb (hdr_pos x)" and ?q = "next_pos dev d rb x"
  obtain as where xs: "xs = as @ x # bs" using Cons.prems(2) by (auto simp: reading_def)
  then have x: "x \<in> set xs" by simp
  have at: "at_pos rb x" using Cons.prems(2) by (simp add: reading_def)
  note f = fetch_entry [OF D(1) D(7,8) [OF x] at]
  have q: "?q = hd (bs @ [e])" using chain_suffix [OF D(4) [unfolded xs]] by (cases bs) auto
  have ne: "?q \<noteq> orig" using Cons.prems(6) q by (cases bs) auto
  have tl: "orig \<notin> set (tl (bs @ [e]))" using Cons.prems(6) by (cases bs) auto
  have cont: "\<exists>n sc. rb_find_loop dev d i data sz orig (rb\<lparr>next_offs := k\<rparr>) scr =
      Some (case log_find i data sz scr (map (entry_of dev d rb) bs) of None \<Rightarrow> RB_BLANK_HDR | Some k \<Rightarrow> int (hdr_pos (bs ! k)),
        rb\<lparr>next_offs := n\<rparr>, sc) \<and>
      (\<forall>k. log_find i data sz scr (map (entry_of dev d rb) bs) = Some k \<longrightarrow> at_pos (rb\<lparr>next_offs := n\<rparr>) (hd (drop (Suc k) bs @ [e])))" if "k = ?q \<or> k = hdr_pos ?q" for k scr
  proof -
    have "reading (rb\<lparr>next_offs := k\<rparr>) s xs e bs"
      unfolding reading_def using that Cons.prems(3) xs q by (auto intro!: exI [of _ "as @ [x]"])
    from Cons.IH [OF _ this, of scr] show ?thesis using Cons.prems tl by (simp add: at_pos_def)
  qed
  show ?case
  proof (cases "wanted i (entry_of dev d rb x)")
    case False
    then have nm: "\<not> read_match i ?h" by (simp add: read_match_entry wanted_def)
    have "rb_incr (hdr_pos x) (hlen ?h + 4) (number_of_bytes rb) = ?q" by (simp add: next_pos_def)
    then have "rb_find_loop dev d i data sz orig rb scratch = rb_find_loop dev d i data sz orig (rb\<lparr>next_offs := ?q\<rparr>) scratch"
      using nm ne by (subst rb_find_loop.simps) (auto simp: f Let_def read_match_def)
    with cont [of ?q scratch] False show ?thesis by (auto split: option.splits)
  next
    case True
    then have m: "read_match i ?h" by (simp add: read_match_entry wanted_def)
    let ?sc = "store scratch 0 (take sz (ent_data (entry_of dev d rb x)))"
    have "ring_inv dev d (rb\<lparr>next_offs := hdr_pos x\<rparr>) s xs e m" using Cons.prems(1) by simp
    from rb_read_hit [OF this x _ i(1)] True obtain n where
      r: "rb_read dev d (rb\<lparr>next_offs := hdr_pos x\<rparr>) i scratch sz =
        Some (int (min (length (ent_data (entry_of dev d rb x))) sz), rb\<lparr>next_offs := n\<rparr>, ?sc)"
      and n: "n = ?q \<or> n = hdr_pos ?q"
      using i sz Cons.prems(4,5) by (fastforce simp: rb_read_def)
    have pos: "0 < min (length (ent_data (entry_of dev d rb x))) sz"
      using sz D(8) [OF x] by (simp add: entry_of_def Let_def entry_ok_def is_header_good_len)
    have "rb_find_loop dev d i data sz orig rb scratch =
        (if mem_equal data ?sc sz then Some (int (hdr_pos x), rb\<lparr>next_offs := n\<rparr>, ?sc)
         else rb_find_loop dev d i data sz orig (rb\<lparr>next_offs := n\<rparr>) ?sc)"
      using m pos by (subst rb_find_loop.simps) (simp add: f r Let_def read_match_def)
    moreover have "at_pos (rb\<lparr>next_offs := n\<rparr>) (hd (bs @ [e]))" using n by (auto simp: at_pos_def q)
    ultimately show ?thesis using cont [OF n, of ?sc] True by (auto simp: Let_def split: option.splits)
  qed
qed

section \<open>Smudging one record\<close>

lemma chain_cong:
  assumes "\<forall>x\<in>set xs. entry_ok dev d' rb x = entry_ok dev d rb x \<and> next_pos dev d' rb x = next_pos dev d rb x"
  shows "chain dev d' rb p xs e = chain dev d rb p xs e"
  using assms by (induction xs arbitrary: p) auto

lemma entries_disjoint:
  assumes inv: "ring_inv dev d rb s xs e m" and xy: "x \<in> set xs" "y \<in> set xs" "x \<noteq> y"
  shows "entry_end dev d rb x \<le> y \<or> entry_end dev d rb y \<le> x"
proof -
  note D = ring_invD [OF inv]
  have before: "entry_end dev d rb a \<le> b" if sp: "xs = as @ b # bs" "a \<in> set as" "a div 4096 = b div 4096" for a b as bs
  proof -
    have ch: "chain dev d rb s as b" using D(4) by (auto simp: sp(1) chain_append)
    have tl: "s \<notin> set (tl (as @ [b]))" using inv sp(2) by (cases as) (auto simp: ring_inv_def sp(1))
    show ?thesis using chain_before_end [OF D(1,5) ch tl D(2,3) sp(2)] sp(3) by simp
  qed
  show ?thesis
  proof (cases "x div 4096 = y div 4096")
    case True
    obtain as bs where xs: "xs = as @ y # bs" using split_list [OF xy(2)] by blast
    then consider "x \<in> set as" | "x \<in> set bs" using xy by auto
    then show ?thesis
    proof cases
      case 1
      then show ?thesis using before [OF xs] True by blast
    next
      case 2
      then obtain cs ds where "bs = cs @ x # ds" using split_list by metis
      then have "xs = (as @ y # cs) @ x # ds" by (simp add: xs)
      then show ?thesis using before [of "as @ y # cs" x ds y] True by simp
    qed
  next
    case False
    then show ?thesis using sector_end_mono(2) [OF False] D(9) [OF xy(1)] D(9) [OF xy(2)]
      by (auto simp: whole_entry_def)
  qed
qed

text \<open>The byte that holds the flags of the record at \<open>x\<close>, with the live bit cleared.\<close>

definition smudged :: "'d flash_dev \<Rightarrow> 'd \<Rightarrow> 'd \<Rightarrow> rb_t \<Rightarrow> nat \<Rightarrow> bool" where
  "smudged dev d d' rb x \<longleftrightarrow> (\<forall>a<PICO_FLASH_SIZE_BYTES. xip dev d' a =
     (if a = base_address rb + hdr_pos x + 3 then xip dev d a AND NOT RB_HEADER_NOT_SMUDGED else xip dev d a))"

lemma smudged_header:
  assumes wf: "wf_rb rb" and x: "pos_ok rb x" and sm: "smudged dev d d' rb x"
  shows "hdr_at dev d' rb (hdr_pos x) = (hdr_at dev d rb (hdr_pos x))\<lparr>hcrc := hcrc (hdr_at dev d rb (hdr_pos x)) AND NOT RB_HEADER_NOT_SMUDGED\<rparr>"
proof -
  note hp = hdr_pos_facts [OF wf x]
  have top: "hdr_pos x + 4 \<le> number_of_bytes rb" by (rule sector_offset_fits [OF wf hp(2)]) (use hp(4) in simp)
  have b: "base_address rb + hdr_pos x + 4 \<le> PICO_FLASH_SIZE_BYTES" using wf_rb_top [OF wf top] by simp
  have "take 2 (flash_read dev d' (base_address rb + hdr_pos x) 4) = take 2 (flash_read dev d (base_address rb + hdr_pos x) 4)"
    by (rule nth_equalityI) (use sm b in \<open>auto simp: smudged_def\<close>)
  then show ?thesis using sm b by (simp add: hdr_at_def hdr_of_bytes_def smudged_def)
qed

lemma smudged_entry:
  assumes wf: "wf_rb rb" and x: "pos_ok rb x" and w: "whole_entry dev d rb x" and sm: "smudged dev d d' rb x"
    and ok: "entry_ok dev d rb x"
  shows "entry_ok dev d' rb x" "next_pos dev d' rb x = next_pos dev d rb x" "entry_end dev d' rb x = entry_end dev d rb x"
    "whole_entry dev d' rb x" "entry_of dev d' rb x = (entry_of dev d rb x)\<lparr>ent_live := False\<rparr>"
    "x mod 4096 = 0 \<Longrightarrow> index_at dev d' rb x = index_at dev d rb x"
proof -
  note h = smudged_header [OF wf x sm]
  note hp = hdr_pos_facts [OF wf x]
  let ?h = "hdr_at dev d rb (hdr_pos x)"
  have se: "sector_end x \<le> number_of_bytes rb" using sector_top [OF wf] x by (simp add: sector_end_def pos_ok_def)
  have sh: "shdr_at dev d' rb x = shdr_at dev d rb x" if "x mod 4096 = 0"
  proof -
    have "base_address rb + x + 4096 \<le> PICO_FLASH_SIZE_BYTES"
      using that se wf_rb_top [OF wf se] by (auto simp: sector_end_def)
    then have "flash_read dev d' (base_address rb + x) 4 = flash_read dev d (base_address rb + x) 4"
      using sm that by (intro flash_read_cong) (simp add: smudged_def hdr_pos_def)
    then show ?thesis by (simp add: shdr_at_def)
  qed
  show "x mod 4096 = 0 \<Longrightarrow> index_at dev d' rb x = index_at dev d rb x" using sh by (simp add: index_at_def)
  show "entry_ok dev d' rb x"
    using ok sh is_header_good_smudge [of ?h] by (simp add: entry_ok_def sector_ok_def h)
  show "next_pos dev d' rb x = next_pos dev d rb x" "entry_end dev d' rb x = entry_end dev d rb x"
    by (simp_all add: next_pos_def entry_end_def h)
  then show "whole_entry dev d' rb x" using w by (simp add: whole_entry_def h and.assoc)
  have "base_address rb + hdr_pos x + 4 + hlen ?h \<le> PICO_FLASH_SIZE_BYTES"
    using w se wf_rb_top [OF wf se] by (simp add: whole_entry_def entry_end_def)
  then have "flash_read dev d' (base_address rb + hdr_pos x + 4) (hlen ?h) = flash_read dev d (base_address rb + hdr_pos x + 4) (hlen ?h)"
    using sm by (intro flash_read_cong) (simp add: smudged_def)
  then show "entry_of dev d' rb x = (entry_of dev d rb x)\<lparr>ent_live := False\<rparr>"
    by (simp add: entry_of_def h and.assoc Let_def)
qed

lemma smudged_ring_inv:
  assumes inv: "ring_inv dev d rb s xs e m" and x: "x \<in> set xs" and sm: "smudged dev d d' rb x"
  shows "ring_inv dev d' rb s xs e m"
    "ring_log dev d' rb xs = map (\<lambda>y. if y = x then (entry_of dev d rb x)\<lparr>ent_live := False\<rparr> else entry_of dev d rb y) xs"
proof -
  note D = ring_invD [OF inv]
  note X = smudged_entry [OF D(1) D(7) [OF x] D(9) [OF x] sm D(8) [OF x]]
  have hx: "x \<le> hdr_pos x" "hdr_pos x + 4 \<le> entry_end dev d rb x" by (simp_all add: hdr_pos_def entry_end_def)
  have fr: "same_bytes dev d d' rb y (entry_end dev d rb y)" if y: "y \<in> set xs" "y \<noteq> x" for y
    unfolding same_bytes_def
  proof (intro allI impI)
    fix p assume p: "y \<le> p \<and> p < entry_end dev d rb y"
    have "sector_end y \<le> number_of_bytes rb" using sector_top [OF D(1)] D(7) [OF y(1)] by (simp add: sector_end_def pos_ok_def)
    then have "base_address rb + p < PICO_FLASH_SIZE_BYTES"
      using p D(9) [OF y(1)] D(1) by (simp add: whole_entry_def wf_rb_def)
    moreover have "p \<noteq> hdr_pos x + 3" using entries_disjoint [OF inv y(1) x y(2)] p hx by linarith
    ultimately show "xip dev d' (base_address rb + p) = xip dev d (base_address rb + p)" using sm by (simp add: smudged_def)
  qed
  have all: "entry_ok dev d' rb y = entry_ok dev d rb y" "next_pos dev d' rb y = next_pos dev d rb y"
    "entry_end dev d' rb y = entry_end dev d rb y" "whole_entry dev d' rb y"
    "y mod 4096 = 0 \<Longrightarrow> index_at dev d' rb y = index_at dev d rb y" if "y \<in> set xs" for y
    using X entry_frame [OF fr [OF that]] D(8,9) [OF that] by (cases "y = x"; simp)+
  have ch: "chain dev d' rb s xs e" using chain_cong [of xs dev d' rb d s e] all(1,2) D(4) by simp
  have free: "\<forall>p. free_at dev d' rb xs p \<longrightarrow> xip dev d' (base_address rb + p) = 0xff"
  proof (intro allI impI)
    fix p assume p: "free_at dev d' rb xs p"
    then have f: "free_at dev d rb xs p" using all(3) by (simp add: free_at_def)
    then have "p < number_of_bytes rb" and "x div 4096 = p div 4096 \<Longrightarrow> entry_end dev d rb x \<le> p" using x by (auto simp: free_at_def)
    moreover have "(hdr_pos x + 3) div 4096 = x div 4096"
      using hdr_pos_facts [OF D(1) D(7) [OF x]] add_in_sector(2) [of "hdr_pos x" 3] by simp
    ultimately have "p \<noteq> hdr_pos x + 3" using hx by auto
    then show "xip dev d' (base_address rb + p) = 0xff"
      using D(11) [OF f] sm \<open>p < number_of_bytes rb\<close> D(1) by (simp add: smudged_def wf_rb_def)
  qed
  have io: "index_at dev d' rb y = index_at dev d rb y" if "y \<in> set (sector_starts xs)" for y
    using that all(5) by (simp add: sector_starts_def)
  then have "map (index_at dev d' rb) (sector_starts xs) = map (index_at dev d rb) (sector_starts xs)" by simp
  then have "sorted_wrt (<) (map (index_at dev d' rb) (sector_starts xs))" using inv by (simp only: ring_inv_def)
  moreover have "\<forall>y\<in>set (sector_starts xs). index_at dev d' rb y \<le> m" using io inv by (simp add: ring_inv_def)
  ultimately show "ring_inv dev d' rb s xs e m"
    using inv ch free all(4) unfolding ring_inv_def by blast
  show "ring_log dev d' rb xs = map (\<lambda>y. if y = x then (entry_of dev d rb x)\<lparr>ent_live := False\<rparr> else entry_of dev d rb y) xs"
    using X(5) entry_frame(6) [OF fr] by (simp add: ring_log_def)
qed

context nor_flash
begin

lemma rb_smudge_spec:
  assumes inv: "ring_inv dev d rb s xs e m" and x: "x \<in> set xs"
  obtains p d' where "rb_smudge dev d rb (hdr_pos x) = Some (RB_OK, rb\<lparr>rb_page := p\<rparr>, d')" "smudged dev d d' rb x"
proof -
  note D = ring_invD [OF inv]
  note hp = hdr_pos_facts [OF D(1) D(7) [OF x]]
  let ?rb = "rb\<lparr>next_offs := hdr_pos x\<rparr>" and ?c = "hcrc (hdr_at dev d rb (hdr_pos x))"
  have f: "fetch_and_check_header dev d ?rb 0 = Some (RB_OK, hdr_at dev d rb (hdr_pos x), ?rb)"
    using fetch_entry [of ?rb x dev d] D(1) D(7,8) [OF x] by simp
  have top: "hdr_pos x + 4 \<le> number_of_bytes rb" by (rule sector_offset_fits [OF D(1) hp(2)]) (use hp(4) in simp)
  have a: "add32 (hdr_pos x) 3 = hdr_pos x + 3" using wf_rb_u32 [OF D(1) top] by (simp add: add32_small)
  let ?rb3 = "rb\<lparr>next_offs := hdr_pos x + 3\<rparr>"
  obtain p d' where w: "rb_append_page dev d ?rb3 (view_of [?c AND NOT RB_HEADER_NOT_SMUDGED]) 1 =
      (?rb3\<lparr>next_offs := ring_wrap ?rb3 (next_offs ?rb3 + 1), rb_page := p\<rparr>, d')"
    and pr: "programmed dev d d' (base_address ?rb3 + next_offs ?rb3) 1 (view_of [?c AND NOT RB_HEADER_NOT_SMUDGED])"
    by (rule rb_append_page_spec [of ?rb3 1]) (use D(1) top in auto)
  have c: "?c = xip dev d (base_address rb + hdr_pos x + 3)" by (simp add: hdr_at_def hdr_of_bytes_def)
  have "smudged dev d d' rb x"
    unfolding smudged_def
  proof (intro allI impI)
    fix k assume "k < PICO_FLASH_SIZE_BYTES"
    with pr show "xip dev d' k = (if k = base_address rb + hdr_pos x + 3 then xip dev d k AND NOT RB_HEADER_NOT_SMUDGED else xip dev d k)"
      by (auto simp: programmed_def c and.left_commute view_of_def and.assoc [symmetric])
  qed
  moreover have "rb_smudge dev d rb (hdr_pos x) = Some (RB_OK, rb\<lparr>rb_page := p\<rparr>, d')"
    using w by (simp add: rb_smudge_def Let_def f a)
  ultimately show ?thesis using that by blast
qed

end

section \<open>Deleting\<close>

lemma reading_start: "ring_inv dev d rb s xs e m \<Longrightarrow> reading (rb\<lparr>next_offs := s\<rparr>) s xs e xs"
  using ring_invD(4) [of dev d rb s xs e m] by (cases xs) (auto simp: reading_def)

lemma tl_room: "ring_inv dev d rb s xs e m \<Longrightarrow> \<not> ring_full s xs e \<Longrightarrow> s \<notin> set (tl (xs @ [e]))"
  by (rule ring_invD(10))

context nor_flash
begin

lemma rb_delete_log:
  assumes inv: "ring_inv dev d rb s xs e m" and nf: "\<not> ring_full s xs e" and m: "m < RB_INDEX_MASK"
    and used: "sec_res dev d rb 0 = RB_OK" and i: "i \<noteq> 0xff" "i \<noteq> 0" and sz: "0 < sz" "sz \<le> sub32 (number_of_bytes rb) HEADER_SIZE"
  shows "case log_find i data sz page (ring_log dev d rb xs) of
      None \<Rightarrow> \<exists>rb'. rb_delete dev d rb i data sz page = Some (RB_BLANK_HDR, rb', d) \<and> next_offs rb' = next_offs rb
    | Some k \<Rightarrow> \<exists>rb' d'. rb_delete dev d rb i data sz page = Some (RB_OK, rb', d') \<and> next_offs rb' = next_offs rb \<and>
        base_address rb' = base_address rb \<and> number_of_bytes rb' = number_of_bytes rb \<and>
        smudged dev d d' rb (xs ! k) \<and> ring_inv dev d' rb' s xs e m"
proof -
  note D = ring_invD [OF inv]
  let ?rb = "rb\<lparr>rb_page := page\<rparr>"
  have inv0: "ring_inv dev d ?rb s xs e m" using inv by simp
  obtain r n where fo: "rb_find_ring_oldest_sector dev d ?rb = (r, ?rb\<lparr>sector_index := n, next_offs := s\<rparr>)"
    and n: "n \<le> m" and "r = sec_res dev d ?rb 0"
    by (rule ring_inv_find_oldest [OF inv0 m]) blast
  then have r: "r = RB_OK" using used by simp
  let ?rb1 = "?rb\<lparr>sector_index := n, next_offs := s\<rparr>"
  have inv1: "ring_inv dev d (?rb\<lparr>sector_index := n\<rparr>) s xs e m" using inv n by (simp add: ring_inv_def)
  note rd = reading_start [OF inv1]
  have "FLASH_SECTOR s = s" using D(2) by (auto simp: FLASH_SECTOR_def)
  then have rf: "rb_find dev d ?rb1 i data sz page = rb_find_loop dev d i data sz s ?rb1 page"
    using sz i by (simp add: rb_find_def)
  have inv2: "ring_inv dev d ?rb1 s xs e m" using inv1 by simp
  obtain q sc where fl: "rb_find_loop dev d i data sz s ?rb1 page =
      Some (case log_find i data sz page (ring_log dev d rb xs) of None \<Rightarrow> RB_BLANK_HDR | Some k \<Rightarrow> int (hdr_pos (xs ! k)),
        ?rb1\<lparr>next_offs := q\<rparr>, sc)"
    using rb_find_loop_log [OF inv2 rd nf i sz(1) _ tl_room [OF inv nf], of data page] sz(2) by (auto simp: ring_log_def)
  show ?thesis
  proof (cases "log_find i data sz page (ring_log dev d rb xs)")
    case None
    then have "rb_delete dev d rb i data sz page = Some (RB_BLANK_HDR, ?rb1\<lparr>next_offs := q, rb_page := sc, next_offs := next_offs rb\<rparr>, d)"
      using i fo r rf fl by (simp add: rb_delete_def Let_def)
    with None show ?thesis by simp
  next
    case (Some k)
    then have k: "k < length xs" using log_find_Some by (fastforce simp: ring_log_def)
    then have xk: "xs ! k \<in> set xs" by simp
    let ?rb2 = "?rb1\<lparr>next_offs := q, rb_page := sc\<rparr>"
    have inv3: "ring_inv dev d ?rb2 s xs e m" using inv n by (simp add: ring_inv_def)
    obtain p d' where sm: "rb_smudge dev d ?rb2 (hdr_pos (xs ! k)) = Some (RB_OK, ?rb2\<lparr>rb_page := p\<rparr>, d')"
      and s2: "smudged dev d d' ?rb2 (xs ! k)"
      by (rule rb_smudge_spec [OF inv3 xk])
    have "rb_delete dev d rb i data sz page = Some (RB_OK, ?rb2\<lparr>rb_page := p, next_offs := next_offs rb\<rparr>, d')"
      using i fo r rf fl sm Some by (simp add: rb_delete_def Let_def)
    moreover have "ring_inv dev d' (?rb2\<lparr>rb_page := p, next_offs := next_offs rb\<rparr>) s xs e m"
      using smudged_ring_inv(1) [OF inv3 xk s2] by (simp add: ring_inv_def)
    moreover have "smudged dev d d' rb (xs ! k)" using s2 by (simp add: smudged_def)
    ultimately show ?thesis using Some by simp
  qed
qed

end


lemma ring_inv_distinct:
  assumes inv: "ring_inv dev d rb s xs e m"
  shows "distinct xs"
proof -
  note D = ring_invD [OF inv]
  have "sorted_wrt (\<lambda>x y. ring_dist rb s y < ring_dist rb s x) xs"
    by (rule chain_dist_sorted [OF D(1,5,4) _ D(2,3)]) (use inv in \<open>simp add: ring_inv_def\<close>)
  then show ?thesis by (induction xs) auto
qed

lemma map_update_distinct:
  "distinct xs \<Longrightarrow> k < length xs \<Longrightarrow> map (\<lambda>y. if y = xs ! k then v else f y) xs = (map f xs)[k := v]"
  by (rule nth_equalityI) (auto simp: nth_list_update nth_eq_iff_index_eq)

lemma smudged_log:
  assumes inv: "ring_inv dev d rb s xs e m" and k: "k < length xs" and sm: "smudged dev d d' rb (xs ! k)"
  shows "ring_log dev d' rb xs = (ring_log dev d rb xs)[k := (ring_log dev d rb xs ! k)\<lparr>ent_live := False\<rparr>]"
proof -
  note map_update_distinct [OF ring_inv_distinct [OF inv] k, of "(entry_of dev d rb (xs ! k))\<lparr>ent_live := False\<rparr>" "entry_of dev d rb"]
  with smudged_ring_inv(2) [OF inv nth_mem [OF k] sm] show ?thesis
    using k by (simp only: ring_log_def nth_map)
qed

lemma ring_log_geometry:
  "base_address rb' = base_address rb \<Longrightarrow> ring_log dev d rb' xs = ring_log dev d rb xs"
  by (simp add: ring_log_def entry_of_def hdr_at_def)

section \<open>Properties\<close>

lemma rb_read_returns:
  assumes "wf_rb rb" and "pos_ok rb (next_offs rb)"
  shows "\<exists>r. rb_read dev d rb i buf sz = Some r"
proof -
  have "\<exists>r. rb_read_loop dev d i sz (FLASH_SECTOR (next_offs rb)) rb buf 0 = Some r"
    by (rule rb_read_loop_terminates [OF assms])
       (use flash_sector_start [of "next_offs rb" rb] assms(2) in \<open>simp_all add: pos_ok_def\<close>)
  then show ?thesis by (auto simp: rb_read_def)
qed

text \<open>
  C15. \<^verbatim>\<open>rb_read\<close> returns from every legal position on every flash content, a corrupted one
  included: the walk cannot loop, and no assertion of \<^verbatim>\<open>fetch_and_check_header\<close> fails.
\<close>

theorem read_terminates:
  assumes "wf_rb rb" and "pos_ok rb (next_offs rb)"
  shows "\<exists>r. rb_read dev d rb i buf sz = Some r"
  by (rule rb_read_returns [OF assms])

theorem read_terminates_witness:
  "\<exists>r. rb_read nor_array (\<lambda>a. of_nat (a * a)) (storage_rb 4) 1 (\<lambda>_. 0) 10 = Some r"
  by (rule read_terminates) (simp_all add: storage_rb_def wf_rb_def pos_ok_def)

text \<open>
  C3. On a well-formed ring \<^verbatim>\<open>rb_read\<close> skips everything that is not a live record with the id
  it looks for and delivers the first such record: the number of bytes, the bytes themselves in
  the caller's buffer and nothing else changed in it; it then stands in front of the record after.
\<close>

theorem read_delivers_first:
  assumes "ring_inv dev d rb s xs e m" and "reading rb s xs e (cs @ x # ds)"
    and "\<forall>y\<in>set cs. \<not> wanted i (entry_of dev d rb y)" and "wanted i (entry_of dev d rb x)"
    and "i \<noteq> 0xff" "i \<noteq> 0" and "0 < sz" "sz \<le> sub32 (number_of_bytes rb) HEADER_SIZE"
  shows "\<exists>n. rb_read dev d rb i buf sz =
      Some (int (min (length (ent_data (entry_of dev d rb x))) sz), rb\<lparr>next_offs := n\<rparr>,
            store buf 0 (take sz (ent_data (entry_of dev d rb x)))) \<and>
    at_pos (rb\<lparr>next_offs := n\<rparr>) (hd (ds @ [e]))"
  using read_first [OF assms(1,2,5) refl assms(3,4), of sz buf 0] assms(5-8) by (simp add: rb_read_def)

theorem read_delivers_first_witness:
  "\<exists>d rb n. rb_read nor_array d (rb\<lparr>next_offs := 0\<rparr>) 7 (\<lambda>_. 1) 2 = Some (2, rb\<lparr>next_offs := n\<rparr>, store (\<lambda>_. 1) 0 [0, 0])"
proof -
  obtain d rb where R: "ring_inv nor_array d rb 0 [0] 0 1"
    and L: "ring_log nor_array d rb [0] = [\<lparr>ent_id = 7, ent_live = True, ent_data = replicate 4088 0\<rparr>]"
    using full_ring_exists by blast
  have "ring_inv nor_array d (rb\<lparr>next_offs := 0\<rparr>) 0 [0] 0 1" using R by simp
  moreover have "reading (rb\<lparr>next_offs := 0\<rparr>) 0 [0] 0 ([] @ 0 # [])" using reading_start [OF R] by simp
  moreover have "2 \<le> sub32 (number_of_bytes rb) HEADER_SIZE" using append_size_ok [OF ring_invD(1) [OF R], of 2] by simp
  moreover have "take 2 (replicate 4088 (0 :: byte)) = [0, 0]" by (simp add: numeral_eq_Suc)
  ultimately have "\<exists>n. rb_read nor_array d (rb\<lparr>next_offs := 0\<rparr>) 7 (\<lambda>_. 1) 2 = Some (2, rb\<lparr>next_offs := n\<rparr>, store (\<lambda>_. 1) 0 [0, 0])"
    using read_delivers_first [of nor_array d "rb\<lparr>next_offs := 0\<rparr>" 0 "[0]" 0 1 "[]" 0 "[]" 7 2 "\<lambda>_. 1"] L
    by (auto simp: wanted_def ring_log_def)
  then show ?thesis by blast
qed

text \<open>
  C20. When no live record with the id is left, \<^verbatim>\<open>rb_read\<close> returns a negative code and leaves the
  caller's buffer alone: \<^verbatim>\<open>RB_BLANK_HDR\<close> at the end of the log, \<^verbatim>\<open>RB_HDR_ID_NOT_FOUND\<close> after
  one turn around a full ring.
\<close>

theorem read_reports_missing:
  assumes "ring_inv dev d rb s xs e m" and "reading rb s xs e bs" and "\<forall>x\<in>set bs. \<not> wanted i (entry_of dev d rb x)"
    and "i \<noteq> 0xff" "i \<noteq> 0" and "0 < sz" "sz \<le> sub32 (number_of_bytes rb) HEADER_SIZE"
  shows "\<exists>rb'. rb_read dev d rb i buf sz =
    Some (if ring_full s xs e then RB_HDR_ID_NOT_FOUND else RB_BLANK_HDR, rb', buf)"
  using read_none [OF assms(1-3), of sz buf 0] assms(4-7) by (simp add: rb_read_def)

theorem read_reports_missing_witness:
  "\<exists>rb'. rb_read nor_array blank_flash (storage_rb 4) 1 (\<lambda>_. 0) 10 = Some (RB_BLANK_HDR, rb', \<lambda>_. 0)"
proof -
  have R: "ring_inv nor_array blank_flash (storage_rb 4) 0 [] 0 0" by (rule storage_inv) simp_all
  have "(10 :: nat) \<le> sub32 (number_of_bytes (storage_rb 4)) HEADER_SIZE" using append_size_ok [OF ring_invD(1) [OF R], of 10] by simp
  moreover have "reading (storage_rb 4) 0 [] 0 []" by (simp add: reading_def at_pos_def storage_rb_def)
  ultimately show ?thesis
    using read_reports_missing [OF R, of "[]" 1 10 "\<lambda>_. 0"] by (simp add: ring_full_def)
qed

text \<open>
  C14. \<^verbatim>\<open>rb_delete\<close> on a ring with room hides exactly the record \<^verbatim>\<open>rb_find\<close> meets first: that
  record is marked dead, every other record and the structure of the ring stay as they are, and
  one byte of flash changes.
\<close>

theorem delete_hides_record:
  assumes "nor_flash dev" and "ring_inv dev d rb s xs e m" and "\<not> ring_full s xs e" and "m < RB_INDEX_MASK"
    and "sec_res dev d rb 0 = RB_OK" and "i \<noteq> 0xff" "i \<noteq> 0" and "0 < sz" "sz \<le> sub32 (number_of_bytes rb) HEADER_SIZE"
    and "log_find i data sz page (ring_log dev d rb xs) = Some k"
  shows "\<exists>rb' d'. rb_delete dev d rb i data sz page = Some (RB_OK, rb', d') \<and> next_offs rb' = next_offs rb \<and>
    ring_inv dev d' rb' s xs e m \<and>
    ring_log dev d' rb' xs = (ring_log dev d rb xs)[k := (ring_log dev d rb xs ! k)\<lparr>ent_live := False\<rparr>] \<and>
    (\<forall>a<PICO_FLASH_SIZE_BYTES. a \<noteq> base_address rb + hdr_pos (xs ! k) + 3 \<longrightarrow> xip dev d' a = xip dev d a)"
proof -
  obtain rb' d' where "rb_delete dev d rb i data sz page = Some (RB_OK, rb', d')" "next_offs rb' = next_offs rb"
    and b: "base_address rb' = base_address rb" and sm: "smudged dev d d' rb (xs ! k)" and "ring_inv dev d' rb' s xs e m"
    using nor_flash.rb_delete_log [OF assms(1-9), of data page] assms(10) by auto
  moreover have "k < length xs" using log_find_Some [OF assms(10)] by (simp add: ring_log_def)
  ultimately show ?thesis
    using smudged_log [OF assms(2) _ sm] ring_log_geometry [OF b, of dev d' xs] sm by (auto simp: smudged_def)
qed

text \<open>
  When no live record with the id has the bytes asked for, \<^verbatim>\<open>rb_delete\<close> on a ring with room
  returns \<^verbatim>\<open>RB_BLANK_HDR\<close>, leaves the flash as it was and restores the read position.
\<close>

theorem delete_missing:
  assumes "nor_flash dev" and "ring_inv dev d rb s xs e m" and "\<not> ring_full s xs e" and "m < RB_INDEX_MASK"
    and "sec_res dev d rb 0 = RB_OK" and "i \<noteq> 0xff" "i \<noteq> 0" and "0 < sz" "sz \<le> sub32 (number_of_bytes rb) HEADER_SIZE"
    and "log_find i data sz page (ring_log dev d rb xs) = None"
  shows "\<exists>rb'. rb_delete dev d rb i data sz page = Some (RB_BLANK_HDR, rb', d) \<and> next_offs rb' = next_offs rb"
  using nor_flash.rb_delete_log [OF assms(1-9), of data page] assms(10) by simp

text \<open>A ring with room that holds one record.\<close>

lemma one_record_ring:
  "\<exists>d rb. ring_inv nor_array d rb 0 [0] 10 1 \<and> next_offs rb = 0 \<and> sec_res nor_array d rb 0 = RB_OK \<and>
     10 \<le> sub32 (number_of_bytes rb) HEADER_SIZE \<and>
     ring_log nor_array d rb [0] = [\<lparr>ent_id = 1, ent_live = True, ent_data = [72, 105]\<rparr>] \<and>
     base_address rb = 2080768 \<and> number_of_bytes rb = 16384"
proof -
  have tv: "take_view 2 (view_of [72, 105]) = [72, 105]" by (simp add: take_view_def view_of_def numeral_eq_Suc)
  obtain rb d where R: "ring_inv nor_array d rb 0 ([] @ [0]) (next_pos nor_array d (storage_rb 4) 0) (0 + 1)"
    and L: "ring_log nor_array d rb ([] @ [0]) = ring_log nor_array blank_flash (storage_rb 4) [] @
        [\<lparr>ent_id = 1, ent_live = True, ent_data = [72, 105]\<rparr>]"
    and B: "base_address rb = base_address (storage_rb 4)" "next_offs rb = next_offs (storage_rb 4)"
      "number_of_bytes rb = number_of_bytes (storage_rb 4)"
    using nor_array.rb_append_room [OF storage_inv [of 4], of 1 2 "view_of [72, 105]" "\<lambda>_. 0" False]
    by (auto simp: ring_full_def record_fits_def tv)
  have l: "hlen (hdr_at nor_array d (storage_rb 4) 4) = 2"
    using arg_cong [OF L, of "\<lambda>l. length (ent_data (hd l))"] B
    by (simp add: ring_log_def entry_of_def Let_def hdr_at_def hdr_pos_def)
  have "number_of_bytes (storage_rb 4) = 16384" by (simp add: storage_rb_def)
  then have "next_pos nor_array d (storage_rb 4) 0 = 10"
    unfolding next_pos_def by (simp add: hdr_pos_def l rb_incr_def add32_def Let_def)
  moreover have "sec_res nor_array d rb 0 = RB_OK" using visited_sector(2) [OF R, of 0] by simp
  moreover have "10 \<le> sub32 (number_of_bytes rb) HEADER_SIZE" using append_size_ok [OF ring_invD(1) [OF R], of 10] by simp
  moreover have "next_offs rb = 0" "base_address rb = 2080768" "number_of_bytes rb = 16384" using B by (simp_all add: storage_rb_def)
  ultimately show ?thesis using R L by (intro exI [of _ d] exI [of _ rb]) (simp add: ring_log_def)
qed

theorem delete_hides_record_witness:
  "\<exists>d rb rb' d'. rb_delete nor_array d rb 1 (view_of [72, 105]) 2 (\<lambda>_. 0) = Some (RB_OK, rb', d') \<and>
     ring_log nor_array d' rb' [0] = [\<lparr>ent_id = 1, ent_live = False, ent_data = [72, 105]\<rparr>]"
proof -
  obtain d rb where R: "ring_inv nor_array d rb 0 [0] 10 1" "sec_res nor_array d rb 0 = RB_OK" "10 \<le> sub32 (number_of_bytes rb) HEADER_SIZE"
    and L: "ring_log nor_array d rb [0] = [\<lparr>ent_id = 1, ent_live = True, ent_data = [72, 105]\<rparr>]"
    using one_record_ring by blast
  have "log_find 1 (view_of [72, 105]) 2 (\<lambda>_. 0) (ring_log nor_array d rb [0]) = Some 0"
    unfolding L by (auto simp: wanted_def Let_def mem_equal_iff store_def view_of_def)
  from delete_hides_record [OF nor_array.nor_flash_axioms R(1) _ _ R(2) _ _ _ _ this] R(3) L
  show ?thesis by (auto simp: ring_full_def)
qed

theorem delete_missing_witness:
  "\<exists>d rb rb'. rb_delete nor_array d rb 1 (view_of [73, 105]) 2 (\<lambda>_. 0) = Some (RB_BLANK_HDR, rb', d)"
proof -
  obtain d rb where R: "ring_inv nor_array d rb 0 [0] 10 1" "sec_res nor_array d rb 0 = RB_OK" "10 \<le> sub32 (number_of_bytes rb) HEADER_SIZE"
    and L: "ring_log nor_array d rb [0] = [\<lparr>ent_id = 1, ent_live = True, ent_data = [72, 105]\<rparr>]"
    using one_record_ring by blast
  have "log_find 1 (view_of [73, 105]) 2 (\<lambda>_. 0) (ring_log nor_array d rb [0]) = None"
    unfolding L by (auto simp: wanted_def Let_def mem_equal_iff store_def view_of_def intro!: exI [of _ 0])
  from delete_missing [OF nor_array.nor_flash_axioms R(1) _ _ R(2) _ _ _ _ this] R(3)
  show ?thesis by (auto simp: ring_full_def)
qed

text \<open>
  A search that stands at a record it keeps reading without a match never returns: the loop of
  \<^verbatim>\<open>rb_find\<close> does not look at the start position after it has read a record.
\<close>

lemma find_loop_spins:
  assumes fe: "\<And>n. n \<in> A \<Longrightarrow> fetch_and_check_header dev d (rb\<lparr>next_offs := n\<rparr>) 0 = Some (RB_OK, h, rb1)"
    and m: "read_match i h"
    and rd: "\<And>scratch. \<exists>c n sc. rb_read dev d rb1 i scratch sz = Some (c, rb\<lparr>next_offs := n\<rparr>, sc) \<and> n \<in> A \<and> 0 < c \<and> \<not> mem_equal data sc sz"
    and k: "k \<in> A"
  shows "rb_find_loop dev d i data sz orig (rb\<lparr>next_offs := k\<rparr>) scratch = None"
proof (rule ccontr)
  let ?P = "\<lambda>dev' d' i' data' sz' orig' r (scratch :: view) (y :: int \<times> rb_t \<times> view). dev' = dev \<and> d' = d \<and> i' = i \<and> data' = data \<and> sz' = sz \<longrightarrow>
      (\<forall>n\<in>A. r \<noteq> rb\<lparr>next_offs := n\<rparr>)"
  assume "rb_find_loop dev d i data sz orig (rb\<lparr>next_offs := k\<rparr>) scratch \<noteq> None"
  then obtain res where r: "rb_find_loop dev d i data sz orig (rb\<lparr>next_offs := k\<rparr>) scratch = Some res" by auto
  have "?P dev d i data sz orig (rb\<lparr>next_offs := k\<rparr>) scratch res"
  proof (rule rb_find_loop.raw_induct [where P = ?P, OF _ r], goal_cases)
    case (1 f dev' d' i' data' sz' orig' r scratch res)
    show ?case
    proof (intro impI ballI notI)
      fix n assume a: "dev' = dev \<and> d' = d \<and> i' = i \<and> data' = data \<and> sz' = sz" and n: "n \<in> A" "r = rb\<lparr>next_offs := n\<rparr>"
      obtain c n' sc where n': "rb_read dev d rb1 i scratch sz = Some (c, rb\<lparr>next_offs := n'\<rparr>, sc)" "n' \<in> A" "0 < c" "\<not> mem_equal data sc sz"
        using rd by blast
      have "f dev d i data sz orig' (rb\<lparr>next_offs := n'\<rparr>) sc = Some res"
        using 1(2) a n' fe [OF n(1)] n(2) m by (simp add: read_match_def)
      from 1(1) [OF this] n'(2) show False by auto
    qed
  qed
  with k show False by blast
qed

text \<open>
  C24. On a full ring \<^verbatim>\<open>rb_find\<close> may never return. The loop checks for having come around only
  when it skips a record with another id, not after it has read one with the right id and other
  bytes; in a ring whose only record has the id but not the bytes it reads that record for ever,
  and \<^verbatim>\<open>rb_delete\<close> with it.
\<close>

theorem find_full_ring_diverges:
  "\<exists>d rb. ring_inv nor_array d rb 0 [0] 0 1 \<and> next_offs rb = 0 \<and>
     (\<forall>scratch. rb_find nor_array d rb 7 (view_of [1]) 1 scratch = None)"
proof -
  obtain d rb0 where R0: "ring_inv nor_array d rb0 0 [0] 0 1"
    and L: "ring_log nor_array d rb0 [0] = [\<lparr>ent_id = 7, ent_live = True, ent_data = replicate 4088 0\<rparr>]"
    using full_ring_exists by blast
  define rb where "rb = rb0\<lparr>next_offs := 0\<rparr>"
  have R: "ring_inv nor_array d rb 0 [0] 0 1" using R0 by (simp add: rb_def)
  note D = ring_invD [OF R]
  have ent: "entry_of nor_array d rb 0 = \<lparr>ent_id = 7, ent_live = True, ent_data = replicate 4088 0\<rparr>"
    using L by (simp add: ring_log_def rb_def)
  have nx: "next_pos nor_array d rb 0 = 0" "hdr_pos 0 = 4" using D(4) by (simp_all add: hdr_pos_def)
  have m: "read_match 7 (hdr_at nor_array d rb 4)" using read_match_entry [of 7 nor_array d rb 0] ent nx by simp
  have sz: "1 \<le> sub32 (number_of_bytes rb) HEADER_SIZE" using append_size_ok [OF D(1), of 1] by simp
  have rd: "\<exists>c n sc. rb_read nor_array d (rb\<lparr>next_offs := 4\<rparr>) 7 scratch 1 = Some (c, rb\<lparr>next_offs := n\<rparr>, sc) \<and>
      n \<in> {0, 4} \<and> 0 < c \<and> \<not> mem_equal (view_of [1]) sc 1" for scratch
  proof -
    have "\<not> mem_equal (view_of [1]) (store scratch 0 [0]) 1" by (simp add: mem_equal_iff store_def view_of_def)
    then show ?thesis
      using rb_read_hit [of nor_array d "rb\<lparr>next_offs := 4\<rparr>" 0 "[0]" 0 1 0 7 1 "FLASH_SECTOR 4" scratch 0] R ent nx sz
      by (auto simp: rb_read_def wanted_def)
  qed
  have fe: "fetch_and_check_header nor_array d (rb\<lparr>next_offs := n\<rparr>) 0 = Some (RB_OK, hdr_at nor_array d rb 4, rb\<lparr>next_offs := 4\<rparr>)"
    if "n \<in> {0, 4}" for n
    using fetch_entry [of "rb\<lparr>next_offs := n\<rparr>" 0 nor_array d] D(1) D(7,8) [of 0] that nx by auto
  have "rb_find_loop nor_array d 7 (view_of [1]) 1 0 rb scratch = None" for scratch
    using find_loop_spins [OF fe m rd, of 0] by (simp add: rb_def)
  then show ?thesis
    using R sz by (intro exI [of _ d] exI [of _ rb]) (simp add: rb_def rb_find_def FLASH_SECTOR_def)
qed

end
