(* ===== verification/Ring_Split.thy ===== *)
theory Ring_Split
  imports Ring_Delete
begin

text \<open>
  Records that do not fit in the rest of a sector: \<^verbatim>\<open>rb_sector_append\<close> writes a first fragment up
  to the end of the sector and a second one at the start of the next.
\<close>

section \<open>Both fragments\<close>

lemma count_blanks_all: "(\<And>j. j < n \<Longrightarrow> buffer j = v) \<Longrightarrow> count_blanks buffer v n = n"
  using count_blanks_from_all [of n buffer 0 v] by (simp add: count_blanks_def)

text \<open>The rest of the current sector and the whole next one are blank, and they are two sectors.\<close>

definition split_room :: "'d flash_dev \<Rightarrow> 'd \<Rightarrow> rb_t \<Rightarrow> nat \<Rightarrow> bool" where
  "split_room dev d rb ns \<longleftrightarrow> wf_rb rb \<and> next_offs rb < number_of_bytes rb \<and>
     0 < next_offs rb mod FLASH_SECTOR_SIZE \<and> next_offs rb mod FLASH_SECTOR_SIZE + HEADER_SIZE < FLASH_SECTOR_SIZE \<and>
     FLASH_SECTOR_SIZE < number_of_bytes rb \<and> ns = ring_wrap rb (sector_end (next_offs rb)) \<and>
     (\<forall>p. next_offs rb \<le> p \<and> p < sector_end (next_offs rb) \<or> ns \<le> p \<and> p < ns + FLASH_SECTOR_SIZE \<longrightarrow>
        xip dev d (base_address rb + p) = 0xff)"

lemma split_roomD:
  assumes "split_room dev d rb ns"
  shows "wf_rb rb" "next_offs rb < number_of_bytes rb" "ns mod 4096 = 0" "ns + 4096 \<le> number_of_bytes rb"
    "ns + 4096 \<le> next_offs rb \<or> sector_end (next_offs rb) \<le> ns"
    "next_offs rb + (4096 - next_offs rb mod 4096) = sector_end (next_offs rb)"
    "\<And>p. next_offs rb \<le> p \<and> p < sector_end (next_offs rb) \<or> ns \<le> p \<and> p < ns + 4096 \<Longrightarrow> xip dev d (base_address rb + p) = 0xff"
proof -
  let ?n = "next_offs rb"
  show "\<And>p. ?n \<le> p \<and> p < sector_end ?n \<or> ns \<le> p \<and> p < ns + 4096 \<Longrightarrow> xip dev d (base_address rb + p) = 0xff"
    using assms unfolding split_room_def by blast
  show wf: "wf_rb rb" and n: "?n < number_of_bytes rb" using assms by (simp_all add: split_room_def)
  have ns: "ns = ring_wrap rb (sector_end ?n)" and N: "4096 < number_of_bytes rb" using assms by (simp_all add: split_room_def)
  show al: "ns mod 4096 = 0" by (simp add: ns ring_wrap_def sector_end_def)
  have "ns < number_of_bytes rb" using N by (simp add: ns ring_wrap_def)
  then show "ns + 4096 \<le> number_of_bytes rb" using sector_top [OF wf, of ns] al by (metis div_mult_mod_eq add_0_right)
  show se: "?n + (4096 - ?n mod 4096) = sector_end ?n"
    using div_mult_mod_eq [of ?n 4096] mod_lt_4096 [of ?n] unfolding sector_end_def by linarith
  show "ns + 4096 \<le> ?n \<or> sector_end ?n \<le> ns"
  proof (cases "sector_end ?n < number_of_bytes rb")
    case False
    then have "ns = 0" "sector_end ?n = number_of_bytes rb" using sector_top [OF wf n] by (auto simp: ns ring_wrap_def sector_end_def)
    then have "0 < ?n div 4096" using N by (auto simp: sector_end_def intro!: gr0I)
    then have "4096 * 1 \<le> 4096 * (?n div 4096)" by (intro mult_le_mono2) simp
    also have "\<dots> \<le> ?n" by simp
    finally show ?thesis using \<open>ns = 0\<close> by simp
  qed (simp add: ns ring_wrap_def)
qed

lemma split_scan:
  assumes sp: "split_room dev d rb ns"
  shows "sector_blank_scan dev d rb = FLASH_SECTOR_SIZE - next_offs rb mod FLASH_SECTOR_SIZE + FLASH_SECTOR_SIZE"
proof -
  note S = split_roomD [OF sp]
  let ?n = "next_offs rb"
  have c1: "count_blanks (advance (xip dev d) (base_address rb + ?n)) 0xff (4096 - ?n mod 4096) = 4096 - ?n mod 4096"
  proof (rule count_blanks_all)
    fix j assume "j < 4096 - ?n mod 4096"
    then have "?n \<le> ?n + j \<and> ?n + j < sector_end ?n" using S(6) by linarith
    then show "advance (xip dev d) (base_address rb + ?n) j = 0xff" using S(7) [of "?n + j"] by (simp add: add.assoc)
  qed
  have c2: "count_blanks (advance (xip dev d) (base_address rb + ns)) 0xff 4096 = 4096"
    using S(7) by (intro count_blanks_all) (simp add: add.assoc)
  have "sector_end ?n < 2 ^ 32" using sector_top [OF S(1,2)] S(1) by (simp add: sector_end_def wf_rb_def)
  then have "add32 (FLASH_SECTOR ?n) 4096 = sector_end ?n" by (simp add: FLASH_SECTOR_def sector_end_def add32_small)
  moreover have "ns = (if number_of_bytes rb \<le> sector_end ?n then 0 else sector_end ?n)"
    using sp by (simp add: split_room_def ring_wrap_def)
  ultimately show ?thesis using c1 c2 by (simp add: sector_blank_scan_def Let_def)
qed

lemma split_fetch:
  assumes sp: "split_room dev d rb ns"
  shows "\<exists>h. fetch_and_check_header dev d rb (int ns - int (next_offs rb)) = Some (RB_BLANK_HDR, h, rb)"
proof -
  note S = split_roomD [OF sp]
  have "xip dev d (base_address rb + ns + k) = 0xff" if "k < 4" for k
    using S(7) [of "ns + k"] that by (simp add: add.assoc)
  then have "is_sector_header_good (shdr_at dev d rb ns) = RB_BLANK_HDR" by (rule blank_headers(1))
  moreover have "base_address rb + ns < 2 ^ 32" using wf_rb_u32 [OF S(1), of ns] S(4) by simp
  moreover have "ns < number_of_bytes rb" using S(4) by simp
  ultimately show ?thesis
    using S(3) by (simp add: fetch_and_check_header_def Let_def u32_of_int_of_nat add32_small shdr_at_def)
qed

lemma split_next:
  assumes sp: "split_room dev d rb ns"
  shows "(if number_of_bytes rb \<le> add32 (FLASH_SECTOR (next_offs rb)) 4096 then 0 else add32 (FLASH_SECTOR (next_offs rb)) 4096) = ns"
proof -
  note S = split_roomD [OF sp]
  have "sector_end (next_offs rb) < 2 ^ 32" using sector_top [OF S(1,2)] S(1) by (simp add: sector_end_def wf_rb_def)
  then show ?thesis
    using sp by (simp add: split_room_def ring_wrap_def FLASH_SECTOR_def sector_end_def add32_small)
qed

text \<open>The size of the first fragment.\<close>

definition first_part :: "rb_t \<Rightarrow> nat" where
  "first_part rb = FLASH_SECTOR_SIZE - next_offs rb mod FLASH_SECTOR_SIZE - HEADER_SIZE"

lemma first_part_facts:
  assumes sp: "split_room dev d rb ns"
  shows "0 < first_part rb" "next_offs rb mod 4096 + 4 + first_part rb = 4096" "next_offs rb + 4 + first_part rb = sector_end (next_offs rb)"
    "sub32 (4096 - next_offs rb mod 4096) 4 = first_part rb" "header_prefix rb = []" "4096 < number_of_bytes rb"
proof -
  have r: "0 < next_offs rb mod 4096" "next_offs rb mod 4096 + 4 < 4096" and "4096 < number_of_bytes rb" using sp by (simp_all add: split_room_def)
  then show "0 < first_part rb" "sub32 (4096 - next_offs rb mod 4096) 4 = first_part rb" "header_prefix rb = []" "4096 < number_of_bytes rb"
    by (simp_all add: first_part_def sub32_small header_prefix_def)
  show eq: "next_offs rb mod 4096 + 4 + first_part rb = 4096" using r by (simp add: first_part_def)
  show "next_offs rb + 4 + first_part rb = sector_end (next_offs rb)" using split_roomD(6) [OF sp] eq by linarith
qed

context nor_flash
begin

lemma split_first:
  assumes sp: "split_room dev d rb ns"
  obtains p rb1 d1' d1 where
    "write_headers dev d rb hdr (first_part rb) RB_HEADER_NOT_SMUDGED = (written_header hdr (first_part rb) RB_HEADER_NOT_SMUDGED, rb1, d1')"
    "rb_append_page dev d1' rb1 data (first_part rb) = (after_record rb p (first_part rb), d1)"
    "programmed dev d d1 (base_address rb + next_offs rb) (length (record_bytes rb hdr data (first_part rb) RB_HEADER_NOT_SMUDGED))
      (view_of (record_bytes rb hdr data (first_part rb) RB_HEADER_NOT_SMUDGED))"
    "next_offs (after_record rb p (first_part rb)) = ns" "wf_rb (after_record rb p (first_part rb))"
    "number_of_bytes (after_record rb p (first_part rb)) = number_of_bytes rb"
    "base_address (after_record rb p (first_part rb)) = base_address rb"
    "length (header_prefix (after_record rb p (first_part rb))) = HEADER_SIZE"
proof -
  note S = split_roomD [OF sp] and F = first_part_facts [OF sp]
  let ?one = "first_part rb"
  obtain p rb1 d1' d1 where w: "write_headers dev d rb hdr ?one RB_HEADER_NOT_SMUDGED = (written_header hdr ?one RB_HEADER_NOT_SMUDGED, rb1, d1')"
    "rb_append_page dev d1' rb1 data ?one = (after_record rb p ?one, d1)"
    "programmed dev d d1 (base_address rb + next_offs rb) (length (record_bytes rb hdr data ?one RB_HEADER_NOT_SMUDGED))
      (view_of (record_bytes rb hdr data ?one RB_HEADER_NOT_SMUDGED))"
    by (rule write_record_spec [OF S(1,2) _ F(1), of d hdr RB_HEADER_NOT_SMUDGED data]) (use F(2,5) in simp_all)
  have n2: "next_offs (after_record rb p ?one) = ns" using sp by (simp add: after_record_def F(3,5) split_room_def)
  show ?thesis
    by (rule that [OF w n2]) (use S(1,3) n2 in \<open>simp_all add: length_header_prefix\<close>, simp_all add: after_record_def)
qed

lemma split_append:
  assumes sp: "split_room dev d rb ns" and i: "hid hdr \<noteq> 0xff" and sz: "sz \<le> RB_MAX_APPEND_SIZE"
    and two: "two = sz - first_part rb" "0 < two"
  obtains p q d1 d2 rb2 where
    "rb_sector_append dev d rb hdr data sz = Some (RB_OK, after_record rb2 q two, d2)"
    "programmed dev d d1 (base_address rb + next_offs rb) (length (record_bytes rb hdr data (first_part rb) RB_HEADER_NOT_SMUDGED))
      (view_of (record_bytes rb hdr data (first_part rb) RB_HEADER_NOT_SMUDGED))"
    "length (header_prefix rb2) = HEADER_SIZE"
    "programmed dev d1 d2 (base_address rb + ns)
       (length (record_bytes rb2 (written_header hdr (first_part rb) RB_HEADER_NOT_SMUDGED) (advance data two) two 0xc0))
       (view_of (record_bytes rb2 (written_header hdr (first_part rb) RB_HEADER_NOT_SMUDGED) (advance data two) two 0xc0))"
proof -
  note S = split_roomD [OF sp] and F = first_part_facts [OF sp]
  let ?n = "next_offs rb" and ?one = "first_part rb" and ?f = "0xc0 :: byte"
  let ?h1 = "written_header hdr ?one RB_HEADER_NOT_SMUDGED"
  obtain p rb1 d1' d1 where w1: "write_headers dev d rb hdr ?one RB_HEADER_NOT_SMUDGED = (?h1, rb1, d1')"
    and a1: "rb_append_page dev d1' rb1 data ?one = (after_record rb p ?one, d1)"
    and pr1: "programmed dev d d1 (base_address rb + ?n) (length (record_bytes rb hdr data ?one RB_HEADER_NOT_SMUDGED))
      (view_of (record_bytes rb hdr data ?one RB_HEADER_NOT_SMUDGED))"
    and n2: "next_offs (after_record rb p ?one) = ns"
    and wf2: "wf_rb (after_record rb p ?one)" "number_of_bytes (after_record rb p ?one) = number_of_bytes rb"
      "base_address (after_record rb p ?one) = base_address rb" and pre2: "length (header_prefix (after_record rb p ?one)) = 4"
    by (rule split_first [OF sp, of hdr data])
  let ?rb2 = "after_record rb p ?one"
  have nN: "next_offs ?rb2 < number_of_bytes ?rb2" using S(4) by (simp add: n2 wf2)
  have fit2: "next_offs ?rb2 mod 4096 + length (header_prefix ?rb2) + 4 + two \<le> 4096"
    using S(3) sz two(1) F(1) pre2 by (simp add: n2)
  obtain q rb3 d3 d2 where w2: "write_headers dev d1 ?rb2 ?h1 two ?f = (written_header ?h1 two ?f, rb3, d3)"
    and a2: "rb_append_page dev d3 rb3 (advance data two) two = (after_record ?rb2 q two, d2)"
    and pr2: "programmed dev d1 d2 (base_address ?rb2 + next_offs ?rb2) (length (record_bytes ?rb2 ?h1 (advance data two) two ?f))
      (view_of (record_bytes ?rb2 ?h1 (advance data two) two ?f))"
    by (rule write_record_spec [OF wf2(1) nN fit2 two(2), of d1 ?h1 ?f "advance data two"])
  obtain h where f: "fetch_and_check_header dev d rb (int ns - int ?n) = Some (RB_BLANK_HDR, h, rb)" using split_fetch [OF sp] by blast
  have osz: "?one < sz" using two by simp
  have "sub32 sz ?one = two" "sub32 two two = 0" "sub32 4096 4 = 4092" using osz sz two(1) by (simp_all add: sub32_small)
  then have s32: "add32 sz 4 = sz + 4" "min (sub32 (4096 - ?n mod 4096) 4) sz = ?one"
    "min (sub32 sz ?one) (sub32 4096 4) = two" "sub32 (sub32 sz ?one) two = 0"
    using sz osz two(1) F(4) by (simp_all add: add32_small)
  have "\<not> 0xff \<le> hid hdr" using i by (simp add: byte_ge_ff)
  moreover have "\<not> sector_blank_scan dev d rb < sz + 4" unfolding split_scan [OF sp] using sz by simp
  moreover have "\<not> sz + 4 < 4096 - ?n mod 4096" using osz F(2) by simp
  ultimately have "rb_sector_append dev d rb hdr data sz = Some (RB_OK, after_record ?rb2 q two, d2)"
    using sz osz F(6) S(3)
    by (subst rb_sector_append.simps) (simp add: Let_def s32 split_next [OF sp] f w1 a1 n2 w2 a2)
  then show ?thesis using that [OF _ pr1 pre2] pr2 n2 by (simp add: wf2)
qed

lemma exact_fit_append:
  assumes sp: "split_room dev d rb ns" and i: "hid hdr \<noteq> 0xff" and sz: "sz = first_part rb" "sz \<le> RB_MAX_APPEND_SIZE"
  obtains rb' d1 d2 pre where
    "rb_sector_append dev d rb hdr data sz = Some (RB_OK, rb', d2)"
    "programmed dev d d1 (base_address rb + next_offs rb) (length (record_bytes rb hdr data sz RB_HEADER_NOT_SMUDGED))
      (view_of (record_bytes rb hdr data sz RB_HEADER_NOT_SMUDGED))"
    "programmed dev d1 d2 (base_address rb + ns) 8 (view_of (pre @ hdr_bytes (written_header (written_header hdr sz RB_HEADER_NOT_SMUDGED) 0 0xc0)))"
    "length pre = HEADER_SIZE"
proof -
  note S = split_roomD [OF sp] and F = first_part_facts [OF sp, folded sz(1)]
  let ?n = "next_offs rb" and ?h1 = "written_header hdr sz RB_HEADER_NOT_SMUDGED" and ?f = "0xc0 :: byte"
  obtain p rb1 d1' d1 where w1: "write_headers dev d rb hdr sz RB_HEADER_NOT_SMUDGED = (?h1, rb1, d1')"
    and a1: "rb_append_page dev d1' rb1 data sz = (after_record rb p sz, d1)"
    and pr1: "programmed dev d d1 (base_address rb + ?n) (length (record_bytes rb hdr data sz RB_HEADER_NOT_SMUDGED))
      (view_of (record_bytes rb hdr data sz RB_HEADER_NOT_SMUDGED))"
    and n2: "next_offs (after_record rb p sz) = ns"
    and wf2: "wf_rb (after_record rb p sz)" "number_of_bytes (after_record rb p sz) = number_of_bytes rb"
      "base_address (after_record rb p sz) = base_address rb" and pre2: "length (header_prefix (after_record rb p sz)) = 4"
    by (rule split_first [OF sp, of hdr data, folded sz(1)])
  let ?rb2 = "after_record rb p sz"
  obtain q d3 where w2: "write_headers dev d1 ?rb2 ?h1 0 ?f = (written_header ?h1 0 ?f,
      ?rb2\<lparr>last_wrote := next_offs ?rb2, sector_index := next_index ?rb2, rb_page := q,
         next_offs := ring_wrap ?rb2 (next_offs ?rb2 + length (header_prefix ?rb2) + HEADER_SIZE)\<rparr>, d3)"
    and pr2: "programmed dev d1 d3 (base_address ?rb2 + next_offs ?rb2) (length (header_prefix ?rb2) + HEADER_SIZE)
      (view_of (header_prefix ?rb2 @ hdr_bytes (written_header ?h1 0 ?f)))"
    by (rule write_headers_spec [OF wf2(1)]) (use S(4) pre2 n2 wf2 in simp_all)
  let ?rb3 = "?rb2\<lparr>last_wrote := ns, sector_index := next_index ?rb2, rb_page := q, next_offs := ns + 8\<rparr>"
  have rw: "ring_wrap ?rb2 (next_offs ?rb2 + length (header_prefix ?rb2) + HEADER_SIZE) = ns + 8"
    using S(4) by (simp add: ring_wrap_def wf2 n2 pre2)
  have w2': "write_headers dev d1 ?rb2 ?h1 0 ?f = (written_header ?h1 0 ?f, ?rb3, d3)" using w2 unfolding rw unfolding n2 .
  obtain q2 d2 where a2: "rb_append_page dev d3 ?rb3 data 0 = (?rb3\<lparr>next_offs := ring_wrap ?rb3 (next_offs ?rb3 + 0), rb_page := q2\<rparr>, d2)"
    and pr3: "programmed dev d3 d2 (base_address ?rb3 + next_offs ?rb3) 0 data"
    by (rule rb_append_page_spec [of ?rb3 0]) (use S(4) wf2 in simp_all)
  obtain h where f: "fetch_and_check_header dev d rb (int ns - int ?n) = Some (RB_BLANK_HDR, h, rb)" using split_fetch [OF sp] by blast
  have s32: "add32 sz 4 = sz + 4" "min (sub32 (4096 - ?n mod 4096) 4) sz = sz" "sub32 sz sz = 0" "sub32 0 0 = 0"
    using sz(2) F(4) by (simp_all add: add32_small sub32_small)
  have "\<not> 0xff \<le> hid hdr" using i by (simp add: byte_ge_ff)
  moreover have "\<not> sector_blank_scan dev d rb < sz + 4" unfolding split_scan [OF sp] using sz(2) by simp
  moreover have "\<not> sz + 4 < 4096 - ?n mod 4096" using F(2) by simp
  ultimately have "rb_sector_append dev d rb hdr data sz = Some (RB_OK, ?rb3\<lparr>next_offs := ring_wrap ?rb3 (next_offs ?rb3 + 0), rb_page := q2\<rparr>, d2)"
    using sz(2) F(1,6) S(3) a2
    by (subst rb_sector_append.simps) (simp add: Let_def s32 split_next [OF sp] f w1 a1 n2 w2')
  moreover have "programmed dev d1 d2 (base_address rb + ns) 8 (view_of (header_prefix ?rb2 @ hdr_bytes (written_header ?h1 0 ?f)))"
    using pr2 pr3 by (simp add: programmed_def n2 wf2 pre2)
  ultimately show ?thesis using that pr1 pre2 by blast
qed

end

text \<open>What the two writes leave behind, given that both places were blank.\<close>

lemma programmed_elsewhere:
  "programmed dev d d' a n data \<Longrightarrow> x < a \<or> a + n \<le> x \<Longrightarrow> x < PICO_FLASH_SIZE_BYTES \<Longrightarrow> xip dev d' x = xip dev d x"
  by (auto simp: programmed_def)

lemma split_fragments:
  assumes sp: "split_room dev d rb ns"
    and p1: "programmed dev d d1 (base_address rb + next_offs rb) (length (record_bytes rb hdr data (first_part rb) f))
      (view_of (record_bytes rb hdr data (first_part rb) f))"
    and p2: "programmed dev d1 d2 (base_address rb + ns) (length bs) (view_of bs)" and bs: "length bs \<le> FLASH_SECTOR_SIZE"
  shows "flash_read dev d2 (base_address rb + next_offs rb + HEADER_SIZE) (first_part rb) = take_view (first_part rb) data"
    "flash_read dev d2 (base_address rb + ns) (length bs) = bs"
proof -
  note S = split_roomD [OF sp] and F = first_part_facts [OF sp]
  let ?n = "next_offs rb" and ?one = "first_part rb"
  have top: "base_address rb + number_of_bytes rb \<le> PICO_FLASH_SIZE_BYTES" using S(1) by (simp add: wf_rb_def)
  have seN: "sector_end ?n \<le> number_of_bytes rb" using sector_top [OF S(1,2)] by (simp add: sector_end_def)
  have L1: "length (record_bytes rb hdr data ?one f) = 4 + ?one" by (simp add: record_bytes_def F(5))
  have "flash_read dev d1 (base_address rb + ?n) (4 + ?one) = record_bytes rb hdr data ?one f"
    by (rule programmed_blank_read [OF p1 [unfolded L1] L1]) (use S(7) F(3) seN top in \<open>simp_all add: add.assoc\<close>)
  then have "flash_read dev d1 (base_address rb + ?n) (4 + ?one) = hdr_bytes (written_header hdr ?one f) @ take_view ?one data @ []"
    by (simp add: record_bytes_def F(5))
  from flash_read_part [OF this] have f1: "flash_read dev d1 (base_address rb + ?n + 4) ?one = take_view ?one data" by simp
  have "flash_read dev d2 (base_address rb + ?n + 4) ?one = flash_read dev d1 (base_address rb + ?n + 4) ?one"
    by (rule flash_read_cong, rule programmed_elsewhere [OF p2]) (use S(5) F(3) seN top bs in linarith)+
  with f1 show "flash_read dev d2 (base_address rb + ?n + 4) ?one = take_view ?one data" by simp
  have b1: "xip dev d1 (base_address rb + ns + k) = 0xff" if k: "k < length bs" for k
  proof -
    have "xip dev d1 (base_address rb + ns + k) = xip dev d (base_address rb + ns + k)"
      by (rule programmed_elsewhere [OF p1 [unfolded L1]]) (use S(4,5) k bs F(3) seN top in linarith)+
    then show ?thesis using S(7) [of "ns + k"] k bs by (simp add: add.assoc)
  qed
  show "flash_read dev d2 (base_address rb + ns) (length bs) = bs"
    by (rule programmed_blank_read [OF p2 refl _ b1]) (use S(4) bs top in linarith)
qed

section \<open>Properties\<close>

text \<open>
  C23. A record that spans two sectors is stored wrongly. \<^verbatim>\<open>rb_sector_append\<close> reports \<^verbatim>\<open>RB_OK\<close> and
  the first fragment holds the first bytes of the caller's data, but the second fragment, of
  length \<open>two\<close>, holds the bytes that start at offset \<open>two\<close> and not those after the first fragment.
\<close>

theorem split_second_fragment:
  assumes "nor_flash dev" and "split_room dev d rb ns" and "hid hdr \<noteq> 0xff" and "sz \<le> RB_MAX_APPEND_SIZE"
    and "two = sz - first_part rb" "0 < two"
  shows "\<exists>rb' d'. rb_sector_append dev d rb hdr data sz = Some (RB_OK, rb', d') \<and>
    flash_read dev d' (base_address rb + next_offs rb + HEADER_SIZE) (first_part rb) = take_view (first_part rb) data \<and>
    flash_read dev d' (base_address rb + ns + 2 * HEADER_SIZE) two = take_view two (advance data two)"
proof -
  let ?h1 = "written_header hdr (first_part rb) RB_HEADER_NOT_SMUDGED"
  obtain p q d1 d2 rb2 where ok: "rb_sector_append dev d rb hdr data sz = Some (RB_OK, after_record rb2 q two, d2)"
    and p1: "programmed dev d d1 (base_address rb + next_offs rb) (length (record_bytes rb hdr data (first_part rb) RB_HEADER_NOT_SMUDGED))
      (view_of (record_bytes rb hdr data (first_part rb) RB_HEADER_NOT_SMUDGED))"
    and pre: "length (header_prefix rb2) = 4"
    and p2: "programmed dev d1 d2 (base_address rb + ns) (length (record_bytes rb2 ?h1 (advance data two) two 0xc0))
      (view_of (record_bytes rb2 ?h1 (advance data two) two 0xc0))"
    by (rule nor_flash.split_append [OF assms])
  have L: "length (record_bytes rb2 ?h1 (advance data two) two 0xc0) = 8 + two" by (simp add: record_bytes_def pre)
  have "two + 8 \<le> 4096" using assms(4,5) by simp
  then have fr: "flash_read dev d2 (base_address rb + next_offs rb + HEADER_SIZE) (first_part rb) = take_view (first_part rb) data"
    "flash_read dev d2 (base_address rb + ns) (8 + two) = record_bytes rb2 ?h1 (advance data two) two 0xc0"
    using split_fragments [OF assms(2) p1 p2] by (simp_all add: L)
  have "flash_read dev d2 (base_address rb + ns) (8 + two) = (header_prefix rb2 @ hdr_bytes (written_header ?h1 two 0xc0)) @ take_view two (advance data two) @ []"
    by (simp add: fr(2) record_bytes_def)
  from flash_read_part [OF this] show ?thesis using ok fr(1) by (simp add: pre)
qed

text \<open>
  A record that fills its sector to the last byte leaves a phantom behind. The second fragment
  would be empty, \<^verbatim>\<open>make_header\<close> refuses the size zero, its result is ignored, and the header of
  the first fragment is written again, marked as split, at the start of the next sector: it passes
  every check and announces a record as long as the one just written.
\<close>

theorem exact_fit_phantom:
  assumes "nor_flash dev" and "split_room dev d rb ns" and "hid hdr \<noteq> 0xff" and "sz = first_part rb" and "sz \<le> RB_MAX_APPEND_SIZE"
  shows "\<exists>rb' d'. rb_sector_append dev d rb hdr data sz = Some (RB_OK, rb', d') \<and>
    flash_read dev d' (base_address rb + next_offs rb + HEADER_SIZE) sz = take_view sz data \<and>
    is_header_good (hdr_at dev d' rb (ns + HEADER_SIZE)) = RB_OK \<and>
    hlen (hdr_at dev d' rb (ns + HEADER_SIZE)) = sz \<and> hid (hdr_at dev d' rb (ns + HEADER_SIZE)) = hid hdr"
proof -
  let ?h1 = "written_header hdr sz RB_HEADER_NOT_SMUDGED" and ?h2 = "written_header (written_header hdr sz RB_HEADER_NOT_SMUDGED) 0 0xc0"
  obtain rb' d1 d2 pre where ok: "rb_sector_append dev d rb hdr data sz = Some (RB_OK, rb', d2)"
    and p1: "programmed dev d d1 (base_address rb + next_offs rb) (length (record_bytes rb hdr data sz RB_HEADER_NOT_SMUDGED))
      (view_of (record_bytes rb hdr data sz RB_HEADER_NOT_SMUDGED))"
    and p2: "programmed dev d1 d2 (base_address rb + ns) 8 (view_of (pre @ hdr_bytes ?h2))" and pre: "length pre = 4"
    by (rule nor_flash.exact_fit_append [OF assms])
  have "0 < sz" using first_part_facts(1) [OF assms(2)] assms(4) by simp
  note w = written_header_facts [OF this _ assms(3) refl]
  have le: "sz \<le> PERSISTENT_LEN" using assms(5) by simp
  have h2: "?h2 = ?h1\<lparr>hcrc := hcrc ?h1 OR 0xc0\<rparr>" unfolding written_header_def [of ?h1] by (simp add: make_header_def Let_def)
  have "(hcrc ?h1 OR 0xc0) AND 0x1f = hcrc ?h1 AND 0x1f" by (simp add: bit.conj_disj_distrib2)
  then have g: "is_header_good ?h2 = RB_OK" "hlen ?h2 = sz" "hid ?h2 = hid hdr"
    using w(1-3) [OF le] by (simp_all add: h2 is_header_good_OK)
  have "length (pre @ hdr_bytes ?h2) \<le> 4096" "length (pre @ hdr_bytes ?h2) = 8" by (simp_all add: pre)
  then have fr: "flash_read dev d2 (base_address rb + next_offs rb + HEADER_SIZE) sz = take_view sz data"
    "flash_read dev d2 (base_address rb + ns) 8 = pre @ hdr_bytes ?h2 @ []"
    using split_fragments [OF assms(2) p1 [unfolded assms(4)], of d2 "pre @ hdr_bytes ?h2"] p2 assms(4) by simp_all
  have "flash_read dev d2 (base_address rb + ns + 4) 4 = hdr_bytes ?h2" using flash_read_part [OF fr(2)] by (simp add: pre)
  then have "hdr_at dev d2 rb (ns + 4) = ?h2"
    using hdr_of_bytes_hdr_bytes [of ?h2] g(2) le by (simp add: hdr_at_def add.assoc)
  with ok fr(1) g show ?thesis by auto
qed

text \<open>A reader position 96 bytes before the end of the first sector of a blank ring.\<close>

lemma split_room_blank: "split_room nor_array blank_flash ((storage_rb 4)\<lparr>next_offs := 4000\<rparr>) 4096"
  by (simp add: split_room_def storage_rb_def wf_rb_def ring_wrap_def sector_end_def nor_array_def blank_flash_def)

theorem split_second_fragment_witness:
  "\<exists>rb' d'. rb_sector_append nor_array blank_flash ((storage_rb 4)\<lparr>next_offs := 4000\<rparr>) \<lparr>hlen = 0, hid = 1, hcrc = 0\<rparr>
       (\<lambda>k. of_nat k) 96 = Some (RB_OK, rb', d') \<and>
     flash_read nor_array d' (2080768 + 4096 + 8) 4 = [4, 5, 6, 7]"
proof -
  have one: "first_part ((storage_rb 4)\<lparr>next_offs := 4000\<rparr>) = 92" by (simp add: first_part_def)
  have "take_view 4 (advance (\<lambda>k. of_nat k) 4) = [4, 5, 6, 7]" by (simp add: take_view_def numeral_eq_Suc)
  moreover have "base_address (storage_rb 4) = 2080768" by (simp add: storage_rb_def)
  ultimately show ?thesis
    using split_second_fragment [OF nor_array.nor_flash_axioms split_room_blank, of "\<lparr>hlen = 0, hid = 1, hcrc = 0\<rparr>" 96 4 "\<lambda>k. of_nat k"]
    by (auto simp: one)
qed

theorem exact_fit_phantom_witness:
  "\<exists>rb' d'. rb_sector_append nor_array blank_flash ((storage_rb 4)\<lparr>next_offs := 4000\<rparr>) \<lparr>hlen = 0, hid = 1, hcrc = 0\<rparr>
       (\<lambda>k. of_nat k) 92 = Some (RB_OK, rb', d') \<and>
     hlen (hdr_at nor_array d' ((storage_rb 4)\<lparr>next_offs := 4000\<rparr>) 4100) = 92"
proof -
  have one: "92 = first_part ((storage_rb 4)\<lparr>next_offs := 4000\<rparr>)" by (simp add: first_part_def)
  show ?thesis
    using exact_fit_phantom [OF nor_array.nor_flash_axioms split_room_blank _ one, of "\<lparr>hlen = 0, hid = 1, hcrc = 0\<rparr>" "\<lambda>k. of_nat k"]
    by auto
qed

end
