(* ===== verification/Ring_Create.thy ===== *)
theory Ring_Create
  imports Ring_Split
begin

text \<open>
  Creating a ring: erasing it, or accepting what the flash holds.
\<close>

definition ring_place :: "nat \<Rightarrow> nat \<Rightarrow> bool" where
  "ring_place base n \<longleftrightarrow> base mod XIP_BASE mod FLASH_SECTOR_SIZE = 0 \<and> 1 \<le> n \<and>
     base mod XIP_BASE + n * FLASH_SECTOR_SIZE \<le> PICO_FLASH_SIZE_BYTES"

lemma ring_place_count: "ring_place base n \<Longrightarrow> 1 \<le> n \<and> n \<le> PICO_FLASH_SIZE_BYTES div FLASH_SECTOR_SIZE"
  by (simp add: ring_place_def)

context nor_flash
begin

lemma rb_create_always:
  assumes pl: "ring_place base n"
  obtains d' rb' where "rb_create dev d rb base n CREATE_INIT_ALWAYS = (RB_OK, rb', d')"
    "rb' = rb\<lparr>base_address := base mod XIP_BASE, number_of_bytes := n * FLASH_SECTOR_SIZE, next_offs := 0\<rparr>"
    "ring_inv dev d' rb' 0 [] 0 (sector_index rb)"
    "\<forall>a<PICO_FLASH_SIZE_BYTES. a < base_address rb' \<or> base_address rb' + number_of_bytes rb' \<le> a \<longrightarrow> xip dev d' a = xip dev d a"
proof -
  let ?rb = "rb\<lparr>base_address := base mod XIP_BASE, number_of_bytes := n * FLASH_SECTOR_SIZE, next_offs := 0\<rparr>"
  let ?d = "flash_erase dev (base mod XIP_BASE) (n * FLASH_SECTOR_SIZE) d"
  have er: "xip dev ?d a = (if base mod XIP_BASE \<le> a \<and> a < base mod XIP_BASE + n * FLASH_SECTOR_SIZE then 0xff else xip dev d a)"
    if "a < PICO_FLASH_SIZE_BYTES" for a
    by (rule erase_byte) (use pl that in \<open>simp_all add: ring_place_def\<close>)
  have wf: "wf_rb ?rb" using pl by (simp add: wf_rb_def ring_place_def)
  have "ring_inv dev ?d ?rb 0 [] 0 (sector_index ?rb)"
    by (rule ring_inv_blank [OF wf]) (use pl er in \<open>auto simp: ring_place_def\<close>)
  moreover have "rb_create dev d rb base n CREATE_INIT_ALWAYS = (RB_OK, ?rb, ?d)"
    using ring_place_count [OF pl] by (simp add: rb_create_def Let_def)
  moreover have "\<forall>a<PICO_FLASH_SIZE_BYTES. a < base_address ?rb \<or> base_address ?rb + number_of_bytes ?rb \<le> a \<longrightarrow> xip dev ?d a = xip dev d a"
    using er by auto
  ultimately show ?thesis by (intro that [of ?rb ?d]) simp_all
qed

end

text \<open>
  C18. \<^verbatim>\<open>rb_create\<close> with \<^verbatim>\<open>CREATE_INIT_ALWAYS\<close> erases exactly the ring it is given and leaves an
  empty, well-formed one: every later append and read starts from the invariant. The sector
  index of the control block is not set: the ring starts counting from whatever the caller's
  memory held.
\<close>

theorem create_always_empty_ring:
  assumes "nor_flash dev" and "ring_place base n"
  shows "\<exists>rb' d'. rb_create dev d rb base n CREATE_INIT_ALWAYS = (RB_OK, rb', d') \<and>
    base_address rb' = base mod XIP_BASE \<and> number_of_bytes rb' = n * FLASH_SECTOR_SIZE \<and> next_offs rb' = 0 \<and>
    sector_index rb' = sector_index rb \<and> ring_inv dev d' rb' 0 [] 0 (sector_index rb) \<and>
    (\<forall>a<PICO_FLASH_SIZE_BYTES. a < base_address rb' \<or> base_address rb' + number_of_bytes rb' \<le> a \<longrightarrow> xip dev d' a = xip dev d a)"
proof -
  obtain d' rb' where "rb_create dev d rb base n CREATE_INIT_ALWAYS = (RB_OK, rb', d')"
    "rb' = rb\<lparr>base_address := base mod XIP_BASE, number_of_bytes := n * FLASH_SECTOR_SIZE, next_offs := 0\<rparr>"
    "ring_inv dev d' rb' 0 [] 0 (sector_index rb)"
    "\<forall>a<PICO_FLASH_SIZE_BYTES. a < base_address rb' \<or> base_address rb' + number_of_bytes rb' \<le> a \<longrightarrow> xip dev d' a = xip dev d a"
    by (rule nor_flash.rb_create_always [OF assms, of d rb])
  then show ?thesis by (intro exI [of _ rb'] exI [of _ d']) auto
qed

theorem create_always_empty_ring_witness:
  "\<exists>rb' d'. rb_create nor_array (\<lambda>_. 0x55) (storage_rb 1) 0x101fc000 4 CREATE_INIT_ALWAYS = (RB_OK, rb', d') \<and>
     ring_inv nor_array d' rb' 0 [] 0 0"
  using create_always_empty_ring [OF nor_array.nor_flash_axioms, of "0x101fc000" 4 "\<lambda>_. 0x55" "storage_rb 1"]
  by (auto simp: ring_place_def storage_rb_def)

section \<open>What is accepted\<close>

text \<open>The first pass over the sector headers, whatever they hold: it reports success only when all are good or blank.\<close>

lemma check_headers_status:
  assumes "wf_rb rb" "k \<le> sector_count rb"
  shows "\<exists>n i bc' lb' st'. check_headers_loop dev d rb bc lb st (k * FLASH_SECTOR_SIZE) = (rb\<lparr>next_offs := n, sector_index := i\<rparr>, bc', lb', st') \<and>
    (st' = st \<or> st' = RB_BAD_HDR) \<and>
    (st' = RB_OK \<longrightarrow> st = RB_OK \<and> (\<forall>j. k \<le> j \<and> j < sector_count rb \<longrightarrow> sec_res dev d rb j = RB_OK \<or> sec_res dev d rb j = RB_BLANK_HDR))"
  using assms
proof (induction "sector_count rb - k" arbitrary: k rb bc lb st)
  case 0
  then have "check_headers_loop dev d rb bc lb st (k * FLASH_SECTOR_SIZE) = (rb\<lparr>next_offs := next_offs rb, sector_index := sector_index rb\<rparr>, bc, lb, st)"
    using sector_count_pos [OF 0(2)] by (subst check_headers_loop.simps) simp
  then show ?case using 0(1)
    by (intro exI [of _ "next_offs rb"] exI [of _ "sector_index rb"] exI [of _ bc] exI [of _ lb] exI [of _ st]) auto
next
  case (Suc c)
  have k: "k < sector_count rb" and c: "c = sector_count rb - Suc k" using Suc(2) by simp_all
  have lt: "k * 4096 < number_of_bytes rb" using sector_count_pos [OF Suc(3)] k by simp
  have hdr: "shdr_of_bytes (flash_read dev d (base_address rb + k * 4096) 4) = shdr_at dev d rb (k * 4096)" by (simp add: shdr_at_def)
  define st1 where "st1 = (if sec_res dev d rb k = RB_OK \<or> sec_res dev d rb k = RB_BLANK_HDR then st else RB_BAD_HDR)"
  let ?ok = "sec_res dev d rb k = RB_OK" and ?blank = "sec_res dev d rb k = RB_BLANK_HDR"
  define i1 where "i1 = (if ?ok \<and> sector_index rb \<le> sec_index dev d rb k then sec_index dev d rb k else sector_index rb)"
  define bc1 lb1 where "bc1 = (if ?blank then bc + 1 else bc)" and "lb1 = (if ?blank then k * FLASH_SECTOR_SIZE else lb)"
  have e: "rb\<lparr>next_offs := k * 4096, sector_index := sector_index rb\<rparr> = rb\<lparr>next_offs := k * 4096\<rparr>" by simp
  have "check_headers_loop dev d rb bc lb st (k * FLASH_SECTOR_SIZE) =
      check_headers_loop dev d (rb\<lparr>next_offs := k * FLASH_SECTOR_SIZE, sector_index := i1\<rparr>) bc1 lb1 st1 (Suc k * FLASH_SECTOR_SIZE)"
    using lt e unfolding st1_def i1_def bc1_def lb1_def sec_res_def sec_index_def
    by (subst check_headers_loop.simps) (simp add: Let_def sector_addr(1) [OF Suc(3) lt] hdr add.commute)
  moreover obtain n i bc' lb' st' where "check_headers_loop dev d (rb\<lparr>next_offs := k * FLASH_SECTOR_SIZE, sector_index := i1\<rparr>) bc1 lb1 st1 (Suc k * FLASH_SECTOR_SIZE) =
      (rb\<lparr>next_offs := n, sector_index := i\<rparr>, bc', lb', st')" "st' = st1 \<or> st' = RB_BAD_HDR"
    "st' = RB_OK \<longrightarrow> st1 = RB_OK \<and> (\<forall>j. Suc k \<le> j \<and> j < sector_count rb \<longrightarrow> sec_res dev d rb j = RB_OK \<or> sec_res dev d rb j = RB_BLANK_HDR)"
    using Suc(1) [of "rb\<lparr>next_offs := k * FLASH_SECTOR_SIZE, sector_index := i1\<rparr>" "Suc k" bc1 lb1 st1] Suc(3) k c by auto
  moreover have "st1 = st \<or> st1 = RB_BAD_HDR" "st1 = RB_OK \<Longrightarrow> st = RB_OK \<and> (sec_res dev d rb k = RB_OK \<or> sec_res dev d rb k = RB_BLANK_HDR)"
    by (auto simp: st1_def split: if_splits)
  ultimately show ?case by (metis Suc_leI le_neq_implies_less)
qed

text \<open>The second pass changes the position only, and does not repair a bad status.\<close>

lemma check_order_status:
  "\<exists>n st'. check_order_loop dev d rb lb st low i = (rb\<lparr>next_offs := n\<rparr>, st') \<and> (st' = st \<or> st' = RB_BAD_HDR) \<and> (st \<noteq> RB_OK \<longrightarrow> st' = st)"
proof (induction dev d rb lb st low i rule: check_order_loop.induct)
  case (1 dev d rb lb st low i)
  show ?case
  proof (cases "i < number_of_bytes rb \<and> st = RB_OK")
    case True
    note IH = "1" [OF True refl refl refl refl refl]
    let ?n = "let n0 = add32 i lb in if n0 > number_of_bytes rb then sub32 n0 (number_of_bytes rb) else n0"
    let ?h = "shdr_of_bytes (flash_read dev d (add32 (base_address rb) ?n) HEADER_SIZE)"
    show ?thesis
    proof (cases "is_sector_header_good ?h = RB_OK")
      case good: True
      then show ?thesis using IH True by (subst check_order_loop.simps) (auto simp: Let_def)
    next
      case False
      then show ?thesis using True by (subst check_order_loop.simps) (auto simp: Let_def)
    qed
  next
    case False
    then show ?thesis by (subst check_order_loop.simps) (auto intro!: exI [of _ "next_offs rb"])
  qed
qed

lemma check_ring_status:
  assumes wf: "wf_rb rb"
  shows "\<exists>rb'. rb_check_sector_ring dev d rb = (RB_BAD_HDR, rb') \<or>
    rb_check_sector_ring dev d rb = (RB_OK, rb') \<and> sectors_valid dev d rb \<and> (\<exists>n i. rb' = rb\<lparr>next_offs := n, sector_index := i\<rparr>)"
proof -
  obtain n i bc lb st where h: "check_headers_loop dev d rb 0 0 RB_OK 0 = (rb\<lparr>next_offs := n, sector_index := i\<rparr>, bc, lb, st)"
    and st: "st = RB_OK \<or> st = RB_BAD_HDR"
    and v: "st = RB_OK \<longrightarrow> (\<forall>j < sector_count rb. sec_res dev d rb j = RB_OK \<or> sec_res dev d rb j = RB_BLANK_HDR)"
    using check_headers_status [OF wf, of 0 dev d 0 0 RB_OK] by auto
  let ?rb1 = "rb\<lparr>next_offs := n, sector_index := i\<rparr>"
  obtain rb2 start where s: "(if bc = 0 then let (hdr_res, r) = rb_find_ring_oldest_sector dev d ?rb1 in (r, next_offs r) else (?rb1, lb)) = (rb2, start)"
    by fastforce
  obtain m st' where o: "check_order_loop dev d rb2 start st 0 0 = (rb2\<lparr>next_offs := m\<rparr>, st')"
    "st' = st \<or> st' = RB_BAD_HDR" "st \<noteq> RB_OK \<longrightarrow> st' = st" using check_order_status [of dev d rb2 start st 0 0] by blast
  have c: "rb_check_sector_ring dev d rb = (st', rb2\<lparr>next_offs := m\<rparr>)"
    using s o(1) by (simp add: rb_check_sector_ring_def h Let_def)
  show ?thesis
  proof (cases "st' = RB_OK")
    case True
    then have val: "sectors_valid dev d rb" using o(3) v by (auto simp: sectors_valid_def)
    then obtain p k where "rb_find_ring_oldest_sector dev d ?rb1 = (sec_res dev d rb 0, ?rb1\<lparr>next_offs := p, sector_index := k\<rparr>)"
      using find_ring_oldest_least [of ?rb1 dev d] wf by auto
    then have "\<exists>i. rb2\<lparr>next_offs := m\<rparr> = rb\<lparr>next_offs := m, sector_index := i\<rparr>"
      using s by (auto simp: rb_swap split: if_splits intro: exI [of _ k] exI [of _ i])
    then show ?thesis using c True val by blast
  next
    case False
    then show ?thesis using c o(2,3) st by auto
  qed
qed

text \<open>
  Where a ring that was accepted stands: on the start of the good sector with the least index (at its beginning when
  no sector is good), with the highest index in the control block.
\<close>

definition accepted_ring :: "'d flash_dev \<Rightarrow> 'd \<Rightarrow> rb_t \<Rightarrow> bool" where
  "accepted_ring dev d rb \<longleftrightarrow> sectors_valid dev d rb \<and> least_from dev d rb (sector_count rb) 0 RB_INDEX_MASK (next_offs rb) \<and>
     (\<forall>k < sector_count rb. sec_res dev d rb k = RB_OK \<longrightarrow> sec_index dev d rb k \<le> sector_index rb)"

lemma accepted_pos: "wf_rb rb \<Longrightarrow> accepted_ring dev d rb \<Longrightarrow> pos_ok rb (next_offs rb)"
  using sector_count_pos [of rb] by (auto simp: accepted_ring_def least_from_def pos_ok_def)

lemma create_accepts:
  assumes pl: "ring_place base n" and ch: "ch \<noteq> CREATE_INIT_ALWAYS"
    and c: "rb_create dev d rb base n ch = (r, rb', d')" "r = RB_OK \<or> r = RB_BLANK_HDR \<or> r = RB_HDR_LOOP"
  shows "d' = d \<and> base_address rb' = base mod XIP_BASE \<and> number_of_bytes rb' = n * FLASH_SECTOR_SIZE \<and> r = sec_res dev d rb' 0 \<and> accepted_ring dev d rb'"
proof -
  let ?rb = "rb\<lparr>base_address := base mod XIP_BASE, number_of_bytes := n * FLASH_SECTOR_SIZE, next_offs := 0\<rparr>"
  have wf: "wf_rb ?rb" using pl by (simp add: wf_rb_def ring_place_def)
  obtain p i rb1 where k: "rb_check_sector_ring dev d ?rb = (RB_OK, rb1)" and v: "sectors_valid dev d ?rb" and rb1: "rb1 = ?rb\<lparr>next_offs := p, sector_index := i\<rparr>"
    using check_ring_status [OF wf, of dev d] c ch ring_place_count [OF pl] by (auto simp: rb_create_def Let_def)
  obtain q j where f: "rb_find_ring_oldest_sector dev d rb1 = (sec_res dev d rb1 0, rb1\<lparr>next_offs := q, sector_index := j\<rparr>)"
    "max_index dev d rb1 (sector_count rb1) j" "least_from dev d rb1 (sector_count rb1) 0 RB_INDEX_MASK q"
    using find_ring_oldest_least [of rb1 dev d] wf v by (auto simp: rb1)
  have "rb' = rb1\<lparr>next_offs := q, sector_index := j\<rparr> \<and> r = sec_res dev d rb1 0 \<and> d' = d"
    using c(1) k f(1) ch ring_place_count [OF pl] by (auto simp: rb_create_def Let_def)
  with f(2,3) v show ?thesis by (simp add: rb1 accepted_ring_def max_index_def)
qed



end
