(* ===== verification/Ring_Reopen.thy ===== *)
theory Ring_Reopen
  imports Ring_Create
begin

text \<open>
  Opening an existing ring: \<^verbatim>\<open>rb_check_sector_ring\<close> accepts a well-formed ring, so \<^verbatim>\<open>rb_create\<close>
  and \<^verbatim>\<open>rb_recreate\<close> find its oldest sector and leave the flash alone.
\<close>

section \<open>The first pass over the sector headers\<close>

lemma check_headers_unfold:
  assumes wf: "wf_rb rb" and k: "k < sector_count rb"
    and good: "sec_res dev d rb k = RB_OK \<or> sec_res dev d rb k = RB_BLANK_HDR"
  shows "check_headers_loop dev d rb bc lb st (k * FLASH_SECTOR_SIZE) =
    (if sec_res dev d rb k = RB_OK then
       check_headers_loop dev d (rb\<lparr>next_offs := k * FLASH_SECTOR_SIZE,
         sector_index := (if sector_index rb \<le> sec_index dev d rb k then sec_index dev d rb k else sector_index rb)\<rparr>)
         bc lb st (Suc k * FLASH_SECTOR_SIZE)
     else check_headers_loop dev d (rb\<lparr>next_offs := k * FLASH_SECTOR_SIZE\<rparr>) (bc + 1) (k * FLASH_SECTOR_SIZE) st (Suc k * FLASH_SECTOR_SIZE))"
proof -
  have lt: "k * 4096 < number_of_bytes rb"
    using sector_count_pos [OF wf] k by simp
  note addr = sector_addr(1) [OF wf lt]
  have hdr: "shdr_of_bytes (flash_read dev d (base_address rb + k * 4096) 4) = shdr_at dev d rb (k * 4096)" by (simp add: shdr_at_def)
  have [simp]: "rb\<lparr>next_offs := k * 4096, sector_index := sector_index rb\<rparr> = rb\<lparr>next_offs := k * 4096\<rparr>" by simp
  show ?thesis
    using good lt unfolding sec_res_def sec_index_def
    by (subst check_headers_loop.simps) (auto simp: Let_def addr hdr add.commute)
qed

text \<open>What the first pass knows about blank sectors from sector \<open>k\<close> on.\<close>

definition blanks_found :: "'d flash_dev \<Rightarrow> 'd \<Rightarrow> rb_t \<Rightarrow> nat \<Rightarrow> nat \<Rightarrow> nat \<Rightarrow> nat \<Rightarrow> nat \<Rightarrow> bool" where
  "blanks_found dev d rb k bc lb bc' lb' \<longleftrightarrow>
     (bc' = bc \<and> lb' = lb \<and> (\<forall>j < sector_count rb. k \<le> j \<longrightarrow> sec_res dev d rb j = RB_OK)) \<or>
     (0 < bc' \<and> (\<exists>j < sector_count rb. lb' = j * FLASH_SECTOR_SIZE \<and> sec_res dev d rb j = RB_BLANK_HDR))"

lemma blanks_found_update [simp]:
  "blanks_found dev d (rb\<lparr>next_offs := v0\<rparr>) = blanks_found dev d rb"
  "blanks_found dev d (rb\<lparr>sector_index := v2\<rparr>) = blanks_found dev d rb"
  by (simp_all add: blanks_found_def fun_eq_iff)

lemma check_headers_spec:
  assumes "wf_rb rb" "sectors_valid dev d rb" "k \<le> sector_count rb" "sector_index rb \<le> m"
    and "\<forall>j < sector_count rb. sec_res dev d rb j = RB_OK \<longrightarrow> sec_index dev d rb j \<le> m"
  shows "\<exists>n i bc' lb'. check_headers_loop dev d rb bc lb RB_OK (k * FLASH_SECTOR_SIZE) = (rb\<lparr>next_offs := n, sector_index := i\<rparr>, bc', lb', RB_OK) \<and>
    i \<le> m \<and> blanks_found dev d rb k bc lb bc' lb'"
  using assms
proof (induction "sector_count rb - k" arbitrary: k rb bc lb)
  case 0
  then have k: "k = sector_count rb" by simp
  then have "k * 4096 = number_of_bytes rb" using sector_count_pos [OF 0(2)] by simp
  then have "check_headers_loop dev d rb bc lb RB_OK (k * 4096) = (rb\<lparr>next_offs := next_offs rb, sector_index := sector_index rb\<rparr>, bc, lb, RB_OK)"
    by (subst check_headers_loop.simps) simp
  moreover have "blanks_found dev d rb k bc lb bc lb" by (simp add: blanks_found_def k)
  ultimately show ?case using 0(5) by blast
next
  case (Suc c)
  have k: "k < sector_count rb" and c: "c = sector_count rb - Suc k" using Suc(2) by simp_all
  have good: "sec_res dev d rb k = RB_OK \<or> sec_res dev d rb k = RB_BLANK_HDR" using Suc(4) k by (simp add: sectors_valid_def)
  note unf = check_headers_unfold [OF Suc(3) k good]
  show ?case
  proof (cases "sec_res dev d rb k = RB_OK")
    case True
    define i0 where "i0 = (if sector_index rb \<le> sec_index dev d rb k then sec_index dev d rb k else sector_index rb)"
    let ?rb = "rb\<lparr>next_offs := k * FLASH_SECTOR_SIZE, sector_index := i0\<rparr>"
    have "i0 \<le> m" using Suc(6,7) True k by (simp add: i0_def)
    then have "\<exists>n i bc' lb'. check_headers_loop dev d ?rb bc lb RB_OK (Suc k * FLASH_SECTOR_SIZE) =
        (?rb\<lparr>next_offs := n, sector_index := i\<rparr>, bc', lb', RB_OK) \<and> i \<le> m \<and> blanks_found dev d ?rb (Suc k) bc lb bc' lb'"
      by (intro Suc(1)) (use Suc(3,4,7) k c in simp_all)
    moreover have "blanks_found dev d rb k bc lb bc' lb'" if "blanks_found dev d rb (Suc k) bc lb bc' lb'" for bc' lb'
      using that True unfolding blanks_found_def by (metis Suc_leI le_neq_implies_less)
    ultimately show ?thesis unfolding unf by (simp add: True i0_def [symmetric]) blast
  next
    case False
    let ?rb = "rb\<lparr>next_offs := k * FLASH_SECTOR_SIZE\<rparr>"
    have "\<exists>n i bc' lb'. check_headers_loop dev d ?rb (bc + 1) (k * FLASH_SECTOR_SIZE) RB_OK (Suc k * FLASH_SECTOR_SIZE) =
        (?rb\<lparr>next_offs := n, sector_index := i\<rparr>, bc', lb', RB_OK) \<and> i \<le> m \<and> blanks_found dev d ?rb (Suc k) (bc + 1) (k * FLASH_SECTOR_SIZE) bc' lb'"
      by (intro Suc(1)) (use Suc(3,4,6,7) k c in simp_all)
    moreover have "blanks_found dev d rb k bc lb bc' lb'" if "blanks_found dev d rb (Suc k) (bc + 1) (k * 4096) bc' lb'" for bc' lb'
      using that False good k unfolding blanks_found_def by auto
    ultimately show ?thesis unfolding unf by (simp add: False) blast
  qed
qed

section \<open>The second pass: sector indices grow\<close>

lemma check_order_blank:
  assumes wf: "wf_rb rb" and j: "j < sector_count rb" "sec_res dev d rb j = RB_BLANK_HDR"
  shows "check_order_loop dev d rb (j * FLASH_SECTOR_SIZE) RB_OK low 0 = (rb\<lparr>next_offs := j * FLASH_SECTOR_SIZE\<rparr>, RB_OK)"
proof -
  have lt: "j * 4096 < number_of_bytes rb" using sector_count_pos [OF wf] j by simp
  note addr = sector_addr [OF wf lt]
  have "j * 4096 < 2 ^ 32" using lt wf by (simp add: wf_rb_def)
  then have z: "add32 0 (j * 4096) = j * 4096" by (simp add: add32_def)
  have "is_sector_header_good (shdr_of_bytes (flash_read dev d (base_address rb + j * 4096) 4)) = RB_BLANK_HDR"
    using j(2) by (simp add: sec_res_def shdr_at_def)
  then show ?thesis using lt by (subst check_order_loop.simps) (simp add: Let_def z addr)
qed

text \<open>
  From the oldest sector \<open>q\<close> to the last one of the storage the indices grow; behind it the loop has not come around
  yet: it goes on with offset \<^term>\<open>number_of_bytes rb\<close>.
\<close>

lemma check_order_grows:
  assumes "wf_rb rb" "q + k \<le> sector_count rb" "\<forall>j < sector_count rb. sec_res dev d rb j = RB_OK"
    and "\<forall>j. q \<le> j \<and> Suc j < sector_count rb \<longrightarrow> sec_index dev d rb j < sec_index dev d rb (Suc j)"
    and "q + k < sector_count rb \<longrightarrow> low \<le> sec_index dev d rb (q + k)"
  shows "\<exists>n. check_order_loop dev d rb (q * FLASH_SECTOR_SIZE) RB_OK low (k * FLASH_SECTOR_SIZE) =
    check_order_loop dev d (rb\<lparr>next_offs := n\<rparr>) (q * FLASH_SECTOR_SIZE) RB_OK
      (if q + k < sector_count rb then sec_index dev d rb (sector_count rb - 1) else low) ((sector_count rb - q) * FLASH_SECTOR_SIZE)"
  using assms
proof (induction "sector_count rb - (q + k)" arbitrary: k rb low)
  case 0
  then have "k = sector_count rb - q" by simp
  then show ?case using 0 by (intro exI [of _ "next_offs rb"]) simp
next
  case (Suc c)
  have k: "q + k < sector_count rb" using Suc(2) by simp
  define p where "p = (q + k) * FLASH_SECTOR_SIZE"
  have lt: "p < number_of_bytes rb" "k * 4096 < number_of_bytes rb" using sector_count_pos [OF Suc(3)] k by (simp_all add: p_def)
  note addr = sector_addr(1) [OF Suc(3) lt(1) [unfolded p_def], folded p_def]
  have "p < 2 ^ 32" using lt(1) Suc(3) by (simp add: wf_rb_def)
  moreover have "k * 4096 + q * 4096 = p" by (simp add: p_def)
  ultimately have z: "add32 (k * 4096) (q * 4096) = p" by (simp add: add32_def)
  have h: "is_sector_header_good (shdr_of_bytes (flash_read dev d (base_address rb + p) 4)) = RB_OK"
    "get_index (shdr_of_bytes (flash_read dev d (base_address rb + p) 4)) = sec_index dev d rb (q + k)"
    using Suc(5) k by (simp_all only: sec_res_def sec_index_def shdr_at_def p_def)
  have nl: "\<not> sec_index dev d rb (q + k) < low" using Suc(7) k by (simp add: not_less)
  have "check_order_loop dev d rb (q * 4096) RB_OK low (k * 4096) =
      check_order_loop dev d (rb\<lparr>next_offs := p\<rparr>) (q * 4096) RB_OK (sec_index dev d rb (q + k)) (Suc k * 4096)"
  proof -
    have "k * 4096 + 4096 = (4096 + k * 4096 :: nat)" by simp
    then show ?thesis using lt nl by (subst check_order_loop.simps) (simp add: Let_def z addr h add.commute [of "k * 4096"])
  qed
  moreover have "\<exists>n. check_order_loop dev d (rb\<lparr>next_offs := p\<rparr>) (q * 4096) RB_OK (sec_index dev d rb (q + k)) (Suc k * 4096) =
      check_order_loop dev d (rb\<lparr>next_offs := n\<rparr>) (q * 4096) RB_OK (sec_index dev d rb (sector_count rb - 1)) ((sector_count rb - q) * 4096)"
  proof -
    have e: "(if q + Suc k < sector_count rb then sec_index dev d rb (sector_count rb - 1) else sec_index dev d rb (q + k)) =
        sec_index dev d rb (sector_count rb - 1)"
    proof (cases "q + Suc k < sector_count rb")
      case False
      then have "sector_count rb - 1 = q + k" using k by simp
      then show ?thesis by simp
    qed simp
    have "c = sector_count (rb\<lparr>next_offs := p\<rparr>) - (q + Suc k)" using Suc(2) by simp
    from Suc(1) [OF this, of "sec_index dev d rb (q + k)"] show ?thesis unfolding sectors_update sec_update e using Suc(3-6) k
      by (simp add: less_imp_le)
  qed
  ultimately show ?case using k by simp
qed

text \<open>The header the second pass meets behind the last sector, which is not part of the ring.\<close>

abbreviation behind :: "'d flash_dev \<Rightarrow> 'd \<Rightarrow> rb_t \<Rightarrow> rb_sector_header" where
  "behind dev d rb \<equiv> shdr_at dev d rb (number_of_bytes rb)"

lemma check_order_behind:
  assumes wf: "wf_rb rb" and q: "0 < q" "q < sector_count rb"
  shows "check_order_loop dev d rb (q * FLASH_SECTOR_SIZE) RB_OK low ((sector_count rb - q) * FLASH_SECTOR_SIZE) =
    (let rb1 = rb\<lparr>next_offs := number_of_bytes rb\<rparr>
     in if is_sector_header_good (behind dev d rb) = RB_OK then
          check_order_loop dev d rb1 (q * FLASH_SECTOR_SIZE) (if get_index (behind dev d rb) < low then RB_BAD_HDR else RB_OK)
            (get_index (behind dev d rb)) ((sector_count rb - q) * FLASH_SECTOR_SIZE + FLASH_SECTOR_SIZE)
        else (rb1, RB_OK))"
proof -
  have n: "number_of_bytes rb = sector_count rb * 4096" using sector_count_pos [OF wf] by simp
  have b: "base_address rb + number_of_bytes rb < 2 ^ 32" using wf by (simp add: wf_rb_def)
  have "(sector_count rb - q) * 4096 + q * 4096 = number_of_bytes rb" using q unfolding n by (simp flip: add_mult_distrib)
  then have z: "add32 ((sector_count rb - q) * 4096) (q * 4096) = number_of_bytes rb" using b by (simp add: add32_def)
  have a: "add32 (base_address rb) (number_of_bytes rb) = base_address rb + number_of_bytes rb" using b by (rule add32_small)
  have lt: "(sector_count rb - q) * 4096 < number_of_bytes rb" using q n by simp
  show ?thesis using lt by (subst check_order_loop.simps) (simp add: Let_def z a shdr_at_def)
qed

lemma sorted_maps:
  fixes f :: "nat \<Rightarrow> 'a :: order"
  assumes "sorted_wrt R ps" "sorted_wrt (<) (map f ps)" "a \<in> set ps" "b \<in> set ps" "R a b" "\<And>x y. R x y \<Longrightarrow> \<not> R y x"
  shows "f a < f b"
  using assms(1-5)
proof (induction ps)
  case (Cons x ps)
  then show ?case using assms(6) by (cases "a = x"; cases "b = x") auto
qed simp

text \<open>From its oldest sector to the end of its storage a ring holds its sectors in the order of their indices.\<close>

lemma indices_grow:
  assumes inv: "ring_inv dev d rb s xs e m" and all: "\<forall>j < sector_count rb. sec_res dev d rb j = RB_OK"
    and j: "s div FLASH_SECTOR_SIZE \<le> j" "Suc j < sector_count rb"
  shows "sec_index dev d rb j < sec_index dev d rb (Suc j)"
proof -
  note D = ring_invD [OF inv]
  let ?R = "\<lambda>x y. ring_dist rb s y < ring_dist rb s x"
  have "sorted_wrt ?R xs"
    by (rule chain_dist_sorted [OF D(1,5,4) _ D(2,3)]) (use inv in \<open>simp add: ring_inv_def\<close>)
  then have s: "sorted_wrt ?R (sector_starts xs)" by (simp add: sector_starts_def sorted_wrt_filter)
  have vis: "k * 4096 \<in> set (sector_starts xs) \<and> sec_index dev d rb k = index_at dev d rb (k * 4096)" if k: "k < sector_count rb" for k
  proof -
    have "sec_res dev d rb k \<noteq> RB_BLANK_HDR" using all k by simp
    then obtain x where "x \<in> set xs" "x div 4096 = k" using unvisited_sector [OF inv k] by blast
    then show ?thesis using visited_sector(1,3) [OF inv] by blast
  qed
  have "s div 4096 * 4096 \<le> j * 4096" by (rule mult_le_mono1) (rule j(1))
  then have "s \<le> j * 4096" using D(2) by auto
  moreover have "Suc j * 4096 < number_of_bytes rb" using j(2) sector_count_pos [OF D(1)] by simp
  ultimately have R: "?R (j * 4096) (Suc j * 4096)" by (auto simp: ring_dist_def)
  have "sorted_wrt (<) (map (index_at dev d rb) (sector_starts xs))" using inv by (simp add: ring_inv_def)
  from sorted_maps [OF s this _ _ R] vis [of j] vis [of "Suc j"] j show ?thesis by simp
qed

section \<open>Opening\<close>

lemma ring_inv_index_bound:
  assumes inv: "ring_inv dev d rb s xs e m" and k: "k < sector_count rb" "sec_res dev d rb k = RB_OK"
  shows "sec_index dev d rb k \<le> m"
proof -
  obtain x where "x \<in> set xs" "x div 4096 = k" using unvisited_sector [OF inv k(1)] k(2) by fastforce
  then show ?thesis using visited_sector(1,3) [OF inv] inv by (auto simp: ring_inv_def)
qed

text \<open>When the first pass has found no blank sector, the second one starts at the oldest sector.\<close>

lemma check_sector_ring_start:
  assumes inv: "ring_inv dev d rb s xs e m" and m: "m < RB_INDEX_MASK"
  obtains rb2 start where "rb_check_sector_ring dev d rb = prod.swap (check_order_loop dev d rb2 start RB_OK 0 0)"
    "\<exists>n i. rb2 = rb\<lparr>sector_index := i, next_offs := n\<rparr> \<and> i \<le> m"
    "(\<exists>j < sector_count rb. start = j * FLASH_SECTOR_SIZE \<and> sec_res dev d rb j = RB_BLANK_HDR) \<or>
     start = s \<and> (\<forall>j < sector_count rb. sec_res dev d rb j = RB_OK)"
proof -
  note D = ring_invD [OF inv]
  have v: "sectors_valid dev d rb" by (rule ring_inv_sectors_valid [OF inv])
  have "sector_index rb \<le> m" using inv by (simp add: ring_inv_def)
  then obtain n i bc lb where c: "check_headers_loop dev d rb 0 0 RB_OK (0 * FLASH_SECTOR_SIZE) = (rb\<lparr>next_offs := n, sector_index := i\<rparr>, bc, lb, RB_OK)"
    and i: "i \<le> m" and b: "blanks_found dev d rb 0 0 0 bc lb"
    using check_headers_spec [OF D(1) v, of 0 m 0 0] ring_inv_index_bound [OF inv] by auto
  let ?rb1 = "rb\<lparr>sector_index := i, next_offs := n\<rparr>"
  show ?thesis
  proof (cases "bc = 0")
    case True
    have inv1: "ring_inv dev d ?rb1 s xs e m" using inv i by (simp add: ring_inv_def)
    obtain r k where o: "rb_find_ring_oldest_sector dev d ?rb1 = (r, ?rb1\<lparr>sector_index := k, next_offs := s\<rparr>)" and k: "k \<le> m"
      using ring_inv_find_oldest [OF inv1 m] by metis
    have "rb_check_sector_ring dev d rb = prod.swap (check_order_loop dev d (rb\<lparr>sector_index := k, next_offs := s\<rparr>) s RB_OK 0 0)"
      using o c True by (simp add: rb_check_sector_ring_def Let_def rb_swap prod.swap_def split: prod.split)
    then show ?thesis by (rule that) (use b True k in \<open>auto simp: blanks_found_def\<close>)
  next
    case False
    have "rb_check_sector_ring dev d rb = prod.swap (check_order_loop dev d ?rb1 lb RB_OK 0 0)"
      using c False by (simp add: rb_check_sector_ring_def Let_def rb_swap prod.swap_def split: prod.split)
    then show ?thesis by (rule that) (use b False i in \<open>auto simp: blanks_found_def\<close>)
  qed
qed

text \<open>
  The second pass accepts a ring unless it is wrapped, has no blank sector, and what lies behind it looks
  like a sector header.
\<close>

definition clear_behind :: "'d flash_dev \<Rightarrow> 'd \<Rightarrow> rb_t \<Rightarrow> nat \<Rightarrow> bool" where
  "clear_behind dev d rb s \<longleftrightarrow> s = 0 \<or> (\<exists>j < sector_count rb. sec_res dev d rb j = RB_BLANK_HDR) \<or>
     is_sector_header_good (behind dev d rb) \<noteq> RB_OK"

lemma check_sector_ring_ok:
  assumes inv: "ring_inv dev d rb s xs e m" and m: "m < RB_INDEX_MASK" and cl: "clear_behind dev d rb s"
  obtains n i where "rb_check_sector_ring dev d rb = (RB_OK, rb\<lparr>sector_index := i, next_offs := n\<rparr>)" "i \<le> m"
proof -
  note D = ring_invD [OF inv]
  obtain n i start where c: "rb_check_sector_ring dev d rb = prod.swap (check_order_loop dev d (rb\<lparr>sector_index := i, next_offs := n\<rparr>) start RB_OK 0 0)"
    and i: "i \<le> m" and st: "(\<exists>j < sector_count rb. start = j * FLASH_SECTOR_SIZE \<and> sec_res dev d rb j = RB_BLANK_HDR) \<or>
      start = s \<and> (\<forall>j < sector_count rb. sec_res dev d rb j = RB_OK)"
    by (rule check_sector_ring_start [OF inv m]) blast
  let ?rb = "rb\<lparr>sector_index := i, next_offs := n\<rparr>"
  from st have "\<exists>k. check_order_loop dev d ?rb start RB_OK 0 0 = (?rb\<lparr>next_offs := k\<rparr>, RB_OK)"
  proof
    assume "\<exists>j < sector_count rb. start = j * FLASH_SECTOR_SIZE \<and> sec_res dev d rb j = RB_BLANK_HDR"
    then obtain j where "j < sector_count rb" "start = j * FLASH_SECTOR_SIZE" "sec_res dev d rb j = RB_BLANK_HDR" by blast
    then show ?thesis using check_order_blank [of ?rb j dev d 0] D(1) by (intro exI [of _ start]) simp
  next
    assume a: "start = s \<and> (\<forall>j < sector_count rb. sec_res dev d rb j = RB_OK)"
    let ?q = "s div 4096"
    have q: "?q * 4096 = s" "?q < sector_count rb" using D(2,3) sector_count_pos [OF D(1)] by auto
    obtain k where k: "check_order_loop dev d ?rb start RB_OK 0 0 =
        check_order_loop dev d (?rb\<lparr>next_offs := k\<rparr>) (?q * 4096) RB_OK (sec_index dev d rb (sector_count rb - 1)) ((sector_count rb - ?q) * 4096)"
      using check_order_grows [of ?rb ?q 0 dev d 0] D(1) a q indices_grow [OF inv] by auto
    show ?thesis
    proof (cases "s = 0")
      case True
      then show ?thesis using k sector_count_pos [OF D(1)] by (subst (asm) (2) check_order_loop.simps) auto
    next
      case False
      then have "is_sector_header_good (behind dev d rb) \<noteq> RB_OK" using cl a by (auto simp: clear_behind_def)
      then show ?thesis using k check_order_behind [of "?rb\<lparr>next_offs := k\<rparr>" ?q dev d] D(1) q False by (auto simp: Let_def)
    qed
  qed
  with c i show ?thesis by (auto simp: rb_swap intro!: that)
qed

text \<open>The control block a caller gets when it opens the ring at \<open>base\<close>.\<close>

definition opened :: "rb_t \<Rightarrow> nat \<Rightarrow> nat \<Rightarrow> rb_t" where
  "opened rb base n = rb\<lparr>base_address := base mod XIP_BASE, number_of_bytes := n * FLASH_SECTOR_SIZE, next_offs := 0\<rparr>"

lemma recreate_opens:
  assumes inv: "ring_inv dev d (opened rb base n) s xs e m" and m: "m < RB_INDEX_MASK" and n: "1 \<le> n" "n \<le> 512"
    and ch: "ch \<noteq> CREATE_INIT_ALWAYS" and cl: "clear_behind dev d (opened rb base n) s"
  obtains r i where "rb_recreate dev d rb base n ch = (r, (opened rb base n)\<lparr>sector_index := i, next_offs := s\<rparr>, d)"
    "r = (if 0 \<in> set xs then RB_OK else RB_BLANK_HDR)" "i \<le> m"
    "ring_inv dev d ((opened rb base n)\<lparr>sector_index := i, next_offs := s\<rparr>) s xs e m"
proof -
  let ?rb = "opened rb base n"
  note D = ring_invD [OF inv]
  obtain k i where c: "rb_check_sector_ring dev d ?rb = (RB_OK, ?rb\<lparr>sector_index := i, next_offs := k\<rparr>)" and i: "i \<le> m"
    by (rule check_sector_ring_ok [OF inv m cl])
  let ?rb1 = "?rb\<lparr>sector_index := i, next_offs := k\<rparr>"
  have inv1: "ring_inv dev d ?rb1 s xs e m" using inv i by (simp add: ring_inv_def)
  obtain r j where o: "rb_find_ring_oldest_sector dev d ?rb1 = (r, ?rb1\<lparr>sector_index := j, next_offs := s\<rparr>)" and j: "j \<le> m"
    and r: "r = sec_res dev d ?rb1 0" "r = RB_OK \<or> r = RB_BLANK_HDR"
    using ring_inv_find_oldest [OF inv1 m] by metis
  have "rb_create dev d rb base n ch = (r, ?rb\<lparr>sector_index := j, next_offs := s\<rparr>, d)"
    using n ch c o by (simp add: rb_create_def Let_def opened_def)
  then have rc: "rb_recreate dev d rb base n ch = (r, ?rb\<lparr>sector_index := j, next_offs := s\<rparr>, d)"
    using r(2) by (auto simp: rb_recreate_def)
  have "r = (if 0 \<in> set xs then RB_OK else RB_BLANK_HDR)"
  proof (cases "0 \<in> set xs")
    case True
    then show ?thesis using visited_sector(2) [OF inv, of 0] r(1) by simp
  next
    case False
    have "x div 4096 \<noteq> 0" if "x \<in> set xs" for x
    proof
      assume "x div 4096 = 0"
      then show False using visited_sector(1) [OF inv that] False by (simp add: sector_starts_def)
    qed
    then show ?thesis using unvisited_sector [OF inv, of 0] sector_count_pos [OF D(1)] r(1) False by simp
  qed
  with rc j inv that show ?thesis by (simp add: ring_inv_def)
qed

text \<open>
  A wrapped ring without a blank sector, where the header behind it is good but older than the last sector of the
  storage, is taken for damaged.
\<close>

lemma check_sector_ring_misled:
  assumes inv: "ring_inv dev d rb s xs e m" and m: "m < RB_INDEX_MASK" and s: "0 < s"
    and all: "\<forall>j < sector_count rb. sec_res dev d rb j = RB_OK"
    and b: "is_sector_header_good (behind dev d rb) = RB_OK" "get_index (behind dev d rb) < sec_index dev d rb (sector_count rb - 1)"
  shows "fst (rb_check_sector_ring dev d rb) = RB_BAD_HDR"
proof -
  note D = ring_invD [OF inv]
  obtain n i where c: "rb_check_sector_ring dev d rb = prod.swap (check_order_loop dev d (rb\<lparr>sector_index := i, next_offs := n\<rparr>) s RB_OK 0 0)"
    by (rule check_sector_ring_start [OF inv m]) (use all in auto)
  let ?rb = "rb\<lparr>sector_index := i, next_offs := n\<rparr>" and ?q = "s div 4096"
  have q: "?q * 4096 = s" "?q < sector_count rb" "0 < ?q" using D(2,3) sector_count_pos [OF D(1)] s by auto
  obtain k where "check_order_loop dev d ?rb s RB_OK 0 0 =
      check_order_loop dev d (?rb\<lparr>next_offs := k\<rparr>) (?q * 4096) RB_OK (sec_index dev d rb (sector_count rb - 1)) ((sector_count rb - ?q) * 4096)"
    using check_order_grows [of ?rb ?q 0 dev d 0] D(1) all q indices_grow [OF inv all] by auto
  then have "snd (check_order_loop dev d ?rb s RB_OK 0 0) = RB_BAD_HDR"
    using check_order_behind [of "?rb\<lparr>next_offs := k\<rparr>" ?q dev d] D(1) q b by (simp add: Let_def) (simp add: check_order_loop.simps)
  then show ?thesis using c by simp
qed



end
