(* ===== verification/C_String.thy ===== *)
theory C_String
  imports Prelude
begin

text \<open>
  Strings of the C library: the length of a terminated string behind a pointer.
\<close>

text \<open>\<^verbatim>\<open>strlen\<close> on a pointer; without a terminator it runs on.\<close>

partial_function (option) strlen_from :: "view \<Rightarrow> nat \<Rightarrow> nat option" where
  "strlen_from s k = (if s k = 0 then Some k else strlen_from s (Suc k))"

definition strlen :: "view \<Rightarrow> nat option" where
  "strlen s = strlen_from s 0"

lemma strlen_from_eq:
  assumes "s (k + n) = 0" and "\<And>j. j < n \<Longrightarrow> s (k + j) \<noteq> 0"
  shows "strlen_from s k = Some (k + n)"
  using assms
proof (induction n arbitrary: k)
  case 0
  then show ?case by (subst strlen_from.simps) simp
next
  case (Suc n)
  have "s k \<noteq> 0" using Suc.prems(2) [of 0] by simp
  moreover have "strlen_from s (Suc k) = Some (Suc k + n)"
    using Suc.prems(1) Suc.prems(2) [of "Suc _"] by (intro Suc.IH) simp_all
  ultimately show ?case by (subst strlen_from.simps) simp
qed

lemma strlen_eq: "s n = 0 \<Longrightarrow> (\<And>j. j < n \<Longrightarrow> s j \<noteq> 0) \<Longrightarrow> strlen s = Some n"
  using strlen_from_eq [of s 0 n] by (simp add: strlen_def)

lemma strlen_view_of: "0 \<notin> set bs \<Longrightarrow> strlen (view_of bs) = Some (length bs)"
  by (rule strlen_eq) (auto simp: view_of_def dest: nth_mem)

lemma strlen_from_Some:
  assumes "strlen_from s k = Some n"
  shows "k \<le> n \<and> s n = 0 \<and> (\<forall>j. k \<le> j \<and> j < n \<longrightarrow> s j \<noteq> 0)" (is "?P s k n")
proof (induction rule: strlen_from.raw_induct [where P = ?P, OF _ assms])
  case (1 f s k n)
  show ?case
  proof (cases "s k = 0")
    case False
    with 1 have "Suc k \<le> n \<and> s n = 0 \<and> (\<forall>j. Suc k \<le> j \<and> j < n \<longrightarrow> s j \<noteq> 0)" by simp
    then show ?thesis using False by (metis Suc_leD le_eq_less_or_eq less_eq_Suc_le)
  qed (use 1 in auto)
qed

lemma strlen_Some: "strlen s = Some n \<Longrightarrow> s n = 0 \<and> (\<forall>j<n. s j \<noteq> 0)"
  using strlen_from_Some [of s 0 n] by (simp add: strlen_def)

end
