(* ===== verification/Flash_Io.thy ===== *)
theory Flash_Io
  imports Ring_Reopen C_String
begin

text \<open>
  The named records of \<^verbatim>\<open>flash_io.c\<close>: the SSID and host name entries kept in one ring at the end
  of the flash. The state is the flash and the global page buffer. Every function has an
  uninitialised local \<^verbatim>\<open>rb_t\<close>; the argument \<open>stk\<close> is what the stack held there.
  \<^term>\<open>None\<close> stands for a failed assertion, a loop that does not end, \<^verbatim>\<open>exit\<close>, and a write past
  the end of a local array.
\<close>

section \<open>State\<close>

abbreviation SSID_ID :: byte where "SSID_ID \<equiv> 1"
abbreviation HOSTNAME_ID :: byte where "HOSTNAME_ID \<equiv> 2"

text \<open>The linker script places the 16k table at the end of the 2M flash.\<close>

abbreviation PERSISTENT_TABLE :: nat where "PERSISTENT_TABLE \<equiv> 0x101fc000"

record 'd io_state =
  io_flash :: 'd
  pagebuff :: view

section \<open>Reading\<close>

text \<open>The \<^verbatim>\<open>while (true)\<close> loop of \<^verbatim>\<open>read_flash_ids\<close>.\<close>

partial_function (option) read_ids_loop ::
    "'d flash_dev \<Rightarrow> byte \<Rightarrow> rb_t \<Rightarrow> nat \<Rightarrow> 'd io_state \<Rightarrow> (int \<times> 'd io_state) option" where
  "read_ids_loop dev i rb loopcount st = do {
     (err, rb1, buf) \<leftarrow> rb_read dev (io_flash st) rb i (pagebuff st) FLASH_PAGE_SIZE;
     let st1 = st\<lparr> pagebuff := buf \<rparr>;
     if err \<le> 0 then Some (int loopcount, st1)
     else read_ids_loop dev i rb1 (add32 loopcount 1) st1
   }"

definition read_flash_ids ::
    "'d flash_dev \<Rightarrow> rb_t \<Rightarrow> byte \<Rightarrow> nat \<Rightarrow> nat \<Rightarrow> 'd io_state \<Rightarrow> (int \<times> 'd io_state) option" where
  "read_flash_ids dev stk i flash_buf flash_len st =
     (let (err, rb, d) = rb_recreate dev (io_flash st) stk flash_buf (flash_len div FLASH_SECTOR_SIZE) CREATE_INIT_IF_FAIL;
          st1 = st\<lparr> io_flash := d \<rparr>
      in if err \<noteq> RB_OK then Some (err, st1) else read_ids_loop dev i rb 0 st1)"

text \<open>The \<^verbatim>\<open>for\<close> loop of \<^verbatim>\<open>read_flash_id_n\<close>: \<open>Inl\<close> is its early return.\<close>

fun skip_entries ::
    "'d flash_dev \<Rightarrow> byte \<Rightarrow> rb_t \<Rightarrow> 'd io_state \<Rightarrow> nat \<Rightarrow> (int \<times> 'd io_state + rb_t \<times> 'd io_state) option" where
  "skip_entries dev i rb st 0 = Some (Inr (rb, st))"
| "skip_entries dev i rb st (Suc k) = do {
     (err, rb1, buf) \<leftarrow> rb_read dev (io_flash st) rb i (pagebuff st) FLASH_PAGE_SIZE;
     let st1 = st\<lparr> pagebuff := buf \<rparr>;
     if err \<le> 0 then Some (Inl (err, st1)) else skip_entries dev i rb1 st1 k
   }"

definition read_flash_id_n ::
    "'d flash_dev \<Rightarrow> rb_t \<Rightarrow> byte \<Rightarrow> nat \<Rightarrow> nat \<Rightarrow> int \<Rightarrow> 'd io_state \<Rightarrow> (int \<times> 'd io_state) option" where
  "read_flash_id_n dev stk i flash_buf flash_len n st =
     (let (err, rb, d) = rb_recreate dev (io_flash st) stk flash_buf (flash_len div FLASH_SECTOR_SIZE) CREATE_INIT_IF_FAIL;
          st1 = st\<lparr> io_flash := d \<rparr>
      in if err \<noteq> RB_OK then Some (err, st1)
         else do {
           r \<leftarrow> skip_entries dev i rb st1 (nat (n - 1));
           case r of
             Inl (e, st2) \<Rightarrow> Some (e, st2)
           | Inr (rb2, st2) \<Rightarrow> do {
               (err2, rb3, buf) \<leftarrow> rb_read dev (io_flash st2) rb2 i (pagebuff st2) FLASH_PAGE_SIZE;
               Some (err2, st2\<lparr> pagebuff := buf \<rparr>)
             }
         })"

definition read_flash_id_latest ::
    "'d flash_dev \<Rightarrow> rb_t \<Rightarrow> byte \<Rightarrow> nat \<Rightarrow> nat \<Rightarrow> 'd io_state \<Rightarrow> (int \<times> 'd io_state) option" where
  "read_flash_id_latest dev stk i flash_buf flash_len st = do {
     (err, st1) \<leftarrow> read_flash_ids dev stk i flash_buf flash_len st;
     if err \<le> 0 then Some (err, st1)
     else read_flash_id_n dev stk i flash_buf flash_len err st1
   }"

section \<open>Writing\<close>

text \<open>
  The comparison \<^verbatim>\<open>err == blen\<close> is between an \<^verbatim>\<open>int\<close> and a \<^verbatim>\<open>uint32_t\<close>. The result of
  \<^verbatim>\<open>rb_append\<close> is only printed.
\<close>

definition flash_io_write_flash_id ::
    "'d flash_dev \<Rightarrow> rb_t \<Rightarrow> byte \<Rightarrow> nat \<Rightarrow> nat \<Rightarrow> view \<Rightarrow> nat \<Rightarrow> 'd io_state \<Rightarrow> (int \<times> 'd io_state) option" where
  "flash_io_write_flash_id dev stk i flash_buf flash_len buff blen st = do {
     (err, st1) \<leftarrow> read_flash_id_latest dev stk i flash_buf flash_len st;
     if u32_of_int err = blen \<and> mem_equal (pagebuff st1) buff blen then Some (0, st1)
     else
       let (err2, trb, d) = rb_recreate dev (io_flash st1) stk flash_buf (flash_len div FLASH_SECTOR_SIZE) CREATE_INIT_IF_FAIL;
           st2 = st1\<lparr> io_flash := d \<rparr>
       in if \<not> (err2 = RB_OK \<or> err2 = RB_BLANK_HDR) then Some (err2, st2)
          else do {
            (terr, trb2, d2) \<leftarrow> rb_append dev d trb i buff blen (pagebuff st2) True;
            Some (int blen, \<lparr> io_flash = d2, pagebuff = rb_page trb2 \<rparr>)
          }
   }"

definition flash_io_erase_ssids_hostnames ::
    "'d flash_dev \<Rightarrow> rb_t \<Rightarrow> 'd io_state \<Rightarrow> int \<times> 'd io_state" where
  "flash_io_erase_ssids_hostnames dev stk st =
     (let (err, trb, d) = rb_recreate dev (io_flash st) stk PERSISTENT_TABLE (PERSISTENT_LEN div FLASH_SECTOR_SIZE) CREATE_INIT_ALWAYS
      in (err, st\<lparr> io_flash := d \<rparr>))"

text \<open>The loop of \<^verbatim>\<open>flash_io_erase_redundant_ssids\<close>; \<open>sslen\<close> is at least 1.\<close>

partial_function (option) erase_redundant_loop ::
    "'d flash_dev \<Rightarrow> view \<Rightarrow> nat \<Rightarrow> rb_t \<Rightarrow> int \<Rightarrow> 'd io_state \<Rightarrow> (int \<times> 'd io_state) option" where
  "erase_redundant_loop dev ss sslen rb terr st =
     (if terr \<ge> 0 \<and> sslen \<noteq> 0 then do {
        (terr1, rb1, pg1) \<leftarrow> rb_find dev (io_flash st) rb SSID_ID ss sslen (pagebuff st);
        if terr1 < 0 then
          Some (if terr1 = RB_BLANK_HDR \<or> terr1 = RB_HDR_ID_NOT_FOUND then RB_OK else terr1, st\<lparr> pagebuff := pg1 \<rparr>)
        else do {
          (next_ssid, rb2, pg2) \<leftarrow> rb_find dev (io_flash st) rb1 SSID_ID ss sslen pg1;
          if next_ssid \<ge> 0 then do {
            (res, rb3, d3) \<leftarrow> rb_delete dev (io_flash st) (rb2\<lparr> next_offs := nat terr1 \<rparr>) SSID_ID ss sslen pg2;
            erase_redundant_loop dev ss sslen rb3 terr1 \<lparr> io_flash = d3, pagebuff = rb_page rb3 \<rparr>
          }
          else
            Some (if \<not> (next_ssid = RB_BLANK_HDR \<or> next_ssid = RB_HDR_ID_NOT_FOUND) then next_ssid else RB_OK,
                  st\<lparr> pagebuff := pg2 \<rparr>)
        }
      }
      else Some (terr, st))"

definition flash_io_erase_redundant_ssids ::
    "'d flash_dev \<Rightarrow> rb_t \<Rightarrow> view \<Rightarrow> 'd io_state \<Rightarrow> (int \<times> 'd io_state) option" where
  "flash_io_erase_redundant_ssids dev stk ss st = do {
     n \<leftarrow> strlen ss;
     let sslen = n + 1;
     let (terr, rb, d) = rb_recreate dev (io_flash st) stk PERSISTENT_TABLE (PERSISTENT_LEN div FLASH_SECTOR_SIZE) CREATE_FAIL;
     let st1 = st\<lparr> io_flash := d \<rparr>;
     if \<not> (terr = RB_OK \<or> terr = RB_BLANK_HDR) then Some (terr, st1)
     else erase_redundant_loop dev ss sslen rb terr st1
   }"

text \<open>
  The loop of \<^verbatim>\<open>flash_io_find_matching_ssid\<close>. \<open>pw\<close> is the caller's buffer; the result carries
  what the call leaves in it.
\<close>

partial_function (option) find_matching_loop ::
    "'d flash_dev \<Rightarrow> view \<Rightarrow> nat \<Rightarrow> view \<Rightarrow> rb_t \<Rightarrow> int \<Rightarrow> 'd io_state \<Rightarrow> (int \<times> view \<times> 'd io_state) option" where
  "find_matching_loop dev ss sslen pw rb terr st =
     (if terr \<ge> 0 \<and> sslen \<noteq> 0 then do {
        (terr1, rb1, pg1) \<leftarrow> rb_find dev (io_flash st) rb SSID_ID ss sslen (pagebuff st);
        if terr1 < 0 then Some (terr1, pw, st\<lparr> pagebuff := pg1 \<rparr>)
        else do {
          (res, rb2, pg2) \<leftarrow> rb_read dev (io_flash st) (rb1\<lparr> next_offs := nat terr1 \<rparr>) SSID_ID pg1 FLASH_PAGE_SIZE;
          ssidlen \<leftarrow> strlen pg2;
          let st1 = st\<lparr> pagebuff := pg2 \<rparr>;
          if sslen = ssidlen then do {
            pwlen \<leftarrow> strlen (advance pg2 (ssidlen + 1));
            Some (terr1, store pw 0 (take_view (pwlen + 1) (advance pg2 (ssidlen + 1))), st1)
          }
          else find_matching_loop dev ss sslen pw rb2 terr1 st1
        }
      }
      else Some (terr, pw, st))"

definition flash_io_find_matching_ssid ::
    "'d flash_dev \<Rightarrow> rb_t \<Rightarrow> view \<Rightarrow> view \<Rightarrow> 'd io_state \<Rightarrow> (int \<times> view \<times> 'd io_state) option" where
  "flash_io_find_matching_ssid dev stk ss pw st = do {
     sslen \<leftarrow> strlen ss;
     (terr, st1) \<leftarrow> flash_io_erase_redundant_ssids dev stk ss st;
     if terr < 0 then Some (terr, pw, st1)
     else
       let (terr2, rb, d) = rb_recreate dev (io_flash st1) stk PERSISTENT_TABLE (PERSISTENT_LEN div FLASH_SECTOR_SIZE) CREATE_FAIL;
           st2 = st1\<lparr> io_flash := d \<rparr>
       in if terr2 \<noteq> RB_OK \<and> terr2 \<noteq> RB_BLANK_HDR then None
          else find_matching_loop dev ss sslen pw rb terr2 st2
   }"

text \<open>\<open>tmp\<close> is the content of the local array \<^verbatim>\<open>tempssid[64]\<close>.\<close>

definition flash_io_write_ssid ::
    "'d flash_dev \<Rightarrow> rb_t \<Rightarrow> view \<Rightarrow> view \<Rightarrow> view \<Rightarrow> 'd io_state \<Rightarrow> (int \<times> 'd io_state) option" where
  "flash_io_write_ssid dev stk tmp ss pw st = do {
     n1 \<leftarrow> strlen ss;
     n2 \<leftarrow> strlen pw;
     let s1len = n1 + 1;
     let s2len = n2 + 1;
     let tempssid = store (store tmp 0 (take_view s1len ss)) s1len (take_view s2len pw);
     if s1len + s2len > 64 then None
     else do {
       (terr, st1) \<leftarrow> flash_io_write_flash_id dev stk SSID_ID PERSISTENT_TABLE PERSISTENT_LEN tempssid (s1len + s2len) st;
       if terr > 0 then do {
         (res, st2) \<leftarrow> flash_io_erase_redundant_ssids dev stk ss st1;
         Some (terr, st2)
       }
       else Some (terr, st1)
     }
   }"

definition flash_io_read_latest_hostname ::
    "'d flash_dev \<Rightarrow> rb_t \<Rightarrow> 'd io_state \<Rightarrow> (int \<times> 'd io_state) option" where
  "flash_io_read_latest_hostname dev stk st = read_flash_id_latest dev stk HOSTNAME_ID PERSISTENT_TABLE PERSISTENT_LEN st"

definition flash_io_write_hostname ::
    "'d flash_dev \<Rightarrow> rb_t \<Rightarrow> view \<Rightarrow> nat \<Rightarrow> 'd io_state \<Rightarrow> (int \<times> 'd io_state) option" where
  "flash_io_write_hostname dev stk hostname nlen st = do {
     (terr, st1) \<leftarrow> flash_io_write_flash_id dev stk HOSTNAME_ID PERSISTENT_TABLE PERSISTENT_LEN hostname nlen st;
     if terr > 0 then do {
       (res, st2) \<leftarrow> flash_io_erase_redundant_ssids dev stk hostname st1;
       Some (terr, st2)
     }
     else Some (terr, st1)
   }"

section \<open>Reading through a cursor\<close>

text \<open>
  What the readers of \<^verbatim>\<open>flash_io.c\<close> rely on: a cursor over the records still ahead, whose
  \<^verbatim>\<open>next\<close> delivers them one by one through a page-sized buffer and then reports their end.
\<close>

locale record_cursor =
  fixes fetch_next :: "'c \<Rightarrow> view \<Rightarrow> (int \<times> 'c \<times> view) option"
    and pending :: "'c \<Rightarrow> byte list list \<Rightarrow> bool"
  assumes next_record: "pending c (bs # rest) \<Longrightarrow>
      0 < length bs \<and> (\<exists>c'. fetch_next c buf = Some (int (min (length bs) FLASH_PAGE_SIZE), c', store buf 0 (take FLASH_PAGE_SIZE bs)) \<and> pending c' rest)"
    and next_end: "pending c [] \<Longrightarrow> \<exists>r c'. fetch_next c buf = Some (r, c', buf) \<and> r \<le> 0"

text \<open>The two loops every reader is made of: count what is there, and skip a number of records.\<close>

locale cursor_loops = record_cursor fetch_next pending
  for fetch_next :: "'c \<Rightarrow> view \<Rightarrow> (int \<times> 'c \<times> view) option" and pending +
  fixes count :: "'c \<Rightarrow> nat \<Rightarrow> view \<Rightarrow> (int \<times> view) option"
    and skip :: "'c \<Rightarrow> view \<Rightarrow> nat \<Rightarrow> (int \<times> view + 'c \<times> view) option"
  assumes count_eq: "count c k buf = do { (err, c', buf') \<leftarrow> fetch_next c buf;
      if err \<le> 0 then Some (int k, buf') else count c' (add32 k 1) buf' }"
    and skip_0: "skip c buf 0 = Some (Inr (c, buf))"
    and skip_Suc: "skip c buf (Suc k) = do { (err, c', buf') \<leftarrow> fetch_next c buf;
      if err \<le> 0 then Some (Inl (err, buf')) else skip c' buf' k }"
begin

lemma count_pending:
  assumes "pending c rs" and "k + length rs < 2 ^ 32"
  shows "\<exists>buf'. count c k buf = Some (int (k + length rs), buf')"
  using assms
proof (induction rs arbitrary: c k buf)
  case Nil
  from next_end [OF Nil(1), of buf] show ?case by (subst count_eq) auto
next
  case (Cons bs rs)
  from next_record [OF Cons.prems(1), of buf] obtain c' where pos: "0 < length bs"
    and n: "fetch_next c buf = Some (int (min (length bs) FLASH_PAGE_SIZE), c', store buf 0 (take FLASH_PAGE_SIZE bs))"
    and p: "pending c' rs" by blast
  have "add32 k 1 = k + 1" using Cons.prems(2) by (simp add: add32_small)
  moreover have "\<exists>buf'. count c' (k + 1) (store buf 0 (take FLASH_PAGE_SIZE bs)) = Some (int (k + 1 + length rs), buf')"
    by (rule Cons.IH [OF p]) (use Cons.prems(2) in simp)
  ultimately show ?case using pos by (subst count_eq) (simp add: n)
qed

lemma skip_pending:
  assumes "pending c (as @ rs)"
  shows "\<exists>c' buf'. skip c buf (length as) = Some (Inr (c', buf')) \<and> pending c' rs"
  using assms
proof (induction as arbitrary: c buf)
  case Nil
  then show ?case by (simp add: skip_0)
next
  case (Cons bs as)
  from next_record [of c bs "as @ rs" buf] Cons.prems obtain c' where pos: "0 < length bs"
    and n: "fetch_next c buf = Some (int (min (length bs) FLASH_PAGE_SIZE), c', store buf 0 (take FLASH_PAGE_SIZE bs))"
    and p: "pending c' (as @ rs)" by auto
  from Cons.IH [OF p] pos show ?case by (simp add: skip_Suc n)
qed

end

text \<open>The records a ring still holds for an id, in front of a reading position.\<close>

definition pending_records ::
    "'d flash_dev \<Rightarrow> 'd \<Rightarrow> nat \<Rightarrow> nat list \<Rightarrow> nat \<Rightarrow> 32 word \<Rightarrow> byte \<Rightarrow> rb_t \<Rightarrow> byte list list \<Rightarrow> bool" where
  "pending_records dev d s xs e m i rb rs \<longleftrightarrow> ring_inv dev d rb s xs e m \<and> \<not> ring_full s xs e \<and> i \<noteq> 0xff \<and> i \<noteq> 0 \<and>
     (\<exists>bs. reading rb s xs e bs \<and> rs = map ent_data (filter (wanted i) (ring_log dev d rb bs)))"

lemma page_size_ok: "wf_rb rb \<Longrightarrow> FLASH_PAGE_SIZE \<le> sub32 (number_of_bytes rb) HEADER_SIZE"
  by (rule append_size_ok) simp_all

lemma filter_Cons_split:
  assumes "filter P (map f bs) = y # ys"
  obtains cs x ds where "bs = cs @ x # ds" "\<forall>z\<in>set cs. \<not> P (f z)" "P (f x)" "y = f x" "ys = filter P (map f ds)"
proof -
  from assms obtain us v vs where "map f bs = us @ v # vs" "\<forall>u\<in>set us. \<not> P u" "P v" "y = v" "ys = filter P vs"
    by (auto simp: filter_eq_Cons_iff)
  then show ?thesis using that by (auto simp: map_eq_append_conv)
qed

lemma ring_next_record:
  assumes p: "pending_records dev d s xs e m i rb (bs # rest)"
  shows "0 < length bs \<and> (\<exists>rb'. rb_read dev d rb i buf FLASH_PAGE_SIZE =
      Some (int (min (length bs) FLASH_PAGE_SIZE), rb', store buf 0 (take FLASH_PAGE_SIZE bs)) \<and> pending_records dev d s xs e m i rb' rest)"
proof -
  from p have inv: "ring_inv dev d rb s xs e m" and nf: "\<not> ring_full s xs e" and i: "i \<noteq> 0xff" "i \<noteq> 0"
    by (simp_all add: pending_records_def)
  from p obtain bl y ys where rd: "reading rb s xs e bl" and f: "filter (wanted i) (map (entry_of dev d rb) bl) = y # ys"
    and y: "bs = ent_data y" "rest = map ent_data ys" by (auto simp: pending_records_def ring_log_def)
  obtain cs x ds where bl: "bl = cs @ x # ds" "\<forall>z\<in>set cs. \<not> wanted i (entry_of dev d rb z)" "wanted i (entry_of dev d rb x)"
    "y = entry_of dev d rb x" "ys = filter (wanted i) (map (entry_of dev d rb) ds)"
    by (rule filter_Cons_split [OF f])
  obtain n where r: "rb_read dev d rb i buf FLASH_PAGE_SIZE =
      Some (int (min (length bs) FLASH_PAGE_SIZE), rb\<lparr>next_offs := n\<rparr>, store buf 0 (take FLASH_PAGE_SIZE bs))"
    and at: "at_pos (rb\<lparr>next_offs := n\<rparr>) (hd (ds @ [e]))"
    using read_first [OF inv rd i(1) bl(1-3), of FLASH_PAGE_SIZE buf 0] i page_size_ok [OF ring_invD(1) [OF inv]] y(1) bl(4)
    by (auto simp: rb_read_def)
  have "reading (rb\<lparr>next_offs := n\<rparr>) s xs e ds"
    using rd at nf bl(1) unfolding reading_def by (metis append.assoc append_Cons append_Nil)
  then have "pending_records dev d s xs e m i (rb\<lparr>next_offs := n\<rparr>) rest"
    using inv nf i y(2) bl(5) by (auto simp: pending_records_def ring_log_def)
  moreover have "0 < length bs"
  proof -
    have "x \<in> set xs" using rd bl(1) by (auto simp: reading_def)
    then show ?thesis
      using ring_invD(8) [OF inv] y(1) bl(4) by (simp add: entry_of_def Let_def entry_ok_def is_header_good_len)
  qed
  ultimately show ?thesis using r by blast
qed

lemma ring_next_end:
  assumes p: "pending_records dev d s xs e m i rb []"
  shows "\<exists>r rb'. rb_read dev d rb i buf FLASH_PAGE_SIZE = Some (r, rb', buf) \<and> r \<le> 0"
proof -
  from p have inv: "ring_inv dev d rb s xs e m" and nf: "\<not> ring_full s xs e" and i: "i \<noteq> 0xff" "i \<noteq> 0"
    by (simp_all add: pending_records_def)
  from p obtain bl where rd: "reading rb s xs e bl" and none: "\<forall>x\<in>set bl. \<not> wanted i (entry_of dev d rb x)"
    by (auto simp: pending_records_def ring_log_def filter_empty_conv)
  from read_none [OF inv rd none, of FLASH_PAGE_SIZE buf 0] nf i page_size_ok [OF ring_invD(1) [OF inv]]
  show ?thesis by (auto simp: rb_read_def)
qed

text \<open>The loops of \<^verbatim>\<open>read_flash_ids\<close> and \<^verbatim>\<open>read_flash_id_n\<close> over a flash that does not change.\<close>

definition count_loop :: "'d flash_dev \<Rightarrow> 'd \<Rightarrow> byte \<Rightarrow> rb_t \<Rightarrow> nat \<Rightarrow> view \<Rightarrow> (int \<times> view) option" where
  "count_loop dev d i rb k buf = map_option (\<lambda>(r, st). (r, pagebuff st)) (read_ids_loop dev i rb k \<lparr> io_flash = d, pagebuff = buf \<rparr>)"

definition skip_loop :: "'d flash_dev \<Rightarrow> 'd \<Rightarrow> byte \<Rightarrow> rb_t \<Rightarrow> view \<Rightarrow> nat \<Rightarrow> (int \<times> view + rb_t \<times> view) option" where
  "skip_loop dev d i rb buf k =
     map_option (map_sum (\<lambda>(r, st). (r, pagebuff st)) (\<lambda>(rb', st). (rb', pagebuff st))) (skip_entries dev i rb \<lparr> io_flash = d, pagebuff = buf \<rparr> k)"

interpretation ring_cursor: cursor_loops "\<lambda>rb buf. rb_read dev d rb i buf FLASH_PAGE_SIZE" "pending_records dev d s xs e m i"
    "count_loop dev d i" "skip_loop dev d i"
  for dev :: "'d flash_dev" and d s xs e m i
proof unfold_locales
  fix c bs rest buf
  assume "pending_records dev d s xs e m i c (bs # rest)"
  then show "0 < length bs \<and> (\<exists>c'. rb_read dev d c i buf FLASH_PAGE_SIZE = Some (int (min (length bs) FLASH_PAGE_SIZE), c', store buf 0 (take FLASH_PAGE_SIZE bs)) \<and>
      pending_records dev d s xs e m i c' rest)"
    by (rule ring_next_record)
next
  fix c buf
  assume "pending_records dev d s xs e m i c []"
  then show "\<exists>r c'. rb_read dev d c i buf FLASH_PAGE_SIZE = Some (r, c', buf) \<and> r \<le> 0" by (rule ring_next_end)
next
  fix c :: rb_t and k buf
  show "count_loop dev d i c k buf = do { (err, c', buf') \<leftarrow> rb_read dev d c i buf FLASH_PAGE_SIZE;
      if err \<le> 0 then Some (int k, buf') else count_loop dev d i c' (add32 k 1) buf' }"
    unfolding count_loop_def
    by (subst read_ids_loop.simps) (cases "rb_read dev d c i buf FLASH_PAGE_SIZE"; auto simp: Let_def)
next
  fix c :: rb_t and k buf
  show "skip_loop dev d i c buf (Suc k) = do { (err, c', buf') \<leftarrow> rb_read dev d c i buf FLASH_PAGE_SIZE;
      if err \<le> 0 then Some (Inl (err, buf')) else skip_loop dev d i c' buf' k }"
    unfolding skip_loop_def by (cases "rb_read dev d c i buf FLASH_PAGE_SIZE") (auto simp: Let_def)
qed (simp add: skip_loop_def)

end
