(* ===== verification/Flash_Store.thy ===== *)
theory Flash_Store
  imports Flash_Io
begin

text \<open>
  What \<^verbatim>\<open>flash_io.c\<close> stores and reads back: the newest record of an id, and when a write is
  skipped because the newest record already has the same bytes.
\<close>

section \<open>The store at the end of the flash\<close>

text \<open>
  The ring of \<^verbatim>\<open>flash_io.c\<close>, written from its first sector on and not yet wrapped around;
  \<open>records_of\<close> is what it holds under one id, oldest first.
\<close>

definition store_inv :: "'d flash_dev \<Rightarrow> 'd \<Rightarrow> nat list \<Rightarrow> nat \<Rightarrow> 32 word \<Rightarrow> bool" where
  "store_inv dev d xs e m \<longleftrightarrow> ring_inv dev d (storage_rb 4) 0 xs e m \<and> \<not> ring_full 0 xs e \<and> m < RB_INDEX_MASK"

definition store_log :: "'d flash_dev \<Rightarrow> 'd \<Rightarrow> nat list \<Rightarrow> log_entry list" where
  "store_log dev d xs = ring_log dev d (storage_rb 4) xs"

definition records_of :: "byte \<Rightarrow> log_entry list \<Rightarrow> byte list list" where
  "records_of i es = map ent_data (filter (wanted i) es)"

lemma storage_geometry: "base_address (storage_rb 4) = PERSISTENT_TABLE mod XIP_BASE" "number_of_bytes (storage_rb 4) = PERSISTENT_LEN div FLASH_SECTOR_SIZE * FLASH_SECTOR_SIZE"
  by (simp_all add: storage_rb_def)

lemma open_store:
  assumes inv: "store_inv dev d xs e m" and stk: "sector_index stk \<le> m" and ch: "ch \<noteq> CREATE_INIT_ALWAYS"
  obtains rb where "rb_recreate dev d stk PERSISTENT_TABLE (PERSISTENT_LEN div FLASH_SECTOR_SIZE) ch =
      (if xs = [] then RB_BLANK_HDR else RB_OK, rb, d)"
    "ring_inv dev d rb 0 xs e m" "next_offs rb = 0" "base_address rb = base_address (storage_rb 4)"
    "number_of_bytes rb = number_of_bytes (storage_rb 4)" "\<forall>ys. ring_log dev d rb ys = store_log dev d ys"
proof -
  let ?o = "opened stk PERSISTENT_TABLE 4"
  have ri: "ring_inv dev d ?o 0 xs e m"
    by (rule ring_inv_cong [of _ "storage_rb 4"]) (use inv stk in \<open>simp_all add: opened_def storage_rb_def store_inv_def\<close>)
  have "m < RB_INDEX_MASK" "clear_behind dev d ?o 0" using inv by (simp_all add: store_inv_def clear_behind_def)
  then obtain r i where o: "rb_recreate dev d stk PERSISTENT_TABLE 4 ch = (r, ?o\<lparr>sector_index := i, next_offs := 0\<rparr>, d)"
    "r = (if 0 \<in> set xs then RB_OK else RB_BLANK_HDR)" "ring_inv dev d (?o\<lparr>sector_index := i, next_offs := 0\<rparr>) 0 xs e m"
    using recreate_opens [OF ri _ _ _ ch, of thesis] that by auto
  have "0 \<in> set xs \<longleftrightarrow> xs \<noteq> []" using ring_invD(4) [OF o(3)] by (cases xs) auto
  moreover have "?o\<lparr>sector_index := i, next_offs := 0\<rparr> = ?o\<lparr>sector_index := i\<rparr>" by (simp add: opened_def)
  ultimately have "rb_recreate dev d stk PERSISTENT_TABLE 4 ch = (if xs = [] then RB_BLANK_HDR else RB_OK, ?o\<lparr>sector_index := i\<rparr>, d)"
    "ring_inv dev d (?o\<lparr>sector_index := i\<rparr>) 0 xs e m" using o by simp_all
  moreover have "\<forall>ys. ring_log dev d (?o\<lparr>sector_index := i\<rparr>) ys = store_log dev d ys"
    unfolding store_log_def by (intro allI ring_log_geometry) (simp add: opened_def storage_rb_def)
  ultimately show ?thesis
    by (intro that [of "?o\<lparr>sector_index := i\<rparr>"]) (simp_all add: opened_def storage_rb_def)
qed

lemma open_used:
  assumes inv: "store_inv dev d xs e m" and stk: "sector_index stk \<le> m" and ne: "xs \<noteq> []"
  obtains rb where "rb_recreate dev d stk PERSISTENT_TABLE (PERSISTENT_LEN div FLASH_SECTOR_SIZE) CREATE_INIT_IF_FAIL = (RB_OK, rb, d)"
    "ring_inv dev d rb 0 xs e m" "next_offs rb = 0" "\<forall>ys. ring_log dev d rb ys = store_log dev d ys"
proof (rule open_store [OF inv stk, of CREATE_INIT_IF_FAIL], simp)
  fix rb
  assume "rb_recreate dev d stk PERSISTENT_TABLE (PERSISTENT_LEN div FLASH_SECTOR_SIZE) CREATE_INIT_IF_FAIL = (if xs = [] then RB_BLANK_HDR else RB_OK, rb, d)"
    and "ring_inv dev d rb 0 xs e m" "next_offs rb = 0" "\<forall>ys. ring_log dev d rb ys = store_log dev d ys"
  with ne show thesis by (intro that [of rb]) simp_all
qed

lemma open_blank:
  assumes inv: "store_inv dev d [] e m" and stk: "sector_index stk \<le> m"
  obtains rb where "rb_recreate dev d stk PERSISTENT_TABLE (PERSISTENT_LEN div FLASH_SECTOR_SIZE) CREATE_INIT_IF_FAIL = (RB_BLANK_HDR, rb, d)"
proof (rule open_store [OF inv stk, of CREATE_INIT_IF_FAIL], simp)
  fix rb
  assume "rb_recreate dev d stk PERSISTENT_TABLE (PERSISTENT_LEN div FLASH_SECTOR_SIZE) CREATE_INIT_IF_FAIL = (if [] = [] then RB_BLANK_HDR else RB_OK, rb, d)"
  then show thesis by (intro that [of rb]) simp
qed

lemma store_pending:
  assumes inv: "store_inv dev d xs e m" and rb: "ring_inv dev d rb 0 xs e m" "next_offs rb = 0"
    "\<forall>ys. ring_log dev d rb ys = store_log dev d ys" and i: "i \<noteq> 0xff" "i \<noteq> 0"
  shows "pending_records dev d 0 xs e m i rb (records_of i (store_log dev d xs))"
proof -
  have "rb\<lparr>next_offs := 0\<rparr> = rb" using rb(2) by simp
  then have "reading rb 0 xs e xs" using reading_start [OF rb(1)] by simp
  then show ?thesis
    using inv rb i by (auto simp: pending_records_def records_of_def store_inv_def intro!: exI [of _ xs])
qed

lemma records_bound:
  assumes "ring_inv dev d rb s xs e m"
  shows "length (records_of i (ring_log dev d rb xs)) \<le> number_of_bytes rb"
proof -
  have "set xs \<subseteq> {..<number_of_bytes rb}" using ring_invD(7) [OF assms] by (auto simp: pos_ok_def)
  then have "length xs \<le> number_of_bytes rb"
    using card_mono [of "{..<number_of_bytes rb}" "set xs"] distinct_card [OF ring_inv_distinct [OF assms]] by simp
  moreover have "length (records_of i (ring_log dev d rb xs)) \<le> length xs"
    unfolding records_of_def ring_log_def by (simp add: length_filter_le [THEN order_trans])
  ultimately show ?thesis by simp
qed

lemma read_ids_loop_flash:
  assumes "read_ids_loop dev i rb k st = Some y"
  shows "io_flash (snd y) = io_flash st"
proof (rule read_ids_loop.raw_induct [where P = "\<lambda>dev i rb k st y. io_flash (snd y) = io_flash st", OF _ assms], goal_cases)
  case (1 f dev i rb k st y)
  from 1(2) obtain err rb1 buf where "rb_read dev (io_flash st) rb i (pagebuff st) FLASH_PAGE_SIZE = Some (err, rb1, buf)"
    by (cases "rb_read dev (io_flash st) rb i (pagebuff st) FLASH_PAGE_SIZE") auto
  with 1(2) 1(1) [of dev i rb1 "add32 k 1" "st\<lparr>pagebuff := buf\<rparr>" y] show ?case by (auto simp: Let_def split: if_splits)
qed

lemma skip_entries_flash:
  "skip_entries dev i rb st k = Some y \<Longrightarrow> case y of Inl (r, st') \<Rightarrow> io_flash st' = io_flash st | Inr (rb', st') \<Rightarrow> io_flash st' = io_flash st"
proof (induction k arbitrary: rb st)
  case (Suc k)
  then show ?case by (fastforce simp: Let_def split: Option.bind_splits prod.splits if_splits sum.splits)
qed auto

lemma io_state_eq: "st = \<lparr>io_flash = io_flash st, pagebuff = pagebuff st\<rparr>"
  by simp

section \<open>The newest record\<close>

lemma read_flash_ids_count:
  assumes inv: "store_inv dev (io_flash st) xs e m" and stk: "sector_index stk \<le> m" and i: "i \<noteq> 0xff" "i \<noteq> 0" and ne: "xs \<noteq> []"
  obtains st' where "read_flash_ids dev stk i PERSISTENT_TABLE PERSISTENT_LEN st =
      Some (int (length (records_of i (store_log dev (io_flash st) xs))), st')" "io_flash st' = io_flash st"
proof -
  let ?d = "io_flash st"
  obtain rb where o: "rb_recreate dev ?d stk PERSISTENT_TABLE (PERSISTENT_LEN div FLASH_SECTOR_SIZE) CREATE_INIT_IF_FAIL = (RB_OK, rb, ?d)"
    and rb: "ring_inv dev ?d rb 0 xs e m" "next_offs rb = 0" "\<forall>ys. ring_log dev ?d rb ys = store_log dev ?d ys"
    by (rule open_used [OF inv stk ne])
  have "length (records_of i (store_log dev ?d xs)) < 2 ^ 32"
    using records_bound [OF rb(1), of i] rb(3) ring_invD(1) [OF rb(1)] by (simp add: wf_rb_def)
  with ring_cursor.count_pending [OF store_pending [OF inv rb i], of 0 "pagebuff st"]
  obtain buf where "count_loop dev ?d i rb 0 (pagebuff st) = Some (int (length (records_of i (store_log dev ?d xs))), buf)" by auto
  then obtain st' where r: "read_ids_loop dev i rb 0 st = Some (int (length (records_of i (store_log dev ?d xs))), st')"
    by (auto simp: count_loop_def io_state_eq [symmetric])
  with read_ids_loop_flash [OF r] o that show ?thesis by (simp add: read_flash_ids_def Let_def)
qed

lemma read_flash_id_last:
  assumes inv: "store_inv dev (io_flash st) xs e m" and stk: "sector_index stk \<le> m" and i: "i \<noteq> 0xff" "i \<noteq> 0"
    and rs: "records_of i (store_log dev (io_flash st) xs) = as @ [bs]"
  obtains st' buf where "read_flash_id_n dev stk i PERSISTENT_TABLE PERSISTENT_LEN (int (Suc (length as))) st =
      Some (int (min (length bs) FLASH_PAGE_SIZE), st')" "io_flash st' = io_flash st"
      "pagebuff st' = store buf 0 (take FLASH_PAGE_SIZE bs)"
proof -
  let ?d = "io_flash st"
  have ne: "xs \<noteq> []" using rs by (auto simp: records_of_def store_log_def ring_log_def)
  obtain rb where o: "rb_recreate dev ?d stk PERSISTENT_TABLE (PERSISTENT_LEN div FLASH_SECTOR_SIZE) CREATE_INIT_IF_FAIL = (RB_OK, rb, ?d)"
    and rb: "ring_inv dev ?d rb 0 xs e m" "next_offs rb = 0" "\<forall>ys. ring_log dev ?d rb ys = store_log dev ?d ys"
    by (rule open_used [OF inv stk ne])
  note p = store_pending [OF inv rb i, unfolded rs]
  obtain rb2 buf2 where "skip_loop dev ?d i rb (pagebuff st) (length as) = Some (Inr (rb2, buf2))"
    and p2: "pending_records dev ?d 0 xs e m i rb2 [bs]"
    using ring_cursor.skip_pending [OF p] by blast
  then obtain z where z: "skip_entries dev i rb st (length as) = Some z"
    "map_sum (\<lambda>(r, st). (r, pagebuff st)) (\<lambda>(rb', st). (rb', pagebuff st)) z = Inr (rb2, buf2)"
    by (auto simp: skip_loop_def io_state_eq [symmetric])
  then obtain st2 where sk: "skip_entries dev i rb st (length as) = Some (Inr (rb2, st2))" "pagebuff st2 = buf2"
    by (cases z) auto
  have f2: "io_flash st2 = ?d" using skip_entries_flash [OF sk(1)] by simp
  obtain rb3 where "rb_read dev ?d rb2 i buf2 FLASH_PAGE_SIZE = Some (int (min (length bs) FLASH_PAGE_SIZE), rb3, store buf2 0 (take FLASH_PAGE_SIZE bs))"
    using ring_cursor.next_record [OF p2, of buf2] by blast
  with o sk f2 have "read_flash_id_n dev stk i PERSISTENT_TABLE PERSISTENT_LEN (int (Suc (length as))) st =
      Some (int (min (length bs) FLASH_PAGE_SIZE), st2\<lparr>pagebuff := store buf2 0 (take FLASH_PAGE_SIZE bs)\<rparr>)"
    by (simp add: read_flash_id_n_def Let_def)
  then show ?thesis by (rule that) (simp_all add: f2)
qed

lemma read_latest:
  assumes inv: "store_inv dev (io_flash st) xs e m" and stk: "sector_index stk \<le> m" and i: "i \<noteq> 0xff" "i \<noteq> 0"
    and rs: "rs = records_of i (store_log dev (io_flash st) xs)"
  obtains err st' where "read_flash_id_latest dev stk i PERSISTENT_TABLE PERSISTENT_LEN st = Some (err, st')" "io_flash st' = io_flash st"
    "rs = [] \<longrightarrow> err = (if xs = [] then RB_BLANK_HDR else 0)"
    "rs \<noteq> [] \<longrightarrow> err = int (min (length (last rs)) FLASH_PAGE_SIZE) \<and> (\<exists>buf. pagebuff st' = store buf 0 (take FLASH_PAGE_SIZE (last rs)))"
proof (cases "xs = []")
  case True
  obtain rb where "rb_recreate dev (io_flash st) stk PERSISTENT_TABLE (PERSISTENT_LEN div FLASH_SECTOR_SIZE) CREATE_INIT_IF_FAIL = (RB_BLANK_HDR, rb, io_flash st)"
    by (rule open_blank [OF inv [unfolded True] stk])
  then have "read_flash_id_latest dev stk i PERSISTENT_TABLE PERSISTENT_LEN st = Some (RB_BLANK_HDR, st)"
    by (simp add: read_flash_id_latest_def read_flash_ids_def Let_def)
  then show ?thesis by (rule that) (simp_all add: True rs records_of_def store_log_def ring_log_def)
next
  case False
  obtain st1 where c: "read_flash_ids dev stk i PERSISTENT_TABLE PERSISTENT_LEN st = Some (int (length rs), st1)" and f1: "io_flash st1 = io_flash st"
    using read_flash_ids_count [OF inv stk i False] rs by metis
  show ?thesis
  proof (cases rs rule: rev_exhaust)
    case Nil
    then have "read_flash_id_latest dev stk i PERSISTENT_TABLE PERSISTENT_LEN st = Some (0, st1)"
      using c by (simp add: read_flash_id_latest_def)
    then show ?thesis by (rule that) (simp_all add: f1 Nil False)
  next
    case (snoc as bs)
    have inv1: "store_inv dev (io_flash st1) xs e m" and rs1: "records_of i (store_log dev (io_flash st1) xs) = as @ [bs]"
      using inv f1 rs snoc by simp_all
    obtain st2 buf where "read_flash_id_n dev stk i PERSISTENT_TABLE PERSISTENT_LEN (int (Suc (length as))) st1 =
        Some (int (min (length bs) FLASH_PAGE_SIZE), st2)" "io_flash st2 = io_flash st1" "pagebuff st2 = store buf 0 (take FLASH_PAGE_SIZE bs)"
      by (rule read_flash_id_last [OF inv1 stk i rs1])
    with c snoc f1 show ?thesis by (intro that [of "int (min (length bs) FLASH_PAGE_SIZE)" st2]) (auto simp: read_flash_id_latest_def)
  qed
qed

section \<open>Writing\<close>

lemma record_view:
  "length bs \<le> FLASH_PAGE_SIZE \<Longrightarrow> take_view (length bs) (store buf 0 (take FLASH_PAGE_SIZE bs)) = bs"
  by (rule nth_equalityI) (simp_all add: store_def)

text \<open>A record is written again only when the newest one of its id differs.\<close>

lemma write_skips_duplicate:
  assumes inv: "store_inv dev (io_flash st) xs e m" and stk: "sector_index stk \<le> m" and i: "i \<noteq> 0xff" "i \<noteq> 0"
    and rs: "rs = records_of i (store_log dev (io_flash st) xs)" "rs \<noteq> []" "last rs = take_view blen buff" and bl: "blen \<le> FLASH_PAGE_SIZE"
  obtains st' where "flash_io_write_flash_id dev stk i PERSISTENT_TABLE PERSISTENT_LEN buff blen st = Some (0, st')" "io_flash st' = io_flash st"
proof -
  obtain err st' where r: "read_flash_id_latest dev stk i PERSISTENT_TABLE PERSISTENT_LEN st = Some (err, st')" "io_flash st' = io_flash st"
    and e: "rs \<noteq> [] \<longrightarrow> err = int (min (length (last rs)) FLASH_PAGE_SIZE) \<and> (\<exists>buf. pagebuff st' = store buf 0 (take FLASH_PAGE_SIZE (last rs)))"
    by (rule read_latest [OF inv stk i rs(1)])
  then obtain buf where b: "err = int blen" "pagebuff st' = store buf 0 (take FLASH_PAGE_SIZE (take_view blen buff))"
    using rs(2,3) bl by auto
  have "mem_equal (pagebuff st') buff blen"
    using record_view [of "take_view blen buff" buf] bl b(2) by (simp add: mem_equal_def)
  then have "flash_io_write_flash_id dev stk i PERSISTENT_TABLE PERSISTENT_LEN buff blen st = Some (0, st')"
    using r b bl by (simp add: flash_io_write_flash_id_def u32_of_int_of_nat)
  then show ?thesis using r(2) by (rule that)
qed

lemma not_duplicate:
  assumes e: "rs = [] \<longrightarrow> err = (if xs = [] then RB_BLANK_HDR else 0)"
    "rs \<noteq> [] \<longrightarrow> err = int (min (length (last rs)) FLASH_PAGE_SIZE) \<and> (\<exists>buf. pg = store buf 0 (take FLASH_PAGE_SIZE (last rs)))"
    and short: "\<forall>r\<in>set rs. length r \<le> FLASH_PAGE_SIZE" and bl: "0 < blen" "blen \<le> FLASH_PAGE_SIZE"
    and new: "rs = [] \<or> last rs \<noteq> take_view blen buff"
  shows "\<not> (u32_of_int err = blen \<and> mem_equal pg buff blen)"
proof (cases "rs = []")
  case True
  then have "u32_of_int err = 0 \<or> u32_of_int err = 4294967293" using e(1) by (auto simp: u32_of_int_def)
  then show ?thesis using bl by auto
next
  case False
  then have l: "length (last rs) \<le> 256" using short by simp
  show ?thesis
  proof
    assume a: "u32_of_int err = blen \<and> mem_equal pg buff blen"
    have len: "length (last rs) = blen" using a e(2) False l by (auto simp: u32_of_int_of_nat min_def)
    obtain buf where "pg = store buf 0 (take FLASH_PAGE_SIZE (last rs))" using e(2) False by blast
    then have "last rs = take_view blen buff" using record_view [OF l, of buf] a len by (simp add: mem_equal_def)
    with new False show False by simp
  qed
qed

lemma last_sector_end:
  assumes inv: "ring_inv dev d rb s (xs @ [e]) e' m" and e: "sector_end e < number_of_bytes rb"
  shows "e' \<noteq> 0"
proof -
  note D = ring_invD [OF inv]
  have ch: "next_pos dev d rb e = e'" using D(4) by (simp add: chain_snoc)
  from entry_ok_next(2) [OF D(1) D(7,8), of e] e show ?thesis unfolding ch by (auto simp: sector_end_def)
qed

lemma write_appends:
  assumes dev: "nor_flash dev" and inv: "store_inv dev (io_flash st) xs e m" and stk: "sector_index stk \<le> m" and m: "m < 0xfffffe"
    and i: "i \<noteq> 0xff" "i \<noteq> 0" and fit: "record_fits e blen" "sector_end e < PERSISTENT_LEN" and bl: "blen \<le> FLASH_PAGE_SIZE"
    and rs: "rs = records_of i (store_log dev (io_flash st) xs)" and short: "\<forall>r\<in>set rs. length r \<le> FLASH_PAGE_SIZE"
    and new: "rs = [] \<or> last rs \<noteq> take_view blen buff"
  obtains st' e' where "flash_io_write_flash_id dev stk i PERSISTENT_TABLE PERSISTENT_LEN buff blen st = Some (int blen, st')"
    "store_inv dev (io_flash st') (xs @ [e]) e' (m + 1)"
    "store_log dev (io_flash st') (xs @ [e]) = store_log dev (io_flash st) xs @ [\<lparr>ent_id = i, ent_live = True, ent_data = take_view blen buff\<rparr>]"
proof -
  let ?d = "io_flash st"
  obtain err st1 where r: "read_flash_id_latest dev stk i PERSISTENT_TABLE PERSISTENT_LEN st = Some (err, st1)" and f1: "io_flash st1 = ?d"
    and e1: "rs = [] \<longrightarrow> err = (if xs = [] then RB_BLANK_HDR else 0)"
      "rs \<noteq> [] \<longrightarrow> err = int (min (length (last rs)) FLASH_PAGE_SIZE) \<and> (\<exists>buf. pagebuff st1 = store buf 0 (take FLASH_PAGE_SIZE (last rs)))"
    by (rule read_latest [OF inv stk i rs])
  have "0 < blen" using fit(1) by (simp add: record_fits_def)
  note nd = not_duplicate [OF e1 short this bl new]
  obtain rb where o: "rb_recreate dev ?d stk PERSISTENT_TABLE (PERSISTENT_LEN div FLASH_SECTOR_SIZE) CREATE_INIT_IF_FAIL = (if xs = [] then RB_BLANK_HDR else RB_OK, rb, ?d)"
    and ri: "ring_inv dev ?d rb 0 xs e m" and g: "base_address rb = base_address (storage_rb 4)" "number_of_bytes rb = number_of_bytes (storage_rb 4)"
    and lg: "\<forall>ys. ring_log dev ?d rb ys = store_log dev ?d ys"
    by (rule open_store [OF inv stk, of CREATE_INIT_IF_FAIL]) simp_all
  have nf: "\<not> ring_full 0 xs e" using inv by (simp add: store_inv_def)
  obtain rb' d' where ap: "rb_append dev ?d rb i buff blen (pagebuff st1) True = Some (RB_OK, rb', d')"
    and g': "base_address rb' = base_address rb" "number_of_bytes rb' = number_of_bytes rb"
    and ri': "ring_inv dev d' rb' 0 (xs @ [e]) (next_pos dev d' rb e) (m + 1)"
    and lg': "ring_log dev d' rb' (xs @ [e]) = ring_log dev ?d rb xs @ [\<lparr>ent_id = i, ent_live = True, ent_data = take_view blen buff\<rparr>]"
    using nor_flash.rb_append_room [OF dev ri nf m i(1) fit(1), of buff "pagebuff st1" True] by blast
  have w: "flash_io_write_flash_id dev stk i PERSISTENT_TABLE PERSISTENT_LEN buff blen st = Some (int blen, \<lparr>io_flash = d', pagebuff = rb_page rb'\<rparr>)"
    using r nd o ap f1 by (cases "xs = []") (auto simp: flash_io_write_flash_id_def Let_def)
  have "next_pos dev d' rb e \<noteq> 0" by (rule last_sector_end [OF ri']) (use fit(2) g g' in \<open>simp add: storage_rb_def\<close>)
  moreover have "m + 1 < RB_INDEX_MASK"
  proof -
    have "unat m < 0xfffffe" using m by (simp add: word_less_nat_alt)
    then have "unat (m + 1) = unat m + 1" by (simp add: unat_word_ariths)
    with \<open>unat m < 0xfffffe\<close> show ?thesis by (simp add: word_less_nat_alt)
  qed
  moreover have "ring_inv dev d' (storage_rb 4) 0 (xs @ [e]) (next_pos dev d' rb e) (m + 1)"
    by (rule ring_inv_cong [OF _ _ _ ri']) (use g g' in \<open>simp_all add: storage_rb_def\<close>)
  ultimately have "store_inv dev d' (xs @ [e]) (next_pos dev d' rb e) (m + 1)" by (simp add: store_inv_def ring_full_def)
  moreover have "store_log dev d' (xs @ [e]) = store_log dev ?d xs @ [\<lparr>ent_id = i, ent_live = True, ent_data = take_view blen buff\<rparr>]"
    using lg' lg ring_log_geometry [of rb' "storage_rb 4" dev d' "xs @ [e]"] g g' by (simp add: store_log_def)
  ultimately show ?thesis using that [OF w] by simp
qed

lemma records_of_append: "records_of i (es @ fs) = records_of i es @ records_of i fs"
  by (simp add: records_of_def)

section \<open>Properties\<close>

text \<open>
  C4. A record written through \<^verbatim>\<open>flash_io_write_flash_id\<close> is what \<^verbatim>\<open>read_flash_id_latest\<close> finds
  afterwards: the length it returns and the bytes in the page buffer are those of the caller. The
  write returns 0 and leaves the flash alone when the newest record of the id already had these
  bytes, and otherwise returns the length and appends exactly one record.
\<close>

theorem write_then_read_latest:
  assumes "nor_flash dev" and inv: "store_inv dev (io_flash st) xs e m" and "sector_index stk \<le> m" and "m < 0xfffffe"
    and "i \<noteq> 0xff" "i \<noteq> 0" and fit: "record_fits e blen" and "sector_end e < PERSISTENT_LEN" and "blen \<le> FLASH_PAGE_SIZE"
    and short: "\<forall>r\<in>set (records_of i (store_log dev (io_flash st) xs)). length r \<le> FLASH_PAGE_SIZE"
  shows "\<exists>r st1 st2. flash_io_write_flash_id dev stk i PERSISTENT_TABLE PERSISTENT_LEN buff blen st = Some (r, st1) \<and>
    (let rs = records_of i (store_log dev (io_flash st) xs)
     in if rs \<noteq> [] \<and> last rs = take_view blen buff then r = 0 \<and> io_flash st1 = io_flash st
        else r = int blen \<and> store_log dev (io_flash st1) (xs @ [e]) =
          store_log dev (io_flash st) xs @ [\<lparr>ent_id = i, ent_live = True, ent_data = take_view blen buff\<rparr>]) \<and>
    read_flash_id_latest dev stk i PERSISTENT_TABLE PERSISTENT_LEN st1 = Some (int blen, st2) \<and>
    take_view blen (pagebuff st2) = take_view blen buff"
proof -
  let ?rs = "records_of i (store_log dev (io_flash st) xs)"
  have latest: "\<exists>st2. read_flash_id_latest dev stk i PERSISTENT_TABLE PERSISTENT_LEN st1 = Some (int blen, st2) \<and>
      take_view blen (pagebuff st2) = take_view blen buff"
    if "store_inv dev (io_flash st1) ys e' k" "sector_index stk \<le> k"
      "records_of i (store_log dev (io_flash st1) ys) \<noteq> []" "last (records_of i (store_log dev (io_flash st1) ys)) = take_view blen buff" for st1 ys e' k
    using read_latest [OF that(1,2) assms(5,6) refl] that(3,4) assms(9) record_view [of "take_view blen buff"]
    by (metis length_take_view min.absorb1)
  show ?thesis
  proof (cases "?rs \<noteq> [] \<and> last ?rs = take_view blen buff")
    case True
    obtain st1 where w: "flash_io_write_flash_id dev stk i PERSISTENT_TABLE PERSISTENT_LEN buff blen st = Some (0, st1)" and f: "io_flash st1 = io_flash st"
      using write_skips_duplicate [OF inv assms(3,5,6) refl _ _ assms(9)] True by metis
    from latest [of st1 xs e m] True f inv assms(3) w show ?thesis by (auto simp: Let_def)
  next
    case False
    obtain st1 e' where w: "flash_io_write_flash_id dev stk i PERSISTENT_TABLE PERSISTENT_LEN buff blen st = Some (int blen, st1)"
      and si: "store_inv dev (io_flash st1) (xs @ [e]) e' (m + 1)"
      and lg: "store_log dev (io_flash st1) (xs @ [e]) = store_log dev (io_flash st) xs @ [\<lparr>ent_id = i, ent_live = True, ent_data = take_view blen buff\<rparr>]"
      using write_appends [OF assms(1-9) refl short, of buff] False by metis
    have "sector_index stk \<le> m + 1" using index_step(2,3) [OF order_refl assms(4)] assms(3) by (meson less_imp_le order_trans)
    moreover have "records_of i (store_log dev (io_flash st1) (xs @ [e])) = ?rs @ [take_view blen buff]"
      unfolding lg by (simp add: records_of_append) (simp add: records_of_def wanted_def)
    ultimately show ?thesis using latest [OF si] w lg False by (auto simp: Let_def)
  qed
qed

lemma blank_store: "store_inv nor_array blank_flash [] 0 0"
  using storage_inv [of 4] by (simp add: store_inv_def ring_full_def)

theorem write_then_read_latest_witness:
  "\<exists>st1 st2. flash_io_write_flash_id nor_array (storage_rb 1) HOSTNAME_ID PERSISTENT_TABLE PERSISTENT_LEN (view_of [112, 105, 99, 111, 0]) 5
       \<lparr>io_flash = blank_flash, pagebuff = (\<lambda>_. 0)\<rparr> = Some (5, st1) \<and>
     read_flash_id_latest nor_array (storage_rb 1) HOSTNAME_ID PERSISTENT_TABLE PERSISTENT_LEN st1 = Some (5, st2) \<and>
     take_view 5 (pagebuff st2) = [112, 105, 99, 111, 0]"
proof -
  let ?st = "\<lparr>io_flash = blank_flash, pagebuff = (\<lambda>_. 0 :: byte)\<rparr>"
  have inv: "store_inv nor_array (io_flash ?st) [] 0 0" using blank_store by simp
  have "take_view 5 (view_of [112, 105, 99, 111, 0]) = [112, 105, 99, 111, 0]" by (simp add: take_view_def view_of_def numeral_eq_Suc)
  then show ?thesis
    using write_then_read_latest [OF nor_array.nor_flash_axioms inv, of "storage_rb 1" HOSTNAME_ID 5 "view_of [112, 105, 99, 111, 0]"]
    by (auto simp: storage_rb_def record_fits_def sector_end_def store_log_def ring_log_def records_of_def)
qed

text \<open>
  C21. \<^verbatim>\<open>flash_io_erase_ssids_hostnames\<close> empties the store and nothing else: it returns \<^verbatim>\<open>RB_OK\<close>,
  the store is well-formed and holds no record of any id, and every byte of the flash below the
  table is what it was.
\<close>

theorem erase_empties_store:
  assumes "nor_flash dev" and "sector_index stk < RB_INDEX_MASK"
  shows "\<exists>st'. flash_io_erase_ssids_hostnames dev stk st = (RB_OK, st') \<and>
    store_inv dev (io_flash st') [] 0 (sector_index stk) \<and> records_of i (store_log dev (io_flash st') []) = [] \<and>
    pagebuff st' = pagebuff st \<and> (\<forall>a < PICO_FLASH_SIZE_BYTES - PERSISTENT_LEN. xip dev (io_flash st') a = xip dev (io_flash st) a)"
proof -
  have pl: "ring_place PERSISTENT_TABLE 4" by (simp add: ring_place_def)
  obtain d' rb' where c: "rb_create dev (io_flash st) stk PERSISTENT_TABLE 4 CREATE_INIT_ALWAYS = (RB_OK, rb', d')"
    and rb': "rb' = stk\<lparr>base_address := PERSISTENT_TABLE mod XIP_BASE, number_of_bytes := 4 * FLASH_SECTOR_SIZE, next_offs := 0\<rparr>"
    and inv: "ring_inv dev d' rb' 0 [] 0 (sector_index stk)"
    and fr: "\<forall>a<PICO_FLASH_SIZE_BYTES. a < base_address rb' \<or> base_address rb' + number_of_bytes rb' \<le> a \<longrightarrow> xip dev d' a = xip dev (io_flash st) a"
    by (rule nor_flash.rb_create_always [OF assms(1) pl, of "io_flash st" stk])
  have "ring_inv dev d' (storage_rb 4) 0 [] 0 (sector_index stk)"
    by (rule ring_inv_cong [OF _ _ _ inv]) (simp_all add: storage_rb_def rb')
  then have "store_inv dev d' [] 0 (sector_index stk)" using assms(2) by (simp add: store_inv_def ring_full_def)
  moreover have "flash_io_erase_ssids_hostnames dev stk st = (RB_OK, st\<lparr>io_flash := d'\<rparr>)"
    using c by (simp add: flash_io_erase_ssids_hostnames_def rb_recreate_def)
  ultimately show ?thesis
    using fr by (intro exI [of _ "st\<lparr>io_flash := d'\<rparr>"]) (auto simp: rb' records_of_def store_log_def ring_log_def)
qed

theorem erase_empties_store_witness:
  "\<exists>st'. flash_io_erase_ssids_hostnames nor_array (storage_rb 1) \<lparr>io_flash = (\<lambda>_. 0x55), pagebuff = (\<lambda>_. 0)\<rparr> = (RB_OK, st') \<and>
     store_inv nor_array (io_flash st') [] 0 0"
  using erase_empties_store [OF nor_array.nor_flash_axioms, of "storage_rb 1" "\<lparr>io_flash = (\<lambda>_. 0x55), pagebuff = (\<lambda>_. 0)\<rparr>"]
  by (auto simp: storage_rb_def)

text \<open>
  Reading every record of an id never ends on a full ring that holds a live record of it:
  \<^verbatim>\<open>rb_read\<close> wraps around and delivers the records again, and the loop of \<^verbatim>\<open>read_flash_ids\<close> has
  no other way out than an error.
\<close>

theorem read_ids_full_ring_diverges:
  "\<exists>d rb. ring_inv nor_array d rb 0 [0] 0 1 \<and> next_offs rb = 0 \<and>
     (\<forall>k pg. read_ids_loop nor_array 7 rb k \<lparr>io_flash = d, pagebuff = pg\<rparr> = None)"
proof -
  obtain d rb0 where R0: "ring_inv nor_array d rb0 0 [0] 0 1"
    and L: "ring_log nor_array d rb0 [0] = [\<lparr>ent_id = 7, ent_live = True, ent_data = replicate 4088 0\<rparr>]"
    using full_ring_exists by blast
  define rb where "rb = rb0\<lparr>next_offs := 0\<rparr>"
  have R: "ring_inv nor_array d rb 0 [0] 0 1" using R0 by (simp add: rb_def)
  note D = ring_invD [OF R]
  have ent: "entry_of nor_array d rb 0 = \<lparr>ent_id = 7, ent_live = True, ent_data = replicate 4088 0\<rparr>"
    using L by (simp add: ring_log_def rb_def)
  have nx: "next_pos nor_array d rb 0 = 0" "hdr_pos 0 = 4" using D(4) by (simp_all add: hdr_pos_def)
  have rd: "\<exists>n pg'. rb_read nor_array d (rb\<lparr>next_offs := k\<rparr>) 7 pg FLASH_PAGE_SIZE = Some (256, rb\<lparr>next_offs := n\<rparr>, pg') \<and> n \<in> {0, 4}"
    if "k \<in> {0, 4}" for k pg
    using rb_read_hit [of nor_array d "rb\<lparr>next_offs := k\<rparr>" 0 "[0]" 0 1 0 7 FLASH_PAGE_SIZE "FLASH_SECTOR k" pg 0] that R ent nx page_size_ok [OF D(1)]
    by (auto simp: rb_read_def wanted_def)
  let ?P = "\<lambda>dev' (i' :: byte) r (k :: nat) st (y :: int \<times> (nat \<Rightarrow> byte) io_state). dev' = nor_array \<and> i' = 7 \<and> io_flash st = d \<longrightarrow> (\<forall>n\<in>{0, 4}. r \<noteq> rb\<lparr>next_offs := n\<rparr>)"
  have "?P nor_array 7 r k st y" if "read_ids_loop nor_array 7 r k st = Some y" for r k st y
  proof (rule read_ids_loop.raw_induct [where P = ?P, OF _ that], goal_cases)
    case (1 f dev' i' r k st y)
    show ?case
    proof (intro impI ballI notI)
      fix n assume a: "dev' = nor_array \<and> i' = 7 \<and> io_flash st = d" and n: "n \<in> {0, 4}" "r = rb\<lparr>next_offs := n\<rparr>"
      obtain n' pg' where n': "rb_read nor_array d r 7 (pagebuff st) FLASH_PAGE_SIZE = Some (256, rb\<lparr>next_offs := n'\<rparr>, pg')" "n' \<in> {0, 4}"
        using rd [OF n(1), of "pagebuff st"] n(2) by blast
      have "f nor_array 7 (rb\<lparr>next_offs := n'\<rparr>) (add32 k 1) (st\<lparr>pagebuff := pg'\<rparr>) = Some y"
        using 1(2) a n'(1) by (simp add: Let_def)
      from 1(1) [OF this] n'(2) a show False by auto
    qed
  qed
  moreover have "rb = rb\<lparr>next_offs := 0\<rparr>" by (simp add: rb_def)
  ultimately have "read_ids_loop nor_array 7 rb k \<lparr>io_flash = d, pagebuff = pg\<rparr> = None" for k pg
    by (cases "read_ids_loop nor_array 7 rb k \<lparr>io_flash = d, pagebuff = pg\<rparr>") fastforce+
  with R show ?thesis by (intro exI [of _ d] exI [of _ rb]) (simp add: rb_def)
qed

end
