(* ===== verification/Udp_Socket.thy ===== *)
theory Udp_Socket
  imports Prelude
begin

text \<open>
  What the two UDP servers ask of lwIP. The stack is not part of the repository, so its answers
  are the fields of an environment: the control block \<^verbatim>\<open>udp_new\<close> returns, whether
  \<^verbatim>\<open>pbuf_alloc\<close> succeeds, and the error codes of \<^verbatim>\<open>udp_bind\<close> and \<^verbatim>\<open>udp_sendto\<close>. A datagram that
  is handed to the stack is a value of the model.
\<close>

type_synonym udp_pcb = nat

record udp_env =
  new_pcb :: "udp_pcb option"
  pbuf_ok :: bool
  bind_err :: int
  send_err :: int

record datagram =
  payload :: "byte list"
  dest_ip :: "byte list"
  dest_port :: nat

abbreviation (input) ERR_OK :: int where "ERR_OK \<equiv> 0"
abbreviation (input) ENOMEM :: int where "ENOMEM \<equiv> 12"

text \<open>The bytes \<^verbatim>\<open>ip >> 24 & 0xff, ..., ip & 0xff\<close> that \<^verbatim>\<open>IP4_ADDR\<close> is given.\<close>

definition ip4_bytes :: "32 word \<Rightarrow> byte list" where
  "ip4_bytes ip = [ucast (drop_bit 24 ip), ucast (drop_bit 16 ip), ucast (drop_bit 8 ip), ucast ip]"

text \<open>The length of a datagram is cut to 16 bits.\<close>

definition cut_len :: "nat \<Rightarrow> nat" where
  "cut_len len = (if len > 0xffff then 0xffff else len)"

lemma cut_len_small [simp]: "len \<le> 0xffff \<Longrightarrow> cut_len len = len"
  by (simp add: cut_len_def)

end
