(* ===== verification/Dhcp_Server.thy ===== *)
theory Dhcp_Server
  imports Udp_Socket
begin

text \<open>
  The DHCP server of \<^verbatim>\<open>dhcpserver.c\<close>. The local \<^verbatim>\<open>dhcp_msg\<close> is the memory from its first byte
  on: the packet is copied over what the stack held, and an index past the 548 bytes of the
  structure reads the stack, as in C. A call of the receive function is given the length of the
  packet, the bytes \<^verbatim>\<open>pbuf_copy_partial\<close> delivers, and the values that
  \<^verbatim>\<open>cyw43_hal_ticks_ms\<close> returns; its outcome is the new state of the server and the datagram
  it hands to the stack, if any.
\<close>

section \<open>Data\<close>

abbreviation (input) DHCPDISCOVER :: byte where "DHCPDISCOVER \<equiv> 1"
abbreviation (input) DHCPOFFER :: byte where "DHCPOFFER \<equiv> 2"
abbreviation (input) DHCPREQUEST :: byte where "DHCPREQUEST \<equiv> 3"
abbreviation (input) DHCPACK :: byte where "DHCPACK \<equiv> 5"

abbreviation (input) DHCP_OPT_SUBNET_MASK :: byte where "DHCP_OPT_SUBNET_MASK \<equiv> 1"
abbreviation (input) DHCP_OPT_ROUTER :: byte where "DHCP_OPT_ROUTER \<equiv> 3"
abbreviation (input) DHCP_OPT_DNS :: byte where "DHCP_OPT_DNS \<equiv> 6"
abbreviation (input) DHCP_OPT_REQUESTED_IP :: byte where "DHCP_OPT_REQUESTED_IP \<equiv> 50"
abbreviation (input) DHCP_OPT_IP_LEASE_TIME :: byte where "DHCP_OPT_IP_LEASE_TIME \<equiv> 51"
abbreviation (input) DHCP_OPT_MSG_TYPE :: byte where "DHCP_OPT_MSG_TYPE \<equiv> 53"
abbreviation (input) DHCP_OPT_SERVER_ID :: byte where "DHCP_OPT_SERVER_ID \<equiv> 54"
abbreviation (input) DHCP_OPT_END :: byte where "DHCP_OPT_END \<equiv> 255"

abbreviation (input) DHCPS_BASE_IP :: byte where "DHCPS_BASE_IP \<equiv> 16"
abbreviation (input) DHCPS_MAX_IP :: nat where "DHCPS_MAX_IP \<equiv> 8"
abbreviation (input) DEFAULT_LEASE_TIME_S :: "32 word" where "DEFAULT_LEASE_TIME_S \<equiv> 86400"
abbreviation (input) MAC_LEN :: nat where "MAC_LEN \<equiv> 6"
abbreviation (input) DHCP_MIN_SIZE :: nat where "DHCP_MIN_SIZE \<equiv> 243"

text \<open>The offsets of the fields of \<^verbatim>\<open>dhcp_msg_t\<close> and its size.\<close>

abbreviation (input) OP :: nat where "OP \<equiv> 0"
abbreviation (input) YIADDR :: nat where "YIADDR \<equiv> 16"
abbreviation (input) CHADDR :: nat where "CHADDR \<equiv> 28"
abbreviation (input) OPTIONS :: nat where "OPTIONS \<equiv> 236"
abbreviation (input) DHCP_MSG_SIZE :: nat where "DHCP_MSG_SIZE \<equiv> 548"

record dhcp_server_lease_t =
  mac :: "byte list"
  expiry :: "16 word"

text \<open>Addresses are the four bytes of the \<^verbatim>\<open>uint32_t\<close> in memory.\<close>

record dhcp_server_t =
  ip :: "byte list"
  nm :: "byte list"
  lease :: "dhcp_server_lease_t list"
  udp :: "udp_pcb option"

definition no_mac :: "byte list" where
  "no_mac = replicate MAC_LEN 0"

section \<open>Sockets\<close>

definition dhcp_socket_new_dgram :: "udp_env \<Rightarrow> int \<times> udp_pcb option" where
  "dhcp_socket_new_dgram env = (case new_pcb env of None \<Rightarrow> (- ENOMEM, None) | Some p \<Rightarrow> (0, Some p))"

definition dhcp_socket_free :: "udp_pcb option \<Rightarrow> udp_pcb option" where
  "dhcp_socket_free u = (case u of None \<Rightarrow> None | Some p \<Rightarrow> None)"

definition dhcp_socket_bind :: "udp_env \<Rightarrow> udp_pcb option \<Rightarrow> nat \<Rightarrow> int" where
  "dhcp_socket_bind env u port = bind_err env"

definition dhcp_socket_sendto ::
    "udp_env \<Rightarrow> view \<Rightarrow> nat \<Rightarrow> 32 word \<Rightarrow> nat \<Rightarrow> int \<times> datagram option" where
  "dhcp_socket_sendto env buf len addr port =
     (let len1 = cut_len len
      in if \<not> pbuf_ok env then (- ENOMEM, None)
         else let dg = Some \<lparr> payload = take_view len1 buf, dest_ip = ip4_bytes addr, dest_port = port \<rparr>
              in if send_err env \<noteq> ERR_OK then (send_err env, dg) else (int len1, dg))"

section \<open>Options\<close>

text \<open>The result is the index of the option found.\<close>

function opt_find_from :: "view \<Rightarrow> byte \<Rightarrow> nat \<Rightarrow> nat option" where
  "opt_find_from opt cmd i =
     (if i < 308 \<and> opt i \<noteq> DHCP_OPT_END then
        if opt i = cmd then Some i else opt_find_from opt cmd (i + 2 + unat (opt (i + 1)))
      else None)"
  by pat_completeness auto
termination by (relation "measure (\<lambda>(opt, cmd, i). 308 - i)") auto

declare opt_find_from.simps [simp del]

definition opt_find :: "view \<Rightarrow> byte \<Rightarrow> nat option" where
  "opt_find opt cmd = opt_find_from opt cmd 0"

text \<open>The writers take and return the buffer and the offset that \<^verbatim>\<open>*opt\<close> points to.\<close>

definition opt_write_n :: "byte \<Rightarrow> nat \<Rightarrow> byte list \<Rightarrow> view \<times> nat \<Rightarrow> view \<times> nat" where
  "opt_write_n cmd n data = (\<lambda>(buf, o1). (store buf o1 (cmd # of_nat n # take n data), o1 + 2 + n))"

definition opt_write_u8 :: "byte \<Rightarrow> byte \<Rightarrow> view \<times> nat \<Rightarrow> view \<times> nat" where
  "opt_write_u8 cmd val = (\<lambda>(buf, o1). (store buf o1 [cmd, 1, val], o1 + 3))"

definition opt_write_u32 :: "byte \<Rightarrow> 32 word \<Rightarrow> view \<times> nat \<Rightarrow> view \<times> nat" where
  "opt_write_u32 cmd val = (\<lambda>(buf, o1).
     (store buf o1 [cmd, 4, ucast (drop_bit 24 val), ucast (drop_bit 16 val), ucast (drop_bit 8 val), ucast val], o1 + 6))"

section \<open>Leases\<close>

definition lease_expired :: "16 word \<Rightarrow> 32 word \<Rightarrow> bool" where
  "lease_expired e ticks \<longleftrightarrow> sint ((push_bit 16 (ucast e) OR 0xffff) - ticks) < 0"

text \<open>The loop of DHCPDISCOVER from index \<open>i\<close>; \<^term>\<open>ticks i\<close> is the time in the \<open>i\<close>-th round.\<close>

function discover_loop ::
    "(nat \<Rightarrow> 32 word) \<Rightarrow> byte list \<Rightarrow> nat \<Rightarrow> nat \<Rightarrow> dhcp_server_lease_t list \<Rightarrow> nat \<times> dhcp_server_lease_t list" where
  "discover_loop ticks chaddr i yi ls =
     (if i < DHCPS_MAX_IP then
        if mac (ls ! i) = chaddr then (i, ls)
        else if yi = DHCPS_MAX_IP then
          let yi1 = (if mac (ls ! i) = no_mac then i else yi)
          in if lease_expired (expiry (ls ! i)) (ticks i)
             then discover_loop ticks chaddr (i + 1) i (ls[i := (ls ! i)\<lparr> mac := no_mac \<rparr>])
             else discover_loop ticks chaddr (i + 1) yi1 ls
        else discover_loop ticks chaddr (i + 1) yi ls
      else (yi, ls))"
  by pat_completeness auto
termination by (relation "measure (\<lambda>(ticks, chaddr, i, yi, ls). DHCPS_MAX_IP - i)") auto

declare discover_loop.simps [simp del]

section \<open>The receive function\<close>

text \<open>What follows the \<^verbatim>\<open>switch\<close>: the remaining options and the broadcast of the reply.\<close>

definition reply_options :: "dhcp_server_t \<Rightarrow> view \<times> nat \<Rightarrow> view \<times> nat" where
  "reply_options d o0 =
     (let o1 = opt_write_n DHCP_OPT_SERVER_ID 4 (ip d) o0;
          o2 = opt_write_n DHCP_OPT_SUBNET_MASK 4 (nm d) o1;
          o3 = opt_write_n DHCP_OPT_ROUTER 4 (ip d) o2;
          o4 = opt_write_n DHCP_OPT_DNS 4 (ip d) o3;
          (buf, off) = opt_write_u32 DHCP_OPT_IP_LEASE_TIME DEFAULT_LEASE_TIME_S o4
      in (store buf off [DHCP_OPT_END], off + 1))"

definition send_reply :: "udp_env \<Rightarrow> dhcp_server_t \<Rightarrow> view \<times> nat \<Rightarrow> datagram option" where
  "send_reply env d o0 = (let (buf, off) = reply_options d o0 in snd (dhcp_socket_sendto env buf off 0xffffffff 68))"

definition process_discover ::
    "udp_env \<Rightarrow> (nat \<Rightarrow> 32 word) \<Rightarrow> view \<Rightarrow> dhcp_server_t \<Rightarrow> dhcp_server_t \<times> datagram option" where
  "process_discover env ticks msg d =
     (let (yi, ls) = discover_loop ticks (take_view MAC_LEN (advance msg CHADDR)) 0 DHCPS_MAX_IP (lease d);
          d1 = d\<lparr> lease := ls \<rparr>
      in if yi = DHCPS_MAX_IP then (d1, None)
         else let msg1 = store msg (YIADDR + 3) [DHCPS_BASE_IP + of_nat yi]
              in (d1, send_reply env d1 (opt_write_u8 DHCP_OPT_MSG_TYPE DHCPOFFER (msg1, OPTIONS + 4))))"

definition process_request ::
    "udp_env \<Rightarrow> (nat \<Rightarrow> 32 word) \<Rightarrow> view \<Rightarrow> dhcp_server_t \<Rightarrow> dhcp_server_t \<times> datagram option" where
  "process_request env ticks msg d =
     (let opt = advance msg (OPTIONS + 4); chaddr = take_view MAC_LEN (advance msg CHADDR)
      in case opt_find opt DHCP_OPT_REQUESTED_IP of
           None \<Rightarrow> (d, None)
         | Some j \<Rightarrow>
             if take_view 3 (advance opt (j + 2)) \<noteq> take 3 (ip d) then (d, None)
             else let yi = opt (j + 5) - DHCPS_BASE_IP
               in if 8 \<le> yi then (d, None)
                  else let l = lease d ! unat yi;
                           granted = (if mac l = chaddr then Some l
                                      else if mac l = no_mac then Some (l\<lparr> mac := chaddr \<rparr>) else None)
                    in case granted of
                         None \<Rightarrow> (d, None)
                       | Some l1 \<Rightarrow>
                           let l2 = l1\<lparr> expiry := ucast (drop_bit 16 (ticks 0 + DEFAULT_LEASE_TIME_S * 1000)) \<rparr>;
                               d1 = d\<lparr> lease := (lease d)[unat yi := l2] \<rparr>;
                               msg1 = store msg (YIADDR + 3) [DHCPS_BASE_IP + yi]
                           in (d1, send_reply env d1 (opt_write_u8 DHCP_OPT_MSG_TYPE DHCPACK (msg1, OPTIONS + 4))))"

definition dhcp_server_process ::
    "udp_env \<Rightarrow> (nat \<Rightarrow> 32 word) \<Rightarrow> view \<Rightarrow> nat \<Rightarrow> byte list \<Rightarrow> dhcp_server_t \<Rightarrow> dhcp_server_t \<times> datagram option" where
  "dhcp_server_process env ticks stk tot_len copied d =
     (if tot_len < DHCP_MIN_SIZE then (d, None)
      else if length copied < DHCP_MIN_SIZE then (d, None)
      else let msg = store (store (store stk 0 copied) OP [DHCPOFFER]) YIADDR (ip d)
        in case opt_find (advance msg (OPTIONS + 4)) DHCP_OPT_MSG_TYPE of
             None \<Rightarrow> (d, None)
           | Some i \<Rightarrow>
               let t = msg (OPTIONS + 4 + i + 2)
               in if t = DHCPDISCOVER then process_discover env ticks msg d
                  else if t = DHCPREQUEST then process_request env ticks msg d
                  else (d, None))"

definition dhcp_server_init :: "udp_env \<Rightarrow> byte list \<Rightarrow> byte list \<Rightarrow> dhcp_server_t \<Rightarrow> dhcp_server_t" where
  "dhcp_server_init env ip1 nm1 d =
     (let d1 = d\<lparr> ip := ip1, nm := nm1, lease := replicate DHCPS_MAX_IP \<lparr> mac = no_mac, expiry = 0 \<rparr> \<rparr>;
          (r, u) = dhcp_socket_new_dgram env;
          d2 = d1\<lparr> udp := u \<rparr>
      in if r \<noteq> 0 then d2 else let err = dhcp_socket_bind env (udp d2) 67 in d2)"

definition dhcp_server_deinit :: "dhcp_server_t \<Rightarrow> dhcp_server_t" where
  "dhcp_server_deinit d = d\<lparr> udp := dhcp_socket_free (udp d) \<rparr>"

section \<open>The search for an address\<close>

text \<open>An address is available when its slot is empty or its lease is over.\<close>

definition available :: "(nat \<Rightarrow> 32 word) \<Rightarrow> dhcp_server_lease_t list \<Rightarrow> nat \<Rightarrow> bool" where
  "available ticks ls k \<longleftrightarrow> mac (ls ! k) = no_mac \<or> lease_expired (expiry (ls ! k)) (ticks k)"

text \<open>What one round of the search does to a slot: nothing, or it empties it because its lease is over.\<close>

definition slot_kept :: "(nat \<Rightarrow> 32 word) \<Rightarrow> byte list \<Rightarrow> nat \<Rightarrow> dhcp_server_lease_t \<Rightarrow> dhcp_server_lease_t \<Rightarrow> bool" where
  "slot_kept ticks ch k l l' \<longleftrightarrow>
     l' = l \<or> (mac l \<noteq> ch \<and> lease_expired (expiry l) (ticks k) \<and> l' = l\<lparr> mac := no_mac \<rparr>)"

lemma discover_loop_frame:
  assumes "discover_loop ticks ch i yi ls = (y, ls')"
  shows "length ls' = length ls \<and> slot_kept ticks ch k (ls ! k) (ls' ! k)"
  using assms
proof (induction ticks ch i yi ls arbitrary: y ls' rule: discover_loop.induct)
  case (1 ticks ch i yi ls)
  note eq = 1(4) [unfolded discover_loop.simps [of ticks ch i yi ls]]
  consider (stop) "ls' = ls"
    | (free) "mac (ls ! i) \<noteq> ch" "lease_expired (expiry (ls ! i)) (ticks i)" "length ls' = length ls"
        "slot_kept ticks ch k (ls[i := (ls ! i)\<lparr> mac := no_mac \<rparr>] ! k) (ls' ! k)"
    | (keep) "length ls' = length ls \<and> slot_kept ticks ch k (ls ! k) (ls' ! k)"
    using eq 1(1-3) by (fastforce simp: Let_def split: if_splits)
  then show ?case
  proof cases
    case free
    then show ?thesis by (cases "i < length ls"; cases "k = i") (auto simp: slot_kept_def list_update_beyond)
  qed (auto simp: slot_kept_def)
qed

text \<open>
  Which slot is chosen: that of the client if it has one, else the one chosen before, else the
  first available one; 8 when there is none.
\<close>

definition chosen :: "(nat \<Rightarrow> 32 word) \<Rightarrow> byte list \<Rightarrow> nat \<Rightarrow> nat \<Rightarrow> dhcp_server_lease_t list \<Rightarrow> nat" where
  "chosen ticks ch i yi ls =
     (case List.find (\<lambda>k. mac (ls ! k) = ch) [i..<DHCPS_MAX_IP] of
        Some k \<Rightarrow> k
      | None \<Rightarrow> if yi \<noteq> DHCPS_MAX_IP then yi
                else case List.find (available ticks ls) [i..<DHCPS_MAX_IP] of Some k \<Rightarrow> k | None \<Rightarrow> DHCPS_MAX_IP)"

lemma find_cong_upt:
  "(\<And>k. i \<le> k \<Longrightarrow> P k = Q k) \<Longrightarrow> List.find P [i..<n] = List.find Q [i..<n]"
  by (rule find_cong) auto

lemma chosen_step:
  assumes "i < DHCPS_MAX_IP"
  shows "chosen ticks ch i yi ls =
    (if mac (ls ! i) = ch then i
     else chosen ticks ch (i + 1) (if yi = DHCPS_MAX_IP \<and> available ticks ls i then i else yi) ls)"
proof -
  have u: "[i..<DHCPS_MAX_IP] = i # [i + 1..<DHCPS_MAX_IP]" using assms by (simp add: upt_conv_Cons)
  show ?thesis using assms by (auto simp: chosen_def u split: option.split)
qed

lemma chosen_update:
  "chosen ticks ch (i + 1) yi (ls[i := l]) = chosen ticks ch (i + 1) yi ls"
proof -
  have n: "ls[i := l] ! k = ls ! k" if "i + 1 \<le> k" for k using that by simp
  have "List.find (\<lambda>k. mac (ls[i := l] ! k) = ch) [i + 1..<DHCPS_MAX_IP] = List.find (\<lambda>k. mac (ls ! k) = ch) [i + 1..<DHCPS_MAX_IP]"
    "List.find (available ticks (ls[i := l])) [i + 1..<DHCPS_MAX_IP] = List.find (available ticks ls) [i + 1..<DHCPS_MAX_IP]"
    by (rule find_cong_upt, simp add: available_def n)+
  then show ?thesis by (simp only: chosen_def)
qed

lemma discover_loop_choice: "fst (discover_loop ticks ch i yi ls) = chosen ticks ch i yi ls"
proof (induction ticks ch i yi ls rule: discover_loop.induct)
  case (1 ticks ch i yi ls)
  show ?case
  proof (cases "i < DHCPS_MAX_IP")
    case True
    with 1 show ?thesis
      by (subst discover_loop.simps) (auto simp: Let_def chosen_step [OF True] available_def chosen_update [simplified])
  next
    case False
    then show ?thesis by (subst discover_loop.simps) (simp add: chosen_def)
  qed
qed

end
