(* ===== verification/Dhcp_Lease.thy ===== *)
theory Dhcp_Lease
  imports Dhcp_Server
begin

text \<open>
  What the DHCP server promises: the exact bytes of a reply and the slot it announces, that a lease
  is not taken from a client before it is over, how long that is on the 32-bit millisecond clock, and
  that no address is acknowledged to two clients within that time.
\<close>

section \<open>The shape of the state\<close>

definition dhcp_wf :: "dhcp_server_t \<Rightarrow> bool" where
  "dhcp_wf d \<longleftrightarrow> length (ip d) = 4 \<and> length (nm d) = 4 \<and> length (lease d) = DHCPS_MAX_IP \<and> (\<forall>l \<in> set (lease d). length (mac l) = MAC_LEN)"

definition msg_of :: "view \<Rightarrow> byte list \<Rightarrow> dhcp_server_t \<Rightarrow> view" where
  "msg_of stk copied d = store (store (store stk 0 copied) OP [DHCPOFFER]) YIADDR (ip d)"

definition client :: "byte list \<Rightarrow> byte list" where
  "client copied = take MAC_LEN (drop CHADDR copied)"

lemma client_chaddr:
  assumes "length (ip d) = 4" "DHCP_MIN_SIZE \<le> length copied"
  shows "take_view MAC_LEN (advance (msg_of stk copied d) CHADDR) = client copied"
  by (rule nth_equalityI) (use assms in \<open>auto simp: client_def msg_of_def store_def\<close>)

lemma client_length: "DHCP_MIN_SIZE \<le> length copied \<Longrightarrow> length (client copied) = MAC_LEN"
  by (simp add: client_def)

text \<open>The three ways a packet is handled.\<close>

lemma process_cases:
  assumes "dhcp_server_process env ticks stk tot_len copied d = (d', r)"
  obtains (ignored) "d' = d" "r = None"
    | (discover) "DHCP_MIN_SIZE \<le> length copied" "process_discover env ticks (msg_of stk copied d) d = (d', r)"
    | (request) "DHCP_MIN_SIZE \<le> length copied" "process_request env ticks (msg_of stk copied d) d = (d', r)"
proof (cases "tot_len < DHCP_MIN_SIZE \<or> length copied < DHCP_MIN_SIZE")
  case True
  then show ?thesis using assms ignored by (auto simp: dhcp_server_process_def split: if_splits)
next
  case False
  let ?msg = "msg_of stk copied d"
  note eq = assms [unfolded dhcp_server_process_def Let_def msg_of_def [symmetric]]
  show ?thesis
  proof (cases "opt_find (advance ?msg (OPTIONS + 4)) DHCP_OPT_MSG_TYPE")
    case None
    then show ?thesis using eq False ignored by simp
  next
    case (Some i)
    let ?t = "?msg (OPTIONS + 4 + i + 2)"
    have "(if ?t = DHCPDISCOVER then process_discover env ticks ?msg d
        else if ?t = DHCPREQUEST then process_request env ticks ?msg d else (d, None)) = (d', r)"
      using eq Some False by simp
    moreover have "DHCP_MIN_SIZE \<le> length copied" using False by simp
    ultimately show ?thesis using ignored discover request
      by (cases "?t = DHCPDISCOVER"; cases "?t = DHCPREQUEST") (simp_all only: if_True if_False prod.inject, metis+)
  qed
qed

lemma discover_leases:
  assumes "process_discover env ticks msg d = (d', r)"
  shows "ip d' = ip d \<and> nm d' = nm d \<and> length (lease d') = length (lease d) \<and>
    slot_kept ticks (take_view MAC_LEN (advance msg CHADDR)) k (lease d ! k) (lease d' ! k)"
proof -
  obtain y ls where l: "discover_loop ticks (take_view MAC_LEN (advance msg CHADDR)) 0 DHCPS_MAX_IP (lease d) = (y, ls)"
    by fastforce
  then have "d' = d\<lparr> lease := ls \<rparr>" using assms by (auto simp: process_discover_def Let_def split: if_splits)
  with discover_loop_frame [OF l, of k] show ?thesis by simp
qed

text \<open>A granted request.\<close>

definition granted_slot :: "(nat \<Rightarrow> 32 word) \<Rightarrow> byte list \<Rightarrow> byte \<Rightarrow> dhcp_server_t \<Rightarrow> dhcp_server_t" where
  "granted_slot ticks ch yi d = d\<lparr> lease := (lease d)[unat yi := (lease d ! unat yi)\<lparr> mac := ch,
     expiry := ucast (drop_bit 16 (ticks 0 + DEFAULT_LEASE_TIME_S * 1000)) \<rparr>] \<rparr>"

lemma request_cases:
  assumes "process_request env ticks msg d = (d', r)"
  obtains (refused) "d' = d" "r = None"
    | (granted) yi where "yi < 8" "mac (lease d ! unat yi) \<in> {take_view MAC_LEN (advance msg CHADDR), no_mac}"
        "d' = granted_slot ticks (take_view MAC_LEN (advance msg CHADDR)) yi d"
        "r = send_reply env d' (opt_write_u8 DHCP_OPT_MSG_TYPE DHCPACK (store msg (YIADDR + 3) [DHCPS_BASE_IP + yi], OPTIONS + 4))"
  using assms
proof (cases "opt_find (advance msg (OPTIONS + 4)) DHCP_OPT_REQUESTED_IP")
  case None
  then show ?thesis using assms refused by (simp add: process_request_def)
next
  case (Some j)
  let ?yi = "msg (OPTIONS + 4 + (j + 5)) - DHCPS_BASE_IP" and ?ch = "take_view MAC_LEN (advance msg CHADDR)"
  have same: "l\<lparr> mac := m \<rparr> = l" if "mac l = m" for l :: dhcp_server_lease_t and m using that by (cases l) simp
  show ?thesis
  proof (cases "?yi < 8 \<and> mac (lease d ! unat ?yi) \<in> {?ch, no_mac} \<and> take_view 3 (advance msg (OPTIONS + 4 + (j + 2))) = take 3 (ip d)")
    case True
    then show ?thesis
      using assms Some by (intro granted [of ?yi]) (auto simp: process_request_def granted_slot_def Let_def not_le same split: if_splits)
  next
    case False
    then show ?thesis
      using assms Some refused by (auto simp: process_request_def Let_def not_le split: if_splits)
  qed
qed

lemma wf_slot: "dhcp_wf d \<Longrightarrow> k < DHCPS_MAX_IP \<Longrightarrow> length (mac (lease d ! k)) = MAC_LEN"
  by (simp add: dhcp_wf_def)

lemma no_mac_length [simp]: "length no_mac = MAC_LEN"
  by (simp add: no_mac_def)

lemma unat_yi: "(yi :: byte) < 8 \<Longrightarrow> unat yi < DHCPS_MAX_IP"
  by (simp add: word_less_nat_alt)

lemma wf_granted: "dhcp_wf d \<Longrightarrow> length ch = MAC_LEN \<Longrightarrow> dhcp_wf (granted_slot ticks ch yi d)"
  by (auto simp: dhcp_wf_def granted_slot_def dest: set_update_subset_insert [THEN subsetD])

lemma wf_discover:
  assumes w: "dhcp_wf d" and p: "process_discover env ticks msg d = (d', r)"
  shows "dhcp_wf d'"
proof -
  note f = discover_leases [OF p]
  have "length (mac (lease d' ! k)) = MAC_LEN" if "k < DHCPS_MAX_IP" for k
    using f [of k] wf_slot [OF w that] by (auto simp: slot_kept_def)
  then show ?thesis using w f by (auto simp: dhcp_wf_def in_set_conv_nth)
qed

lemma process_wf:
  assumes w: "dhcp_wf d" and p: "dhcp_server_process env ticks stk tot_len copied d = (d', r)"
  shows "dhcp_wf d' \<and> ip d' = ip d \<and> nm d' = nm d"
  using p
proof (cases rule: process_cases)
  case discover
  then show ?thesis using wf_discover [OF w discover(2)] discover_leases [OF discover(2)] by simp
next
  case request
  from request(2) show ?thesis
    by (cases rule: request_cases)
      (use w client_chaddr [of d copied stk] client_length request(1) in \<open>auto simp: wf_granted dhcp_wf_def [of d], simp_all add: granted_slot_def\<close>)
qed (use w in simp)

section \<open>The bytes of a reply\<close>

lemma take_view_store_end: "take_view (k + length bs) (store p k bs) = take_view k p @ bs"
  by (rule nth_equalityI) (auto simp: nth_append store_def)

definition reply_tail :: "dhcp_server_t \<Rightarrow> byte \<Rightarrow> byte list" where
  "reply_tail d t = [DHCP_OPT_MSG_TYPE, 1, t] @ [DHCP_OPT_SERVER_ID, 4] @ ip d @ [DHCP_OPT_SUBNET_MASK, 4] @ nm d @
     [DHCP_OPT_ROUTER, 4] @ ip d @ [DHCP_OPT_DNS, 4] @ ip d @ [DHCP_OPT_IP_LEASE_TIME, 4, 0, 1, 0x51, 0x80, DHCP_OPT_END]"

lemma lease_time_bytes:
  "[ucast (drop_bit 24 DEFAULT_LEASE_TIME_S), ucast (drop_bit 16 DEFAULT_LEASE_TIME_S), ucast (drop_bit 8 DEFAULT_LEASE_TIME_S), ucast DEFAULT_LEASE_TIME_S]
     = [0, 1, 0x51, 0x80 :: byte]"
  by simp

lemma reply_options_bytes:
  assumes "length (ip d) = 4" "length (nm d) = 4"
  shows "reply_options d (opt_write_u8 DHCP_OPT_MSG_TYPE t (p, k)) = (store p k (reply_tail d t), k + 34)"
proof -
  have "reply_options d (opt_write_u8 DHCP_OPT_MSG_TYPE t (p, k)) =
      (store p k ([DHCP_OPT_MSG_TYPE, 1, t] @ (DHCP_OPT_SERVER_ID # 4 # ip d) @ (DHCP_OPT_SUBNET_MASK # 4 # nm d) @
        (DHCP_OPT_ROUTER # 4 # ip d) @ (DHCP_OPT_DNS # 4 # ip d) @ (DHCP_OPT_IP_LEASE_TIME # 4 # [ucast (drop_bit 24 DEFAULT_LEASE_TIME_S),
        ucast (drop_bit 16 DEFAULT_LEASE_TIME_S), ucast (drop_bit 8 DEFAULT_LEASE_TIME_S), ucast DEFAULT_LEASE_TIME_S]) @ [DHCP_OPT_END]), k + 34)"
    using assms by (simp add: reply_options_def opt_write_u8_def opt_write_n_def opt_write_u32_def Let_def store_chain)
  then show ?thesis by (simp only: lease_time_bytes) (simp add: reply_tail_def)
qed

lemma reply_tail_length: "length (ip d) = 4 \<Longrightarrow> length (nm d) = 4 \<Longrightarrow> length (reply_tail d t) = 34"
  by (simp add: reply_tail_def)

lemma send_reply_payload:
  assumes "length (ip d) = 4" "length (nm d) = 4" "send_reply env d (opt_write_u8 DHCP_OPT_MSG_TYPE t (p, OPTIONS + 4)) = Some dg"
  shows "payload dg = take_view 240 p @ reply_tail d t \<and> dest_ip dg = [255, 255, 255, 255] \<and> dest_port dg = 68"
proof -
  have "take_view 274 (store p 240 (reply_tail d t)) = take_view 240 p @ reply_tail d t"
    using take_view_store_end [of 240 "reply_tail d t" p] reply_tail_length [OF assms(1,2)] by simp
  moreover have "ip4_bytes 0xffffffff = [255, 255, 255, 255]" by (simp add: ip4_bytes_def)
  ultimately show ?thesis using assms
    by (auto simp: send_reply_def reply_options_bytes dhcp_socket_sendto_def Let_def split: if_splits)
qed

text \<open>The head of a reply: the client's packet with the operation, the address and its last byte replaced.\<close>

definition reply_head :: "byte list \<Rightarrow> dhcp_server_t \<Rightarrow> nat \<Rightarrow> byte list" where
  "reply_head copied d yi =
     DHCPOFFER # take 15 (drop 1 copied) @ take 3 (ip d) @ [DHCPS_BASE_IP + of_nat yi] @ take 220 (drop 20 copied)"

lemma reply_head_msg:
  assumes "length (ip d) = 4" "DHCP_MIN_SIZE \<le> length copied"
  shows "take_view 240 (store (msg_of stk copied d) (YIADDR + 3) [DHCPS_BASE_IP + of_nat yi]) = reply_head copied d yi"
proof (rule nth_equalityI)
  fix i assume "i < length (take_view 240 (store (msg_of stk copied d) (YIADDR + 3) [DHCPS_BASE_IP + of_nat yi]))"
  then have i: "i < 240" by simp
  consider "i = 0" | "0 < i" "i < 16" | "16 \<le> i" "i < 19" | "i = 19" | "20 \<le> i" by linarith
  then show "take_view 240 (store (msg_of stk copied d) (YIADDR + 3) [DHCPS_BASE_IP + of_nat yi]) ! i = reply_head copied d yi ! i"
    by cases (use i assms in \<open>auto simp: reply_head_def msg_of_def store_def nth_append nth_Cons'\<close>)
qed (use assms in \<open>simp add: reply_head_def\<close>)

lemma find_SomeD: "List.find P xs = Some x \<Longrightarrow> x \<in> set xs"
  by (auto simp: find_Some_iff)

lemma chosen_le: "chosen ticks ch 0 DHCPS_MAX_IP ls \<le> DHCPS_MAX_IP"
  by (auto simp: chosen_def split: option.split dest!: find_SomeD)

text \<open>
  C29. Every datagram the server sends is a broadcast to port 68 of exactly 274 bytes, which fits
  the message structure: the client's packet with operation and offered address replaced,
  followed by well-formed options. The address is one of the eight of the pool, on the
  server's network; an offer names the client's own slot if it has one and otherwise the
  first one that is empty or over, and after an acknowledgement that slot belongs to the client.
\<close>

theorem dhcp_reply_content:
  assumes w: "dhcp_wf d" and p: "dhcp_server_process env ticks stk tot_len copied d = (d', Some dg)"
  shows "dest_ip dg = [255, 255, 255, 255] \<and> dest_port dg = 68 \<and> length (payload dg) = 274 \<and>
    (\<exists>yi < DHCPS_MAX_IP. \<exists>t. payload dg = reply_head copied d yi @ reply_tail d t \<and>
      (t = DHCPOFFER \<and> yi = chosen ticks (client copied) 0 DHCPS_MAX_IP (lease d) \<or>
       t = DHCPACK \<and> mac (lease d' ! yi) = client copied))"
  using p
proof (cases rule: process_cases)
  case discover
  have wf: "length (ip d) = 4" "length (nm d) = 4" using w by (simp_all add: dhcp_wf_def)
  let ?ch = "take_view MAC_LEN (advance (msg_of stk copied d) CHADDR)"
  obtain y ls where l: "discover_loop ticks ?ch 0 DHCPS_MAX_IP (lease d) = (y, ls)" by fastforce
  have y: "y = chosen ticks (client copied) 0 DHCPS_MAX_IP (lease d)"
    using discover_loop_choice [of ticks ?ch 0 DHCPS_MAX_IP "lease d"] l client_chaddr [OF wf(1) discover(1)] by simp
  have lt: "y < DHCPS_MAX_IP" using discover(2) l y chosen_le [of ticks "client copied" "lease d"]
    by (auto simp: process_discover_def Let_def split: if_splits)
  have "send_reply env (d\<lparr> lease := ls \<rparr>) (opt_write_u8 DHCP_OPT_MSG_TYPE DHCPOFFER
      (store (msg_of stk copied d) (YIADDR + 3) [DHCPS_BASE_IP + of_nat y], OPTIONS + 4)) = Some dg"
    using discover(2) l by (auto simp: process_discover_def Let_def split: if_splits)
  from send_reply_payload [OF _ _ this] wf have "payload dg = reply_head copied d y @ reply_tail d DHCPOFFER \<and>
      dest_ip dg = [255, 255, 255, 255] \<and> dest_port dg = 68"
    using reply_head_msg [OF wf(1) discover(1), of stk y] by (simp add: reply_tail_def)
  then show ?thesis using y lt wf discover(1) by (auto simp: reply_head_def reply_tail_length)
next
  case request
  have wf: "length (ip d) = 4" "length (nm d) = 4" using w by (simp_all add: dhcp_wf_def)
  note ch = client_chaddr [OF wf(1) request(1), of stk]
  from request(2) show ?thesis
  proof (cases rule: request_cases)
    case (granted yi)
    have u: "unat yi < DHCPS_MAX_IP" "DHCPS_BASE_IP + of_nat (unat yi) = DHCPS_BASE_IP + yi" using unat_yi [OF granted(1)] by simp_all
    have "payload dg = reply_head copied d (unat yi) @ reply_tail d DHCPACK \<and> dest_ip dg = [255, 255, 255, 255] \<and> dest_port dg = 68"
      using send_reply_payload [OF _ _ granted(4) [symmetric]] wf reply_head_msg [OF wf(1) request(1), of stk "unat yi"]
      by (simp add: granted(3) granted_slot_def reply_tail_def)
    moreover have "mac (lease d' ! unat yi) = client copied" using u(1) w by (simp add: granted(3) granted_slot_def ch dhcp_wf_def)
    ultimately show ?thesis using u(1) wf request(1) by (auto simp: reply_head_def reply_tail_length)
  qed simp
qed simp

section \<open>Leases over time\<close>

text \<open>A run of the server: the packets it processes, with the clock and the reply of each.\<close>

inductive dhcp_steps ::
    "dhcp_server_t \<Rightarrow> ((nat \<Rightarrow> 32 word) \<times> byte list \<times> datagram option) list \<Rightarrow> dhcp_server_t \<Rightarrow> bool" where
  steps_nil: "dhcp_steps d [] d"
| steps_cons: "dhcp_server_process env ticks stk tot_len copied d = (d1, r) \<Longrightarrow> dhcp_steps d1 es d2 \<Longrightarrow>
    dhcp_steps d ((ticks, copied, r) # es) d2"

inductive_cases dhcp_steps_ConsE: "dhcp_steps d (e # es) d2"

lemma process_keeps_lease:
  assumes w: "dhcp_wf d" and k: "k < DHCPS_MAX_IP" and p: "dhcp_server_process env ticks stk tot_len copied d = (d', r)"
    and m: "mac (lease d ! k) \<noteq> no_mac" and ch: "mac (lease d' ! k) \<noteq> mac (lease d ! k)"
  shows "lease_expired (expiry (lease d ! k)) (ticks k)"
  using p
proof (cases rule: process_cases)
  case discover
  then show ?thesis using discover_leases [OF discover(2), of k] ch by (auto simp: slot_kept_def)
next
  case request
  from request(2) show ?thesis
  proof (cases rule: request_cases)
    case (granted yi)
    then show ?thesis
      using m ch k w by (cases "k = unat yi") (auto simp: granted_slot_def dhcp_wf_def)
  qed (use ch in simp)
qed (use ch in simp)

lemma steps_keep: "dhcp_steps d es d' \<Longrightarrow> dhcp_wf d \<Longrightarrow> dhcp_wf d' \<and> ip d' = ip d \<and> nm d' = nm d"
  by (induction rule: dhcp_steps.induct) (auto dest: process_wf)

text \<open>
  C30. Over any sequence of packets, from any clients and at any times, a slot that belongs to a client
  stops belonging to it only through a packet that arrives when its lease is over: an
  acknowledged address is not taken away and is not acknowledged to anyone else before.
\<close>

theorem lease_kept_until_over:
  assumes run: "dhcp_steps d es d'" and w: "dhcp_wf d" and k: "k < DHCPS_MAX_IP"
    and m: "mac (lease d ! k) = m" "m \<noteq> no_mac"
  shows "mac (lease d' ! k) = m \<or> (\<exists>us ticks copied r vs d1. es = us @ (ticks, copied, r) # vs \<and> dhcp_steps d us d1 \<and>
    mac (lease d1 ! k) = m \<and> lease_expired (expiry (lease d1 ! k)) (ticks k))"
  using run w m(1)
proof (induction rule: dhcp_steps.induct)
  case (steps_cons env ticks stk tot_len copied d d1 r es d2)
  show ?case
  proof (cases "mac (lease d1 ! k) = m")
    case False
    then have "lease_expired (expiry (lease d ! k)) (ticks k)"
      using process_keeps_lease [OF steps_cons.prems(1) k steps_cons.hyps(1)] steps_cons.prems(2) m(2) by simp
    then show ?thesis using steps_cons.prems(2) dhcp_steps.steps_nil by (metis append_Nil)
  next
    case True
    have "dhcp_wf d1" using process_wf [OF steps_cons.prems(1) steps_cons.hyps(1)] by simp
    from steps_cons.IH [OF this True] show ?thesis
    proof
      assume "\<exists>us ti co re vs d3. es = us @ (ti, co, re) # vs \<and> dhcp_steps d1 us d3 \<and> mac (lease d3 ! k) = m \<and>
        lease_expired (expiry (lease d3 ! k)) (ti k)"
      then show ?thesis using dhcp_steps.steps_cons [OF steps_cons.hyps(1)] by (metis append_Cons)
    qed simp
  qed
qed simp

text \<open>The end of a lease as the search reads it back: the last millisecond of a block of 65536.\<close>

lemma expiry_end:
  fixes T :: "32 word"
  shows "push_bit 16 (ucast (ucast (drop_bit 16 T) :: 16 word)) OR 0xffff = T + (mask 16 - take_bit 16 T)"
proof -
  have m: "(0xffff :: 32 word) = mask 16" by (simp add: mask_eq_exp_minus_1)
  have "push_bit 16 (ucast (ucast (drop_bit 16 T) :: 16 word)) = T AND NOT (mask 16 :: 32 word)"
    by (rule bit_word_eqI) (auto simp: bit_simps)
  moreover have "(T AND NOT (mask 16)) OR mask 16 = (T AND NOT (mask 16)) + mask 16"
    by (rule disjunctive_add_eq_or [symmetric]) (rule bit_word_eqI, auto simp: bit_simps)
  moreover have "T = (T AND NOT (mask 16)) + take_bit 16 T"
  proof -
    have "(T AND NOT (mask 16)) + (T AND mask 16) = (T AND NOT (mask 16)) OR (T AND mask 16)"
      by (rule disjunctive_add_eq_or) (rule bit_word_eqI, auto simp: bit_simps)
    also have "\<dots> = T" by (rule bit_word_eqI) (auto simp: bit_simps)
    finally show ?thesis by (simp add: take_bit_eq_mask)
  qed
  then have "T AND NOT (mask 16) = T - take_bit 16 T" by (metis add_diff_cancel_right')
  ultimately show ?thesis by (simp add: m)
qed

definition lease_end :: "32 word \<Rightarrow> 16 word" where
  "lease_end t = ucast (drop_bit 16 (t + DEFAULT_LEASE_TIME_S * 1000))"

lemma lease_end_over:
  obtains r where "r \<le> 0xffff" "0 \<le> r"
    "\<forall>dt. lease_expired (lease_end t) (t + dt) \<longleftrightarrow> sint (word_of_int (86400000 + r - uint dt) :: 32 word) < 0"
proof -
  let ?T = "t + 86400000 :: 32 word"
  let ?r = "uint (mask 16 - take_bit 16 ?T :: 32 word)"
  have m: "(mask 16 :: 32 word) = 0xffff" by (simp add: mask_eq_exp_minus_1)
  have "uint (take_bit 16 ?T) < 2 ^ 16" by (simp only: unsigned_take_bit_eq) (rule take_bit_int_less_exp)
  then have "uint (0xffff - take_bit 16 ?T) = 0xffff - uint (take_bit 16 ?T)"
    using uint_sub_lem [of "take_bit 16 ?T" "0xffff"] by simp
  then have r: "?r \<le> 0xffff" unfolding m by simp
  have "lease_expired (lease_end t) (t + dt) \<longleftrightarrow> sint (word_of_int (86400000 + ?r - uint dt) :: 32 word) < 0" for dt
  proof -
    have "?T + (mask 16 - take_bit 16 ?T) - (t + dt) = word_of_int (86400000 + ?r - uint dt)"
      by (simp add: wi_hom_syms)
    moreover have "DEFAULT_LEASE_TIME_S * 1000 = (86400000 :: 32 word)" by simp
    ultimately show ?thesis by (simp only: lease_expired_def lease_end_def expiry_end)
  qed
  with r that [of ?r] show ?thesis by simp
qed

text \<open>
  On the 32-bit millisecond clock, wrapping included, a lease granted at time \<open>t\<close> is not over
  during the 24 hours that the reply announces, and is over from at most 65.5 seconds later on
  until the clock has run 24.8 days further. After that the comparison wraps, and a lease that
  nobody renewed counts as running again.
\<close>

theorem lease_time_bounds:
  shows "(unat dt \<le> 86400000 \<longrightarrow> \<not> lease_expired (lease_end t) (t + dt)) \<and>
    (86400000 + 0xffff < unat dt \<and> unat dt \<le> 86400000 + 2 ^ 31 \<longrightarrow> lease_expired (lease_end t) (t + dt)) \<and>
    (86400000 + 0xffff + 2 ^ 31 < unat dt \<longrightarrow> \<not> lease_expired (lease_end t) (t + dt))"
proof -
  obtain r where r: "r \<le> 0xffff" "0 \<le> r"
    and e: "\<forall>dt. lease_expired (lease_end t) (t + dt) \<longleftrightarrow> sint (word_of_int (86400000 + r - uint dt) :: 32 word) < 0"
    by (rule lease_end_over [of t])
  let ?z = "86400000 + r - uint dt"
  obtain n where u: "uint dt = int n" "unat dt = n" "n < 2 ^ 32" using that [of "unat dt"] unsigned_less [of dt] by simp
  have s: "sint (word_of_int z :: 32 word) = z" if "- (2 ^ 31) \<le> z" "z < 2 ^ 31" for z
    using that by (simp add: sint_sbintrunc' signed_take_bit_int_eq_self)
  have s2: "sint (word_of_int z :: 32 word) = z + 2 ^ 32" if "z < - (2 ^ 31)" "- (2 ^ 32) \<le> z" for z
    using that mod_add_self2 [of "z + 2 ^ 31" "2 ^ 32"] mod_pos_pos_trivial [of "z + 2 ^ 31 + 2 ^ 32" "2 ^ 32"]
    by (simp add: int_word_sint)
  show ?thesis
  proof (intro conjI impI)
    assume "unat dt \<le> 86400000"
    then have "0 \<le> ?z" "?z < 2 ^ 31" using r u by simp_all
    with s [of ?z] have "sint (word_of_int ?z :: 32 word) = ?z \<and> 0 \<le> ?z" by simp
    then show "\<not> lease_expired (lease_end t) (t + dt)" by (simp only: e) linarith
  next
    assume "86400000 + 0xffff < unat dt \<and> unat dt \<le> 86400000 + 2 ^ 31"
    then have "- (2 ^ 31) \<le> ?z" "?z < 0" using r u by simp_all
    with s [of ?z] have "sint (word_of_int ?z :: 32 word) = ?z \<and> ?z < 0" by simp
    then show "lease_expired (lease_end t) (t + dt)" by (simp only: e)
  next
    assume "86400000 + 0xffff + 2 ^ 31 < unat dt"
    then have "?z < - (2 ^ 31)" "- (2 ^ 32) \<le> ?z" using r u by simp_all
    with s2 [of ?z] have "sint (word_of_int ?z :: 32 word) = ?z + 2 ^ 32 \<and> 0 \<le> ?z + 2 ^ 32" by simp
    then show "\<not> lease_expired (lease_end t) (t + dt)" by (simp only: e) linarith
  qed
qed

theorem lease_time_bounds_witness:
  "\<not> lease_expired (lease_end 0xffff0000) (0xffff0000 + 0x05265bff) \<and> lease_expired (lease_end 0) 0x06000000 \<and>
   \<not> lease_expired (lease_end 0) 0xf0000000"
  using lease_time_bounds [of "0x05265bff" "0xffff0000"] lease_time_bounds [of "0x06000000" 0] lease_time_bounds [of "0xf0000000" 0]
  by simp

section \<open>A running server\<close>

definition dhcp_ready :: dhcp_server_t where
  "dhcp_ready = dhcp_server_init \<lparr> new_pcb = Some 1, pbuf_ok = True, bind_err = 0, send_err = 0 \<rparr> [192, 168, 4, 1] [255, 255, 255, 0]
     \<lparr> ip = [], nm = [], lease = [], udp = None \<rparr>"

lemma dhcp_ready_wf: "dhcp_wf dhcp_ready"
  by (simp add: dhcp_ready_def dhcp_server_init_def dhcp_socket_new_dgram_def dhcp_socket_bind_def Let_def dhcp_wf_def no_mac_def)

text \<open>A packet with the given client address and options.\<close>

definition packet :: "byte list \<Rightarrow> byte list \<Rightarrow> byte list" where
  "packet ch opts = replicate 28 1 @ ch @ replicate 202 0 @ [99, 130, 83, 99] @ opts"

abbreviation lwip_ok :: udp_env where
  "lwip_ok \<equiv> \<lparr> new_pcb = Some 1, pbuf_ok = True, bind_err = 0, send_err = 0 \<rparr>"

lemma msg_of_options:
  assumes "length (ip d) = 4" "length ch = MAC_LEN" "i < length opts"
  shows "msg_of stk (packet ch opts) d (240 + i) = opts ! i"
  using assms by (simp add: msg_of_def store_def packet_def nth_append)

lemma packet_long: "length ch = MAC_LEN \<Longrightarrow> 3 \<le> length opts \<Longrightarrow> DHCP_MIN_SIZE \<le> length (packet ch opts)"
  by (simp add: packet_def)

lemma ready_leases: "lease dhcp_ready = replicate 8 \<lparr> mac = no_mac, expiry = 0 \<rparr>" "ip dhcp_ready = [192, 168, 4, 1]"
  by (simp_all add: dhcp_ready_def dhcp_server_init_def dhcp_socket_new_dgram_def dhcp_socket_bind_def Let_def)

lemma discover_packet:
  assumes w: "dhcp_wf d" and ch: "length ch = MAC_LEN"
  shows "dhcp_server_process env ticks stk 260 (packet ch [53, 1, 1, 255]) d =
      process_discover env ticks (msg_of stk (packet ch [53, 1, 1, 255]) d) d \<and>
    take_view MAC_LEN (advance (msg_of stk (packet ch [53, 1, 1, 255]) d) CHADDR) = ch"
proof -
  let ?p = "packet ch [53, 1, 1, 255]" and ?msg = "msg_of stk (packet ch [53, 1, 1, 255]) d"
  have o: "?msg (240 + i) = [53, 1, 1, 255] ! i" if "i < 4" for i
    using msg_of_options [of d ch i "[53, 1, 1, 255]" stk] that w ch by (simp add: dhcp_wf_def)
  have f: "opt_find (advance ?msg 240) DHCP_OPT_MSG_TYPE = Some 0"
    using o [of 0] by (simp add: opt_find_def opt_find_from.simps)
  have "take_view MAC_LEN (advance ?msg CHADDR) = ch"
    using client_chaddr [of d ?p] packet_long [OF ch, of "[53, 1, 1, 255]"] w ch by (simp add: dhcp_wf_def client_def packet_def)
  with f o [of 2] packet_long [OF ch, of "[53, 1, 1, 255]"] show ?thesis
    by (simp add: dhcp_server_process_def msg_of_def [symmetric] Let_def)
qed

lemma discover_loop_found:
  "\<forall>k < DHCPS_MAX_IP. mac (ls ! k) \<noteq> ch \<Longrightarrow> yi \<noteq> DHCPS_MAX_IP \<Longrightarrow> discover_loop ticks ch i yi ls = (yi, ls)"
  by (induction ticks ch i yi ls rule: discover_loop.induct) (subst discover_loop.simps, simp)

lemma offer_from_ready:
  "\<exists>dg. dhcp_server_process lwip_ok (\<lambda>_. 0) (\<lambda>_. 0) 260 (packet [1, 2, 3, 4, 5, 6] [53, 1, 1, 255]) dhcp_ready = (dhcp_ready, Some dg)"
proof -
  let ?ch = "[1, 2, 3, 4, 5, 6 :: byte]"
  have "discover_loop (\<lambda>_. 0) ?ch 0 DHCPS_MAX_IP (lease dhcp_ready) = (0, lease dhcp_ready)"
    by (subst discover_loop.simps)
      (simp add: ready_leases no_mac_def discover_loop_found lease_expired_def Let_def)
  then show ?thesis
    using discover_packet [OF dhcp_ready_wf, of ?ch lwip_ok "\<lambda>_. 0" "\<lambda>_. 0"]
    by (simp add: Let_def process_discover_def send_reply_def dhcp_socket_sendto_def split: prod.split)
qed

theorem dhcp_reply_content_witness:
  "\<exists>d' dg. dhcp_server_process lwip_ok (\<lambda>_. 0) (\<lambda>_. 0) 260 (packet [1, 2, 3, 4, 5, 6] [53, 1, 1, 255]) dhcp_ready = (d', Some dg) \<and>
     length (payload dg) = 274 \<and> dest_port dg = 68"
  using offer_from_ready dhcp_reply_content [OF dhcp_ready_wf] by metis

theorem lease_kept_until_over_witness:
  "\<exists>d1 r. dhcp_steps (dhcp_ready\<lparr> lease := (lease dhcp_ready)[0 := \<lparr> mac = [1, 2, 3, 4, 5, 6], expiry = 0x528 \<rparr>] \<rparr>)
       [(\<lambda>_. 0, packet [1, 2, 3, 4, 5, 7] [53, 1, 1, 255], r)] d1 \<and> mac (lease d1 ! 0) = [1, 2, 3, 4, 5, 6]"
proof -
  let ?d = "dhcp_ready\<lparr> lease := (lease dhcp_ready)[0 := \<lparr> mac = [1, 2, 3, 4, 5, 6], expiry = 0x528 \<rparr>] \<rparr>"
  let ?p = "packet [1, 2, 3, 4, 5, 7] [53, 1, 1, 255]"
  have w: "dhcp_wf ?d" using dhcp_ready_wf by (auto simp: dhcp_wf_def dest: set_update_subset_insert [THEN subsetD])
  obtain d1 r where p: "dhcp_server_process lwip_ok (\<lambda>_. 0) (\<lambda>_. 0) 260 ?p ?d = (d1, r)" by fastforce
  then have run: "dhcp_steps ?d [(\<lambda>_. 0, ?p, r)] d1" by (rule steps_cons [OF _ steps_nil])
  have first: "us = [] \<and> ti = (\<lambda>_. 0) \<and> d' = ?d" if "[(\<lambda>_. 0, ?p, r)] = us @ (ti, co, re) # vs" "dhcp_steps ?d us d'" for us ti co re vs d'
    using that by (auto simp: Cons_eq_append_conv elim: dhcp_steps.cases)
  have m: "lease ?d ! 0 = \<lparr> mac = [1, 2, 3, 4, 5, 6], expiry = 0x528 \<rparr>" by (simp add: ready_leases)
  have "\<not> lease_expired 0x528 0" by (simp add: lease_expired_def)
  then have nx: "\<not> (\<exists>us ticks copied r' vs d'. [(\<lambda>_. 0, ?p, r)] = us @ (ticks, copied, r') # vs \<and> dhcp_steps ?d us d' \<and>
      mac (lease d' ! 0) = [1, 2, 3, 4, 5, 6] \<and> lease_expired (expiry (lease d' ! 0)) (ticks 0))"
    using first m by (metis dhcp_server_lease_t.select_convs(2))
  have mm: "mac (lease ?d ! 0) = [1, 2, 3, 4, 5, 6]" using m by simp
  have nn: "[1, 2, 3, 4, 5, 6 :: byte] \<noteq> no_mac" by (simp add: no_mac_def numeral_eq_Suc)
  have "0 < DHCPS_MAX_IP" by simp
  from lease_kept_until_over [OF run w this mm nn] nx have "mac (lease d1 ! 0) = [1, 2, 3, 4, 5, 6]" by blast
  with run show ?thesis by blast
qed

section \<open>Padding\<close>

lemma opt_find_zeros: "\<forall>j\<ge>i. opt j = 0 \<Longrightarrow> cmd \<noteq> 0 \<Longrightarrow> opt_find_from opt cmd i = None"
  by (induction opt cmd i rule: opt_find_from.induct) (subst opt_find_from.simps, simp)

text \<open>
  A pad option, which by RFC 2132 is a single byte, is skipped as if a length followed it, so
  the message type behind a leading pad is not found and the packet is ignored.
\<close>

theorem pad_hides_message_type:
  "opt_find (view_of [0, DHCP_OPT_MSG_TYPE, 1, DHCPDISCOVER, DHCP_OPT_END]) DHCP_OPT_MSG_TYPE = None"
  unfolding opt_find_def
  by (subst opt_find_from.simps) (simp add: view_of_def opt_find_zeros)

section \<open>One address, one client\<close>

text \<open>
  The reply \<open>r\<close> acknowledges the address that ends in \<open>a\<close>: what a client sees of it, in the bytes
  of \<^verbatim>\<open>yiaddr\<close> and of the message type.
\<close>

definition acknowledges :: "datagram option \<Rightarrow> byte \<Rightarrow> bool" where
  "acknowledges r a = (case r of None \<Rightarrow> False
     | Some dg \<Rightarrow> payload dg ! (YIADDR + 3) = a \<and> payload dg ! (OPTIONS + 4 + 2) = DHCPACK)"

lemma reply_acknowledges:
  assumes "length (ip d) = 4" "length (nm d) = 4"
    and r: "r = send_reply env d (opt_write_u8 DHCP_OPT_MSG_TYPE t (store msg (YIADDR + 3) [x], OPTIONS + 4))" "acknowledges r a"
  shows "t = DHCPACK \<and> a = x"
proof -
  obtain dg where dg: "r = Some dg" "payload dg ! 19 = a" "payload dg ! 242 = DHCPACK" using r(2)
    by (auto simp: acknowledges_def split: option.splits)
  let ?v = "take_view 240 (store msg 19 [x])"
  have "payload dg = ?v @ reply_tail d t"
    using send_reply_payload [OF assms(1,2), of env t "store msg 19 [x]" dg] r(1) dg(1) by simp
  moreover have "(?v @ reply_tail d t) ! 19 = x" by (simp add: nth_append store_def)
  moreover have "(?v @ reply_tail d t) ! 242 = t" by (simp add: nth_append reply_tail_def)
  ultimately show ?thesis using dg by simp
qed

lemma discover_not_acknowledged:
  assumes w: "dhcp_wf d" and p: "process_discover env ticks msg d = (d', r)"
  shows "\<not> acknowledges r a"
proof (cases r)
  case (Some dg)
  obtain y ls where l: "discover_loop ticks (take_view MAC_LEN (advance msg CHADDR)) 0 DHCPS_MAX_IP (lease d) = (y, ls)" by fastforce
  have "r = send_reply env (d\<lparr> lease := ls \<rparr>)
      (opt_write_u8 DHCP_OPT_MSG_TYPE DHCPOFFER (store msg (YIADDR + 3) [DHCPS_BASE_IP + of_nat y], OPTIONS + 4))"
    using p Some l by (auto simp: process_discover_def Let_def split: if_splits)
  then show ?thesis using reply_acknowledges [of "d\<lparr> lease := ls \<rparr>" r env DHCPOFFER msg "DHCPS_BASE_IP + of_nat y" a] w
    by (auto simp: dhcp_wf_def)
qed (simp add: acknowledges_def)

lemma slot_byte: "k < DHCPS_MAX_IP \<Longrightarrow> j < DHCPS_MAX_IP \<Longrightarrow> DHCPS_BASE_IP + of_nat k = DHCPS_BASE_IP + of_nat j \<Longrightarrow> k = j"
  by (drule arg_cong [of _ _ "\<lambda>x. unat (x - DHCPS_BASE_IP)"]) (simp add: unat_of_nat)

text \<open>What one packet does to a slot: an acknowledgement is of a slot of the table, and grants it.\<close>

lemma process_slot:
  assumes w: "dhcp_wf d" and k: "k < DHCPS_MAX_IP" and p: "dhcp_server_process env ticks stk tot_len copied d = (d', r)"
  obtains (kept) "lease d' ! k = lease d ! k" "\<not> acknowledges r (DHCPS_BASE_IP + of_nat k)"
    | (freed) "lease_expired (expiry (lease d ! k)) (ticks k)" "\<not> acknowledges r (DHCPS_BASE_IP + of_nat k)"
    | (granted) "mac (lease d ! k) \<in> {client copied, no_mac}" "lease d' ! k = \<lparr> mac = client copied, expiry = lease_end (ticks 0) \<rparr>"
  using p
proof (cases rule: process_cases)
  case ignored
  then show ?thesis using kept by (simp add: acknowledges_def)
next
  case discover
  show ?thesis using discover_leases [OF discover(2), of k] discover_not_acknowledged [OF w discover(2)] kept freed
    by (auto simp: slot_kept_def)
next
  case request
  have wf: "length (ip d) = 4" "length (nm d) = 4" using w by (simp_all add: dhcp_wf_def)
  note ch = client_chaddr [OF wf(1) request(1), of stk]
  from request(2) show ?thesis
  proof (cases rule: request_cases)
    case refused
    then show ?thesis using kept by (simp add: acknowledges_def)
  next
    case (granted yi)
    show ?thesis
    proof (cases "k = unat yi")
      case True
      then show ?thesis using granted(2,3) k w that(3) by (simp add: ch granted_slot_def lease_end_def dhcp_wf_def)
    next
      case False
      then have "DHCPS_BASE_IP + of_nat k \<noteq> DHCPS_BASE_IP + yi"
        using slot_byte [of k "unat yi"] k unat_yi [OF granted(1)] by auto
      moreover have "ip d' = ip d" "nm d' = nm d" by (simp_all add: granted(3) granted_slot_def)
      ultimately have "\<not> acknowledges r (DHCPS_BASE_IP + of_nat k)"
        using reply_acknowledges [OF _ _ granted(4), of "DHCPS_BASE_IP + of_nat k"] wf by metis
      then show ?thesis using False kept by (simp add: granted(3) granted_slot_def)
    qed
  qed
qed

lemma acknowledged_granted:
  assumes w: "dhcp_wf d" and p: "dhcp_server_process env ticks stk tot_len copied d = (d', r)" and a: "acknowledges r a"
  obtains k where "k < DHCPS_MAX_IP" "a = DHCPS_BASE_IP + of_nat k" "mac (lease d ! k) \<in> {client copied, no_mac}"
    "lease d' ! k = \<lparr> mac = client copied, expiry = lease_end (ticks 0) \<rparr>"
proof -
  have wf: "length (ip d) = 4" "length (nm d) = 4" using w by (simp_all add: dhcp_wf_def)
  obtain k where k: "k < DHCPS_MAX_IP" "a = DHCPS_BASE_IP + of_nat k"
    using p
  proof (cases rule: process_cases)
    case ignored
    then show ?thesis using a by (simp add: acknowledges_def)
  next
    case discover
    then show ?thesis using discover_not_acknowledged [OF w discover(2)] a by simp
  next
    case request
    from request(2) show ?thesis
    proof (cases rule: request_cases)
      case refused
      then show ?thesis using a by (simp add: acknowledges_def)
    next
      case (granted yi)
      have "ip d' = ip d" "nm d' = nm d" by (simp_all add: granted(3) granted_slot_def)
      then have "a = DHCPS_BASE_IP + yi" using reply_acknowledges [OF _ _ granted(4) a] wf by auto
      then show ?thesis using that [of "unat yi"] unat_yi [OF granted(1)] by simp
    qed
  qed
  from w k(1) p show ?thesis
    by (cases rule: process_slot) (use a k that in auto)
qed

text \<open>
  The lease of client \<open>m\<close> on the address \<open>16 + k\<close> runs out during the events \<open>es\<close>: between a packet of that client, at
  time \<open>t 0\<close>, and a later packet, whose search reads the clock as \<open>q k\<close>, the address is not
  acknowledged, and by then the lease is over and more than 24 hours have passed on the 32-bit clock.
\<close>

type_synonym dhcp_event = "(nat \<Rightarrow> 32 word) \<times> byte list \<times> datagram option"

definition runs_out :: "byte list \<Rightarrow> nat \<Rightarrow> dhcp_event list \<Rightarrow> bool" where
  "runs_out m k es \<longleftrightarrow> (\<exists>us t c r vs q cq rq ws. es = us @ (t, c, r) # vs @ (q, cq, rq) # ws \<and> client c = m \<and>
     (\<forall>e \<in> set vs. \<not> acknowledges (snd (snd e)) (DHCPS_BASE_IP + of_nat k)) \<and> lease_expired (lease_end (t 0)) (q k) \<and>
     86400000 < unat (q k - t 0))"

lemma expired_day: "lease_expired (lease_end x) y \<Longrightarrow> 86400000 < unat (y - x)"
  using lease_time_bounds [of "y - x" x] by (auto simp: not_le [symmetric])

lemma runs_out_Cons: "runs_out m k es \<Longrightarrow> runs_out m k (e # es)"
  unfolding runs_out_def by (metis append_Cons)

lemma runs_out_insert:
  assumes "runs_out m k ((t, c, r) # es)" and n: "\<not> acknowledges (snd (snd e)) (DHCPS_BASE_IP + of_nat k)"
  shows "runs_out m k ((t, c, r) # e # es)"
proof -
  obtain us t' c' r' vs q cq rq ws where h: "(t, c, r) # es = us @ (t', c', r') # vs @ (q, cq, rq) # ws" "client c' = m"
    "\<forall>e \<in> set vs. \<not> acknowledges (snd (snd e)) (DHCPS_BASE_IP + of_nat k)" "lease_expired (lease_end (t' 0)) (q k) \<and> 86400000 < unat (q k - t' 0)"
    using assms(1) by (auto simp: runs_out_def)
  show ?thesis
  proof (cases us)
    case Nil
    then have "(t, c, r) # e # es = [] @ (t', c', r') # (e # vs) @ (q, cq, rq) # ws" using h(1) by simp
    moreover have "\<forall>x \<in> set (e # vs). \<not> acknowledges (snd (snd x)) (DHCPS_BASE_IP + of_nat k)" using h(3) n by simp
    ultimately show ?thesis unfolding runs_out_def using h(2,4) by blast
  next
    case (Cons u us')
    then have "(t, c, r) # e # es = (u # e # us') @ (t', c', r') # vs @ (q, cq, rq) # ws" using h(1) by simp
    then show ?thesis unfolding runs_out_def using h(2-4) by blast
  qed
qed

lemma lease_held:
  assumes run: "dhcp_steps d es d'" and k: "k < DHCPS_MAX_IP" and w: "dhcp_wf d"
    and l: "lease d ! k = \<lparr> mac = m, expiry = lease_end (t 0) \<rparr>" "client c = m" "m \<noteq> no_mac"
  shows "mac (lease d' ! k) = m \<or> runs_out m k ((t, c, r) # es)"
  using run w l(1,2)
proof (induction arbitrary: t c r rule: dhcp_steps.induct)
  case (steps_cons env ticks stk tot_len copied d d1 r1 es d2)
  have w1: "dhcp_wf d1" using process_wf [OF steps_cons.prems(1) steps_cons.hyps(1)] by simp
  from steps_cons.prems(1) k steps_cons.hyps(1) show ?case
  proof (cases rule: process_slot)
    case kept
    have "lease d1 ! k = \<lparr> mac = m, expiry = lease_end (t 0) \<rparr>" using kept(1) steps_cons.prems(2) by simp
    from steps_cons.IH [of t c r, OF w1 this steps_cons.prems(3)] show ?thesis
      using runs_out_insert [of m k t c r es "(ticks, copied, r1)"] kept(2) by auto
  next
    case freed
    then have "lease_expired (lease_end (t 0)) (ticks k)" using steps_cons.prems(2) by simp
    then have "runs_out m k ([] @ (t, c, r) # [] @ (ticks, copied, r1) # es)"
      unfolding runs_out_def using steps_cons.prems(3) expired_day by fastforce
    then show ?thesis by simp
  next
    case granted
    then have "client copied = m" using steps_cons.prems(2) l(3) by simp
    then show ?thesis using steps_cons.IH [OF w1] granted(2) runs_out_Cons by blast
  qed
qed simp

lemma steps_split:
  assumes "dhcp_steps d (us @ (t, c, r) # vs) d'"
  obtains env stk n d1 d2 where "dhcp_steps d us d1" "dhcp_server_process env t stk n c d1 = (d2, r)" "dhcp_steps d2 vs d'"
  using assms
proof (induction us arbitrary: d thesis)
  case Nil
  from Nil(2) obtain env stk n d1 where "dhcp_server_process env t stk n c d = (d1, r)" "dhcp_steps d1 vs d'"
    by (auto elim: dhcp_steps_ConsE)
  then show ?case by (rule Nil(1) [OF dhcp_steps.steps_nil])
next
  case (Cons u us)
  from Cons.prems(2) obtain d1 env ticks stk n copied ru where u: "u = (ticks, copied, ru)"
    "dhcp_server_process env ticks stk n copied d = (d1, ru)" "dhcp_steps d1 (us @ (t, c, r) # vs) d'"
    by (auto elim: dhcp_steps_ConsE)
  show ?case by (rule Cons.IH [OF _ u(3)]) (use u(1,2) Cons.prems(1) dhcp_steps.steps_cons in metis)
qed

lemma init_wf:
  assumes "length ip1 = 4" "length nm1 = 4"
  shows "dhcp_wf (dhcp_server_init env ip1 nm1 d)"
  using assms by (auto simp: dhcp_server_init_def dhcp_wf_def Let_def split: prod.split)

text \<open>
  C31. From the start of the server on, over any packets from any clients, an address is acknowledged only if
  it is one of the eight of the table, and to a second client only if the lease of the first
  has run out in between (\<^const>\<open>runs_out\<close>): there is a packet of the first client, its last acknowledgement of this
  address or a later one, and after it, before the second acknowledgement, another packet, handled
  more than 24 hours later on the 32-bit millisecond clock.
\<close>

theorem address_acknowledged_to_one:
  assumes "length ip1 = 4" "length nm1 = 4"
    and run: "dhcp_steps (dhcp_server_init env ip1 nm1 d) (us @ (t1, c1, r1) # vs) d'" and first: "acknowledges r1 a"
  shows "\<exists>k < DHCPS_MAX_IP. a = DHCPS_BASE_IP + of_nat k \<and>
    (\<forall>ms t2 c2 r2 ws. vs = ms @ (t2, c2, r2) # ws \<and> acknowledges r2 a \<and> client c2 \<noteq> client c1 \<and> client c1 \<noteq> no_mac \<longrightarrow>
      runs_out (client c1) k ((t1, c1, r1) # ms))"
proof -
  obtain env1 stk1 n1 d1 d2 where h1: "dhcp_steps (dhcp_server_init env ip1 nm1 d) us d1"
    "dhcp_server_process env1 t1 stk1 n1 c1 d1 = (d2, r1)" "dhcp_steps d2 vs d'"
    using run by (rule steps_split)
  have w1: "dhcp_wf d1" using steps_keep [OF h1(1) init_wf [OF assms(1,2)]] by simp
  then have w2: "dhcp_wf d2" using process_wf [OF _ h1(2)] by simp
  from w1 h1(2) first obtain k where k: "k < DHCPS_MAX_IP" "a = DHCPS_BASE_IP + of_nat k"
    "lease d2 ! k = \<lparr> mac = client c1, expiry = lease_end (t1 0) \<rparr>" by (rule acknowledged_granted)
  have "runs_out (client c1) k ((t1, c1, r1) # ms)"
    if vs: "vs = ms @ (t2, c2, r2) # ws" and second: "acknowledges r2 a" "client c2 \<noteq> client c1" "client c1 \<noteq> no_mac" for ms t2 c2 r2 ws
  proof -
    obtain env2 stk2 n2 d3 d4 where h2: "dhcp_steps d2 ms d3" "dhcp_server_process env2 t2 stk2 n2 c2 d3 = (d4, r2)"
      using h1(3) [unfolded vs] by (rule steps_split)
    have w3: "dhcp_wf d3" using steps_keep [OF h2(1) w2] by simp
    from w3 h2(2) second(1) obtain k2 where k2: "k2 < DHCPS_MAX_IP" "a = DHCPS_BASE_IP + of_nat k2"
      "mac (lease d3 ! k2) \<in> {client c2, no_mac}" by (rule acknowledged_granted)
    have "k2 = k" using slot_byte [OF k2(1) k(1)] k(2) k2(2) by simp
    then show ?thesis
      using lease_held [where t = t1 and c = c1 and r = r1, OF h2(1) k(1) w2 k(3) refl second(3)] k2(3) second(2,3) by auto
  qed
  then show ?thesis using k(1,2) by blast
qed

lemma acknowledgement_sent:
  assumes "length (ip d) = 4" "length (nm d) = 4" "pbuf_ok env"
  obtains dg where "send_reply env d (opt_write_u8 DHCP_OPT_MSG_TYPE DHCPACK (store msg (YIADDR + 3) [x], OPTIONS + 4)) = Some dg"
    "acknowledges (Some dg) x"
proof -
  let ?o = "opt_write_u8 DHCP_OPT_MSG_TYPE DHCPACK (store msg (YIADDR + 3) [x], OPTIONS + 4)"
  obtain buf off where "reply_options d ?o = (buf, off)" by fastforce
  then obtain dg where dg: "send_reply env d ?o = Some dg"
    using assms(3) by (cases "send_err env = ERR_OK") (simp_all add: send_reply_def dhcp_socket_sendto_def Let_def)
  have "payload dg = take_view 240 (store msg 19 [x]) @ reply_tail d DHCPACK"
    using send_reply_payload [OF assms(1,2), of env DHCPACK "store msg 19 [x]" dg] dg by simp
  then have "acknowledges (Some dg) x" by (simp add: acknowledges_def nth_append store_def reply_tail_def)
  with dg show thesis by (rule that)
qed

lemma request_packet:
  assumes w: "dhcp_wf d" and i: "ip d = [192, 168, 4, 1]" and ch: "length ch = MAC_LEN" and m: "mac (lease d ! 0) \<in> {ch, no_mac}"
  obtains dg where "dhcp_server_process lwip_ok ticks stk 260 (packet ch [53, 1, 3, 50, 4, 192, 168, 4, 16, 255]) d =
      (granted_slot ticks ch 0 d, Some dg)" "acknowledges (Some dg) 16"
proof -
  let ?o = "[53, 1, 3, 50, 4, 192, 168, 4, 16, 255 :: byte]"
  let ?p = "packet ch ?o" and ?msg = "msg_of stk (packet ch [53, 1, 3, 50, 4, 192, 168, 4, 16, 255]) d"
  have o: "?msg (240 + j) = ?o ! j" if "j < 10" for j
    using msg_of_options [of d ch j ?o stk] that w ch by (simp add: dhcp_wf_def)
  have f: "opt_find (advance ?msg 240) DHCP_OPT_MSG_TYPE = Some 0"
    using o [of 0] by (simp add: opt_find_def opt_find_from.simps)
  have "opt_find_from (advance ?msg 240) DHCP_OPT_REQUESTED_IP 3 = Some 3"
    using o [of 3] by (simp add: opt_find_from.simps)
  then have g: "opt_find (advance ?msg 240) DHCP_OPT_REQUESTED_IP = Some 3"
    unfolding opt_find_def using o [of 0] o [of 1] by (subst opt_find_from.simps) (simp add: numeral_3_eq_3)
  have c: "take_view MAC_LEN (advance ?msg CHADDR) = ch"
    using client_chaddr [of d ?p] packet_long [OF ch, of ?o] w ch by (simp add: dhcp_wf_def client_def packet_def)
  have n: "take_view 3 (advance (advance ?msg 240) 5) = take 3 (ip d)"
    using o [of 5] o [of 6] o [of 7] by (simp add: i take_view_def numeral_3_eq_3)
  have q: "dhcp_server_process lwip_ok ticks stk 260 ?p d = process_request lwip_ok ticks ?msg d"
    using f o [of 2] packet_long [OF ch, of ?o] by (simp add: dhcp_server_process_def msg_of_def [symmetric] Let_def)
  have wf: "length (ip d) = 4" "length (nm d) = 4" using w by (simp_all add: dhcp_wf_def)
  let ?d' = "granted_slot ticks ch 0 d"
  obtain dg where dg: "send_reply lwip_ok ?d' (opt_write_u8 DHCP_OPT_MSG_TYPE DHCPACK (store ?msg (YIADDR + 3) [16], OPTIONS + 4)) = Some dg"
    "acknowledges (Some dg) 16"
    using acknowledgement_sent [of ?d' lwip_ok ?msg 16] wf by (auto simp: granted_slot_def)
  have same: "l\<lparr> mac := ch \<rparr> = l" if "mac l = ch" for l :: dhcp_server_lease_t using that by (cases l) simp
  have "process_request lwip_ok ticks ?msg d = (?d', Some dg)"
  proof (cases "mac (lease d ! 0) = ch")
    case True
    then show ?thesis using g n c o [of 8] dg(1) by (simp add: process_request_def granted_slot_def Let_def same)
  next
    case False
    then show ?thesis using g n c o [of 8] m dg(1) by (simp add: process_request_def granted_slot_def Let_def)
  qed
  with q dg(2) show thesis using that [of dg] by simp
qed

text \<open>Client 6 is given an address; a day and a half later client 7 asks for one and is given the same.\<close>

theorem address_acknowledged_to_one_witness:
  "\<exists>d1 r0 r1 r2. dhcp_steps dhcp_ready
       [(\<lambda>_. 0, packet [1, 2, 3, 4, 5, 6] [53, 1, 3, 50, 4, 192, 168, 4, 16, 255], r0),
        (\<lambda>_. 0x07000000, packet [1, 2, 3, 4, 5, 7] [53, 1, 1, 255], r1),
        (\<lambda>_. 0x07000000, packet [1, 2, 3, 4, 5, 7] [53, 1, 3, 50, 4, 192, 168, 4, 16, 255], r2)] d1 \<and>
     acknowledges r0 16 \<and> acknowledges r2 16 \<and>
     runs_out [1, 2, 3, 4, 5, 6] 0 [(\<lambda>_. 0, packet [1, 2, 3, 4, 5, 6] [53, 1, 3, 50, 4, 192, 168, 4, 16, 255], r0),
        (\<lambda>_. 0x07000000, packet [1, 2, 3, 4, 5, 7] [53, 1, 1, 255], r1)]"
proof -
  let ?a = "[1, 2, 3, 4, 5, 6 :: byte]" and ?b = "[1, 2, 3, 4, 5, 7 :: byte]"
  let ?pa = "packet [1, 2, 3, 4, 5, 6] [53, 1, 3, 50, 4, 192, 168, 4, 16, 255]"
    and ?pb = "packet [1, 2, 3, 4, 5, 7] [53, 1, 3, 50, 4, 192, 168, 4, 16, 255]" and ?pd = "packet [1, 2, 3, 4, 5, 7] [53, 1, 1, 255]"
  let ?z = "\<lambda>_ :: nat. 0 :: 32 word" and ?t = "\<lambda>_ :: nat. 0x07000000 :: 32 word" and ?s = "\<lambda>_ :: nat. 0 :: byte"
  let ?d1 = "granted_slot ?z ?a 0 dhcp_ready"
  obtain dg0 where s0: "dhcp_server_process lwip_ok ?z ?s 260 ?pa dhcp_ready = (?d1, Some dg0)" "acknowledges (Some dg0) 16"
    by (rule request_packet [OF dhcp_ready_wf, of ?a ?z ?s]) (simp_all add: ready_leases no_mac_def)
  have w1: "dhcp_wf ?d1" using process_wf [OF dhcp_ready_wf s0(1)] by simp
  have l1: "lease ?d1 = \<lparr> mac = ?a, expiry = 0x526 \<rparr> # replicate 7 \<lparr> mac = no_mac, expiry = 0 \<rparr>"
    by (simp add: granted_slot_def ready_leases) (simp add: numeral_eq_Suc)
  let ?d2 = "?d1\<lparr> lease := \<lparr> mac = no_mac, expiry = 0x526 \<rparr> # replicate 7 \<lparr> mac = no_mac, expiry = 0 \<rparr> \<rparr>"
  have nb: "\<forall>k < DHCPS_MAX_IP. mac ((\<lparr> mac = no_mac, expiry = 0x526 \<rparr> # replicate 7 \<lparr> mac = no_mac, expiry = 0 \<rparr>) ! k) \<noteq> ?b"
    by (simp add: no_mac_def nth_Cons') (simp add: numeral_eq_Suc)
  have "discover_loop ?t ?b 0 DHCPS_MAX_IP (lease ?d1) = (0, lease ?d2)"
    by (subst discover_loop.simps) (simp add: l1 lease_expired_def Let_def discover_loop_found [OF nb])
  then obtain r1 where s1: "dhcp_server_process lwip_ok ?t ?s 260 ?pd ?d1 = (?d2, r1)"
    using discover_packet [OF w1, of ?b lwip_ok ?t ?s] by (simp add: Let_def process_discover_def)
  have w2: "dhcp_wf ?d2" using process_wf [OF w1 s1] by simp
  obtain dg2 where s2: "dhcp_server_process lwip_ok ?t ?s 260 ?pb ?d2 = (granted_slot ?t ?b 0 ?d2, Some dg2)" "acknowledges (Some dg2) 16"
    by (rule request_packet [OF w2, of ?b ?t ?s]) (simp_all add: granted_slot_def ready_leases)
  have run: "dhcp_steps dhcp_ready ([] @ (?z, ?pa, Some dg0) # [(?t, ?pd, r1)] @ (?t, ?pb, Some dg2) # []) (granted_slot ?t ?b 0 ?d2)"
    using steps_cons [OF s0(1) steps_cons [OF s1 steps_cons [OF s2(1) steps_nil]]] by simp
  have c: "client ?pa = ?a" "client ?pb = ?b" "?a \<noteq> no_mac" "?b \<noteq> ?a" by (simp_all add: client_def packet_def no_mac_def numeral_eq_Suc)
  have len: "length [192, 168, 4, 1 :: byte] = 4" "length [255, 255, 255, 0 :: byte] = 4" by simp_all
  from address_acknowledged_to_one [OF len run [unfolded dhcp_ready_def] s0(2)]
  obtain k where k: "k < DHCPS_MAX_IP" "16 = DHCPS_BASE_IP + of_nat k" and
    "\<forall>ms t2 c2 r2 ws. [(?t, ?pd, r1)] @ [(?t, ?pb, Some dg2)] = ms @ (t2, c2, r2) # ws \<and> acknowledges r2 16 \<and> client c2 \<noteq> client ?pa \<and>
       client ?pa \<noteq> no_mac \<longrightarrow> runs_out (client ?pa) k ((?z, ?pa, Some dg0) # ms)"
    by blast
  from this(3) [rule_format, of "[(?t, ?pd, r1)]" ?t ?pb "Some dg2" "[]"]
  have "runs_out ?a k ((?z, ?pa, Some dg0) # [(?t, ?pd, r1)])" using s2(2) by (simp only: c) simp
  moreover
  have "k = 0" using slot_byte [OF k(1), of 0] k(2) by simp
  ultimately show ?thesis using run s0(2) s2(2) by (metis append_Cons append_Nil)
qed

end
