(* ===== verification/Dns_Server.thy ===== *)
theory Dns_Server
  imports Udp_Socket
begin

text \<open>
  The DNS server of \<^verbatim>\<open>dnsserver.c\<close>, which answers every question with its own address. The
  local buffer \<^verbatim>\<open>dns_msg\<close> is the memory from its first byte on, over what the stack held; a call
  is given the bytes \<^verbatim>\<open>pbuf_copy_partial\<close> delivers, at most \<^verbatim>\<open>MAX_DNS_MSG_SIZE\<close> of them, and
  the address and port the query came from.
\<close>

section \<open>The server\<close>

abbreviation (input) MAX_DNS_MSG_SIZE :: nat where "MAX_DNS_MSG_SIZE \<equiv> 300"
abbreviation (input) DNS_HDR_SIZE :: nat where "DNS_HDR_SIZE \<equiv> 12"

record dns_server_t =
  dns_udp :: "udp_pcb option"
  dns_ip :: "byte list"

definition dns_socket_new_dgram :: "udp_env \<Rightarrow> int \<times> udp_pcb option" where
  "dns_socket_new_dgram env = (case new_pcb env of None \<Rightarrow> (- ENOMEM, None) | Some p \<Rightarrow> (ERR_OK, Some p))"

definition dns_socket_free :: "udp_pcb option \<Rightarrow> udp_pcb option" where
  "dns_socket_free u = (case u of None \<Rightarrow> None | Some p \<Rightarrow> None)"

text \<open>A failing \<^verbatim>\<open>udp_bind\<close> runs into \<^verbatim>\<open>assert(false)\<close>.\<close>

definition dns_socket_bind :: "udp_env \<Rightarrow> udp_pcb option \<Rightarrow> 32 word \<Rightarrow> nat \<Rightarrow> int option" where
  "dns_socket_bind env u addr port = (if bind_err env \<noteq> ERR_OK then None else Some (bind_err env))"

definition dns_socket_sendto ::
    "udp_env \<Rightarrow> view \<Rightarrow> nat \<Rightarrow> byte list \<Rightarrow> nat \<Rightarrow> int \<times> datagram option" where
  "dns_socket_sendto env buf len dest port =
     (let len1 = cut_len len
      in if \<not> pbuf_ok env then (- ENOMEM, None)
         else let dg = Some \<lparr> payload = take_view len1 buf, dest_ip = dest, dest_port = port \<rparr>
              in if send_err env \<noteq> ERR_OK then (send_err env, dg) else (int len1, dg))"

text \<open>The 16-bit header field at an offset, in network byte order.\<close>

definition be16 :: "view \<Rightarrow> nat \<Rightarrow> 16 word" where
  "be16 p k = push_bit 8 (ucast (p k)) OR ucast (p (k + 1))"

text \<open>The loop over the labels of the question; \<^term>\<open>None\<close> is the \<^verbatim>\<open>goto\<close> for an invalid label.\<close>

function question_end :: "view \<Rightarrow> nat \<Rightarrow> nat \<Rightarrow> nat option" where
  "question_end msg stop q =
     (if q < stop then
        if msg q = 0 then Some (q + 1)
        else if unat (msg q) > 63 then None
        else question_end msg stop (q + 1 + unat (msg q))
      else Some q)"
  by pat_completeness auto
termination by (relation "measure (\<lambda>(msg, stop, q). stop - q)") auto

declare question_end.simps [simp del]

text \<open>The answer record, and the header that \<^verbatim>\<open>lwip_htons\<close> writes.\<close>

definition answer_record :: "dns_server_t \<Rightarrow> byte list" where
  "answer_record d = [0xc0, of_nat DNS_HDR_SIZE, 0, 1, 0, 1, 0, 0, 0, 60, 0, 4] @ take 4 (dns_ip d)"

definition dns_server_process ::
    "udp_env \<Rightarrow> view \<Rightarrow> byte list \<Rightarrow> byte list \<Rightarrow> nat \<Rightarrow> dns_server_t \<Rightarrow> datagram option" where
  "dns_server_process env stk copied src_addr src_port d =
     (let msg = store stk 0 copied; msg_len = length copied
      in if msg_len < DNS_HDR_SIZE then None
         else let flags = be16 msg 2; question_count = be16 msg 4
           in if drop_bit 15 flags AND 1 \<noteq> 0 then None
              else if drop_bit 11 flags AND 0xf \<noteq> 0 then None
              else if question_count < 1 then None
              else case question_end msg msg_len DNS_HDR_SIZE of
                     None \<Rightarrow> None
                   | Some q \<Rightarrow>
                       if q - DNS_HDR_SIZE > 255 then None
                       else let q1 = q + 4;
                                msg1 = store msg q1 (answer_record d);
                                msg2 = store msg1 2 [0x84, 0x80];
                                msg3 = store (store msg2 4 [0, 1]) 6 [0, 1];
                                msg4 = store (store msg3 8 [0, 0]) 10 [0, 0]
                            in snd (dns_socket_sendto env msg4 (q1 + 16) src_addr src_port))"

text \<open>The address is only set when both steps succeed.\<close>

definition dns_server_init :: "udp_env \<Rightarrow> byte list \<Rightarrow> dns_server_t \<Rightarrow> dns_server_t option" where
  "dns_server_init env ip1 d =
     (let (r, u) = dns_socket_new_dgram env; d1 = d\<lparr> dns_udp := u \<rparr>
      in if r \<noteq> ERR_OK then Some d1
         else do {
           e \<leftarrow> dns_socket_bind env (dns_udp d1) 0 53;
           if e \<noteq> ERR_OK then Some d1 else Some (d1\<lparr> dns_ip := ip1 \<rparr>)
         })"

definition dns_server_deinit :: "dns_server_t \<Rightarrow> dns_server_t" where
  "dns_server_deinit d = d\<lparr> dns_udp := dns_socket_free (dns_udp d) \<rparr>"

section \<open>Names on the wire\<close>

text \<open>A name is its labels, each behind its length, and a final zero.\<close>

fun encode_name :: "byte list list \<Rightarrow> byte list" where
  "encode_name [] = [0]"
| "encode_name (l # ls) = of_nat (length l) # l @ encode_name ls"

definition label_ok :: "byte list \<Rightarrow> bool" where
  "label_ok l \<longleftrightarrow> 0 < length l \<and> length l \<le> 63"

lemma encode_name_pos: "0 < length (encode_name ls)"
  by (cases ls) simp_all

lemma label_len_byte: "label_ok l \<Longrightarrow> unat (of_nat (length l) :: byte) = length l \<and> (of_nat (length l) :: byte) \<noteq> 0"
  by (auto simp: label_ok_def unat_of_nat word_of_nat_eq_0_iff dest: dvd_imp_le)

lemma question_end_encoded:
  assumes "\<forall>l \<in> set ls. label_ok l" and "\<forall>i < length (encode_name ls). msg (q + i) = encode_name ls ! i"
    and "q + length (encode_name ls) \<le> stop"
  shows "question_end msg stop q = Some (q + length (encode_name ls))"
  using assms
proof (induction ls arbitrary: q)
  case Nil
  then show ?case by (subst question_end.simps) simp
next
  case (Cons l ls)
  have l: "label_ok l" using Cons.prems(1) by simp
  note u = label_len_byte [OF l]
  have m: "msg q = of_nat (length l)" using Cons.prems(2) [rule_format, of 0] by simp
  have "msg (q + 1 + length l + i) = encode_name ls ! i" if "i < length (encode_name ls)" for i
    using Cons.prems(2) [rule_format, of "1 + length l + i"] that by (simp add: nth_append add.assoc)
  then have "question_end msg stop (q + 1 + length l) = Some (q + 1 + length l + length (encode_name ls))"
    using Cons.prems by (intro Cons.IH) auto
  moreover have "q < stop" using Cons.prems(3) by simp
  ultimately show ?case using u l by (subst question_end.simps) (simp add: m label_ok_def)
qed

section \<open>What is answered\<close>

lemma bit_be16: "bit (be16 p k) n \<longleftrightarrow> (if n < 8 then bit (p (k + 1)) n else n < 16 \<and> bit (p k) (n - 8))"
  using bit_imp_le_length [of "p (k + 1)" n] by (auto simp: be16_def bit_simps)

lemma standard_query_flags:
  assumes "drop_bit 3 (p k) = 0"
  shows "drop_bit 15 (be16 p k) AND 1 = 0" "drop_bit 11 (be16 p k) AND 0xf = 0"
proof -
  have b: "\<not> bit (p k) (n + 3)" for n using arg_cong [OF assms, of "\<lambda>w. bit w n"] by (simp add: bit_simps ac_simps)
  have "\<not> bit (be16 p k) (n + 11)" for n using b [of n] by (simp add: bit_be16 add.commute)
  then have z: "drop_bit 11 (be16 p k) = 0" by (intro bit_word_eqI) (simp add: bit_simps ac_simps)
  then show "drop_bit 11 (be16 p k) AND 0xf = 0" by simp
  have "drop_bit 15 (be16 p k) = drop_bit 4 (drop_bit 11 (be16 p k))" by (simp add: drop_bit_drop_bit)
  with z show "drop_bit 15 (be16 p k) AND 1 = 0" by simp
qed

lemma be16_0: "be16 p k = 0 \<longleftrightarrow> p k = 0 \<and> p (k + 1) = 0"
proof
  assume z: "be16 p k = 0"
  have "\<not> bit (p k) n" for n
    using bit_be16 [of p k "n + 8"] z bit_imp_le_length [of "p k" n] by auto
  moreover have "\<not> bit (p (k + 1)) n" for n
    using bit_be16 [of p k n] z bit_imp_le_length [of "p (k + 1)" n] by (cases "n < 8") auto
  ultimately show "p k = 0 \<and> p (k + 1) = 0" by (auto intro!: bit_word_eqI)
qed (simp add: be16_def)

text \<open>The accepted packets, and the reply as one list.\<close>

lemma reply_bytes:
  assumes "length (answer_record d) = 16" "16 \<le> q1"
  shows "take_view (q1 + 16) (store (store (store (store (store (store msg q1 (answer_record d)) 2 [0x84, 0x80]) 4 [0, 1]) 6 [0, 1]) 8 [0, 0]) 10 [0, 0]) =
    take_view 2 msg @ [0x84, 0x80, 0, 1, 0, 1, 0, 0, 0, 0] @ take_view (q1 - 12) (advance msg 12) @ answer_record d"
proof -
  let ?hdr = "[0x84, 0x80, 0, 1, 0, 1, 0, 0, 0, 0 :: byte]"
  have h: "length ?hdr = 10" by simp
  have "take_view (q1 + 16) (store (store msg q1 (answer_record d)) 2 hdr) = take_view 2 msg @ hdr @ take_view (q1 - 12) (advance msg 12) @ answer_record d"
    if "length hdr = 10" for hdr
    by (rule nth_equalityI) (use assms that in \<open>auto simp: store_def nth_append\<close>)
  from this [OF h] show ?thesis by (simp add: store_chain)
qed

lemma process_accepts:
  assumes "DNS_HDR_SIZE \<le> length copied" "length (dns_ip d) = 4" "pbuf_ok env"
    and f: "drop_bit 15 (be16 (store stk 0 copied) 2) AND 1 = 0" "drop_bit 11 (be16 (store stk 0 copied) 2) AND 0xf = 0"
      "be16 (store stk 0 copied) 4 \<noteq> 0"
    and q: "question_end (store stk 0 copied) (length copied) DNS_HDR_SIZE = Some q" "q \<le> 267" "DNS_HDR_SIZE \<le> q"
  shows "dns_server_process env stk copied src port d = Some \<lparr>
    payload = take_view 2 (store stk 0 copied) @ [0x84, 0x80, 0, 1, 0, 1, 0, 0, 0, 0] @
      take_view (q - 8) (advance (store stk 0 copied) 12) @ answer_record d, dest_ip = src, dest_port = port \<rparr>"
proof -
  have a: "length (answer_record d) = 16" using assms(2) by (simp add: answer_record_def)
  have "\<not> be16 (store stk 0 copied) 4 < 1" using f(3) by (simp add: word_less_nat_alt unat_eq_0)
  moreover have "\<not> q - 12 > 255" using q by simp
  moreover note reply_bytes [OF a, of "q + 4" "store stk 0 copied"]
  ultimately show ?thesis using assms(1,3) f(1,2) q
    by (simp add: dns_server_process_def Let_def dns_socket_sendto_def)
qed

lemma store_whole: "i < length bs \<Longrightarrow> store p 0 bs i = bs ! i"
  by (simp add: store_def)

lemma question_end_bounds: "question_end msg stop q0 = Some q \<Longrightarrow> q0 \<le> q"
  by (induction msg stop q0 rule: question_end.induct) (auto simp: question_end.simps split: if_splits)

text \<open>
  C32. A standard query for a well-formed name is answered with the identifier of the query, the
  question as it was asked and one address record that carries the server's own address, and the answer
  goes back to where the query came from. This holds for every name of up to 255 bytes with
  labels of 1 to 63 bytes, whatever follows the first question in the packet.
\<close>

theorem dns_answers_query:
  assumes "length i = 2" "length fl = 2" "drop_bit 3 (fl ! 0) = 0" "length qc = 2" "qc \<noteq> [0, 0]" "length cnt = 6"
    and ls: "\<forall>l \<in> set ls. label_ok l" "length (encode_name ls) \<le> 255" and qt: "length qt = 4"
    and d: "length (dns_ip d) = 4" "pbuf_ok env"
  shows "dns_server_process env stk (i @ fl @ qc @ cnt @ encode_name ls @ qt @ extra) src port d = Some \<lparr>
    payload = i @ [0x84, 0x80, 0, 1, 0, 1, 0, 0, 0, 0] @ encode_name ls @ qt @
      [0xc0, 12, 0, 1, 0, 1, 0, 0, 0, 60, 0, 4] @ dns_ip d, dest_ip = src, dest_port = port \<rparr>"
proof -
  let ?p = "i @ fl @ qc @ cnt @ encode_name ls @ qt @ extra" and ?n = "length (encode_name ls)"
  let ?msg = "store stk 0 ?p"
  have m: "?msg k = ?p ! k" if "k < 16 + ?n" for k
    by (rule store_whole) (use that assms in simp)
  have "?msg 2 = fl ! 0" "?msg 4 = qc ! 0" "?msg 5 = qc ! 1" using assms by (simp_all add: m nth_append)
  moreover have "qc = [qc ! 0, qc ! 1]" using assms(4) by (cases qc; cases "tl qc") auto
  ultimately have f: "drop_bit 3 (?msg 2) = 0" "be16 ?msg 4 \<noteq> 0" using assms(3,5) be16_0 [of ?msg 4] by auto
  have body: "take_view (4 + ?n) (advance ?msg 12) = encode_name ls @ qt"
    by (rule nth_equalityI) (use assms in \<open>auto simp: m nth_append\<close>)
  have "question_end ?msg (length ?p) 12 = Some (12 + ?n)"
    by (rule question_end_encoded [OF ls(1)]) (use assms m in \<open>auto simp: nth_append\<close>)
  moreover have "take_view 2 ?msg = i" by (rule nth_equalityI) (use assms in \<open>auto simp: m nth_append\<close>)
  ultimately show ?thesis
    using process_accepts [of ?p d env stk "12 + ?n" src port] standard_query_flags [of ?msg 2] f body assms
    by (simp add: answer_record_def add.commute)
qed

abbreviation lwip_up :: udp_env where
  "lwip_up \<equiv> \<lparr> new_pcb = Some 1, pbuf_ok = True, bind_err = 0, send_err = 0 \<rparr>"

theorem dns_answers_query_witness:
  "dns_server_process lwip_up (\<lambda>_. 7) ([0xab, 0xcd] @ [1, 0] @ [0, 1] @ replicate 6 0 @ encode_name [[0x70, 0x69], [0x63]] @ [0, 1, 0, 1] @ [])
       [192, 168, 4, 16] 5353 \<lparr> dns_udp = Some 1, dns_ip = [192, 168, 4, 1] \<rparr> =
     Some \<lparr> payload = [0xab, 0xcd, 0x84, 0x80, 0, 1, 0, 1, 0, 0, 0, 0, 2, 0x70, 0x69, 1, 0x63, 0, 0, 1, 0, 1,
              0xc0, 12, 0, 1, 0, 1, 0, 0, 0, 60, 0, 4, 192, 168, 4, 1], dest_ip = [192, 168, 4, 16], dest_port = 5353 \<rparr>"
  by (subst dns_answers_query) (simp_all add: label_ok_def)

text \<open>
  C33. The server never writes outside its 300-byte buffer: whatever the packet holds, a reply has
  at most 287 bytes, all of them at offsets of the buffer.
\<close>

theorem dns_reply_in_bounds:
  assumes "dns_server_process env stk copied src port d = Some dg"
  shows "length (payload dg) \<le> 287 \<and> length (payload dg) \<le> MAX_DNS_MSG_SIZE \<and> dest_ip dg = src \<and> dest_port dg = port"
proof -
  from assms obtain q where "question_end (store stk 0 copied) (length copied) 12 = Some q" "\<not> q - 12 > 255"
    "dest_ip dg = src" "dest_port dg = port" "length (payload dg) = cut_len (q + 4 + 16)"
    by (auto simp: dns_server_process_def dns_socket_sendto_def Let_def split: if_splits option.splits)
  then show ?thesis by (auto simp: cut_len_def)
qed

theorem dns_reply_in_bounds_witness:
  "\<exists>dg. dns_server_process lwip_up (\<lambda>_. 7) [0xab, 0xcd, 1, 0, 0, 1, 0, 0, 0, 0, 0, 0, 0]
       [192, 168, 4, 16] 5353 \<lparr> dns_udp = Some 1, dns_ip = [192, 168, 4, 1] \<rparr> = Some dg \<and> length (payload dg) \<le> 287"
proof -
  let ?p = "[0xab, 0xcd, 1, 0, 0, 1, 0, 0, 0, 0, 0, 0, 0]"
  have q: "question_end (store (\<lambda>_. 7) 0 ?p) (length ?p) 12 = Some 13" by (subst question_end.simps) (simp add: store_def)
  have "drop_bit 3 (store (\<lambda>_. 7) 0 ?p 2) = 0" "be16 (store (\<lambda>_. 7) 0 ?p) 4 \<noteq> 0" by (simp_all add: store_def be16_0)
  with process_accepts [OF _ _ _ standard_query_flags _ q, of "\<lparr> dns_udp = Some 1, dns_ip = [192, 168, 4, 1] \<rparr>" lwip_up]
  have "dns_server_process lwip_up (\<lambda>_. 7) ?p [192, 168, 4, 16] 5353 \<lparr> dns_udp = Some 1, dns_ip = [192, 168, 4, 1] \<rparr> \<noteq> None" by simp
  with dns_reply_in_bounds show ?thesis by blast
qed

text \<open>
  A query whose last label claims more bytes than the packet has is answered all the same, and
  the answer carries what the stack held behind the packet: 67 bytes of it for a packet of 13
  bytes.
\<close>

theorem dns_reply_leaks_stack:
  "\<exists>dg. dns_server_process lwip_up stk ([0xab, 0xcd, 1, 0, 0, 1, 0, 0, 0, 0, 0, 0] @ [63]) src port
       \<lparr> dns_udp = Some 1, dns_ip = [192, 168, 4, 1] \<rparr> = Some dg \<and>
     take 67 (drop 13 (payload dg)) = take_view 67 (advance stk 13)"
proof -
  let ?p = "[0xab, 0xcd, 1, 0, 0, 1, 0, 0, 0, 0, 0, 0] @ [63]"
  have q: "question_end (store stk 0 ?p) (length ?p) 12 = Some 76"
    by (subst question_end.simps, simp add: store_def, subst question_end.simps, simp)
  have "drop_bit 3 (store stk 0 ?p 2) = 0" "be16 (store stk 0 ?p) 4 \<noteq> 0" by (simp_all add: store_def be16_0)
  then have "dns_server_process lwip_up stk ?p src port \<lparr> dns_udp = Some 1, dns_ip = [192, 168, 4, 1] \<rparr> = Some \<lparr>
      payload = take_view 2 (store stk 0 ?p) @ [0x84, 0x80, 0, 1, 0, 1, 0, 0, 0, 0] @ take_view 68 (advance (store stk 0 ?p) 12) @
        answer_record \<lparr> dns_udp = Some 1, dns_ip = [192, 168, 4, 1] \<rparr>, dest_ip = src, dest_port = port \<rparr>"
    using process_accepts [OF _ _ _ standard_query_flags _ q, of "\<lparr> dns_udp = Some 1, dns_ip = [192, 168, 4, 1] \<rparr>" lwip_up src port] by simp
  moreover have "take_view 68 (advance (store stk 0 ?p) 12) = 63 # take_view 67 (advance stk 13)"
    by (rule nth_equalityI) (auto simp: store_def nth_Cons')
  ultimately show ?thesis by simp
qed

end
