(* ===== verification/Cjson.thy ===== *)
theory Cjson
  imports Prelude
begin

text \<open>
  The items of \<^verbatim>\<open>cJSON.c\<close>: their fields, construction, inspection and extension. The children
  of an array or object, which the code chains through \<^verbatim>\<open>next\<close> and \<^verbatim>\<open>prev\<close>, are a list in the
  order of the chain; \<^verbatim>\<open>prev\<close> of the first child, which only serves to find the last one quickly,
  is implied by it. Strings are the bytes before the terminator. The type \<^typ>\<open>'f\<close> stands for
  \<^verbatim>\<open>double\<close>, with the operations of the C library on it as a record of functions. Whether an
  allocation succeeds is answered by a list of booleans; when it is used up every further one
  does.
\<close>

section \<open>Numbers of the C library\<close>

record 'f dbl_ops =
  d_zero :: 'f
  d_of_int :: "int \<Rightarrow> 'f"
  d_ge_int :: "'f \<Rightarrow> int \<Rightarrow> bool"
  d_le_int :: "'f \<Rightarrow> int \<Rightarrow> bool"
  d_trunc :: "'f \<Rightarrow> int"
  d_eq :: "'f \<Rightarrow> 'f \<Rightarrow> bool"
  d_finite :: "'f \<Rightarrow> bool"
  d_close :: "'f \<Rightarrow> 'f \<Rightarrow> bool"
  strtod :: "byte list \<Rightarrow> 'f \<times> nat"
  sscanf_lg :: "byte list \<Rightarrow> 'f option"
  sprintf_g :: "nat \<Rightarrow> 'f \<Rightarrow> byte list"

abbreviation (input) INT_MAX :: int where "INT_MAX \<equiv> 2147483647"
abbreviation (input) INT_MIN :: int where "INT_MIN \<equiv> - 2147483648"

text \<open>The conversion that \<^verbatim>\<open>parse_number\<close>, \<^verbatim>\<open>cJSON_CreateNumber\<close> and \<^verbatim>\<open>cJSON_SetNumberHelper\<close> share.\<close>

definition saturate :: "'f dbl_ops \<Rightarrow> 'f \<Rightarrow> int" where
  "saturate fo number =
     (if d_ge_int fo number INT_MAX then INT_MAX
      else if d_le_int fo number INT_MIN then INT_MIN
      else d_trunc fo number)"

section \<open>Items\<close>

abbreviation (input) cJSON_Invalid :: "32 word" where "cJSON_Invalid \<equiv> 0"
abbreviation (input) cJSON_False :: "32 word" where "cJSON_False \<equiv> 1"
abbreviation (input) cJSON_True :: "32 word" where "cJSON_True \<equiv> 2"
abbreviation (input) cJSON_NULL :: "32 word" where "cJSON_NULL \<equiv> 4"
abbreviation (input) cJSON_Number :: "32 word" where "cJSON_Number \<equiv> 8"
abbreviation (input) cJSON_String :: "32 word" where "cJSON_String \<equiv> 16"
abbreviation (input) cJSON_Array :: "32 word" where "cJSON_Array \<equiv> 32"
abbreviation (input) cJSON_Object :: "32 word" where "cJSON_Object \<equiv> 64"
abbreviation (input) cJSON_Raw :: "32 word" where "cJSON_Raw \<equiv> 128"
abbreviation (input) cJSON_IsReference :: "32 word" where "cJSON_IsReference \<equiv> 256"
abbreviation (input) cJSON_StringIsConst :: "32 word" where "cJSON_StringIsConst \<equiv> 512"

datatype 'f cJSON =
  CJSON (item_type: "32 word") (valuestring: "byte list option") (valueint: int) (valuedouble: 'f)
    (item_string: "byte list option") (child: "'f cJSON list")

primrec set_type :: "32 word \<Rightarrow> 'f cJSON \<Rightarrow> 'f cJSON" where
  "set_type t (CJSON ty vs vi vd s ch) = CJSON t vs vi vd s ch"
primrec set_valuestring :: "byte list option \<Rightarrow> 'f cJSON \<Rightarrow> 'f cJSON" where
  "set_valuestring v (CJSON ty vs vi vd s ch) = CJSON ty v vi vd s ch"
primrec set_valueint :: "int \<Rightarrow> 'f cJSON \<Rightarrow> 'f cJSON" where
  "set_valueint v (CJSON ty vs vi vd s ch) = CJSON ty vs v vd s ch"
primrec set_valuedouble :: "'f \<Rightarrow> 'f cJSON \<Rightarrow> 'f cJSON" where
  "set_valuedouble v (CJSON ty vs vi vd s ch) = CJSON ty vs vi v s ch"
primrec set_string :: "byte list option \<Rightarrow> 'f cJSON \<Rightarrow> 'f cJSON" where
  "set_string v (CJSON ty vs vi vd s ch) = CJSON ty vs vi vd v ch"
primrec set_child :: "'f cJSON list \<Rightarrow> 'f cJSON \<Rightarrow> 'f cJSON" where
  "set_child v (CJSON ty vs vi vd s ch) = CJSON ty vs vi vd s v"

text \<open>The next answer of the allocator.\<close>

type_synonym mem = "bool list"

definition allocate :: "mem \<Rightarrow> bool \<times> mem" where
  "allocate m = (case m of [] \<Rightarrow> (True, []) | b # bs \<Rightarrow> (b, bs))"

lemma allocate_Nil [simp]: "allocate [] = (True, [])"
  by (simp add: allocate_def)

text \<open>An item of zero bytes.\<close>

definition blank_item :: "'f dbl_ops \<Rightarrow> 'f cJSON" where
  "blank_item fo = CJSON cJSON_Invalid None 0 (d_zero fo) None []"

definition cJSON_New_Item :: "'f dbl_ops \<Rightarrow> mem \<Rightarrow> 'f cJSON option \<times> mem" where
  "cJSON_New_Item fo m = (let (ok, m1) = allocate m in (if ok then Some (blank_item fo) else None, m1))"

definition cJSON_strdup :: "byte list option \<Rightarrow> mem \<Rightarrow> byte list option \<times> mem" where
  "cJSON_strdup s m = (case s of
     None \<Rightarrow> (None, m)
   | Some bs \<Rightarrow> let (ok, m1) = allocate m in (if ok then Some bs else None, m1))"

section \<open>Inspection\<close>

definition kind :: "'f cJSON \<Rightarrow> 32 word" where
  "kind it = item_type it AND 0xff"

definition cJSON_IsInvalid :: "'f cJSON option \<Rightarrow> bool" where
  "cJSON_IsInvalid it = (case it of None \<Rightarrow> False | Some i \<Rightarrow> kind i = cJSON_Invalid)"
definition cJSON_IsFalse :: "'f cJSON option \<Rightarrow> bool" where
  "cJSON_IsFalse it = (case it of None \<Rightarrow> False | Some i \<Rightarrow> kind i = cJSON_False)"
definition cJSON_IsTrue :: "'f cJSON option \<Rightarrow> bool" where
  "cJSON_IsTrue it = (case it of None \<Rightarrow> False | Some i \<Rightarrow> kind i = cJSON_True)"
definition cJSON_IsBool :: "'f cJSON option \<Rightarrow> bool" where
  "cJSON_IsBool it = (case it of None \<Rightarrow> False | Some i \<Rightarrow> item_type i AND (cJSON_True OR cJSON_False) \<noteq> 0)"
definition cJSON_IsNull :: "'f cJSON option \<Rightarrow> bool" where
  "cJSON_IsNull it = (case it of None \<Rightarrow> False | Some i \<Rightarrow> kind i = cJSON_NULL)"
definition cJSON_IsNumber :: "'f cJSON option \<Rightarrow> bool" where
  "cJSON_IsNumber it = (case it of None \<Rightarrow> False | Some i \<Rightarrow> kind i = cJSON_Number)"
definition cJSON_IsString :: "'f cJSON option \<Rightarrow> bool" where
  "cJSON_IsString it = (case it of None \<Rightarrow> False | Some i \<Rightarrow> kind i = cJSON_String)"
definition cJSON_IsArray :: "'f cJSON option \<Rightarrow> bool" where
  "cJSON_IsArray it = (case it of None \<Rightarrow> False | Some i \<Rightarrow> kind i = cJSON_Array)"
definition cJSON_IsObject :: "'f cJSON option \<Rightarrow> bool" where
  "cJSON_IsObject it = (case it of None \<Rightarrow> False | Some i \<Rightarrow> kind i = cJSON_Object)"
definition cJSON_IsRaw :: "'f cJSON option \<Rightarrow> bool" where
  "cJSON_IsRaw it = (case it of None \<Rightarrow> False | Some i \<Rightarrow> kind i = cJSON_Raw)"

definition cJSON_GetStringValue :: "'f cJSON option \<Rightarrow> byte list option" where
  "cJSON_GetStringValue it = (case it of Some i \<Rightarrow> if cJSON_IsString it then valuestring i else None | None \<Rightarrow> None)"

definition to_lower :: "byte \<Rightarrow> byte" where
  "to_lower c = (if 0x41 \<le> c \<and> c \<le> 0x5a then c + 0x20 else c)"

text \<open>The loop compares up to and including the terminator.\<close>

fun ci_loop :: "byte list \<Rightarrow> byte list \<Rightarrow> int" where
  "ci_loop [] [] = 0"
| "ci_loop [] (d # ds) = - int (unat (to_lower d))"
| "ci_loop (c # cs) [] = int (unat (to_lower c))"
| "ci_loop (c # cs) (d # ds) =
     (if to_lower c = to_lower d then ci_loop cs ds else int (unat (to_lower c)) - int (unat (to_lower d)))"

definition case_insensitive_strcmp :: "byte list option \<Rightarrow> byte list option \<Rightarrow> int" where
  "case_insensitive_strcmp s1 s2 = (case (s1, s2) of (Some a, Some b) \<Rightarrow> ci_loop a b | _ \<Rightarrow> 1)"

definition cJSON_GetArraySize :: "'f cJSON option \<Rightarrow> nat" where
  "cJSON_GetArraySize a = (case a of None \<Rightarrow> 0 | Some i \<Rightarrow> length (child i))"

fun nth_child :: "'f cJSON list \<Rightarrow> nat \<Rightarrow> 'f cJSON option" where
  "nth_child [] k = None"
| "nth_child (c # cs) 0 = Some c"
| "nth_child (c # cs) (Suc k) = nth_child cs k"

definition cJSON_GetArrayItem :: "'f cJSON option \<Rightarrow> int \<Rightarrow> 'f cJSON option" where
  "cJSON_GetArrayItem a index =
     (if index < 0 then None else case a of None \<Rightarrow> None | Some i \<Rightarrow> nth_child (child i) (nat index))"

text \<open>The position of the child that \<^verbatim>\<open>get_object_item\<close> points to.\<close>

fun find_member :: "bool \<Rightarrow> byte list \<Rightarrow> 'f cJSON list \<Rightarrow> nat option" where
  "find_member cs name [] = None"
| "find_member cs name (c # rest) =
     (if cs then
        (case item_string c of
           None \<Rightarrow> None
         | Some s \<Rightarrow> if name \<noteq> s then map_option Suc (find_member cs name rest) else Some 0)
      else if case_insensitive_strcmp (Some name) (item_string c) \<noteq> 0
        then map_option Suc (find_member cs name rest)
        else if item_string c = None then None else Some 0)"

definition get_object_item :: "'f cJSON option \<Rightarrow> byte list option \<Rightarrow> bool \<Rightarrow> nat option" where
  "get_object_item obj name cs = (case (obj, name) of
     (Some o1, Some n) \<Rightarrow> find_member cs n (child o1)
   | _ \<Rightarrow> None)"

definition cJSON_GetObjectItem :: "'f cJSON \<Rightarrow> byte list \<Rightarrow> 'f cJSON option" where
  "cJSON_GetObjectItem obj name = map_option (\<lambda>k. child obj ! k) (get_object_item (Some obj) (Some name) False)"

definition cJSON_GetObjectItemCaseSensitive :: "'f cJSON \<Rightarrow> byte list \<Rightarrow> 'f cJSON option" where
  "cJSON_GetObjectItemCaseSensitive obj name = map_option (\<lambda>k. child obj ! k) (get_object_item (Some obj) (Some name) True)"

definition cJSON_HasObjectItem :: "'f cJSON \<Rightarrow> byte list \<Rightarrow> bool" where
  "cJSON_HasObjectItem obj name \<longleftrightarrow> cJSON_GetObjectItem obj name \<noteq> None"

section \<open>Construction\<close>

definition cJSON_CreateNull :: "'f dbl_ops \<Rightarrow> mem \<Rightarrow> 'f cJSON option \<times> mem" where
  "cJSON_CreateNull fo m = apfst (map_option (set_type cJSON_NULL)) (cJSON_New_Item fo m)"
definition cJSON_CreateTrue :: "'f dbl_ops \<Rightarrow> mem \<Rightarrow> 'f cJSON option \<times> mem" where
  "cJSON_CreateTrue fo m = apfst (map_option (set_type cJSON_True)) (cJSON_New_Item fo m)"
definition cJSON_CreateFalse :: "'f dbl_ops \<Rightarrow> mem \<Rightarrow> 'f cJSON option \<times> mem" where
  "cJSON_CreateFalse fo m = apfst (map_option (set_type cJSON_False)) (cJSON_New_Item fo m)"
definition cJSON_CreateBool :: "'f dbl_ops \<Rightarrow> bool \<Rightarrow> mem \<Rightarrow> 'f cJSON option \<times> mem" where
  "cJSON_CreateBool fo b m = apfst (map_option (set_type (if b then cJSON_True else cJSON_False))) (cJSON_New_Item fo m)"
definition cJSON_CreateNumber :: "'f dbl_ops \<Rightarrow> 'f \<Rightarrow> mem \<Rightarrow> 'f cJSON option \<times> mem" where
  "cJSON_CreateNumber fo num m =
     apfst (map_option (\<lambda>it. set_valueint (saturate fo num) (set_valuedouble num (set_type cJSON_Number it)))) (cJSON_New_Item fo m)"

text \<open>When the copy of the string fails the item is deleted.\<close>

definition string_item :: "32 word \<Rightarrow> 'f dbl_ops \<Rightarrow> byte list option \<Rightarrow> mem \<Rightarrow> 'f cJSON option \<times> mem" where
  "string_item t fo s m = (case cJSON_New_Item fo m of
     (None, m1) \<Rightarrow> (None, m1)
   | (Some it, m1) \<Rightarrow>
       (case cJSON_strdup s m1 of
          (None, m2) \<Rightarrow> (None, m2)
        | (Some v, m2) \<Rightarrow> (Some (set_valuestring (Some v) (set_type t it)), m2)))"

definition cJSON_CreateString :: "'f dbl_ops \<Rightarrow> byte list option \<Rightarrow> mem \<Rightarrow> 'f cJSON option \<times> mem" where
  "cJSON_CreateString = string_item cJSON_String"
definition cJSON_CreateRaw :: "'f dbl_ops \<Rightarrow> byte list option \<Rightarrow> mem \<Rightarrow> 'f cJSON option \<times> mem" where
  "cJSON_CreateRaw = string_item cJSON_Raw"
definition cJSON_CreateArray :: "'f dbl_ops \<Rightarrow> mem \<Rightarrow> 'f cJSON option \<times> mem" where
  "cJSON_CreateArray fo m = apfst (map_option (set_type cJSON_Array)) (cJSON_New_Item fo m)"
definition cJSON_CreateObject :: "'f dbl_ops \<Rightarrow> mem \<Rightarrow> 'f cJSON option \<times> mem" where
  "cJSON_CreateObject fo m = apfst (map_option (set_type cJSON_Object)) (cJSON_New_Item fo m)"

section \<open>Extension\<close>

definition add_item_to_array :: "'f cJSON option \<Rightarrow> 'f cJSON option \<Rightarrow> bool \<times> 'f cJSON option" where
  "add_item_to_array arr it = (case (it, arr) of
     (Some i, Some a) \<Rightarrow> (True, Some (set_child (child a @ [i]) a))
   | _ \<Rightarrow> (False, arr))"

definition cJSON_AddItemToArray :: "'f cJSON option \<Rightarrow> 'f cJSON option \<Rightarrow> bool \<times> 'f cJSON option" where
  "cJSON_AddItemToArray = add_item_to_array"

definition add_item_to_object ::
    "'f cJSON option \<Rightarrow> byte list option \<Rightarrow> 'f cJSON option \<Rightarrow> bool \<Rightarrow> mem \<Rightarrow> bool \<times> 'f cJSON option \<times> mem" where
  "add_item_to_object obj s it constant_key m = (case (obj, s, it) of
     (Some o1, Some key, Some i) \<Rightarrow>
       if constant_key then
         (let (r, o2) = add_item_to_array obj (Some (set_type (item_type i OR cJSON_StringIsConst) (set_string (Some key) i)))
          in (r, o2, m))
       else (case cJSON_strdup s m of
               (None, m1) \<Rightarrow> (False, obj, m1)
             | (Some k, m1) \<Rightarrow>
                 let (r, o2) = add_item_to_array obj (Some (set_type (item_type i AND NOT cJSON_StringIsConst) (set_string (Some k) i)))
                 in (r, o2, m1))
   | _ \<Rightarrow> (False, obj, m))"

definition cJSON_AddItemToObject ::
    "'f cJSON option \<Rightarrow> byte list option \<Rightarrow> 'f cJSON option \<Rightarrow> mem \<Rightarrow> bool \<times> 'f cJSON option \<times> mem" where
  "cJSON_AddItemToObject obj s it m = add_item_to_object obj s it False m"

definition cJSON_AddNumberToObject ::
    "'f dbl_ops \<Rightarrow> 'f cJSON option \<Rightarrow> byte list option \<Rightarrow> 'f \<Rightarrow> mem \<Rightarrow> bool \<times> 'f cJSON option \<times> mem" where
  "cJSON_AddNumberToObject fo obj name number m =
     (let (it, m1) = cJSON_CreateNumber fo number m in add_item_to_object obj name it False m1)"

definition cJSON_SetNumberHelper :: "'f dbl_ops \<Rightarrow> 'f cJSON \<Rightarrow> 'f \<Rightarrow> 'f cJSON" where
  "cJSON_SetNumberHelper fo it number = set_valuedouble number (set_valueint (saturate fo number) it)"

end
