(* ===== verification/Cjson_Parse.thy ===== *)
theory Cjson_Parse
  imports Cjson
begin

text \<open>
  The parser of \<^verbatim>\<open>cJSON.c\<close>. A parse function takes the buffer and returns the buffer it leaves,
  with the item on success (\<^term>\<open>Inr\<close>) and alone on failure (\<^term>\<open>Inl\<close>), where its offset is the
  error position. The functions that call each other recursively carry fuel, and \<^term>\<open>None\<close> is
  running out of it; one more than the length of the input is enough for any input.
\<close>

section \<open>The buffer\<close>

record parse_buffer =
  content :: "byte list"
  offset :: nat
  depth :: nat
  hooks :: mem

abbreviation (input) CJSON_NESTING_LIMIT :: nat where "CJSON_NESTING_LIMIT \<equiv> 1000"

definition can_read :: "parse_buffer \<Rightarrow> nat \<Rightarrow> bool" where
  "can_read b n \<longleftrightarrow> offset b + n \<le> length (content b)"

definition can_access_at_index :: "parse_buffer \<Rightarrow> nat \<Rightarrow> bool" where
  "can_access_at_index b i \<longleftrightarrow> offset b + i < length (content b)"

definition buffer_at :: "parse_buffer \<Rightarrow> nat \<Rightarrow> byte" where
  "buffer_at b i = content b ! (offset b + i)"

definition forward :: "nat \<Rightarrow> parse_buffer \<Rightarrow> parse_buffer" where
  "forward n b = b\<lparr> offset := offset b + n \<rparr>"

definition backward :: "parse_buffer \<Rightarrow> parse_buffer" where
  "backward b = b\<lparr> offset := offset b - 1 \<rparr>"

definition buffer_skip_whitespace :: "parse_buffer \<Rightarrow> parse_buffer" where
  "buffer_skip_whitespace b =
     (if \<not> can_access_at_index b 0 then b
      else let b1 = forward (length (takeWhile (\<lambda>c. c \<le> 32) (drop (offset b) (content b)))) b
           in if offset b1 = length (content b1) then backward b1 else b1)"

definition skip_utf8_bom :: "parse_buffer \<Rightarrow> parse_buffer" where
  "skip_utf8_bom b =
     (if can_access_at_index b 4 \<and> take 3 (drop (offset b) (content b)) = [0xEF, 0xBB, 0xBF] then forward 3 b else b)"

definition buf_alloc :: "parse_buffer \<Rightarrow> bool \<times> parse_buffer" where
  "buf_alloc b = (let (ok, m) = allocate (hooks b) in (ok, b\<lparr> hooks := m \<rparr>))"

section \<open>Numbers\<close>

definition get_decimal_point :: byte where
  "get_decimal_point = 0x2e"

definition is_number_char :: "byte \<Rightarrow> bool" where
  "is_number_char c \<longleftrightarrow> (0x30 \<le> c \<and> c \<le> 0x39) \<or> c = 0x2b \<or> c = 0x2d \<or> c = 0x65 \<or> c = 0x45 \<or> c = 0x2e"

definition parse_number :: "'f dbl_ops \<Rightarrow> 'f cJSON \<Rightarrow> parse_buffer \<Rightarrow> parse_buffer + 'f cJSON \<times> parse_buffer" where
  "parse_number fo it b =
     (let run = takeWhile is_number_char (drop (offset b) (content b));
          (ok, b1) = buf_alloc b
      in if \<not> ok then Inl b1
         else let number_c_string = (if 0x2e \<in> set run then map (\<lambda>c. if c = 0x2e then get_decimal_point else c) run else run);
                  (number, after_end) = strtod fo number_c_string
              in if after_end = 0 then Inl b1
                 else Inr (set_type cJSON_Number (set_valueint (saturate fo number) (set_valuedouble number it)),
                           forward after_end b1))"

section \<open>Strings\<close>

definition hex_digit :: "byte \<Rightarrow> nat option" where
  "hex_digit c =
     (if 0x30 \<le> c \<and> c \<le> 0x39 then Some (unat c - 0x30)
      else if 0x41 \<le> c \<and> c \<le> 0x46 then Some (10 + unat c - 0x41)
      else if 0x61 \<le> c \<and> c \<le> 0x66 then Some (10 + unat c - 0x61)
      else None)"

fun hex4_loop :: "nat \<Rightarrow> nat \<Rightarrow> byte list \<Rightarrow> nat" where
  "hex4_loop i h [] = h"
| "hex4_loop i h (c # cs) =
     (if i < 4 then
        case hex_digit c of
          None \<Rightarrow> 0
        | Some d \<Rightarrow> let h1 = h + d in hex4_loop (i + 1) (if i < 3 then h1 * 16 else h1) cs
      else h)"

definition parse_hex4 :: "byte list \<Rightarrow> nat" where
  "parse_hex4 input = hex4_loop 0 0 input"

text \<open>The continuation bytes, from the last to the second, and what remains of the code point.\<close>

fun utf8_tail :: "nat \<Rightarrow> nat \<Rightarrow> byte list \<Rightarrow> nat \<times> byte list" where
  "utf8_tail 0 codepoint out = (codepoint, out)"
| "utf8_tail (Suc k) codepoint out = utf8_tail k (codepoint div 64) (of_nat ((codepoint OR 0x80) AND 0xBF) # out)"

definition utf8_encode :: "nat \<Rightarrow> byte list" where
  "utf8_encode codepoint =
     (let (utf8_length, first_byte_mark) =
        (if codepoint < 0x80 then (1, 0) else if codepoint < 0x800 then (2, 0xC0)
         else if codepoint < 0x10000 then (3, 0xE0) else (4, 0xF0));
          (rest, out) = utf8_tail (utf8_length - 1) codepoint []
      in (if utf8_length > 1 then of_nat ((rest OR first_byte_mark) AND 0xFF) else of_nat (rest AND 0x7F)) # out)"

text \<open>The input is what lies before \<^verbatim>\<open>input_end\<close>; a result of length 0 is failure.\<close>

definition utf16_literal_to_utf8 :: "byte list \<Rightarrow> nat \<times> byte list" where
  "utf16_literal_to_utf8 input =
     (if length input < 6 then (0, [])
      else let first_code = parse_hex4 (drop 2 input)
        in if 0xDC00 \<le> first_code \<and> first_code \<le> 0xDFFF then (0, [])
           else if 0xD800 \<le> first_code \<and> first_code \<le> 0xDBFF then
             let second = drop 6 input
             in if length second < 6 then (0, [])
                else if second ! 0 \<noteq> 0x5c \<or> second ! 1 \<noteq> 0x75 then (0, [])
                else let second_code = parse_hex4 (drop 2 second)
                  in if second_code < 0xDC00 \<or> 0xDFFF < second_code then (0, [])
                     else (12, utf8_encode (0x10000 + (((first_code AND 0x3FF) * 2 ^ 10) OR (second_code AND 0x3FF))))
           else (6, utf8_encode first_code))"

text \<open>The scan for the closing quote from \<open>e\<close>; \<^term>\<open>None\<close> is an unterminated string.\<close>

function scan_string :: "byte list \<Rightarrow> nat \<Rightarrow> nat \<Rightarrow> (nat \<times> nat) option" where
  "scan_string cs e skipped =
     (if e < length cs \<and> cs ! e \<noteq> 0x22 then
        if cs ! e = 0x5c then
          if e + 1 \<ge> length cs then None else scan_string cs (e + 2) (skipped + 1)
        else scan_string cs (e + 1) skipped
      else if e \<ge> length cs then None
      else Some (e, skipped))"
  by pat_completeness auto
termination by (relation "measure (\<lambda>(cs, e, skipped). length cs - e)") auto

declare scan_string.simps [simp del]

definition escape_char :: "byte \<Rightarrow> byte option" where
  "escape_char c =
     (if c = 0x62 then Some 8 else if c = 0x66 then Some 12 else if c = 0x6e then Some 10
      else if c = 0x72 then Some 13 else if c = 0x74 then Some 9
      else if c = 0x22 \<or> c = 0x5c \<or> c = 0x2f then Some c else None)"

lemma utf16_consumes: "utf16_literal_to_utf8 input = (k, out) \<Longrightarrow> k \<noteq> 0 \<Longrightarrow> 6 \<le> k \<and> k \<le> length input"
  by (auto simp: utf16_literal_to_utf8_def Let_def split: if_splits)

text \<open>The loop over the literal between \<open>ip\<close> and its end \<open>e\<close>; \<^term>\<open>Inl\<close> carries the position of a failure.\<close>

function unescape :: "byte list \<Rightarrow> nat \<Rightarrow> nat \<Rightarrow> byte list \<Rightarrow> nat + byte list" where
  "unescape cs e ip out =
     (if ip < e then
        if cs ! ip \<noteq> 0x5c then unescape cs e (ip + 1) (out @ [cs ! ip])
        else if e - ip < 1 then Inl ip
        else (case escape_char (cs ! (ip + 1)) of
                Some c \<Rightarrow> unescape cs e (ip + 2) (out @ [c])
              | None \<Rightarrow>
                  if cs ! (ip + 1) = 0x75 then
                    let (k, bs) = utf16_literal_to_utf8 (take (e - ip) (drop ip cs))
                    in if k = 0 then Inl ip else unescape cs e (ip + k) (out @ bs)
                  else Inl ip)
      else Inr out)"
  by pat_completeness auto
termination by (relation "measure (\<lambda>(cs, e, ip, out). e - ip)") auto

declare unescape.simps [simp del]

text \<open>
  The output is used as a C string, so a zero byte in it ends the value. The first byte is
  compared after the pointers are set up; on failure the offset is where the input pointer stands.
\<close>

definition c_string :: "byte list \<Rightarrow> byte list" where
  "c_string bs = takeWhile (\<lambda>c. c \<noteq> 0) bs"

definition parse_string :: "'f cJSON \<Rightarrow> parse_buffer \<Rightarrow> parse_buffer + 'f cJSON \<times> parse_buffer" where
  "parse_string it b =
     (let ip = offset b + 1
      in if buffer_at b 0 \<noteq> 0x22 then Inl (b\<lparr> offset := ip \<rparr>)
         else (case scan_string (content b) ip 0 of
                 None \<Rightarrow> Inl (b\<lparr> offset := ip \<rparr>)
               | Some (e, skipped) \<Rightarrow>
                   (let (ok, b1) = buf_alloc b
                    in if \<not> ok then Inl (b1\<lparr> offset := ip \<rparr>)
                       else (case unescape (content b) e ip [] of
                               Inl pos \<Rightarrow> Inl (b1\<lparr> offset := pos \<rparr>)
                             | Inr out \<Rightarrow> Inr (set_valuestring (Some (c_string out)) (set_type cJSON_String it),
                                              b1\<lparr> offset := e + 1 \<rparr>)))))"

section \<open>Values\<close>

definition literal_at :: "parse_buffer \<Rightarrow> byte list \<Rightarrow> bool" where
  "literal_at b s \<longleftrightarrow> can_read b (length s) \<and> take (length s) (drop (offset b) (content b)) = s"

type_synonym 'f parsed = "(parse_buffer + 'f cJSON \<times> parse_buffer) option"

text \<open>
  \<open>array_loop\<close> and \<open>object_loop\<close> are the \<^verbatim>\<open>do\<close> loops of \<^verbatim>\<open>parse_array\<close> and \<^verbatim>\<open>parse_object\<close>
  with the check of the closing bracket; the buffer stands in front of the next element, and the list
  holds the children so far. The parser for the elements, \<^verbatim>\<open>parse_value\<close> with less fuel, is an
  argument.
\<close>

type_synonym 'f item_parser = "'f cJSON \<Rightarrow> parse_buffer \<Rightarrow> 'f parsed"

primrec array_loop :: "nat \<Rightarrow> 'f item_parser \<Rightarrow> 'f dbl_ops \<Rightarrow> 'f cJSON list \<Rightarrow> parse_buffer \<Rightarrow>
    (parse_buffer + 'f cJSON list \<times> parse_buffer) option" where
  "array_loop 0 pv fo xs b = None"
| "array_loop (Suc n) pv fo xs b =
     (let (ok, b1) = buf_alloc b
      in if \<not> ok then Some (Inl b1)
         else (case pv (blank_item fo) (buffer_skip_whitespace (forward 1 b1)) of
                 None \<Rightarrow> None
               | Some (Inl b2) \<Rightarrow> Some (Inl b2)
               | Some (Inr (it, b2)) \<Rightarrow>
                   (let b3 = buffer_skip_whitespace b2
                    in if can_access_at_index b3 0 \<and> buffer_at b3 0 = 0x2c then array_loop n pv fo (xs @ [it]) b3
                       else if \<not> can_access_at_index b3 0 \<or> buffer_at b3 0 \<noteq> 0x5d then Some (Inl b3)
                       else Some (Inr (xs @ [it], b3)))))"

definition parse_array :: "nat \<Rightarrow> 'f item_parser \<Rightarrow> 'f dbl_ops \<Rightarrow> 'f item_parser" where
  "parse_array n pv fo it b =
     (if depth b \<ge> CJSON_NESTING_LIMIT then Some (Inl b)
      else let b1 = b\<lparr> depth := depth b + 1 \<rparr>
        in if buffer_at b1 0 \<noteq> 0x5b then Some (Inl b1)
           else let b2 = buffer_skip_whitespace (forward 1 b1)
             in if can_access_at_index b2 0 \<and> buffer_at b2 0 = 0x5d
                then Some (Inr (set_child [] (set_type cJSON_Array it), forward 1 (b2\<lparr> depth := depth b2 - 1 \<rparr>)))
                else if \<not> can_access_at_index b2 0 then Some (Inl (backward b2))
                else (case array_loop n pv fo [] (backward b2) of
                        None \<Rightarrow> None
                      | Some (Inl b3) \<Rightarrow> Some (Inl b3)
                      | Some (Inr (xs, b3)) \<Rightarrow>
                          Some (Inr (set_child xs (set_type cJSON_Array it), forward 1 (b3\<lparr> depth := depth b3 - 1 \<rparr>)))))"

primrec object_loop :: "nat \<Rightarrow> 'f item_parser \<Rightarrow> 'f dbl_ops \<Rightarrow> 'f cJSON list \<Rightarrow> parse_buffer \<Rightarrow>
    (parse_buffer + 'f cJSON list \<times> parse_buffer) option" where
  "object_loop 0 pv fo xs b = None"
| "object_loop (Suc n) pv fo xs b =
     (let (ok, b1) = buf_alloc b
      in if \<not> ok then Some (Inl b1)
         else if \<not> can_access_at_index b1 1 then Some (Inl b1)
         else (case parse_string (blank_item fo) (buffer_skip_whitespace (forward 1 b1)) of
                 Inl b2 \<Rightarrow> Some (Inl b2)
               | Inr (named, b2) \<Rightarrow>
                   (let b3 = buffer_skip_whitespace b2;
                        it = set_valuestring None (set_string (valuestring named) named)
                    in if \<not> can_access_at_index b3 0 \<or> buffer_at b3 0 \<noteq> 0x3a then Some (Inl b3)
                       else (case pv it (buffer_skip_whitespace (forward 1 b3)) of
                               None \<Rightarrow> None
                             | Some (Inl b4) \<Rightarrow> Some (Inl b4)
                             | Some (Inr (it2, b4)) \<Rightarrow>
                                 (let b5 = buffer_skip_whitespace b4
                                  in if can_access_at_index b5 0 \<and> buffer_at b5 0 = 0x2c then object_loop n pv fo (xs @ [it2]) b5
                                     else if \<not> can_access_at_index b5 0 \<or> buffer_at b5 0 \<noteq> 0x7d then Some (Inl b5)
                                     else Some (Inr (xs @ [it2], b5)))))))"

definition parse_object :: "nat \<Rightarrow> 'f item_parser \<Rightarrow> 'f dbl_ops \<Rightarrow> 'f item_parser" where
  "parse_object n pv fo it b =
     (if depth b \<ge> CJSON_NESTING_LIMIT then Some (Inl b)
      else let b1 = b\<lparr> depth := depth b + 1 \<rparr>
        in if \<not> can_access_at_index b1 0 \<or> buffer_at b1 0 \<noteq> 0x7b then Some (Inl b1)
           else let b2 = buffer_skip_whitespace (forward 1 b1)
             in if can_access_at_index b2 0 \<and> buffer_at b2 0 = 0x7d
                then Some (Inr (set_child [] (set_type cJSON_Object it), forward 1 (b2\<lparr> depth := depth b2 - 1 \<rparr>)))
                else if \<not> can_access_at_index b2 0 then Some (Inl (backward b2))
                else (case object_loop n pv fo [] (backward b2) of
                        None \<Rightarrow> None
                      | Some (Inl b3) \<Rightarrow> Some (Inl b3)
                      | Some (Inr (xs, b3)) \<Rightarrow>
                          Some (Inr (set_child xs (set_type cJSON_Object it), forward 1 (b3\<lparr> depth := depth b3 - 1 \<rparr>)))))"

primrec parse_value :: "nat \<Rightarrow> 'f dbl_ops \<Rightarrow> 'f cJSON \<Rightarrow> parse_buffer \<Rightarrow> 'f parsed" where
  "parse_value 0 fo it b = None"
| "parse_value (Suc n) fo it b =
     (if literal_at b (bytes_of ''null'') then Some (Inr (set_type cJSON_NULL it, forward 4 b))
      else if literal_at b (bytes_of ''false'') then Some (Inr (set_type cJSON_False it, forward 5 b))
      else if literal_at b (bytes_of ''true'') then Some (Inr (set_valueint 1 (set_type cJSON_True it), forward 4 b))
      else if can_access_at_index b 0 \<and> buffer_at b 0 = 0x22 then Some (parse_string it b)
      else if can_access_at_index b 0 \<and> (buffer_at b 0 = 0x2d \<or> (0x30 \<le> buffer_at b 0 \<and> buffer_at b 0 \<le> 0x39))
        then Some (parse_number fo it b)
      else if can_access_at_index b 0 \<and> buffer_at b 0 = 0x5b then parse_array n (parse_value n fo) fo it b
      else if can_access_at_index b 0 \<and> buffer_at b 0 = 0x7b then parse_object n (parse_value n fo) fo it b
      else Some (Inl b))"

declare parse_value.simps(2) [simp del] array_loop.simps(2) [simp del] object_loop.simps(2) [simp del]

section \<open>Entry points\<close>

text \<open>
  The result is the item, if any, and the position that \<^verbatim>\<open>return_parse_end\<close> and \<^verbatim>\<open>global_error\<close>
  are set to.
\<close>

definition parse_fuel :: "nat \<Rightarrow> nat" where
  "parse_fuel len = len + 1"

definition error_position :: "parse_buffer \<Rightarrow> nat" where
  "error_position b = (if offset b < length (content b) then offset b else if 0 < length (content b) then length (content b) - 1 else 0)"

definition cJSON_ParseWithLengthOpts ::
    "'f dbl_ops \<Rightarrow> mem \<Rightarrow> byte list \<Rightarrow> bool \<Rightarrow> ('f cJSON option \<times> nat) option" where
  "cJSON_ParseWithLengthOpts fo m val require_null_terminated =
     (if length val = 0 then Some (None, 0)
      else let b = \<lparr> content = val, offset = 0, depth = 0, hooks = m \<rparr>; (ok, b1) = buf_alloc b
        in if \<not> ok then Some (None, error_position b1)
           else (case parse_value (parse_fuel (length val)) fo (blank_item fo) (buffer_skip_whitespace (skip_utf8_bom b1)) of
                   None \<Rightarrow> None
                 | Some (Inl b2) \<Rightarrow> Some (None, error_position b2)
                 | Some (Inr (it, b2)) \<Rightarrow>
                     if require_null_terminated then
                       let b3 = buffer_skip_whitespace b2
                       in if \<not> can_access_at_index b3 0 \<or> buffer_at b3 0 \<noteq> 0 then Some (None, error_position b3)
                          else Some (Some it, offset b3)
                     else Some (Some it, offset b2)))"

text \<open>A C string is parsed with its terminator.\<close>

definition cJSON_ParseWithOpts :: "'f dbl_ops \<Rightarrow> mem \<Rightarrow> byte list \<Rightarrow> bool \<Rightarrow> ('f cJSON option \<times> nat) option" where
  "cJSON_ParseWithOpts fo m val require_null_terminated = cJSON_ParseWithLengthOpts fo m (val @ [0]) require_null_terminated"

definition cJSON_Parse :: "'f dbl_ops \<Rightarrow> mem \<Rightarrow> byte list \<Rightarrow> ('f cJSON option \<times> nat) option" where
  "cJSON_Parse fo m val = cJSON_ParseWithOpts fo m val False"

definition cJSON_ParseWithLength :: "'f dbl_ops \<Rightarrow> mem \<Rightarrow> byte list \<Rightarrow> ('f cJSON option \<times> nat) option" where
  "cJSON_ParseWithLength fo m val = cJSON_ParseWithLengthOpts fo m val False"

end
