(* ===== verification/Cjson_Print.thy ===== *)
theory Cjson_Print
  imports Cjson_Parse C_String
begin

text \<open>
  The printer of \<^verbatim>\<open>cJSON.c\<close>. A print function takes and returns the buffer; \<^term>\<open>None\<close> is a
  \<^verbatim>\<open>strlen\<close> that does not end. The memory of the buffer is the view that starts at
  \<^verbatim>\<open>buffer\<close>, or \<^term>\<open>None\<close> when that is \<^verbatim>\<open>NULL\<close>; reallocation keeps its content.
\<close>

section \<open>The buffer\<close>

record printbuffer =
  buffer :: "view option"
  plength :: nat
  poffset :: nat
  pdepth :: nat
  noalloc :: bool
  fmt :: bool
  phooks :: mem

text \<open>\<^verbatim>\<open>ensure\<close>: whether there is room, and the buffer with that room. Sizes are 32 bits wide.\<close>

definition ensure :: "printbuffer \<Rightarrow> nat \<Rightarrow> bool \<times> printbuffer" where
  "ensure p needed =
     (if buffer p = None then (False, p)
      else if plength p > 0 \<and> poffset p \<ge> plength p then (False, p)
      else if needed > nat INT_MAX then (False, p)
      else let needed1 = add32 needed (poffset p + 1)
        in if needed1 \<le> plength p then (True, p)
           else if noalloc p then (False, p)
           else if needed1 > nat INT_MAX then (False, p)
           else let newsize = (if needed1 > nat INT_MAX div 2 then nat INT_MAX else needed1 * 2);
                    (ok, m) = allocate (phooks p)
                in if \<not> ok then (False, p\<lparr> buffer := None, plength := 0, phooks := m \<rparr>)
                   else (True, p\<lparr> plength := newsize, phooks := m \<rparr>))"

text \<open>Stores through the pointer that \<^verbatim>\<open>ensure\<close> returned.\<close>

definition put :: "byte list \<Rightarrow> printbuffer \<Rightarrow> printbuffer" where
  "put bs p = p\<lparr> buffer := map_option (\<lambda>v. store v (poffset p) bs) (buffer p) \<rparr>"

definition move :: "nat \<Rightarrow> printbuffer \<Rightarrow> printbuffer" where
  "move n p = p\<lparr> poffset := poffset p + n \<rparr>"

definition update_offset :: "printbuffer \<Rightarrow> printbuffer option" where
  "update_offset p = (case buffer p of
     None \<Rightarrow> Some p
   | Some v \<Rightarrow> do { n \<leftarrow> strlen (advance v (poffset p)); Some (move n p) })"

section \<open>Numbers\<close>

text \<open>The text of \<^verbatim>\<open>sprintf("%d")\<close>.\<close>

fun dec_nat :: "nat \<Rightarrow> byte list" where
  "dec_nat n = (if n < 10 then [of_nat (0x30 + n)] else dec_nat (n div 10) @ [of_nat (0x30 + n mod 10)])"

declare dec_nat.simps [simp del]

definition dec_int :: "int \<Rightarrow> byte list" where
  "dec_int i = (if i < 0 then 0x2d # dec_nat (nat (- i)) else dec_nat (nat i))"

definition number_text :: "'f dbl_ops \<Rightarrow> 'f cJSON \<Rightarrow> byte list" where
  "number_text fo it =
     (let d = valuedouble it
      in if \<not> d_finite fo d then bytes_of ''null''
         else if d_eq fo d (d_of_int fo (valueint it)) then dec_int (valueint it)
         else let t15 = sprintf_g fo 15 d
           in case sscanf_lg fo t15 of
                Some test \<Rightarrow> if d_close fo test d then t15 else sprintf_g fo 17 d
              | None \<Rightarrow> sprintf_g fo 17 d)"

definition print_number :: "'f dbl_ops \<Rightarrow> 'f cJSON \<Rightarrow> printbuffer \<Rightarrow> bool \<times> printbuffer" where
  "print_number fo it p =
     (let number_buffer = number_text fo it
      in if length number_buffer > 25 then (False, p)
         else case ensure p (length number_buffer + 1) of
                (False, p1) \<Rightarrow> (False, p1)
              | (True, p1) \<Rightarrow>
                  (True, move (length number_buffer)
                     (put (map (\<lambda>c. if c = get_decimal_point then 0x2e else c) number_buffer @ [0]) p1)))"

section \<open>Strings\<close>

text \<open>The text of \<^verbatim>\<open>sprintf("u%04x")\<close> for a byte.\<close>

definition hex_char :: "nat \<Rightarrow> byte" where
  "hex_char d = (if d < 10 then of_nat (0x30 + d) else of_nat (0x61 + (d - 10)))"

definition escape_of :: "byte \<Rightarrow> byte list" where
  "escape_of c =
     (if c = 0x5c then [0x5c] else if c = 0x22 then [0x22]
      else if c = 8 then [0x62] else if c = 12 then [0x66] else if c = 10 then [0x6e]
      else if c = 13 then [0x72] else if c = 9 then [0x74]
      else [0x75, hex_char 0, hex_char 0, hex_char (unat c div 16), hex_char (unat c mod 16)])"

definition escaped :: "byte \<Rightarrow> byte list" where
  "escaped c = (if 31 < c \<and> c \<noteq> 0x22 \<and> c \<noteq> 0x5c then [c] else 0x5c # escape_of c)"

text \<open>The number of additional characters the first loop counts for a character.\<close>

definition escape_count :: "byte \<Rightarrow> nat" where
  "escape_count c =
     (if c = 0x22 \<or> c = 0x5c \<or> c = 8 \<or> c = 12 \<or> c = 10 \<or> c = 13 \<or> c = 9 then 1 else if c < 32 then 5 else 0)"

definition print_string_ptr :: "byte list option \<Rightarrow> printbuffer \<Rightarrow> bool \<times> printbuffer" where
  "print_string_ptr input p = (case input of
     None \<Rightarrow> (case ensure p 3 of
                (False, p1) \<Rightarrow> (False, p1)
              | (True, p1) \<Rightarrow> (True, put [0x22, 0x22, 0] p1))
   | Some s \<Rightarrow>
       let escape_characters = sum_list (map escape_count s);
           output_length = length s + escape_characters
       in case ensure p (output_length + 3) of
            (False, p1) \<Rightarrow> (False, p1)
          | (True, p1) \<Rightarrow>
              if escape_characters = 0 then (True, put (0x22 # s @ [0x22, 0]) p1)
              else (True, put (0x22 # concat (map escaped s) @ [0x22, 0]) p1))"

definition print_string :: "'f cJSON \<Rightarrow> printbuffer \<Rightarrow> bool \<times> printbuffer" where
  "print_string it p = print_string_ptr (valuestring it) p"

section \<open>Values\<close>

type_synonym printed = "(bool \<times> printbuffer) option"
type_synonym 'f item_printer = "'f cJSON \<Rightarrow> printbuffer \<Rightarrow> printed"

text \<open>The \<^verbatim>\<open>while\<close> loop of \<^verbatim>\<open>print_array\<close>, with \<^verbatim>\<open>print_value\<close> for the elements as an argument.\<close>

primrec print_elements :: "'f item_printer \<Rightarrow> 'f cJSON list \<Rightarrow> printbuffer \<Rightarrow> printed" where
  "print_elements pv [] p = Some (True, p)"
| "print_elements pv (x # xs) p = do {
     (ok, p1) \<leftarrow> pv x p;
     if \<not> ok then Some (False, p1)
     else do {
       p2 \<leftarrow> update_offset p1;
       if xs \<noteq> [] then
         let len = (if fmt p2 then 2 else 1); (ok2, p3) = ensure p2 (len + 1)
         in if \<not> ok2 then Some (False, p3)
            else print_elements pv xs (move len (put ([0x2c] @ (if fmt p3 then [0x20] else []) @ [0]) p3))
       else print_elements pv xs p2
     }
   }"

definition print_array :: "'f item_printer \<Rightarrow> 'f cJSON list \<Rightarrow> printbuffer \<Rightarrow> printed" where
  "print_array pv ch p =
     (let (ok, p1) = ensure p 1
      in if \<not> ok then Some (False, p1)
         else let p2 = move 1 (put [0x5b] p1); p3 = p2\<lparr> pdepth := pdepth p2 + 1 \<rparr>
           in do {
             (ok2, p4) \<leftarrow> print_elements pv ch p3;
             if \<not> ok2 then Some (False, p4)
             else let (ok3, p5) = ensure p4 2
               in if \<not> ok3 then Some (False, p5)
                  else let p6 = put [0x5d, 0] p5 in Some (True, p6\<lparr> pdepth := pdepth p6 - 1 \<rparr>)
           })"

text \<open>The indentation of a formatted member, and the loop over the members.\<close>

definition print_indent :: "printbuffer \<Rightarrow> bool \<times> printbuffer" where
  "print_indent p =
     (if fmt p then
        let (ok, p1) = ensure p (pdepth p)
        in if \<not> ok then (False, p1) else (True, move (pdepth p1) (put (replicate (pdepth p1) 9) p1))
      else (True, p))"

primrec print_members :: "'f item_printer \<Rightarrow> 'f cJSON list \<Rightarrow> printbuffer \<Rightarrow> printed" where
  "print_members pv [] p = Some (True, p)"
| "print_members pv (x # xs) p =
     (let (ok, p1) = print_indent p
      in if \<not> ok then Some (False, p1)
         else let (ok1, p2) = print_string_ptr (item_string x) p1
           in if \<not> ok1 then Some (False, p2)
              else do {
                p3 \<leftarrow> update_offset p2;
                let len = (if fmt p3 then 2 else 1);
                let (ok2, p4) = ensure p3 len;
                if \<not> ok2 then Some (False, p4)
                else do {
                  (ok3, p6) \<leftarrow> pv x (move len (put ([0x3a] @ (if fmt p4 then [9] else [])) p4));
                  if \<not> ok3 then Some (False, p6)
                  else do {
                    p7 \<leftarrow> update_offset p6;
                    let len2 = (if fmt p7 then 1 else 0) + (if xs \<noteq> [] then 1 else 0);
                    let (ok4, p8) = ensure p7 (len2 + 1);
                    if \<not> ok4 then Some (False, p8)
                    else print_members pv xs
                      (move len2 (put ((if xs \<noteq> [] then [0x2c] else []) @ (if fmt p8 then [10] else []) @ [0]) p8))
                  }
                }
              })"

definition print_object :: "'f item_printer \<Rightarrow> 'f cJSON list \<Rightarrow> printbuffer \<Rightarrow> printed" where
  "print_object pv ch p =
     (let len = (if fmt p then 2 else 1); (ok, p1) = ensure p (len + 1)
      in if \<not> ok then Some (False, p1)
         else let p2 = put ([0x7b] @ (if fmt p1 then [10] else [])) p1;
                  p3 = move len (p2\<lparr> pdepth := pdepth p2 + 1 \<rparr>)
           in do {
             (ok2, p4) \<leftarrow> print_members pv ch p3;
             if \<not> ok2 then Some (False, p4)
             else let (ok3, p5) = ensure p4 (if fmt p4 then pdepth p4 + 1 else 2)
               in if \<not> ok3 then Some (False, p5)
                  else let p6 = put ((if fmt p5 then replicate (pdepth p5 - 1) 9 else []) @ [0x7d, 0]) p5
                    in Some (True, p6\<lparr> pdepth := pdepth p6 - 1 \<rparr>)
           })"

text \<open>\<^verbatim>\<open>ensure\<close> and a \<^verbatim>\<open>strcpy\<close> of the given text.\<close>

definition print_text :: "byte list \<Rightarrow> printbuffer \<Rightarrow> printed" where
  "print_text t p =
     (let (ok, p1) = ensure p (length t + 1)
      in if \<not> ok then Some (False, p1) else Some (True, put (t @ [0]) p1))"

lemma print_elements_cong [fundef_cong]:
  "xs = ys \<Longrightarrow> p = q \<Longrightarrow> (\<And>x p. x \<in> set ys \<Longrightarrow> f x p = g x p) \<Longrightarrow> print_elements f xs p = print_elements g ys q"
  by (induction ys arbitrary: xs p q) (auto simp: Let_def split: prod.split intro!: Option.bind_cong)

lemma print_members_cong [fundef_cong]:
  "xs = ys \<Longrightarrow> p = q \<Longrightarrow> (\<And>x p. x \<in> set ys \<Longrightarrow> f x p = g x p) \<Longrightarrow> print_members f xs p = print_members g ys q"
  by (induction ys arbitrary: xs p q) (auto simp: Let_def split: prod.split intro!: Option.bind_cong)

lemma print_array_cong [fundef_cong]:
  assumes "xs = ys" "p = q" "\<And>x p. x \<in> set ys \<Longrightarrow> f x p = g x p"
  shows "print_array f xs p = print_array g ys q"
proof -
  have "print_elements f ys = print_elements g ys"
    using assms(3) by (intro ext print_elements_cong) auto
  then show ?thesis unfolding print_array_def by (simp only: assms(1,2))
qed

lemma print_object_cong [fundef_cong]:
  assumes "xs = ys" "p = q" "\<And>x p. x \<in> set ys \<Longrightarrow> f x p = g x p"
  shows "print_object f xs p = print_object g ys q"
proof -
  have "print_members f ys = print_members g ys"
    using assms(3) by (intro ext print_members_cong) auto
  then show ?thesis unfolding print_object_def by (simp only: assms(1,2))
qed

fun print_value :: "'f dbl_ops \<Rightarrow> 'f cJSON \<Rightarrow> printbuffer \<Rightarrow> printed" where
  "print_value fo (CJSON ty vs vi vd s ch) p =
     (let k = ty AND 0xff
      in if k = cJSON_NULL then print_text (bytes_of ''null'') p
         else if k = cJSON_False then print_text (bytes_of ''false'') p
         else if k = cJSON_True then print_text (bytes_of ''true'') p
         else if k = cJSON_Number then Some (print_number fo (CJSON ty vs vi vd s ch) p)
         else if k = cJSON_Raw then (case vs of None \<Rightarrow> Some (False, p) | Some raw \<Rightarrow> print_text raw p)
         else if k = cJSON_String then Some (print_string (CJSON ty vs vi vd s ch) p)
         else if k = cJSON_Array then print_array (\<lambda>x p. print_value fo x p) ch p
         else if k = cJSON_Object then print_object (\<lambda>x p. print_value fo x p) ch p
         else Some (False, p))"

declare print_value.simps [simp del]

section \<open>Entry points\<close>

text \<open>
  \<^verbatim>\<open>print\<close> returns the text with its terminator, at the final size; the two reallocation branches
  have the same result.
\<close>

definition print :: "'f dbl_ops \<Rightarrow> 'f cJSON \<Rightarrow> bool \<Rightarrow> view \<Rightarrow> mem \<Rightarrow> byte list option option" where
  "print fo it format heap m =
     (let (ok, m1) = allocate m
      in if \<not> ok then Some None
         else do {
           (r, p) \<leftarrow> print_value fo it \<lparr> buffer = Some heap, plength = 256, poffset = 0, pdepth = 0, noalloc = False, fmt = format, phooks = m1 \<rparr>;
           if \<not> r then Some None
           else do {
             p1 \<leftarrow> update_offset p;
             case buffer p1 of
               None \<Rightarrow> Some None
             | Some v \<Rightarrow> Some (if fst (allocate (phooks p1)) then Some (take_view (poffset p1 + 1) v) else None)
           }
         })"

definition cJSON_Print :: "'f dbl_ops \<Rightarrow> 'f cJSON \<Rightarrow> view \<Rightarrow> mem \<Rightarrow> byte list option option" where
  "cJSON_Print fo it heap m = print fo it True heap m"

definition cJSON_PrintUnformatted :: "'f dbl_ops \<Rightarrow> 'f cJSON \<Rightarrow> view \<Rightarrow> mem \<Rightarrow> byte list option option" where
  "cJSON_PrintUnformatted fo it heap m = print fo it False heap m"

definition cJSON_PrintPreallocated ::
    "'f dbl_ops \<Rightarrow> 'f cJSON \<Rightarrow> view option \<Rightarrow> int \<Rightarrow> bool \<Rightarrow> mem \<Rightarrow> (bool \<times> view option) option" where
  "cJSON_PrintPreallocated fo it buf len format m =
     (if len < 0 \<or> buf = None then Some (False, buf)
      else map_option (\<lambda>(r, p). (r, buffer p))
        (print_value fo it \<lparr> buffer = buf, plength = nat len, poffset = 0, pdepth = 0, noalloc = True, fmt = format, phooks = m \<rparr>))"

end
