(* ===== verification/Cjson_Render.thy ===== *)
theory Cjson_Render
  imports Cjson_Print
begin

text \<open>
  What the printer of \<^verbatim>\<open>cJSON.c\<close> writes. \<open>render\<close> is the JSON text of an item as a function of the
  tree alone; the printer, which works on a buffer with an offset, grows it and finds the end of
  what it wrote with \<^verbatim>\<open>strlen\<close>, writes exactly that text.
\<close>

section \<open>The text of an item\<close>

fun join :: "byte list \<Rightarrow> byte list list \<Rightarrow> byte list" where
  "join sep [] = []"
| "join sep [x] = x"
| "join sep (x # y # xs) = x @ sep @ join sep (y # xs)"

definition quoted :: "byte list option \<Rightarrow> byte list" where
  "quoted s = 0x22 # (case s of None \<Rightarrow> [] | Some bs \<Rightarrow> concat (map escaped bs)) @ [0x22]"

definition tabs :: "bool \<Rightarrow> nat \<Rightarrow> byte list" where
  "tabs f d = (if f then replicate d 9 else [])"

definition if_fmt :: "bool \<Rightarrow> byte list \<Rightarrow> byte list" where
  "if_fmt f t = (if f then t else [])"

fun render :: "'f dbl_ops \<Rightarrow> bool \<Rightarrow> nat \<Rightarrow> 'f cJSON \<Rightarrow> byte list" where
  "render fo f d (CJSON ty vs vi vd s ch) =
     (let k = ty AND 0xff
      in if k = cJSON_NULL then bytes_of ''null''
         else if k = cJSON_False then bytes_of ''false''
         else if k = cJSON_True then bytes_of ''true''
         else if k = cJSON_Number then number_text fo (CJSON ty vs vi vd s ch)
         else if k = cJSON_Raw then (case vs of None \<Rightarrow> [] | Some raw \<Rightarrow> raw)
         else if k = cJSON_String then quoted vs
         else if k = cJSON_Array then
           [0x5b] @ join ([0x2c] @ if_fmt f [0x20]) (map (\<lambda>x. render fo f (d + 1) x) ch) @ [0x5d]
         else
           [0x7b] @ if_fmt f [10] @
           join ([0x2c] @ if_fmt f [10])
             (map (\<lambda>x. tabs f (d + 1) @ quoted (item_string x) @ [0x3a] @ if_fmt f [9] @ render fo f (d + 1) x) ch) @
           if_fmt (f \<and> ch \<noteq> []) [10] @ tabs f d @ [0x7d])"

text \<open>The items that have a text: every kind is one of the eight, numbers fit in the buffer of 26 bytes.\<close>

fun printable :: "'f dbl_ops \<Rightarrow> 'f cJSON \<Rightarrow> bool" where
  "printable fo (CJSON ty vs vi vd s ch) \<longleftrightarrow>
     (let k = ty AND 0xff
      in k \<in> {cJSON_NULL, cJSON_False, cJSON_True, cJSON_String}
         \<or> k = cJSON_Number \<and> length (number_text fo (CJSON ty vs vi vd s ch)) \<le> 25
         \<or> k = cJSON_Raw \<and> vs \<noteq> None
         \<or> k \<in> {cJSON_Array, cJSON_Object} \<and> (\<forall>x \<in> set ch. printable fo x))"

declare render.simps [simp del] printable.simps [simp del]

section \<open>Room in the buffer\<close>

definition cap :: "printbuffer \<Rightarrow> nat" where
  "cap p = (if noalloc p then plength p else nat INT_MAX)"

definition space :: "printbuffer \<Rightarrow> nat \<Rightarrow> bool" where
  "space p n \<longleftrightarrow> buffer p \<noteq> None \<and> poffset p < plength p \<and> plength p \<le> nat INT_MAX \<and>
     (noalloc p \<or> phooks p = []) \<and> poffset p + n \<le> cap p"

lemma space_less: "space p n \<Longrightarrow> k \<le> n \<Longrightarrow> space p k"
  by (auto simp: space_def)

lemma ensure_space:
  assumes "space p (n + 1)"
  shows "\<exists>L. ensure p n = (True, p\<lparr> plength := L \<rparr>) \<and> poffset p + n + 1 \<le> L \<and> L \<le> nat INT_MAX
     \<and> (noalloc p \<longrightarrow> L = plength p)"
proof -
  have eq: "p\<lparr> plength := plength p \<rparr> = p" "phooks p = [] \<Longrightarrow> p\<lparr> plength := L, phooks := [] \<rparr> = p\<lparr> plength := L \<rparr>" for L
    by simp_all
  have n: "poffset p + n + 1 \<le> nat INT_MAX" "n \<le> nat INT_MAX"
    using assms by (auto simp: space_def cap_def split: if_splits)
  have a: "add32 n (poffset p + 1) = poffset p + n + 1"
    using n by (subst add32_small) simp_all
  show ?thesis
  proof (cases "poffset p + n + 1 \<le> plength p")
    case True
    then show ?thesis using assms n a unfolding ensure_def Let_def
      by (intro exI [of _ "plength p"]) (auto simp: space_def eq)
  next
    case False
    then have na: "\<not> noalloc p" and h: "phooks p = []" using assms by (auto simp: space_def cap_def)
    show ?thesis using assms n a False na h unfolding ensure_def Let_def
      by (auto simp: space_def eq)
  qed
qed

section \<open>What has been written\<close>

definition wrote :: "printbuffer \<Rightarrow> byte list \<Rightarrow> printbuffer \<Rightarrow> bool" where
  "wrote p t q \<longleftrightarrow> (\<exists>v w. buffer p = Some v \<and> buffer q = Some w \<and>
     poffset q = poffset p + length t \<and> poffset q < plength q \<and> plength q \<le> nat INT_MAX \<and>
     noalloc q = noalloc p \<and> fmt q = fmt p \<and> phooks q = phooks p \<and> (noalloc p \<longrightarrow> plength q = plength p) \<and>
     (\<forall>i < length t. w (poffset p + i) = t ! i) \<and> (\<forall>i < poffset p. w i = v i) \<and> (\<forall>i \<ge> cap p. w i = v i))"

lemma wrote_depth [simp]: "wrote p t (q\<lparr> pdepth := d \<rparr>) = wrote p t q" "wrote (p\<lparr> pdepth := d \<rparr>) t q = wrote p t q"
  by (simp_all add: wrote_def cap_def)

lemma cap_wrote: "wrote p t q \<Longrightarrow> cap q = cap p"
  by (auto simp: wrote_def cap_def)

lemma wrote_Nil: "space p 0 \<Longrightarrow> wrote p [] p"
  by (auto simp: wrote_def space_def)

lemma wrote_append:
  assumes 1: "wrote p t q" and 2: "wrote q u r"
  shows "wrote p (t @ u) r"
proof -
  have c: "cap q = cap p" by (rule cap_wrote [OF 1])
  obtain v w x where vw: "buffer p = Some v" "buffer q = Some w" "buffer r = Some x"
    using 1 2 by (auto simp: wrote_def)
  have t: "w (poffset p + i) = t ! i" if "i < length t" for i using 1 vw that by (auto simp: wrote_def)
  have off: "poffset q = poffset p + length t" using 1 by (auto simp: wrote_def)
  have u: "x (poffset q + i) = u ! i" if "i < length u" for i using 2 vw that by (auto simp: wrote_def)
  have w: "x i = w i" if "i < poffset q" for i using 2 vw that by (auto simp: wrote_def)
  have "x (poffset p + i) = (t @ u) ! i" if "i < length (t @ u)" for i
    using t [of i] u [of "i - length t"] w [of "poffset p + i"] that by (auto simp: nth_append off)
  then show ?thesis using 1 2 vw off by (auto simp: wrote_def c)
qed

lemma space_wrote:
  assumes "wrote p t q" "space p (length t + n)"
  shows "space q n"
  using assms cap_wrote [OF assms(1)] by (auto simp: wrote_def space_def)

text \<open>One call of \<^verbatim>\<open>ensure\<close> with the stores that follow it: all of \<open>t\<close> but what the offset does not pass.\<close>

lemma emit:
  assumes s: "space p (n + 1)" and n: "length t \<le> n" "length z \<le> 1"
  shows "\<exists>L. ensure p n = (True, p\<lparr> plength := L \<rparr>) \<and> wrote p t (move (length t) (put (t @ z) (p\<lparr> plength := L \<rparr>)))"
proof -
  obtain v where v: "buffer p = Some v" using s by (auto simp: space_def)
  obtain L where L: "ensure p n = (True, p\<lparr> plength := L \<rparr>)" "poffset p + n + 1 \<le> L" "L \<le> nat INT_MAX"
    "noalloc p \<longrightarrow> L = plength p" using ensure_space [OF s] by auto
  have "poffset p + n + 1 \<le> cap p" using s by (simp add: space_def)
  then have "wrote p t (move (length t) (put (t @ z) (p\<lparr> plength := L \<rparr>)))"
    using v L n by (auto simp: wrote_def move_def put_def store_def nth_append)
  with L(1) show ?thesis by auto
qed

text \<open>After a text with its terminator \<^verbatim>\<open>update_offset\<close> finds the end.\<close>

lemma update_offset_put:
  assumes "buffer p \<noteq> None" "0 \<notin> set t"
  shows "update_offset (put (t @ [0]) p) = Some (move (length t) (put (t @ [0]) p))"
proof -
  from assms obtain v where v: "buffer p = Some v" by auto
  have "strlen (advance (store v (poffset p) (t @ [0])) (poffset p)) = Some (length t)"
    by (rule strlen_eq) (use assms(2) in \<open>auto simp: store_def nth_append dest: nth_mem\<close>)
  then show ?thesis by (simp add: update_offset_def put_def v)
qed

lemma update_offset_put_moved:
  assumes "buffer p \<noteq> None"
  shows "update_offset (move (length t) (put (t @ [0]) p)) = Some (move (length t) (put (t @ [0]) p))"
proof -
  from assms obtain v where v: "buffer p = Some v" by auto
  have "strlen (advance (store v (poffset p) (t @ [0])) (poffset p + length t)) = Some 0"
    by (rule strlen_eq) (simp_all add: store_def nth_append)
  then show ?thesis by (simp add: update_offset_def put_def v move_def)
qed

lemma update_offset_depth: "update_offset (p\<lparr> pdepth := d \<rparr>) = map_option (\<lambda>q. q\<lparr> pdepth := d \<rparr>) (update_offset p)"
  by (auto simp: update_offset_def move_def split: option.split Option.bind_split)

section \<open>The printer writes the text\<close>

definition prints :: "printed \<Rightarrow> printbuffer \<Rightarrow> byte list \<Rightarrow> bool" where
  "prints r p t \<longleftrightarrow> (\<exists>p' q. r = Some (True, p') \<and> update_offset p' = Some q \<and> wrote p t q \<and> pdepth q = pdepth p)"

lemma printsI: "r = Some (True, p') \<Longrightarrow> update_offset p' = Some q \<Longrightarrow> wrote p t q \<Longrightarrow> pdepth q = pdepth p \<Longrightarrow> prints r p t"
  by (auto simp: prints_def)

lemma emit_text:
  assumes s: "space p (length t + 2)" and t: "0 \<notin> set t"
  obtains L where "ensure p (length t + 1) = (True, p\<lparr> plength := L \<rparr>)"
    "wrote p t (move (length t) (put (t @ [0]) (p\<lparr> plength := L \<rparr>)))"
    "update_offset (put (t @ [0]) (p\<lparr> plength := L \<rparr>)) = Some (move (length t) (put (t @ [0]) (p\<lparr> plength := L \<rparr>)))"
proof -
  have "buffer p \<noteq> None" using s by (simp add: space_def)
  then show thesis using emit [of p "length t + 1" t "[0]"] s update_offset_put [OF _ t] that by auto
qed

lemma depth_put [simp]: "pdepth (put t p) = pdepth p" "pdepth (move n p) = pdepth p" "fmt (put t p) = fmt p" "fmt (move n p) = fmt p"
  by (simp_all add: put_def move_def)

lemma print_text_prints:
  assumes "space p (length t + 2)" "0 \<notin> set t"
  shows "prints (print_text t p) p t"
  by (rule emit_text [OF assms]) (auto simp: print_text_def intro!: printsI)

lemma map_decimal_point: "map (\<lambda>c. if c = get_decimal_point then 0x2e else c) t = t"
  by (induction t) (auto simp: get_decimal_point_def)

lemma print_number_prints:
  assumes "space p (length (number_text fo it) + 2)" "0 \<notin> set (number_text fo it)" "length (number_text fo it) \<le> 25"
  shows "prints (Some (print_number fo it p)) p (number_text fo it)"
proof -
  obtain L where L: "ensure p (length (number_text fo it) + 1) = (True, p\<lparr> plength := L \<rparr>)"
    and w: "wrote p (number_text fo it) (move (length (number_text fo it)) (put (number_text fo it @ [0]) (p\<lparr> plength := L \<rparr>)))"
    by (rule emit_text [OF assms(1,2)])
  have "buffer (p\<lparr> plength := L \<rparr>) \<noteq> None" using assms(1) by (simp add: space_def)
  then show ?thesis using L w assms(3) update_offset_put_moved
    by (intro printsI [OF _ update_offset_put_moved w]) (simp_all add: print_number_def Let_def map_decimal_point)
qed

lemma escape_count_escaped: "length (escaped c) = 1 + escape_count c"
  by (auto simp: escaped_def escape_count_def escape_of_def word_less_nat_alt)

lemma length_escaped: "length (concat (map escaped s)) = length s + sum_list (map escape_count s)"
  by (induction s) (simp_all add: escape_count_escaped)

lemma escaped_plain: "escape_count c = 0 \<Longrightarrow> escaped c = [c]"
  by (auto simp: escaped_def escape_count_def word_less_nat_alt split: if_splits)

lemma concat_escaped_plain: "sum_list (map escape_count s) = 0 \<Longrightarrow> concat (map escaped s) = s"
  by (induction s) (simp_all add: escaped_plain)

lemma print_string_prints:
  assumes "space p (length (quoted s) + 2)" "0 \<notin> set (quoted s)"
  shows "prints (Some (print_string_ptr s p)) p (quoted s)"
proof -
  obtain L where L: "ensure p (length (quoted s) + 1) = (True, p\<lparr> plength := L \<rparr>)"
    and w: "wrote p (quoted s) (move (length (quoted s)) (put (quoted s @ [0]) (p\<lparr> plength := L \<rparr>)))"
    and u: "update_offset (put (quoted s @ [0]) (p\<lparr> plength := L \<rparr>)) = Some (move (length (quoted s)) (put (quoted s @ [0]) (p\<lparr> plength := L \<rparr>)))"
    by (rule emit_text [OF assms])
  have "print_string_ptr s p = (True, put (quoted s @ [0]) (p\<lparr> plength := L \<rparr>))"
    using L by (cases s) (auto simp: print_string_ptr_def quoted_def Let_def length_escaped concat_escaped_plain numeral_3_eq_3)
  then show ?thesis by (intro printsI [OF _ u w]) simp_all
qed

text \<open>A printer for items that writes the text \<open>g x\<close> wherever there is room for it.\<close>

definition renders :: "'f item_printer \<Rightarrow> bool \<Rightarrow> nat \<Rightarrow> ('f cJSON \<Rightarrow> byte list) \<Rightarrow> 'f cJSON \<Rightarrow> bool" where
  "renders pv f d g x \<longleftrightarrow>
     (\<forall>p. fmt p = f \<longrightarrow> pdepth p = d \<longrightarrow> space p (length (g x) + 2) \<longrightarrow> 0 \<notin> set (g x) \<longrightarrow> prints (pv x p) p (g x))"

lemma wrote_fmt: "wrote p t q \<Longrightarrow> fmt q = fmt p"
  by (auto simp: wrote_def)

lemma prints_closed:
  "r = Some (True, p'\<lparr> pdepth := pdepth p \<rparr>) \<Longrightarrow> update_offset p' = Some q \<Longrightarrow> wrote p t q \<Longrightarrow> prints r p t"
  by (auto simp: update_offset_depth intro!: printsI)

lemma rendersD:
  assumes "renders pv f d g x" "fmt p = f" "pdepth p = d" "space p (length (g x) + 2)" "0 \<notin> set (g x)"
  obtains p' q where "pv x p = Some (True, p')" "update_offset p' = Some q" "wrote p (g x) q" "pdepth q = d" "fmt q = f"
proof -
  have "prints (pv x p) p (g x)" using assms by (simp add: renders_def)
  then show thesis using that assms(2,3) wrote_fmt unfolding prints_def by metis
qed

lemma fmt_plength [simp]: "fmt (p\<lparr> plength := L \<rparr>) = fmt p" "pdepth (p\<lparr> plength := L \<rparr>) = pdepth p"
  by simp_all

lemma join_Cons: "join sep (x # xs) = (if xs = [] then x else x @ sep @ join sep xs)"
  by (cases xs) simp_all

lemma print_elements_writes:
  assumes "\<And>x. x \<in> set xs \<Longrightarrow> renders pv f d g x" and "fmt p = f" "pdepth p = d"
    and "space p (length (join ([0x2c] @ if_fmt f [0x20]) (map g xs)) + 2)"
    and "0 \<notin> set (join ([0x2c] @ if_fmt f [0x20]) (map g xs))"
  shows "\<exists>q. print_elements pv xs p = Some (True, q) \<and> wrote p (join ([0x2c] @ if_fmt f [0x20]) (map g xs)) q \<and> pdepth q = d"
  using assms
proof (induction xs arbitrary: p)
  case Nil
  then show ?case by (auto intro: wrote_Nil space_less)
next
  case (Cons x xs)
  let ?sep = "[0x2c] @ if_fmt f [0x20]" and ?t = "join ([0x2c] @ if_fmt f [0x20]) (map g xs)"
  have sx: "space p (length (g x) + 2)" using Cons.prems(4) by (rule space_less) (simp add: join_Cons)
  obtain p' q where q: "pv x p = Some (True, p')" "update_offset p' = Some q" "wrote p (g x) q" "pdepth q = d" "fmt q = f"
    by (rule rendersD [OF Cons.prems(1) Cons.prems(2,3) sx]) (use Cons.prems(5) in \<open>auto simp: join_Cons split: if_splits\<close>)
  show ?case
  proof (cases "xs = []")
    case True
    then show ?thesis using q by simp
  next
    case False
    have sq: "space q (length ?sep + length ?t + 2)"
      by (rule space_wrote [OF q(3)]) (use Cons.prems(4) False in \<open>simp add: join_Cons add.assoc\<close>)
    obtain L where L: "ensure q (length ?sep + 1) = (True, q\<lparr> plength := L \<rparr>)"
      and w: "wrote q ?sep (move (length ?sep) (put (?sep @ [0]) (q\<lparr> plength := L \<rparr>)))"
      using emit [of q "length ?sep + 1" ?sep "[0]"] space_less [OF sq] by auto
    let ?r = "move (length ?sep) (put (?sep @ [0]) (q\<lparr> plength := L \<rparr>))"
    have "space ?r (length ?t + 2)" by (rule space_wrote [OF w]) (use sq in \<open>simp add: add.assoc\<close>)
    then obtain s where s: "print_elements pv xs ?r = Some (True, s)" "wrote ?r ?t s" "pdepth s = d"
      using Cons.IH [of ?r] Cons.prems(1,5) False q(4,5) wrote_fmt [OF w] by (auto simp: join_Cons)
    have "print_elements pv (x # xs) p = print_elements pv xs ?r"
      using q L False by (cases f) (simp_all add: if_fmt_def numeral_2_eq_2 numeral_3_eq_3)
    then show ?thesis using s False wrote_append [OF q(3) wrote_append [OF w s(2)]] by (simp add: join_Cons)
  qed
qed

lemma print_array_prints:
  assumes "\<And>x. x \<in> set ch \<Longrightarrow> renders pv (fmt p) (pdepth p + 1) g x"
  defines "t \<equiv> join ([0x2c] @ if_fmt (fmt p) [0x20]) (map g ch)"
  assumes s: "space p (length ([0x5b] @ t @ [0x5d]) + 2)" and z: "0 \<notin> set ([0x5b] @ t @ [0x5d])"
  shows "prints (print_array pv ch p) p ([0x5b] @ t @ [0x5d])"
proof -
  obtain L where L: "ensure p 1 = (True, p\<lparr> plength := L \<rparr>)"
    and w: "wrote p [0x5b] (move 1 (put [0x5b] (p\<lparr> plength := L \<rparr>)))"
    using emit [of p 1 "[0x5b]" "[]"] space_less [OF s] by auto
  let ?q = "(move 1 (put [0x5b] (p\<lparr> plength := L \<rparr>)))\<lparr> pdepth := pdepth p + 1 \<rparr>"
  have w: "wrote p [0x5b] ?q" using w by simp
  have sq: "space ?q (length t + 1 + 2)" by (rule space_wrote [OF w]) (use s in \<open>simp add: add.assoc\<close>)
  obtain r where r: "print_elements pv ch ?q = Some (True, r)" "wrote ?q t r" "pdepth r = pdepth p + 1"
    using print_elements_writes [OF assms(1), of ch ?q] space_less [OF sq] z wrote_fmt [OF w]
    unfolding t_def by auto
  have "space r (1 + 2)" by (rule space_wrote [OF r(2)]) (use sq in \<open>simp add: add.assoc\<close>)
  then obtain M where M: "ensure r (length [0x5d :: byte] + 1) = (True, r\<lparr> plength := M \<rparr>)"
    "wrote r [0x5d] (move (length [0x5d :: byte]) (put ([0x5d] @ [0]) (r\<lparr> plength := M \<rparr>)))"
    "update_offset (put ([0x5d] @ [0]) (r\<lparr> plength := M \<rparr>)) = Some (move (length [0x5d :: byte]) (put ([0x5d] @ [0]) (r\<lparr> plength := M \<rparr>)))"
    using emit_text [of r "[0x5d]"] by auto
  have "print_array pv ch p = Some (True, (put ([0x5d] @ [0]) (r\<lparr> plength := M \<rparr>))\<lparr> pdepth := pdepth p \<rparr>)"
    using L r M(1) by (simp add: print_array_def Let_def numeral_2_eq_2)
  then show ?thesis by (rule prints_closed [OF _ M(3) wrote_append [OF w wrote_append [OF r(2) M(2)]]])
qed

lemma print_indent_writes:
  assumes "space p (length (tabs (fmt p) (pdepth p)) + 1)"
  obtains q where "print_indent p = (True, q)" "wrote p (tabs (fmt p) (pdepth p)) q" "pdepth q = pdepth p" "fmt q = fmt p"
proof (cases "fmt p")
  case True
  obtain L where "ensure p (pdepth p) = (True, p\<lparr> plength := L \<rparr>)"
    "wrote p (replicate (pdepth p) 9) (move (pdepth p) (put (replicate (pdepth p) 9) (p\<lparr> plength := L \<rparr>)))"
    using emit [of p "pdepth p" "replicate (pdepth p) 9" "[]"] assms True by (auto simp: tabs_def)
  then show thesis
    by (intro that [of "move (pdepth p) (put (replicate (pdepth p) 9) (p\<lparr> plength := L \<rparr>))"])
      (simp_all add: True print_indent_def tabs_def)
next
  case False
  then show thesis using assms by (intro that) (auto simp: print_indent_def tabs_def intro: wrote_Nil space_less)
qed

text \<open>The part of a member in front of its value.\<close>

lemma member_name_writes:
  assumes "fmt p = f" "pdepth p = d" and s: "space p (length (tabs f d @ quoted s @ [0x3a] @ if_fmt f [9]) + 1)"
    and z: "0 \<notin> set (quoted s)"
  obtains p1 p2 p3 L q where "print_indent p = (True, p1)" "print_string_ptr s p1 = (True, p2)" "update_offset p2 = Some p3"
    "ensure p3 (if f then 2 else 1) = (True, p3\<lparr> plength := L \<rparr>)" "fmt p3 = f"
    "move (if f then 2 else 1) (put ([0x3a] @ (if f then [9] else [])) (p3\<lparr> plength := L \<rparr>)) = q"
    "wrote p (tabs f d @ quoted s @ [0x3a] @ if_fmt f [9]) q" "fmt q = f" "pdepth q = d"
proof -
  have "space p (length (tabs (fmt p) (pdepth p)) + 1)" using s by (rule space_less) (simp add: assms)
  then obtain p1 where p1: "print_indent p = (True, p1)" "wrote p (tabs f d) p1" "pdepth p1 = d" "fmt p1 = f"
    using print_indent_writes [of p] assms by metis
  have s1: "space p1 (length (quoted s) + (length (if_fmt f [9 :: byte]) + 2))"
    by (rule space_wrote [OF p1(2)]) (use s in \<open>simp add: add.assoc\<close>)
  obtain p2 p3 where p2: "print_string_ptr s p1 = (True, p2)" "update_offset p2 = Some p3" "wrote p1 (quoted s) p3" "pdepth p3 = d"
    using print_string_prints [OF space_less [OF s1] z] p1 by (auto simp: prints_def)
  let ?c = "[0x3a] @ if_fmt f [9]"
  have s3: "space p3 (length ?c + 1)" using space_wrote [OF p2(3) s1] by simp
  obtain L where L: "ensure p3 (length ?c) = (True, p3\<lparr> plength := L \<rparr>)"
    and w: "wrote p3 ?c (move (length ?c) (put ?c (p3\<lparr> plength := L \<rparr>)))"
    using emit [OF s3, of ?c "[]"] by auto
  have c: "length ?c = (if f then 2 else 1)" "?c = [0x3a] @ (if f then [9] else [])" by (simp_all add: if_fmt_def)
  show thesis
    by (rule that [OF p1(1) p2(1,2) _ _ _ wrote_append [OF p1(2) wrote_append [OF p2(3) w]]])
      (use L c wrote_fmt [OF w] wrote_fmt [OF p2(3)] p1 p2(4) in simp_all)
qed

definition members_text :: "bool \<Rightarrow> nat \<Rightarrow> ('f cJSON \<Rightarrow> byte list) \<Rightarrow> 'f cJSON list \<Rightarrow> byte list" where
  "members_text f d g xs =
     join ([0x2c] @ if_fmt f [10]) (map (\<lambda>x. tabs f d @ quoted (item_string x) @ [0x3a] @ if_fmt f [9] @ g x) xs)
     @ if_fmt (f \<and> xs \<noteq> []) [10]"

lemma members_text_Cons:
  "members_text f d g (x # xs) = (tabs f d @ quoted (item_string x) @ [0x3a] @ if_fmt f [9]) @ g x @
     (if xs \<noteq> [] then [0x2c] else []) @ if_fmt f [10] @ members_text f d g xs"
  by (simp add: members_text_def join_Cons if_fmt_def)

lemma print_members_writes:
  assumes "\<And>x. x \<in> set xs \<Longrightarrow> renders pv f d g x" and "fmt p = f" "pdepth p = d"
    and "space p (length (members_text f d g xs) + 2)" and "0 \<notin> set (members_text f d g xs)"
  shows "\<exists>q. print_members pv xs p = Some (True, q) \<and> wrote p (members_text f d g xs) q \<and> pdepth q = d"
  using assms
proof (induction xs arbitrary: p)
  case Nil
  then show ?case by (auto simp: members_text_def if_fmt_def intro: wrote_Nil space_less)
next
  case (Cons x xs)
  let ?n = "tabs f d @ quoted (item_string x) @ [0x3a] @ if_fmt f [9]"
  let ?e = "(if xs \<noteq> [] then [0x2c] else []) @ if_fmt f [10]" and ?t = "members_text f d g xs"
  have z: "0 \<notin> set (quoted (item_string x))" "0 \<notin> set (g x)" "0 \<notin> set ?t"
    using Cons.prems(5) by (auto simp: members_text_Cons)
  have sp: "space p (length ?n + (length (g x) + (length ?e + (length ?t + 2))))"
    using Cons.prems(4) by (simp add: members_text_Cons add.assoc)
  obtain p1 p2 p3 L q where n: "print_indent p = (True, p1)" "print_string_ptr (item_string x) p1 = (True, p2)" "update_offset p2 = Some p3"
    "ensure p3 (if f then 2 else 1) = (True, p3\<lparr> plength := L \<rparr>)" "fmt p3 = f"
    "move (if f then 2 else 1) (put ([0x3a] @ (if f then [9] else [])) (p3\<lparr> plength := L \<rparr>)) = q"
    "wrote p ?n q" "fmt q = f" "pdepth q = d"
    by (rule member_name_writes [OF Cons.prems(2,3) space_less [OF sp] z(1)]) auto
  have sq: "space q (length (g x) + (length ?e + (length ?t + 2)))" by (rule space_wrote [OF n(7) sp])
  obtain q' r where r: "pv x q = Some (True, q')" "update_offset q' = Some r" "wrote q (g x) r" "pdepth r = d" "fmt r = f"
    by (rule rendersD [OF Cons.prems(1) n(8,9) space_less [OF sq] z(2)]) auto
  have sr: "space r (length ?e + (length ?t + 2))" by (rule space_wrote [OF r(3) sq])
  obtain M where M: "ensure r (length ?e + 1) = (True, r\<lparr> plength := M \<rparr>)"
    and w: "wrote r ?e (move (length ?e) (put (?e @ [0]) (r\<lparr> plength := M \<rparr>)))"
    using emit [OF space_less [OF sr], of "length ?e + 1" ?e "[0]"] by auto
  let ?s = "move (length ?e) (put (?e @ [0]) (r\<lparr> plength := M \<rparr>))"
  have "\<exists>s. print_members pv xs ?s = Some (True, s) \<and> wrote ?s ?t s \<and> pdepth s = d"
    by (rule Cons.IH [OF Cons.prems(1) _ _ space_wrote [OF w sr] z(3)]) (use r in simp_all)
  then obtain s where s: "print_members pv xs ?s = Some (True, s)" "wrote ?s ?t s" "pdepth s = d" by auto
  have e: "length ?e = (if f then 1 else 0) + (if xs \<noteq> [] then 1 else 0)" by (simp add: if_fmt_def)
  have "print_members pv (x # xs) p = print_members pv xs ?s"
    using n r M unfolding e by (cases f) (simp_all add: if_fmt_def)
  then show ?case using s wrote_append [OF n(7) wrote_append [OF r(3) wrote_append [OF w s(2)]]]
    by (auto simp: members_text_Cons)
qed

lemma print_object_prints:
  assumes "\<And>x. x \<in> set ch \<Longrightarrow> renders pv (fmt p) (pdepth p + 1) g x"
  defines "br \<equiv> [0x7b] @ if_fmt (fmt p) [10]" and "t \<equiv> members_text (fmt p) (pdepth p + 1) g ch"
    and "c \<equiv> tabs (fmt p) (pdepth p) @ [0x7d]"
  assumes s: "space p (length (br @ t @ c) + 2)" and z: "0 \<notin> set (br @ t @ c)"
  shows "prints (print_object pv ch p) p (br @ t @ c)"
proof -
  have br: "length br = (if fmt p then 2 else 1)" "br = [0x7b] @ (if fmt p then [10] else [])"
    by (simp_all add: br_def if_fmt_def)
  have sp: "space p (length br + (length t + (length c + 2)))" using s by (simp add: add.assoc)
  obtain L where L: "ensure p (length br + 1) = (True, p\<lparr> plength := L \<rparr>)"
    and w: "wrote p br (move (length br) (put br (p\<lparr> plength := L \<rparr>)))"
    using emit [OF space_less [OF sp], of "length br + 1" br "[]"] by (auto simp: c_def)
  let ?q = "move (length br) ((put br (p\<lparr> plength := L \<rparr>))\<lparr> pdepth := pdepth p + 1 \<rparr>)"
  have "?q = (move (length br) (put br (p\<lparr> plength := L \<rparr>)))\<lparr> pdepth := pdepth p + 1 \<rparr>" by (simp add: move_def)
  then have w: "wrote p br ?q" using w by simp
  have sq: "space ?q (length t + (length c + 2))" by (rule space_wrote [OF w sp])
  have "\<exists>r. print_members pv ch ?q = Some (True, r) \<and> wrote ?q t r \<and> pdepth r = pdepth p + 1"
    unfolding t_def by (rule print_members_writes [OF assms(1)]) (use space_less [OF sq] z in \<open>simp_all add: t_def\<close>)
  then obtain r where r: "print_members pv ch ?q = Some (True, r)" "wrote ?q t r" "pdepth r = pdepth p + 1" by auto
  have f: "fmt r = fmt p" using wrote_fmt [OF r(2)] by simp
  obtain M where M: "ensure r (length c + 1) = (True, r\<lparr> plength := M \<rparr>)"
    "wrote r c (move (length c) (put (c @ [0]) (r\<lparr> plength := M \<rparr>)))"
    "update_offset (put (c @ [0]) (r\<lparr> plength := M \<rparr>)) = Some (move (length c) (put (c @ [0]) (r\<lparr> plength := M \<rparr>)))"
    by (rule emit_text [OF space_wrote [OF r(2) sq]]) (use z in auto)
  have c: "length c + 1 = (if fmt p then pdepth r + 1 else 2)" "c @ [0] = (if fmt p then replicate (pdepth r - 1) 9 else []) @ [0x7d, 0]"
    by (simp_all add: c_def tabs_def r(3))
  have "print_object pv ch p = Some (True, (put (c @ [0]) (r\<lparr> plength := M \<rparr>))\<lparr> pdepth := pdepth p \<rparr>)"
    unfolding print_object_def Let_def using L r M(1) f unfolding c br
    by (cases "fmt p") (simp_all add: numeral_2_eq_2 numeral_3_eq_3)
  then show ?thesis by (rule prints_closed [OF _ M(3) wrote_append [OF w wrote_append [OF r(2) M(2)]]])
qed

lemma render_object:
  "ty AND 0xff = cJSON_Object \<Longrightarrow> render fo f d (CJSON ty vs vi vd s ch) =
     ([0x7b] @ if_fmt f [10]) @ members_text f (d + 1) (render fo f (d + 1)) ch @ (tabs f d @ [0x7d])"
  by (simp add: render.simps members_text_def Let_def)

lemma print_value_renders: "printable fo it \<Longrightarrow> renders (print_value fo) f d (render fo f d) it"
proof (induction it arbitrary: d)
  case (CJSON ty vs vi vd s ch)
  let ?it = "CJSON ty vs vi vd s ch" and ?k = "ty AND 0xff"
  have ch: "renders (\<lambda>x p. print_value fo x p) f (d + 1) (render fo f (d + 1)) x"
    if "x \<in> set ch" "?k \<in> {cJSON_Array, cJSON_Object}" for x
    using CJSON.IH [OF that(1)] CJSON.prems that by (auto simp: printable.simps Let_def)
  show ?case unfolding renders_def
  proof (intro allI impI)
    fix p assume p: "fmt p = f" "pdepth p = d" and s: "space p (length (render fo f d ?it) + 2)" and z: "0 \<notin> set (render fo f d ?it)"
    consider "?k \<in> {cJSON_NULL, cJSON_False, cJSON_True}" | "?k = cJSON_Number" "length (number_text fo ?it) \<le> 25"
      | r where "?k = cJSON_Raw" "vs = Some r" | "?k = cJSON_String" | "?k = cJSON_Array" | "?k = cJSON_Object"
      using CJSON.prems by (auto simp: printable.simps Let_def)
    then show "prints (print_value fo ?it p) p (render fo f d ?it)"
    proof cases
      case 1
      then show ?thesis using s z print_text_prints by (auto simp: print_value.simps render.simps)
    next
      case 2
      then show ?thesis using s z print_number_prints [of p fo ?it] by (simp add: print_value.simps render.simps)
    next
      case 3
      then show ?thesis using s z print_text_prints by (simp add: print_value.simps render.simps)
    next
      case 4
      then show ?thesis using s z print_string_prints [of p vs] by (simp add: print_value.simps render.simps print_string_def)
    next
      case 5
      then show ?thesis using s z p print_array_prints [of ch "print_value fo" p "render fo f (d + 1)"] ch
        by (simp add: print_value.simps render.simps)
    next
      case 6
      have e: "print_value fo ?it p = print_object (\<lambda>x p. print_value fo x p) ch p"
        using 6 by (simp add: print_value.simps)
      show ?thesis unfolding e render_object [OF 6] p [symmetric]
        by (rule print_object_prints) (use 6 ch s z in \<open>simp_all add: p render_object\<close>)
    qed
  qed
qed

section \<open>The entry points\<close>

lemma print_value_prints:
  "printable fo it \<Longrightarrow> space p (length (render fo (fmt p) (pdepth p) it) + 2) \<Longrightarrow> 0 \<notin> set (render fo (fmt p) (pdepth p) it) \<Longrightarrow>
     prints (print_value fo it p) p (render fo (fmt p) (pdepth p) it)"
  using print_value_renders [of fo it "fmt p" "pdepth p"] by (simp add: renders_def)

text \<open>What lies in memory after a print that began at offset 0.\<close>

lemma prints_memory:
  assumes "prints r p t" "poffset p = 0" "buffer p = Some v"
  obtains p' q w where "r = Some (True, p')" "update_offset p' = Some q" "buffer p' = Some w" "buffer q = Some w"
    "poffset q = length t" "phooks q = phooks p" "take_view (length t + 1) w = t @ [0]" "\<forall>i \<ge> cap p. w i = v i"
proof -
  obtain p' q where q: "r = Some (True, p')" "update_offset p' = Some q" "wrote p t q" using assms(1) by (auto simp: prints_def)
  then obtain w where w: "buffer q = Some w" "poffset q = length t" "\<forall>i < length t. w i = t ! i" "\<forall>i \<ge> cap p. w i = v i"
    "phooks q = phooks p" using assms by (auto simp: wrote_def)
  have w': "buffer p' = Some w" "w (length t) = 0"
    using q(2) w(1,2) by (auto simp: update_offset_def move_def split: option.splits Option.bind_splits dest!: strlen_Some)
  have "take_view (length t + 1) w = t @ [0]"
    by (rule nth_equalityI) (use w w' in \<open>auto simp: nth_append less_Suc_eq\<close>)
  then show thesis using that q w w' by metis
qed

lemma preallocated_text:
  assumes "printable fo it" and "0 \<notin> set (render fo f 0 it)"
    and "length (render fo f 0 it) + 2 \<le> nat len" and "len \<le> INT_MAX"
  shows "\<exists>w. cJSON_PrintPreallocated fo it (Some v) len f m = Some (True, Some w) \<and>
    take_view (length (render fo f 0 it) + 1) w = render fo f 0 it @ [0] \<and> (\<forall>i \<ge> nat len. w i = v i)"
proof -
  let ?t = "render fo f 0 it"
  let ?p = "\<lparr> buffer = Some v, plength = nat len, poffset = 0, pdepth = 0, noalloc = True, fmt = f, phooks = m \<rparr>"
  have "prints (print_value fo it ?p) ?p ?t"
    using print_value_prints [of fo it ?p] assms by (simp add: space_def cap_def nat_le_iff)
  then obtain p' w where "print_value fo it ?p = Some (True, p')" "buffer p' = Some w" "take_view (length ?t + 1) w = ?t @ [0]"
    "\<forall>i \<ge> cap ?p. w i = v i" by (rule prints_memory) auto
  then show ?thesis
    using assms(3) by (intro exI [of _ w]) (auto simp: cJSON_PrintPreallocated_def cap_def)
qed

lemma allocated_text:
  assumes "printable fo it" and "0 \<notin> set (render fo f 0 it)" and "length (render fo f 0 it) + 2 \<le> nat INT_MAX"
  shows "(if f then cJSON_Print fo it heap [] else cJSON_PrintUnformatted fo it heap []) = Some (Some (render fo f 0 it @ [0]))"
proof -
  let ?t = "render fo f 0 it"
  let ?p = "\<lparr> buffer = Some heap, plength = 256, poffset = 0, pdepth = 0, noalloc = False, fmt = f, phooks = [] \<rparr>"
  have "prints (print_value fo it ?p) ?p ?t"
    using print_value_prints [of fo it ?p] assms by (simp add: space_def cap_def nat_le_iff)
  then obtain p' q w where "print_value fo it ?p = Some (True, p')" "update_offset p' = Some q" "buffer q = Some w"
    "poffset q = length ?t" "phooks q = phooks ?p" "take_view (length ?t + 1) w = ?t @ [0]"
    by (rule prints_memory) auto
  then have "print fo it f heap [] = Some (Some (?t @ [0]))"
    by (simp add: print_def)
  then show "(if f then cJSON_Print fo it heap [] else cJSON_PrintUnformatted fo it heap []) = Some (Some (?t @ [0]))"
    by (cases f) (simp_all add: cJSON_Print_def cJSON_PrintUnformatted_def)
qed

lemmas unformatted_text = allocated_text [of _ _ False, unfolded if_False]

text \<open>
  C38. Printing writes exactly the JSON text of the tree. When the text is \<open>n\<close> bytes long,
  \<^verbatim>\<open>cJSON_PrintPreallocated\<close> succeeds in every buffer of at least \<open>n + 2\<close> bytes, leaves the text and
  its terminator at the start of the buffer and no byte behind the buffer changed; and with memory
  available \<^verbatim>\<open>cJSON_Print\<close> and \<^verbatim>\<open>cJSON_PrintUnformatted\<close> return the text with its terminator.
\<close>

theorem print_writes_text:
  assumes "printable fo it" and "0 \<notin> set (render fo f 0 it)"
    and "length (render fo f 0 it) + 2 \<le> nat len" and "len \<le> INT_MAX"
  shows "(\<exists>w. cJSON_PrintPreallocated fo it (Some v) len f m = Some (True, Some w) \<and>
            take_view (length (render fo f 0 it) + 1) w = render fo f 0 it @ [0] \<and> (\<forall>i \<ge> nat len. w i = v i)) \<and>
         (if f then cJSON_Print fo it heap [] else cJSON_PrintUnformatted fo it heap []) = Some (Some (render fo f 0 it @ [0]))"
proof
  show "\<exists>w. cJSON_PrintPreallocated fo it (Some v) len f m = Some (True, Some w) \<and>
            take_view (length (render fo f 0 it) + 1) w = render fo f 0 it @ [0] \<and> (\<forall>i \<ge> nat len. w i = v i)"
    by (rule preallocated_text [OF assms])
  show "(if f then cJSON_Print fo it heap [] else cJSON_PrintUnformatted fo it heap []) = Some (Some (render fo f 0 it @ [0]))"
    by (rule allocated_text) (use assms in auto)
qed

text \<open>
  Arithmetic on integers in the place of \<^verbatim>\<open>double\<close>, with the decimal notation of the C library:
  an instance of the operations on which the statements about numbers can be evaluated.
\<close>

definition digits :: "byte list \<Rightarrow> byte list" where
  "digits t = takeWhile (\<lambda>c. 0x30 \<le> c \<and> c \<le> 0x39) t"

definition decimal :: "byte list \<Rightarrow> int" where
  "decimal ds = foldl (\<lambda>v c. 10 * v + (int (unat c) - 0x30)) 0 ds"

definition strtol_int :: "byte list \<Rightarrow> int \<times> nat" where
  "strtol_int t = (case t of
     [] \<Rightarrow> (0, 0)
   | c # cs \<Rightarrow> if c = 0x2d then (if digits cs = [] then (0, 0) else (- decimal (digits cs), length (digits cs) + 1))
               else (decimal (digits t), length (digits t)))"

definition int_ops :: "int dbl_ops" where
  "int_ops = \<lparr> d_zero = 0, d_of_int = id, d_ge_int = (\<ge>), d_le_int = (\<le>), d_trunc = id, d_eq = (=),
     d_finite = (\<lambda>_. True), d_close = (=), strtod = strtol_int, sscanf_lg = (\<lambda>t. Some (fst (strtol_int t))),
     sprintf_g = (\<lambda>_. dec_int) \<rparr>"

text \<open>\<^verbatim>\<open>{"on": [true, -12]}\<close>.\<close>

definition sample :: "int cJSON" where
  "sample = CJSON cJSON_Object None 0 0 None
     [CJSON cJSON_Array None 0 0 (Some (bytes_of ''on''))
        [CJSON cJSON_True None 1 0 None [], CJSON cJSON_Number None (- 12) (- 12) None []]]"

lemma sample_printable: "printable int_ops sample"
  by (simp add: sample_def printable.simps number_text_def int_ops_def dec_int_def dec_nat.simps)

lemma sample_text: "render int_ops False 0 sample = bytes_of ''{\"on\":[true,-12]}''"
  by (simp add: sample_def render.simps number_text_def int_ops_def dec_int_def dec_nat.simps if_fmt_def tabs_def quoted_def
    bytes_of_def escaped_def word_less_nat_alt)

theorem print_writes_text_witness:
  "(\<exists>w. cJSON_PrintPreallocated int_ops sample (Some (\<lambda>_. 7)) 19 False [] = Some (True, Some w) \<and>
      take_view (17 + 1) w = bytes_of ''{\"on\":[true,-12]}'' @ [0] \<and> (\<forall>i \<ge> 19. w i = 7)) \<and>
   cJSON_PrintUnformatted int_ops sample (\<lambda>_. 0) [] = Some (Some (bytes_of ''{\"on\":[true,-12]}'' @ [0]))"
proof -
  have "length (bytes_of ''{\"on\":[true,-12]}'') = 17" "0 \<notin> set (bytes_of ''{\"on\":[true,-12]}'')" by (simp_all add: bytes_of_def)
  then show ?thesis
    using print_writes_text [of int_ops sample False 19 "\<lambda>_. 7" "[]" "\<lambda>_. 0", OF sample_printable, unfolded sample_text] by simp
qed

end
