(* ===== verification/Cjson_Bounds.thy ===== *)
theory Cjson_Bounds
  imports Cjson_Render
begin

text \<open>
  The printer on a buffer that may not grow: whatever the tree, whether or not its text fits and
  whatever the buffer held, it returns and stays inside the buffer.
\<close>

definition sound :: "printbuffer \<Rightarrow> bool" where
  "sound p \<longleftrightarrow> noalloc p \<and> buffer p \<noteq> None \<and> plength p \<le> nat INT_MAX \<and> (plength p = 0 \<longrightarrow> poffset p = 0)"

definition kept :: "printbuffer \<Rightarrow> printbuffer \<Rightarrow> bool" where
  "kept p q \<longleftrightarrow> sound q \<and> plength q = plength p \<and>
     (\<exists>v w. buffer p = Some v \<and> buffer q = Some w \<and> (\<forall>i \<ge> plength p. w i = v i))"

text \<open>A terminator inside the buffer, at or behind the offset.\<close>

definition terminated :: "printbuffer \<Rightarrow> bool" where
  "terminated p \<longleftrightarrow> (\<exists>v j. buffer p = Some v \<and> poffset p \<le> j \<and> j < plength p \<and> v j = 0)"

definition stays :: "printbuffer \<Rightarrow> printed \<Rightarrow> bool" where
  "stays p r \<longleftrightarrow> (\<exists>ok q. r = Some (ok, q) \<and> kept p q \<and> (ok \<longrightarrow> terminated q))"

lemma sound_depth [simp]: "sound (p\<lparr> pdepth := d \<rparr>) = sound p" "kept p (q\<lparr> pdepth := d \<rparr>) = kept p q"
    "kept (p\<lparr> pdepth := d \<rparr>) q = kept p q" "terminated (p\<lparr> pdepth := d \<rparr>) = terminated p"
  by (simp_all add: sound_def kept_def terminated_def)

lemma kept_refl: "sound p \<Longrightarrow> kept p p"
  by (auto simp: kept_def sound_def)

lemma kept_sound: "kept p q \<Longrightarrow> sound q"
  by (simp add: kept_def)

lemma kept_trans: "kept p q \<Longrightarrow> kept q r \<Longrightarrow> kept p r"
  unfolding kept_def by auto

lemma stays_trans: "kept p q \<Longrightarrow> stays q r \<Longrightarrow> stays p r"
  unfolding stays_def by (blast intro: kept_trans)

text \<open>\<^verbatim>\<open>ensure\<close> leaves the buffer as it is and answers for one byte more than asked for.\<close>

lemma ensure_sound:
  assumes "sound p"
  obtains (full) "ensure p n = (False, p)"
    | (room) "ensure p n = (True, p)" "poffset p + n + 1 \<le> plength p"
proof (cases "plength p > 0 \<and> poffset p \<ge> plength p \<or> n > nat INT_MAX")
  case True
  then show thesis using assms by (intro full) (auto simp: ensure_def sound_def)
next
  case False
  then have "add32 n (poffset p + 1) = poffset p + n + 1"
    using assms by (subst add32_small) (auto simp: sound_def)
  then show thesis using False assms full room by (cases "poffset p + n + 1 \<le> plength p") (auto simp: ensure_def sound_def)
qed

lemma kept_put: "sound p \<Longrightarrow> poffset p + n + 1 \<le> plength p \<Longrightarrow> length bs \<le> n + 1 \<Longrightarrow> kept p (move k (put bs p))"
  by (auto simp: kept_def sound_def move_def put_def store_def)

lemma move_0 [simp]: "move 0 p = p"
  by (simp add: move_def)

lemma kept_put_0: "sound p \<Longrightarrow> poffset p + n + 1 \<le> plength p \<Longrightarrow> length bs \<le> n + 1 \<Longrightarrow> kept p (put bs p)"
  using kept_put [where k = 0] by simp

lemma terminated_put:
  "buffer p \<noteq> None \<Longrightarrow> poffset p + length t + 1 \<le> plength p \<Longrightarrow> terminated (put (t @ [0]) p)"
  "buffer p \<noteq> None \<Longrightarrow> poffset p + length t + 1 \<le> plength p \<Longrightarrow> terminated (move (length t) (put (t @ [0]) p))"
  by (auto simp: terminated_def put_def store_def move_def nth_append intro!: exI [of _ "poffset p + length t"])

lemma update_offset_terminated:
  assumes "terminated p" "sound p"
  obtains q where "update_offset p = Some q" "kept p q"
proof -
  obtain v j where v: "buffer p = Some v" "poffset p \<le> j" "v j = 0" "j < plength p" using assms(1) by (auto simp: terminated_def)
  let ?n = "LEAST n. v (poffset p + n) = 0"
  have "v (poffset p + (j - poffset p)) = 0" using v by simp
  then have "strlen (advance v (poffset p)) = Some ?n"
    using not_less_Least by (intro strlen_eq) (auto intro: LeastI)
  then show thesis using assms(2) v by (intro that [of "move ?n p"]) (auto simp: update_offset_def move_def kept_def sound_def)
qed

lemma stays_failed: "kept p q \<Longrightarrow> stays p (Some (False, q))"
  by (auto simp: stays_def)

lemma stays_printed: "kept p q \<Longrightarrow> terminated q \<Longrightarrow> stays p (Some (ok, q))"
  by (auto simp: stays_def)

lemma sound_buffer: "sound p \<Longrightarrow> buffer p \<noteq> None"
  by (simp add: sound_def)

section \<open>The functions\<close>

lemma stays_ensure_text:
  assumes p: "sound p" and n: "n = length t + 1"
  shows "stays p (let (ok, p1) = ensure p n in if \<not> ok then Some (False, p1) else Some (True, put (t @ [0]) p1))"
proof (cases rule: ensure_sound [OF p, of n])
  case 1
  then show ?thesis using p by (simp add: stays_failed kept_refl)
next
  case 2
  have "kept p (put (t @ [0]) p)" by (rule kept_put_0 [OF p 2(2)]) (simp add: n)
  moreover have "terminated (put (t @ [0]) p)" using 2(2) n by (intro terminated_put sound_buffer p) simp
  ultimately show ?thesis using 2(1) by (simp add: stays_printed)
qed

lemma print_text_stays: "sound p \<Longrightarrow> stays p (print_text t p)"
  unfolding print_text_def by (rule stays_ensure_text) simp_all

lemma print_number_stays:
  assumes p: "sound p"
  shows "stays p (Some (print_number fo it p))"
proof (cases rule: ensure_sound [OF p, of "length (number_text fo it) + 1"])
  case 1
  then show ?thesis using p by (simp add: print_number_def Let_def stays_failed kept_refl)
next
  case 2
  let ?t = "number_text fo it"
  have "kept p (move (length ?t) (put (?t @ [0]) p))" by (rule kept_put [OF p 2(2)]) simp
  moreover have "terminated (move (length ?t) (put (?t @ [0]) p))" using 2(2) by (intro terminated_put sound_buffer p) simp
  ultimately show ?thesis using 2(1) p
    by (simp add: print_number_def Let_def map_decimal_point stays_failed stays_printed kept_refl)
qed

lemma print_string_ptr_eq:
  "Some (print_string_ptr s p) =
     (let (ok, p1) = ensure p (length (quoted s) + 1) in if \<not> ok then Some (False, p1) else Some (True, put (quoted s @ [0]) p1))"
  by (cases s) (auto simp: print_string_ptr_def quoted_def Let_def length_escaped concat_escaped_plain numeral_3_eq_3 split: prod.split)

lemma print_string_stays: "sound p \<Longrightarrow> stays p (Some (print_string_ptr s p))"
  unfolding print_string_ptr_eq by (rule stays_ensure_text) simp_all

definition stays_loop :: "printbuffer \<Rightarrow> printed \<Rightarrow> bool" where
  "stays_loop p r \<longleftrightarrow> (\<exists>ok q. r = Some (ok, q) \<and> kept p q)"

lemma stays_loop_trans: "kept p q \<Longrightarrow> stays_loop q r \<Longrightarrow> stays_loop p r"
  unfolding stays_loop_def by (blast intro: kept_trans)

text \<open>The result of a printer followed by \<^verbatim>\<open>update_offset\<close>.\<close>

lemma stays_loopI: "kept p q \<Longrightarrow> stays_loop p (Some (ok, q))"
  by (auto simp: stays_loop_def)

lemma stays_cases:
  assumes "stays p r"
  obtains (failed) q where "r = Some (False, q)" "kept p q"
    | (printed) p' q where "r = Some (True, p')" "update_offset p' = Some q" "kept p q"
proof -
  obtain ok p' where r: "r = Some (ok, p')" "kept p p'" "ok \<longrightarrow> terminated p'" using assms by (auto simp: stays_def)
  show thesis
  proof (cases ok)
    case True
    then obtain q where "update_offset p' = Some q" "kept p' q"
      using r update_offset_terminated [of p'] kept_sound by auto
    then show ?thesis using True r kept_trans [of p p' q] by (intro printed [of p' q]) simp_all
  qed (use r failed in simp)
qed

lemma stays_closed:
  assumes "stays p (let (ok, p1) = e in if \<not> ok then Some (False, p1) else Some (True, f p1))"
    and "\<And>p1. h p1 = (f p1)\<lparr> pdepth := d p1 \<rparr>"
  shows "stays p (let (ok, p1) = e in if \<not> ok then Some (False, p1) else Some (True, h p1))"
  using assms by (auto simp: stays_def split: prod.splits)

lemma print_elements_stays:
  assumes "\<And>x p. x \<in> set xs \<Longrightarrow> sound p \<Longrightarrow> stays p (pv x p)" and "sound p"
  shows "stays_loop p (print_elements pv xs p)"
  using assms
proof (induction xs arbitrary: p)
  case Nil
  then show ?case by (simp add: stays_loopI kept_refl)
next
  case (Cons x xs)
  from Cons.prems have "stays p (pv x p)" by simp
  then show ?case
  proof (cases rule: stays_cases)
    case (failed q)
    then show ?thesis by (simp add: stays_loopI)
  next
    case (printed p' q)
    have IH: "stays_loop p (print_elements pv xs q')" if "kept p q'" for q'
      using Cons.IH Cons.prems(1) kept_sound [OF that] by (intro stays_loop_trans [OF that]) simp
    let ?n = "if fmt q then 2 else 1 :: nat"
    show ?thesis
    proof (cases rule: ensure_sound [OF kept_sound [OF printed(3)], of "?n + 1"])
      case 1
      then show ?thesis using printed IH by (simp add: stays_loopI)
    next
      case 2
      have "kept p (move ?n (put ([0x2c] @ (if fmt q then [0x20] else []) @ [0]) q))"
        by (rule kept_trans [OF printed(3) kept_put [OF kept_sound [OF printed(3)] 2(2)]]) simp
      then show ?thesis using printed IH 2(1) by (simp add: stays_loopI)
    qed
  qed
qed

lemma print_array_stays:
  assumes ch: "\<And>x p. x \<in> set ch \<Longrightarrow> sound p \<Longrightarrow> stays p (pv x p)" and p: "sound p"
  shows "stays p (print_array pv ch p)"
proof (cases rule: ensure_sound [OF p, of 1])
  case 1
  then show ?thesis using p by (simp add: print_array_def stays_failed kept_refl)
next
  case 2
  let ?q = "(move 1 (put [0x5b] p))\<lparr> pdepth := pdepth p + 1 \<rparr>"
  have k: "kept p ?q" using kept_put [OF p 2(2), of "[0x5b]" 1] by simp
  have "stays_loop p (print_elements pv ch ?q)"
    by (rule stays_loop_trans [OF k print_elements_stays [OF ch kept_sound [OF k]]])
  then obtain ok r where r: "print_elements pv ch ?q = Some (ok, r)" "kept p r" by (auto simp: stays_loop_def)
  note s = kept_sound [OF r(2)]
  have "stays p (let (ok, p1) = ensure r 2 in if \<not> ok then Some (False, p1) else Some (True, put ([0x5d] @ [0]) p1))"
    by (rule stays_trans [OF r(2) stays_ensure_text [OF s]]) simp
  then have "stays p (let (ok, p1) = ensure r 2 in if \<not> ok then Some (False, p1)
      else Some (True, (put [0x5d, 0] p1)\<lparr> pdepth := pdepth (put [0x5d, 0] p1) - 1 \<rparr>))"
    by (rule stays_closed) simp
  then show ?thesis unfolding print_array_def Let_def using 2(1) r stays_failed by simp
qed

lemma print_indent_stays:
  assumes p: "sound p"
  obtains ok q where "print_indent p = (ok, q)" "kept p q"
proof (cases rule: ensure_sound [OF p, of "pdepth p"])
  case 1
  then have "print_indent p = (\<not> fmt p, p)" by (simp add: print_indent_def)
  then show thesis using that kept_refl [OF p] by blast
next
  case 2
  have "kept p (move (pdepth p) (put (replicate (pdepth p) 9) p))" by (rule kept_put [OF p 2(2)]) simp
  then show thesis using that 2(1) kept_refl [OF p] by (cases "fmt p") (simp_all add: print_indent_def)
qed

lemma print_members_stays:
  assumes "\<And>x p. x \<in> set xs \<Longrightarrow> sound p \<Longrightarrow> stays p (pv x p)" and "sound p"
  shows "stays_loop p (print_members pv xs p)"
  using assms
proof (induction xs arbitrary: p)
  case Nil
  then show ?case by (simp add: stays_loopI kept_refl)
next
  case (Cons x xs)
  have IH: "stays_loop p (print_members pv xs q)" if "kept p q" for q
    using Cons.IH Cons.prems(1) kept_sound [OF that] by (intro stays_loop_trans [OF that]) simp
  obtain ok p1 where p1: "print_indent p = (ok, p1)" "kept p p1"
    by (rule print_indent_stays [OF Cons.prems(2)])
  have "stays p (Some (print_string_ptr (item_string x) p1))"
    by (rule stays_trans [OF p1(2) print_string_stays [OF kept_sound [OF p1(2)]]])
  then show ?case
  proof (cases rule: stays_cases)
    case (failed q)
    then show ?thesis using p1 by (auto simp: stays_loopI)
  next
    case (printed p2 p3)
    note s3 = kept_sound [OF printed(3)]
    let ?n = "if fmt p3 then 2 else 1 :: nat"
    let ?q = "move ?n (put ([0x3a] @ (if fmt p3 then [9] else [])) p3)"
    show ?thesis
    proof (cases rule: ensure_sound [OF s3, of ?n])
      case 1
      then show ?thesis using p1 printed by (auto simp: stays_loopI)
    next
      case 2
      have q: "kept p ?q" by (rule kept_trans [OF printed(3) kept_put [OF s3 2(2)]]) simp
      have "stays p (pv x ?q)" by (rule stays_trans [OF q Cons.prems(1) [OF _ kept_sound [OF q]]]) simp
      then show ?thesis
      proof (cases rule: stays_cases)
        case (failed r)
        then show ?thesis using p1 printed 2 by (auto simp: stays_loopI)
      next
        case val: (printed q' r)
        note sr = kept_sound [OF val(3)]
        let ?m = "(if fmt r then 1 else 0) + (if xs \<noteq> [] then 1 else 0) :: nat"
        let ?s = "move ?m (put ((if xs \<noteq> [] then [0x2c] else []) @ (if fmt r then [10] else []) @ [0]) r)"
        have s: "kept p ?s" if "poffset r + (?m + 1) + 1 \<le> plength r"
          by (rule kept_trans [OF val(3) kept_put [OF sr that]]) simp
        show ?thesis
          by (cases rule: ensure_sound [OF sr, of "?m + 1"])
            (use p1 printed 2 val IH s in \<open>auto simp: stays_loopI Let_def\<close>)
      qed
    qed
  qed
qed

lemma print_object_stays:
  assumes ch: "\<And>x p. x \<in> set ch \<Longrightarrow> sound p \<Longrightarrow> stays p (pv x p)" and p: "sound p"
  shows "stays p (print_object pv ch p)"
proof (cases rule: ensure_sound [OF p, of "(if fmt p then 2 else 1) + 1"])
  case 1
  then show ?thesis using p by (simp add: print_object_def Let_def stays_failed kept_refl)
next
  case 2
  let ?n = "if fmt p then 2 else 1 :: nat" and ?o = "[0x7b] @ (if fmt p then [10] else [])"
  let ?q = "move ?n ((put ?o p)\<lparr> pdepth := pdepth (put ?o p) + 1 \<rparr>)"
  have "kept p (move ?n (put ?o p))" by (rule kept_put [OF p 2(2)]) simp
  then have k: "kept p ?q" by (simp add: move_def kept_def sound_def)
  have "stays_loop p (print_members pv ch ?q)"
    by (rule stays_loop_trans [OF k print_members_stays [OF ch kept_sound [OF k]]])
  then obtain ok r where r: "print_members pv ch ?q = Some (ok, r)" "kept p r" by (auto simp: stays_loop_def)
  note s = kept_sound [OF r(2)]
  let ?c = "(if fmt r then replicate (pdepth r - 1) 9 else []) @ [0x7d]"
  show ?thesis
  proof (cases rule: ensure_sound [OF s, of "if fmt r then pdepth r + 1 else 2"])
    case 1
    then show ?thesis unfolding print_object_def Let_def using 2(1) r stays_failed by simp
  next
    case c: 2
    have "kept r (put (?c @ [0]) r)" by (rule kept_put_0 [OF s c(2)]) auto
    moreover have "terminated (put (?c @ [0]) r)" using c(2) by (intro terminated_put sound_buffer s) (auto split: if_splits)
    ultimately have "stays p (Some (True, (put (?c @ [0]) r)\<lparr> pdepth := pdepth (put (?c @ [0]) r) - 1 \<rparr>))"
      using kept_trans [OF r(2)] by (intro stays_printed) simp_all
    then show ?thesis unfolding print_object_def Let_def using 2(1) r c(1) stays_failed by simp
  qed
qed

lemma print_value_stays: "sound p \<Longrightarrow> stays p (print_value fo it p)"
proof (induction it arbitrary: p)
  case (CJSON ty vs vi vd s ch)
  have ch: "stays q (print_value fo x q)" if "x \<in> set ch" "sound q" for x q
    using CJSON.IH that .
  show ?case unfolding print_value.simps Let_def
    by (auto simp: print_string_def CJSON.prems ch intro!: print_text_stays print_number_stays print_string_stays
      print_array_stays print_object_stays stays_failed kept_refl split: option.split)
qed

text \<open>
  C39. \<^verbatim>\<open>cJSON_PrintPreallocated\<close> never runs over. Whatever the tree, the size and the bytes of the
  buffer, it returns, no byte behind the first \<open>len\<close> is changed, and when it reports success there
  is a terminator among them.
\<close>

theorem print_preallocated_in_bounds:
  assumes "0 \<le> len" and "len \<le> INT_MAX"
  shows "\<exists>ok w. cJSON_PrintPreallocated fo it (Some v) len f m = Some (ok, Some w) \<and> (\<forall>i \<ge> nat len. w i = v i) \<and>
     (ok \<longrightarrow> 0 \<in> set (take_view (nat len) w))"
proof -
  let ?p = "\<lparr> buffer = Some v, plength = nat len, poffset = 0, pdepth = 0, noalloc = True, fmt = f, phooks = m \<rparr>"
  have "stays ?p (print_value fo it ?p)" using assms by (intro print_value_stays) (simp add: sound_def)
  then obtain ok q where q: "print_value fo it ?p = Some (ok, q)" "kept ?p q" "ok \<longrightarrow> terminated q" by (auto simp: stays_def)
  then obtain w where w: "buffer q = Some w" "\<forall>i \<ge> nat len. w i = v i" "plength q = nat len" by (auto simp: kept_def)
  have "0 \<in> set (take_view (nat len) w)" if ok using q(3) that w by (force simp: terminated_def take_view_def)
  then show ?thesis using assms q w by (auto simp: cJSON_PrintPreallocated_def)
qed

theorem print_preallocated_in_bounds_witness:
  "\<exists>ok w. cJSON_PrintPreallocated int_ops sample (Some (\<lambda>_. 7)) 5 False [] = Some (ok, Some w) \<and> (\<forall>i \<ge> nat 5. w i = 7) \<and>
     (ok \<longrightarrow> 0 \<in> set (take_view (nat 5) w))"
  by (rule print_preallocated_in_bounds) simp_all

end
