(* ===== verification/Cjson_Edit.thy ===== *)
theory Cjson_Edit
  imports Cjson_Print
begin

text \<open>
  The rest of the interface of \<^verbatim>\<open>cJSON.c\<close>: the functions that create and add an item in one call,
  references, arrays of numbers and strings, taking items out, inserting and replacing them,
  duplication, comparison and deletion. An item among the children is its position. A reference, whose
  children or text belong to another item, is a copy with its flag set; what happens to the owner
  afterwards does not show in it.
\<close>

section \<open>Allocation functions\<close>

datatype alloc_fn = Libc | User nat

record internal_hooks =
  hk_allocate :: alloc_fn
  hk_deallocate :: alloc_fn
  hk_reallocate :: "alloc_fn option"

text \<open>The argument: no hooks, or the two functions, each possibly missing.\<close>

definition cJSON_InitHooks :: "(alloc_fn option \<times> alloc_fn option) option \<Rightarrow> internal_hooks" where
  "cJSON_InitHooks hs = (case hs of
     None \<Rightarrow> \<lparr> hk_allocate = Libc, hk_deallocate = Libc, hk_reallocate = Some Libc \<rparr>
   | Some (malloc_fn, free_fn) \<Rightarrow>
       let a = (case malloc_fn of None \<Rightarrow> Libc | Some f \<Rightarrow> f);
           d = (case free_fn of None \<Rightarrow> Libc | Some f \<Rightarrow> f)
       in \<lparr> hk_allocate = a, hk_deallocate = d, hk_reallocate = (if a = Libc \<and> d = Libc then Some Libc else None) \<rparr>)"

section \<open>Values\<close>

text \<open>\<^term>\<open>None\<close> is \<^verbatim>\<open>NAN\<close>.\<close>

definition cJSON_GetNumberValue :: "'f cJSON option \<Rightarrow> 'f option" where
  "cJSON_GetNumberValue it = (case it of Some i \<Rightarrow> if cJSON_IsNumber it then Some (valuedouble i) else None | None \<Rightarrow> None)"

text \<open>The new text does not lie in the old one. The result tells whether the text was set.\<close>

definition cJSON_SetValuestring :: "'f cJSON option \<Rightarrow> byte list option \<Rightarrow> mem \<Rightarrow> bool \<times> 'f cJSON option \<times> mem" where
  "cJSON_SetValuestring obj v m = (case obj of
     None \<Rightarrow> (False, None, m)
   | Some i \<Rightarrow>
       if item_type i AND cJSON_String = 0 \<or> item_type i AND cJSON_IsReference \<noteq> 0 then (False, obj, m)
       else (case (valuestring i, v) of
         (Some old, Some new) \<Rightarrow>
           if length new \<le> length old then (True, Some (set_valuestring (Some new) i), m)
           else (case cJSON_strdup v m of
                   (None, m1) \<Rightarrow> (False, obj, m1)
                 | (Some copy, m1) \<Rightarrow> (True, Some (set_valuestring (Some copy) i), m1))
       | _ \<Rightarrow> (False, obj, m)))"

section \<open>References\<close>

definition create_reference :: "'f dbl_ops \<Rightarrow> 'f cJSON option \<Rightarrow> mem \<Rightarrow> 'f cJSON option \<times> mem" where
  "create_reference fo it m = (case it of
     None \<Rightarrow> (None, m)
   | Some i \<Rightarrow> apfst (map_option (\<lambda>_. set_type (item_type i OR cJSON_IsReference) (set_string None i))) (cJSON_New_Item fo m))"

definition cJSON_AddItemToObjectCS ::
    "'f cJSON option \<Rightarrow> byte list option \<Rightarrow> 'f cJSON option \<Rightarrow> mem \<Rightarrow> bool \<times> 'f cJSON option \<times> mem" where
  "cJSON_AddItemToObjectCS obj s it m = add_item_to_object obj s it True m"

definition cJSON_AddItemReferenceToArray :: "'f dbl_ops \<Rightarrow> 'f cJSON option \<Rightarrow> 'f cJSON option \<Rightarrow> mem \<Rightarrow> bool \<times> 'f cJSON option \<times> mem" where
  "cJSON_AddItemReferenceToArray fo arr it m =
     (if arr = None then (False, arr, m)
      else let (rf, m1) = create_reference fo it m; (r, a) = add_item_to_array arr rf in (r, a, m1))"

definition cJSON_AddItemReferenceToObject ::
    "'f dbl_ops \<Rightarrow> 'f cJSON option \<Rightarrow> byte list option \<Rightarrow> 'f cJSON option \<Rightarrow> mem \<Rightarrow> bool \<times> 'f cJSON option \<times> mem" where
  "cJSON_AddItemReferenceToObject fo obj s it m =
     (if obj = None \<or> s = None then (False, obj, m)
      else let (rf, m1) = create_reference fo it m in add_item_to_object obj s rf False m1)"

definition cJSON_CreateStringReference :: "'f dbl_ops \<Rightarrow> byte list option \<Rightarrow> mem \<Rightarrow> 'f cJSON option \<times> mem" where
  "cJSON_CreateStringReference fo s m =
     apfst (map_option (\<lambda>i. set_valuestring s (set_type (cJSON_String OR cJSON_IsReference) i))) (cJSON_New_Item fo m)"
definition cJSON_CreateObjectReference :: "'f dbl_ops \<Rightarrow> 'f cJSON list \<Rightarrow> mem \<Rightarrow> 'f cJSON option \<times> mem" where
  "cJSON_CreateObjectReference fo ch m =
     apfst (map_option (\<lambda>i. set_child ch (set_type (cJSON_Object OR cJSON_IsReference) i))) (cJSON_New_Item fo m)"
definition cJSON_CreateArrayReference :: "'f dbl_ops \<Rightarrow> 'f cJSON list \<Rightarrow> mem \<Rightarrow> 'f cJSON option \<times> mem" where
  "cJSON_CreateArrayReference fo ch m =
     apfst (map_option (\<lambda>i. set_child ch (set_type (cJSON_Array OR cJSON_IsReference) i))) (cJSON_New_Item fo m)"

section \<open>Creating and adding in one call\<close>

text \<open>An item that could not be added is deleted.\<close>

definition add_created :: "'f cJSON option \<times> mem \<Rightarrow> 'f cJSON option \<Rightarrow> byte list option \<Rightarrow> bool \<times> 'f cJSON option \<times> mem" where
  "add_created im obj name = add_item_to_object obj name (fst im) False (snd im)"

definition cJSON_AddNullToObject :: "'f dbl_ops \<Rightarrow> 'f cJSON option \<Rightarrow> byte list option \<Rightarrow> mem \<Rightarrow> bool \<times> 'f cJSON option \<times> mem" where
  "cJSON_AddNullToObject fo obj name m = add_created (cJSON_CreateNull fo m) obj name"
definition cJSON_AddTrueToObject :: "'f dbl_ops \<Rightarrow> 'f cJSON option \<Rightarrow> byte list option \<Rightarrow> mem \<Rightarrow> bool \<times> 'f cJSON option \<times> mem" where
  "cJSON_AddTrueToObject fo obj name m = add_created (cJSON_CreateTrue fo m) obj name"
definition cJSON_AddFalseToObject :: "'f dbl_ops \<Rightarrow> 'f cJSON option \<Rightarrow> byte list option \<Rightarrow> mem \<Rightarrow> bool \<times> 'f cJSON option \<times> mem" where
  "cJSON_AddFalseToObject fo obj name m = add_created (cJSON_CreateFalse fo m) obj name"
definition cJSON_AddBoolToObject :: "'f dbl_ops \<Rightarrow> 'f cJSON option \<Rightarrow> byte list option \<Rightarrow> bool \<Rightarrow> mem \<Rightarrow> bool \<times> 'f cJSON option \<times> mem" where
  "cJSON_AddBoolToObject fo obj name b m = add_created (cJSON_CreateBool fo b m) obj name"
definition cJSON_AddStringToObject :: "'f dbl_ops \<Rightarrow> 'f cJSON option \<Rightarrow> byte list option \<Rightarrow> byte list option \<Rightarrow> mem \<Rightarrow> bool \<times> 'f cJSON option \<times> mem" where
  "cJSON_AddStringToObject fo obj name s m = add_created (cJSON_CreateString fo s m) obj name"
definition cJSON_AddRawToObject :: "'f dbl_ops \<Rightarrow> 'f cJSON option \<Rightarrow> byte list option \<Rightarrow> byte list option \<Rightarrow> mem \<Rightarrow> bool \<times> 'f cJSON option \<times> mem" where
  "cJSON_AddRawToObject fo obj name raw m = add_created (cJSON_CreateRaw fo raw m) obj name"
definition cJSON_AddObjectToObject :: "'f dbl_ops \<Rightarrow> 'f cJSON option \<Rightarrow> byte list option \<Rightarrow> mem \<Rightarrow> bool \<times> 'f cJSON option \<times> mem" where
  "cJSON_AddObjectToObject fo obj name m = add_created (cJSON_CreateObject fo m) obj name"
definition cJSON_AddArrayToObject :: "'f dbl_ops \<Rightarrow> 'f cJSON option \<Rightarrow> byte list option \<Rightarrow> mem \<Rightarrow> bool \<times> 'f cJSON option \<times> mem" where
  "cJSON_AddArrayToObject fo obj name m = add_created (cJSON_CreateArray fo m) obj name"

text \<open>The loop of the four functions that create an array out of C values; \<open>mk\<close> creates one element.\<close>

primrec array_items :: "(nat \<Rightarrow> mem \<Rightarrow> 'f cJSON option \<times> mem) \<Rightarrow> nat \<Rightarrow> nat \<Rightarrow> mem \<Rightarrow> 'f cJSON list option \<times> mem" where
  "array_items mk i 0 m = (Some [], m)"
| "array_items mk i (Suc k) m = (case mk i m of
     (None, m1) \<Rightarrow> (None, m1)
   | (Some it, m1) \<Rightarrow> (case array_items mk (i + 1) k m1 of
       (None, m2) \<Rightarrow> (None, m2)
     | (Some its, m2) \<Rightarrow> (Some (it # its), m2)))"

definition create_array :: "'f dbl_ops \<Rightarrow> (nat \<Rightarrow> mem \<Rightarrow> 'f cJSON option \<times> mem) \<Rightarrow> int \<Rightarrow> mem \<Rightarrow> 'f cJSON option \<times> mem" where
  "create_array fo mk count m = (case cJSON_CreateArray fo m of
     (None, m1) \<Rightarrow> (None, m1)
   | (Some a, m1) \<Rightarrow> (case array_items mk 0 (nat count) m1 of
       (None, m2) \<Rightarrow> (None, m2)
     | (Some its, m2) \<Rightarrow> (Some (set_child its a), m2)))"

text \<open>The arrays of C values are functions of the index, \<^term>\<open>None\<close> being \<^verbatim>\<open>NULL\<close>.\<close>

definition cJSON_CreateIntArray :: "'f dbl_ops \<Rightarrow> (nat \<Rightarrow> int) option \<Rightarrow> int \<Rightarrow> mem \<Rightarrow> 'f cJSON option \<times> mem" where
  "cJSON_CreateIntArray fo numbers count m = (case numbers of
     None \<Rightarrow> (None, m)
   | Some xs \<Rightarrow> if count < 0 then (None, m) else create_array fo (\<lambda>i. cJSON_CreateNumber fo (d_of_int fo (xs i))) count m)"

definition cJSON_CreateDoubleArray :: "'f dbl_ops \<Rightarrow> (nat \<Rightarrow> 'f) option \<Rightarrow> int \<Rightarrow> mem \<Rightarrow> 'f cJSON option \<times> mem" where
  "cJSON_CreateDoubleArray fo numbers count m = (case numbers of
     None \<Rightarrow> (None, m)
   | Some xs \<Rightarrow> if count < 0 then (None, m) else create_array fo (\<lambda>i. cJSON_CreateNumber fo (xs i)) count m)"

text \<open>\<open>widen\<close> is the conversion of \<^verbatim>\<open>float\<close> to \<^verbatim>\<open>double\<close>.\<close>

definition cJSON_CreateFloatArray :: "'f dbl_ops \<Rightarrow> ('g \<Rightarrow> 'f) \<Rightarrow> (nat \<Rightarrow> 'g) option \<Rightarrow> int \<Rightarrow> mem \<Rightarrow> 'f cJSON option \<times> mem" where
  "cJSON_CreateFloatArray fo widen numbers count m = (case numbers of
     None \<Rightarrow> (None, m)
   | Some xs \<Rightarrow> if count < 0 then (None, m) else create_array fo (\<lambda>i. cJSON_CreateNumber fo (widen (xs i))) count m)"

definition cJSON_CreateStringArray :: "'f dbl_ops \<Rightarrow> (nat \<Rightarrow> byte list option) option \<Rightarrow> int \<Rightarrow> mem \<Rightarrow> 'f cJSON option \<times> mem" where
  "cJSON_CreateStringArray fo strings count m = (case strings of
     None \<Rightarrow> (None, m)
   | Some xs \<Rightarrow> if count < 0 then (None, m) else create_array fo (\<lambda>i. cJSON_CreateString fo (xs i)) count m)"

section \<open>Taking out, inserting and replacing\<close>

definition get_array_item :: "'f cJSON option \<Rightarrow> int \<Rightarrow> nat option" where
  "get_array_item arr which =
     (case arr of None \<Rightarrow> None | Some a \<Rightarrow> if 0 \<le> which \<and> nat which < length (child a) then Some (nat which) else None)"

text \<open>The item taken out and the parent without it.\<close>

definition cJSON_DetachItemViaPointer :: "'f cJSON option \<Rightarrow> nat option \<Rightarrow> 'f cJSON option \<times> 'f cJSON option" where
  "cJSON_DetachItemViaPointer parent item = (case (parent, item) of
     (Some p, Some k) \<Rightarrow> (Some (child p ! k), Some (set_child (take k (child p) @ drop (k + 1) (child p)) p))
   | _ \<Rightarrow> (None, parent))"

definition cJSON_DetachItemFromArray :: "'f cJSON option \<Rightarrow> int \<Rightarrow> 'f cJSON option \<times> 'f cJSON option" where
  "cJSON_DetachItemFromArray arr which =
     (if which < 0 then (None, arr) else cJSON_DetachItemViaPointer arr (get_array_item arr which))"

definition cJSON_DeleteItemFromArray :: "'f cJSON option \<Rightarrow> int \<Rightarrow> 'f cJSON option" where
  "cJSON_DeleteItemFromArray arr which = snd (cJSON_DetachItemFromArray arr which)"

definition cJSON_DetachItemFromObject :: "'f cJSON option \<Rightarrow> byte list option \<Rightarrow> 'f cJSON option \<times> 'f cJSON option" where
  "cJSON_DetachItemFromObject obj s = cJSON_DetachItemViaPointer obj (get_object_item obj s False)"

definition cJSON_DetachItemFromObjectCaseSensitive :: "'f cJSON option \<Rightarrow> byte list option \<Rightarrow> 'f cJSON option \<times> 'f cJSON option" where
  "cJSON_DetachItemFromObjectCaseSensitive obj s = cJSON_DetachItemViaPointer obj (get_object_item obj s True)"

definition cJSON_DeleteItemFromObject :: "'f cJSON option \<Rightarrow> byte list option \<Rightarrow> 'f cJSON option" where
  "cJSON_DeleteItemFromObject obj s = snd (cJSON_DetachItemFromObject obj s)"

definition cJSON_DeleteItemFromObjectCaseSensitive :: "'f cJSON option \<Rightarrow> byte list option \<Rightarrow> 'f cJSON option" where
  "cJSON_DeleteItemFromObjectCaseSensitive obj s = snd (cJSON_DetachItemFromObjectCaseSensitive obj s)"

definition cJSON_InsertItemInArray :: "'f cJSON option \<Rightarrow> int \<Rightarrow> 'f cJSON option \<Rightarrow> bool \<times> 'f cJSON option" where
  "cJSON_InsertItemInArray arr which newitem = (case newitem of
     None \<Rightarrow> (False, arr)
   | Some i \<Rightarrow>
       if which < 0 then (False, arr)
       else (case (arr, get_array_item arr which) of
         (Some a, Some k) \<Rightarrow> (True, Some (set_child (take k (child a) @ i # drop k (child a)) a))
       | _ \<Rightarrow> add_item_to_array arr newitem))"

definition cJSON_ReplaceItemViaPointer :: "'f cJSON option \<Rightarrow> nat option \<Rightarrow> 'f cJSON option \<Rightarrow> bool \<times> 'f cJSON option" where
  "cJSON_ReplaceItemViaPointer parent item replacement = (case (parent, item, replacement) of
     (Some p, Some k, Some r) \<Rightarrow> if child p = [] then (False, parent) else (True, Some (set_child ((child p)[k := r]) p))
   | _ \<Rightarrow> (False, parent))"

definition cJSON_ReplaceItemInArray :: "'f cJSON option \<Rightarrow> int \<Rightarrow> 'f cJSON option \<Rightarrow> bool \<times> 'f cJSON option" where
  "cJSON_ReplaceItemInArray arr which newitem =
     (if which < 0 then (False, arr) else cJSON_ReplaceItemViaPointer arr (get_array_item arr which) newitem)"

text \<open>The replacement gets its name even when nothing is replaced; it is the third component then.\<close>

definition replace_item_in_object ::
    "'f cJSON option \<Rightarrow> byte list option \<Rightarrow> 'f cJSON option \<Rightarrow> bool \<Rightarrow> mem \<Rightarrow> bool \<times> 'f cJSON option \<times> 'f cJSON option \<times> mem" where
  "replace_item_in_object obj s replacement cs m = (case (replacement, s) of
     (Some r, Some name) \<Rightarrow>
       (case cJSON_strdup s m of
          (None, m1) \<Rightarrow> (False, obj, Some (set_string None r), m1)
        | (Some k, m1) \<Rightarrow>
            let r1 = set_type (item_type r AND NOT cJSON_StringIsConst) (set_string (Some k) r);
                (ok, o1) = cJSON_ReplaceItemViaPointer obj (get_object_item obj s cs) (Some r1)
            in (ok, o1, Some r1, m1))
   | _ \<Rightarrow> (False, obj, replacement, m))"

definition cJSON_ReplaceItemInObject ::
    "'f cJSON option \<Rightarrow> byte list option \<Rightarrow> 'f cJSON option \<Rightarrow> mem \<Rightarrow> bool \<times> 'f cJSON option \<times> 'f cJSON option \<times> mem" where
  "cJSON_ReplaceItemInObject obj s newitem m = replace_item_in_object obj s newitem False m"
definition cJSON_ReplaceItemInObjectCaseSensitive ::
    "'f cJSON option \<Rightarrow> byte list option \<Rightarrow> 'f cJSON option \<Rightarrow> mem \<Rightarrow> bool \<times> 'f cJSON option \<times> 'f cJSON option \<times> mem" where
  "cJSON_ReplaceItemInObjectCaseSensitive obj s newitem m = replace_item_in_object obj s newitem True m"

section \<open>Printing into a growing buffer\<close>

definition cJSON_PrintBuffered :: "'f dbl_ops \<Rightarrow> 'f cJSON \<Rightarrow> int \<Rightarrow> bool \<Rightarrow> view \<Rightarrow> mem \<Rightarrow> view option option" where
  "cJSON_PrintBuffered fo it prebuffer format heap m =
     (if prebuffer < 0 then Some None
      else let (ok, m1) = allocate m
        in if \<not> ok then Some None
           else do {
             (r, p) \<leftarrow> print_value fo it
               \<lparr> buffer = Some heap, plength = nat prebuffer, poffset = 0, pdepth = 0, noalloc = False, fmt = format, phooks = m1 \<rparr>;
             Some (if r then buffer p else None)
           })"

section \<open>Deletion, duplication and comparison\<close>

text \<open>The blocks \<^verbatim>\<open>cJSON_Delete\<close> gives back, in order, for a chain of items.\<close>

datatype block = Node | Text "byte list" | Key "byte list"

fun delete_chain :: "('f cJSON \<Rightarrow> block list) \<Rightarrow> 'f cJSON list \<Rightarrow> block list" where
  "delete_chain f [] = []"
| "delete_chain f (c # cs) = f c @ delete_chain f cs"

lemma delete_chain_cong [fundef_cong]:
  "xs = ys \<Longrightarrow> (\<And>x. x \<in> set ys \<Longrightarrow> f x = g x) \<Longrightarrow> delete_chain f xs = delete_chain g ys"
  by (induction ys arbitrary: xs) auto

fun delete_item :: "'f cJSON \<Rightarrow> block list" where
  "delete_item (CJSON ty vs vi vd s ch) =
     (if ty AND cJSON_IsReference = 0 \<and> ch \<noteq> [] then delete_chain (\<lambda>x. delete_item x) ch else []) @
     (if ty AND cJSON_IsReference = 0 then (case vs of None \<Rightarrow> [] | Some t \<Rightarrow> [Text t]) else []) @
     (if ty AND cJSON_StringIsConst = 0 then (case s of None \<Rightarrow> [] | Some k \<Rightarrow> [Key k]) else []) @ [Node]"

definition cJSON_Delete :: "'f cJSON list \<Rightarrow> block list" where
  "cJSON_Delete chain = delete_chain delete_item chain"

abbreviation (input) CJSON_CIRCULAR_LIMIT :: nat where "CJSON_CIRCULAR_LIMIT \<equiv> 10000"

text \<open>The loop over the children in \<^verbatim>\<open>cJSON_Duplicate_rec\<close>.\<close>

fun dup_children :: "('f cJSON \<Rightarrow> mem \<Rightarrow> 'f cJSON option \<times> mem) \<Rightarrow> nat \<Rightarrow> 'f cJSON list \<Rightarrow> mem \<Rightarrow> 'f cJSON list option \<times> mem" where
  "dup_children f lvl [] m = (Some [], m)"
| "dup_children f lvl (c # cs) m =
     (if lvl \<ge> CJSON_CIRCULAR_LIMIT then (None, m)
      else case f c m of
        (None, m1) \<Rightarrow> (None, m1)
      | (Some d, m1) \<Rightarrow> (case dup_children f lvl cs m1 of
          (None, m2) \<Rightarrow> (None, m2)
        | (Some ds, m2) \<Rightarrow> (Some (d # ds), m2)))"

lemma dup_children_cong [fundef_cong]:
  "d = e \<Longrightarrow> xs = ys \<Longrightarrow> m = n \<Longrightarrow> (\<And>x k. x \<in> set ys \<Longrightarrow> f x k = g x k) \<Longrightarrow> dup_children f d xs m = dup_children g e ys n"
proof (induction ys arbitrary: xs m n)
  case (Cons y ys)
  then have "dup_children f e ys k = dup_children g e ys k" for k by simp
  then show ?case using Cons.prems by (auto split: option.split prod.split)
qed simp

fun cJSON_Duplicate_rec :: "'f dbl_ops \<Rightarrow> 'f cJSON \<Rightarrow> nat \<Rightarrow> bool \<Rightarrow> mem \<Rightarrow> 'f cJSON option \<times> mem" where
  "cJSON_Duplicate_rec fo (CJSON ty vs vi vd s ch) lvl recurse m = (case cJSON_New_Item fo m of
     (None, m1) \<Rightarrow> (None, m1)
   | (Some n, m1) \<Rightarrow> (case (if vs = None then (None, m1) else cJSON_strdup vs m1) of
       (v2, m2) \<Rightarrow>
         if vs \<noteq> None \<and> v2 = None then (None, m2)
         else (case (if s = None then (None, m2) else if ty AND cJSON_StringIsConst \<noteq> 0 then (s, m2) else cJSON_strdup s m2) of
           (s3, m3) \<Rightarrow>
             if s \<noteq> None \<and> s3 = None then (None, m3)
             else if \<not> recurse then (Some (CJSON (ty AND NOT cJSON_IsReference) v2 vi vd s3 []), m3)
             else (case dup_children (\<lambda>c k. cJSON_Duplicate_rec fo c (lvl + 1) True k) lvl ch m3 of
               (None, m4) \<Rightarrow> (None, m4)
             | (Some ds, m4) \<Rightarrow> (Some (CJSON (ty AND NOT cJSON_IsReference) v2 vi vd s3 ds), m4)))))"

definition cJSON_Duplicate :: "'f dbl_ops \<Rightarrow> 'f cJSON option \<Rightarrow> bool \<Rightarrow> mem \<Rightarrow> 'f cJSON option \<times> mem" where
  "cJSON_Duplicate fo it recurse m = (case it of None \<Rightarrow> (None, m) | Some i \<Rightarrow> cJSON_Duplicate_rec fo i 0 recurse m)"

text \<open>
  Comparison of two trees that share no item. The loops over the elements of two arrays, and over the
  members of one object looked up in the other.
\<close>

fun compare_elements :: "('f cJSON \<Rightarrow> 'f cJSON \<Rightarrow> bool) \<Rightarrow> 'f cJSON list \<Rightarrow> 'f cJSON list \<Rightarrow> bool" where
  "compare_elements f (x # xs) (y # ys) = (f x y \<and> compare_elements f xs ys)"
| "compare_elements f xs ys = (xs = [] \<and> ys = [])"

definition namesake :: "bool \<Rightarrow> 'f cJSON \<Rightarrow> 'f cJSON list \<Rightarrow> nat option" where
  "namesake cs x ys = (case item_string x of None \<Rightarrow> None | Some n \<Rightarrow> find_member cs n ys)"

fun compare_members :: "('f cJSON \<Rightarrow> 'f cJSON \<Rightarrow> bool) \<Rightarrow> bool \<Rightarrow> 'f cJSON list \<Rightarrow> 'f cJSON list \<Rightarrow> bool" where
  "compare_members f cs [] ys = True"
| "compare_members f cs (x # xs) ys =
     (case namesake cs x ys of
        None \<Rightarrow> False
      | Some k \<Rightarrow> k < length ys \<and> f x (ys ! k) \<and> compare_members f cs xs ys)"

lemma compare_elements_cong [fundef_cong]:
  "xs = xs' \<Longrightarrow> ys = ys' \<Longrightarrow> (\<And>x y. x \<in> set xs' \<Longrightarrow> y \<in> set ys' \<Longrightarrow> f x y = g x y) \<Longrightarrow> compare_elements f xs ys = compare_elements g xs' ys'"
  by (induction f xs ys arbitrary: xs' ys' rule: compare_elements.induct) auto

lemma compare_members_cong [fundef_cong]:
  "cs = cs' \<Longrightarrow> xs = xs' \<Longrightarrow> ys = ys' \<Longrightarrow> (\<And>x y. x \<in> set xs' \<Longrightarrow> y \<in> set ys' \<Longrightarrow> f x y = g x y) \<Longrightarrow>
    compare_members f cs xs ys = compare_members g cs' xs' ys'"
proof (induction xs arbitrary: xs')
  case (Cons x xs)
  then have "compare_members f cs xs ys = compare_members g cs' xs ys'" by auto
  then show ?case using Cons.prems by (cases "namesake cs x ys") auto
qed simp

lemma child_smaller: "x \<in> set (child a) \<Longrightarrow> size x < size a"
  by (cases a) (auto dest: size_list_estimation' [where f = size and y = "size x"])

function cJSON_Compare :: "'f dbl_ops \<Rightarrow> bool \<Rightarrow> 'f cJSON \<Rightarrow> 'f cJSON \<Rightarrow> bool" where
  "cJSON_Compare fo cs a b =
     (if kind a \<noteq> kind b then False
      else if kind a = cJSON_False \<or> kind a = cJSON_True \<or> kind a = cJSON_NULL then True
      else if kind a = cJSON_Number then d_close fo (valuedouble a) (valuedouble b)
      else if kind a = cJSON_String \<or> kind a = cJSON_Raw then
        (case (valuestring a, valuestring b) of (Some s, Some t) \<Rightarrow> s = t | _ \<Rightarrow> False)
      else if kind a = cJSON_Array then compare_elements (\<lambda>x y. cJSON_Compare fo cs x y) (child a) (child b)
      else if kind a = cJSON_Object then
        compare_members (\<lambda>x y. cJSON_Compare fo cs x y) cs (child a) (child b) \<and>
        compare_members (\<lambda>y x. cJSON_Compare fo cs y x) cs (child b) (child a)
      else False)"
  by pat_completeness auto

termination
  by (relation "measure (\<lambda>(fo, cs, a, b). size a + size b)") (auto dest!: child_smaller)

declare cJSON_Compare.simps [simp del]

end
