(* ===== verification/Cjson_Copy.thy ===== *)
theory Cjson_Copy
  imports Cjson_Edit Cjson_Render
begin

text \<open>
  Duplicates of trees: what they hold, what they cost, that they compare equal to the original, and
  that deleting them gives back exactly the blocks they were made of.
\<close>

section \<open>The copy\<close>

text \<open>A tree without references: the flag is gone, the copies own what they hold.\<close>

fun unref :: "'f cJSON \<Rightarrow> 'f cJSON" where
  "unref (CJSON ty vs vi vd s ch) = CJSON (ty AND NOT cJSON_IsReference) vs vi vd s (map unref ch)"

fun height :: "'f cJSON \<Rightarrow> nat" where
  "height (CJSON ty vs vi vd s ch) = fold (\<lambda>x. max x) (map (\<lambda>x. height x + 1) ch) 0"

lemma fold_max_le: "fold (\<lambda>x. max x) xs a \<le> (k :: nat) \<longleftrightarrow> a \<le> k \<and> (\<forall>x \<in> set xs. x \<le> k)"
  by (induction xs arbitrary: a) auto

lemma height_le: "height (CJSON ty vs vi vd s ch) \<le> k \<longleftrightarrow> (\<forall>x \<in> set ch. height x + 1 \<le> k)"
  by (simp add: fold_max_le)

text \<open>The number of blocks of the copy.\<close>

definition blocks :: "'f cJSON \<Rightarrow> nat" where
  "blocks t = length (delete_item (unref t))"

lemma delete_chain_concat: "delete_chain f xs = concat (map f xs)"
  by (induction xs) auto

lemma noref:
  fixes ty :: "32 word"
  shows "(ty AND - 257) AND 256 = 0" "(ty AND - 257) AND 512 = ty AND 512" "(ty AND - 257) AND 255 = ty AND 255"
proof -
  have "(- 257 :: 32 word) AND 256 = 0" "(- 257 :: 32 word) AND 512 = 512" "(- 257 :: 32 word) AND 255 = 255" by simp_all
  then show "(ty AND - 257) AND 256 = 0" "(ty AND - 257) AND 512 = ty AND 512" "(ty AND - 257) AND 255 = ty AND 255"
    by (simp_all only: and.assoc and_zero_eq)
qed

lemma blocks_simps:
  "blocks (CJSON ty vs vi vd s ch) = 1 + (if vs = None then 0 else 1) +
     (if s = None \<or> ty AND cJSON_StringIsConst \<noteq> 0 then 0 else 1) + sum_list (map blocks ch)"
proof -
  have "length (concat (map (\<lambda>x. delete_item (unref x)) ch)) = sum_list (map blocks ch)"
    by (induction ch) (auto simp: blocks_def)
  then show ?thesis unfolding blocks_def
    by (auto simp: noref delete_chain_concat comp_def split: option.split)
qed

section \<open>Allocation\<close>

lemma allocate_True [simp]: "allocate (replicate (Suc n) True @ r) = (True, replicate n True @ r)"
  by (simp add: allocate_def)

lemma allocate_False [simp]: "allocate (False # r) = (False, r)"
  by (simp add: allocate_def)

text \<open>An operation that needs \<open>n\<close> blocks: given them, it returns the result; failing at any of them, it fails.\<close>

definition needs :: "nat \<Rightarrow> (mem \<Rightarrow> 'a option \<times> mem) \<Rightarrow> 'a \<Rightarrow> bool" where
  "needs n f x \<longleftrightarrow> (\<forall>r. f (replicate n True @ r) = (Some x, r)) \<and> (\<forall>k r. k < n \<longrightarrow> f (replicate k True @ False # r) = (None, r))"

lemma needsD: "needs n f x \<Longrightarrow> f (replicate n True @ r) = (Some x, r)" "needs n f x \<Longrightarrow> k < n \<Longrightarrow> f (replicate k True @ False # r) = (None, r)"
  by (auto simp: needs_def)

lemma needs_0: "needs 0 (\<lambda>m. (Some x, m)) x"
  by (simp add: needs_def)

lemma needs_bind:
  assumes f: "needs a f x" and g: "needs b (g x) y"
  shows "needs (a + b) (\<lambda>m. case f m of (None, m1) \<Rightarrow> (None, m1) | (Some v, m1) \<Rightarrow> g v m1) y"
  unfolding needs_def
proof (intro conjI allI impI)
  fix r
  show "(case f (replicate (a + b) True @ r) of (None, m1) \<Rightarrow> (None, m1) | (Some v, m1) \<Rightarrow> g v m1) = (Some y, r)"
    using needsD(1) [OF f, of "replicate b True @ r"] needsD(1) [OF g, of r] by (simp add: replicate_add)
next
  fix k r assume k: "k < a + b"
  show "(case f (replicate k True @ False # r) of (None, m1) \<Rightarrow> (None, m1) | (Some v, m1) \<Rightarrow> g v m1) = (None, r)"
  proof (cases "k < a")
    case False
    then obtain j where "k = a + j" "j < b" using k by (metis add_less_cancel_left le_Suc_ex linorder_not_le)
    then show ?thesis using needsD(1) [OF f, of "replicate j True @ False # r"] needsD(2) [OF g, of j r] by (simp add: replicate_add)
  qed (use needsD(2) [OF f] in simp)
qed

lemma needs_New_Item: "needs 1 (cJSON_New_Item fo) (blank_item fo)"
  unfolding needs_def using allocate_True [of 0] by (auto simp: cJSON_New_Item_def)

lemma needs_strdup: "needs 1 (cJSON_strdup (Some t)) t"
  unfolding needs_def using allocate_True [of 0] by (auto simp: cJSON_strdup_def)

section \<open>Duplication\<close>

lemma needs_children:
  assumes "\<And>c. c \<in> set ch \<Longrightarrow> needs (blocks c) (f c) (unref c)" "ch \<noteq> [] \<longrightarrow> lvl < CJSON_CIRCULAR_LIMIT"
  shows "needs (sum_list (map blocks ch)) (dup_children f lvl ch) (map unref ch)"
  using assms
proof (induction ch)
  case Nil
  show ?case by (simp add: needs_0)
next
  case (Cons c ch)
  have "needs (sum_list (map blocks ch)) (dup_children f lvl ch) (map unref ch)" using Cons by auto
  then have "needs (sum_list (map blocks ch) + 0)
      (\<lambda>m. case dup_children f lvl ch m of (None, m2) \<Rightarrow> (None, m2) | (Some ds, m2) \<Rightarrow> (Some (unref c # ds), m2)) (unref c # map unref ch)"
    by (rule needs_bind) (rule needs_0)
  then have "needs (blocks c + sum_list (map blocks ch)) (\<lambda>m. case f c m of (None, m1) \<Rightarrow> (None, m1) | (Some d, m1) \<Rightarrow>
      (case dup_children f lvl ch m1 of (None, m2) \<Rightarrow> (None, m2) | (Some ds, m2) \<Rightarrow> (Some (d # ds), m2))) (unref c # map unref ch)"
    by (intro needs_bind [OF Cons.prems(1)]) simp_all
  then show ?case using Cons.prems(2) by simp
qed

text \<open>A text that is copied when there is one, or kept when it is constant.\<close>

lemma needs_text:
  assumes g: "\<And>v m. g v m = (if t \<noteq> None \<and> v = None then (None, m) else h v m)" and h: "needs n (h t) x"
  shows "needs ((if t = None \<or> c then 0 else 1) + n)
    (\<lambda>m. case (if t = None then (None, m) else if c then (t, m) else cJSON_strdup t m) of (v, m1) \<Rightarrow> g v m1) x"
proof (cases "t = None \<or> c")
  case True
  then show ?thesis using h by (auto simp: needs_def g)
next
  case False
  then obtain b where t: "t = Some b" and c: "\<not> c" by auto
  have e: "(\<lambda>m. case (if t = None then (None, m) else if c then (t, m) else cJSON_strdup t m) of (v, m1) \<Rightarrow> g v m1) =
      (\<lambda>m. case cJSON_strdup (Some b) m of (None, m1) \<Rightarrow> (None, m1) | (Some v, m1) \<Rightarrow> h (Some v) m1)"
    by (rule ext) (simp add: t c g split: prod.split option.split)
  have "needs (1 + n) (\<lambda>m. case cJSON_strdup (Some b) m of (None, m1) \<Rightarrow> (None, m1) | (Some v, m1) \<Rightarrow> h (Some v) m1) x"
    by (rule needs_bind [OF needs_strdup]) (use h t in simp)
  then show ?thesis unfolding e using t c by simp
qed

lemma needs_duplicate: "height t + lvl \<le> CJSON_CIRCULAR_LIMIT \<Longrightarrow> needs (blocks t) (cJSON_Duplicate_rec fo t lvl True) (unref t)"
proof (induction t arbitrary: lvl)
  case (CJSON ty vs vi vd s ch)
  have ih: "needs (blocks c) (\<lambda>k. cJSON_Duplicate_rec fo c (lvl + 1) True k) (unref c)" if "c \<in> set ch" for c
  proof (rule CJSON.IH [OF that])
    have "height (CJSON ty vs vi vd s ch) \<le> CJSON_CIRCULAR_LIMIT - lvl" using CJSON.prems by simp
    then show "height c + (lvl + 1) \<le> CJSON_CIRCULAR_LIMIT" using that CJSON.prems unfolding height_le by fastforce
  qed
  have l: "ch \<noteq> [] \<longrightarrow> lvl < CJSON_CIRCULAR_LIMIT"
  proof
    assume "ch \<noteq> []"
    then have "1 \<le> height (CJSON ty vs vi vd s ch)" using height_le [of ty vs vi vd s ch 0] by (cases ch) auto
    then show "lvl < CJSON_CIRCULAR_LIMIT" using CJSON.prems by simp
  qed
  let ?n = "sum_list (map blocks ch)" and ?u = "unref (CJSON ty vs vi vd s ch)"
  let ?k = "\<lambda>v s3 m. case dup_children (\<lambda>c k. cJSON_Duplicate_rec fo c (lvl + 1) True k) lvl ch m of
      (None, m4) \<Rightarrow> (None, m4) | (Some ds, m4) \<Rightarrow> (Some (CJSON (ty AND NOT cJSON_IsReference) v vi vd s3 ds), m4)"
  have "needs (?n + 0) (?k vs s) ?u" by (rule needs_bind [OF needs_children [OF ih l]]) (simp_all add: needs_0)
  then have k1: "needs ((if s = None \<or> ty AND cJSON_StringIsConst \<noteq> 0 then 0 else 1) + (?n + 0)) (\<lambda>m. case (if s = None then (None, m)
      else if ty AND cJSON_StringIsConst \<noteq> 0 then (s, m) else cJSON_strdup s m) of (s3, m3) \<Rightarrow> if s \<noteq> None \<and> s3 = None then (None, m3) else ?k vs s3 m3) ?u"
    by (intro needs_text [where h = "?k vs"]) auto
  let ?g = "\<lambda>v m. case (if s = None then (None, m)
      else if ty AND cJSON_StringIsConst \<noteq> 0 then (s, m) else cJSON_strdup s m) of (s3, m3) \<Rightarrow> if s \<noteq> None \<and> s3 = None then (None, m3) else ?k v s3 m3"
  let ?b = "(if vs = None \<or> False then 0 else 1) + ((if s = None \<or> ty AND cJSON_StringIsConst \<noteq> 0 then 0 else 1) + (?n + 0))"
  have "needs ?b (\<lambda>m. case (if vs = None then (None, m) else if False then (vs, m) else cJSON_strdup vs m) of
      (v2, m2) \<Rightarrow> if vs \<noteq> None \<and> v2 = None then (None, m2) else ?g v2 m2) ?u"
    by (rule needs_text [where h = ?g]) (use k1 in auto)
  then have d: "needs (1 + ?b) (\<lambda>m. case cJSON_New_Item fo m of (None, m1) \<Rightarrow> (None, m1) | (Some n, m1) \<Rightarrow>
      (case (if vs = None then (None, m1) else if False then (vs, m1) else cJSON_strdup vs m1) of
        (v2, m2) \<Rightarrow> if vs \<noteq> None \<and> v2 = None then (None, m2) else ?g v2 m2)) ?u"
    by (rule needs_bind [OF needs_New_Item])
  have n: "1 + ?b = blocks (CJSON ty vs vi vd s ch)" by (simp add: blocks_simps)
  have "needs (blocks (CJSON ty vs vi vd s ch)) (\<lambda>m. cJSON_Duplicate_rec fo (CJSON ty vs vi vd s ch) lvl True m) ?u"
    using d unfolding n by (simp only: cJSON_Duplicate_rec.simps if_False not_True_eq_False)
  then show ?case .
qed

section \<open>Comparison\<close>

text \<open>Names that the look-up does not tell apart.\<close>

definition same_name :: "bool \<Rightarrow> byte list \<Rightarrow> byte list \<Rightarrow> bool" where
  "same_name cs a b \<longleftrightarrow> (if cs then a = b else ci_loop a b = 0)"

definition distinct_names :: "bool \<Rightarrow> 'f cJSON list \<Rightarrow> bool" where
  "distinct_names cs ch \<longleftrightarrow> (\<forall>x \<in> set ch. item_string x \<noteq> None) \<and>
     (\<forall>i < length ch. \<forall>j < length ch. i \<noteq> j \<longrightarrow> \<not> same_name cs (the (item_string (ch ! i))) (the (item_string (ch ! j))))"

text \<open>Trees a comparison can be made with: of the known kinds, texts present, numbers that compare with themselves, no name twice.\<close>

fun comparable :: "'f dbl_ops \<Rightarrow> bool \<Rightarrow> 'f cJSON \<Rightarrow> bool" where
  "comparable fo cs (CJSON ty vs vi vd s ch) \<longleftrightarrow>
     ty AND 0xff \<in> {cJSON_False, cJSON_True, cJSON_NULL, cJSON_Number, cJSON_String, cJSON_Raw, cJSON_Array, cJSON_Object} \<and>
     (ty AND 0xff = cJSON_Number \<longrightarrow> d_close fo vd vd) \<and>
     (ty AND 0xff = cJSON_String \<or> ty AND 0xff = cJSON_Raw \<longrightarrow> vs \<noteq> None) \<and>
     (ty AND 0xff = cJSON_Object \<longrightarrow> distinct_names cs ch) \<and> (\<forall>x \<in> set ch. comparable fo cs x)"

lemma ci_loop_refl: "ci_loop a a = 0"
  by (induction a) auto

lemma find_member_Cons: "item_string c = Some b \<Longrightarrow>
    find_member cs n (c # rest) = (if same_name cs n b then Some 0 else map_option Suc (find_member cs n rest))"
  by (simp add: same_name_def case_insensitive_strcmp_def)

lemma find_member_nth:
  "distinct_names cs ch \<Longrightarrow> k < length ch \<Longrightarrow> find_member cs (the (item_string (ch ! k))) ch = Some k"
proof (induction ch arbitrary: k)
  case (Cons c ch)
  obtain b where b: "item_string c = Some b" using Cons.prems(1) by (auto simp: distinct_names_def)
  show ?case
  proof (cases k)
    case 0
    then show ?thesis using b ci_loop_refl [of b] by (simp add: find_member_Cons same_name_def del: find_member.simps)
  next
    case (Suc j)
    have "distinct_names cs ch" unfolding distinct_names_def
    proof (intro conjI allI impI)
      show "\<forall>x \<in> set ch. item_string x \<noteq> None" using Cons.prems(1) by (simp add: distinct_names_def)
      fix i l assume "i < length ch" "l < length ch" "i \<noteq> l"
      moreover have "\<forall>i < length (c # ch). \<forall>j < length (c # ch). i \<noteq> j \<longrightarrow>
          \<not> same_name cs (the (item_string ((c # ch) ! i))) (the (item_string ((c # ch) ! j)))" using Cons.prems(1) unfolding distinct_names_def by blast
      ultimately show "\<not> same_name cs (the (item_string (ch ! i))) (the (item_string (ch ! l)))"
        by (metis Suc_less_eq length_Cons nat.inject nth_Cons_Suc)
    qed
    then have "find_member cs (the (item_string (ch ! j))) ch = Some j" using Cons.IH Cons.prems(2) Suc by simp
    moreover have "\<not> same_name cs (the (item_string ((c # ch) ! k))) (the (item_string ((c # ch) ! 0)))"
      using Cons.prems Suc unfolding distinct_names_def by blast
    ultimately show ?thesis using b Suc by (simp add: find_member_Cons del: find_member.simps)
  qed
qed simp

lemma item_string_unref: "item_string (unref x) = item_string x"
  by (cases x) simp

lemma distinct_names_unref: "distinct_names cs (map unref ch) = distinct_names cs ch"
  by (auto simp: distinct_names_def item_string_unref)

lemma compare_members_self:
  assumes d: "distinct_names cs ys" and s: "\<forall>i < length xs. item_string (xs ! i) = item_string (ys ! (a + i)) \<and> f (xs ! i) (ys ! (a + i))"
    and l: "a + length xs \<le> length ys"
  shows "compare_members f cs xs ys"
  using s l
proof (induction xs arbitrary: a)
  case (Cons x xs)
  have "item_string (ys ! a) \<noteq> None" using d Cons.prems(2) by (simp add: distinct_names_def)
  then have "namesake cs x ys = Some a" using find_member_nth [OF d, of a] Cons.prems by (auto simp: namesake_def)
  moreover have "compare_members f cs xs ys" using Cons.IH [of "a + 1"] Cons.prems by force
  ultimately show ?case using Cons.prems by auto
qed simp

lemma compare_elements_map: "(\<And>x. x \<in> set xs \<Longrightarrow> f (g x) (h x)) \<Longrightarrow> compare_elements f (map g xs) (map h xs)"
  by (induction xs) auto

lemma compare_unref: "comparable fo cs t \<Longrightarrow> cJSON_Compare fo cs t (unref t) \<and> cJSON_Compare fo cs (unref t) t"
proof (induction t)
  case (CJSON ty vs vi vd s ch)
  let ?t = "CJSON ty vs vi vd s ch"
  have k: "kind (unref ?t) = kind ?t" "kind ?t = ty AND 0xff" by (simp_all add: kind_def noref)
  have ih: "cJSON_Compare fo cs x (unref x)" "cJSON_Compare fo cs (unref x) x" if "x \<in> set ch" for x using CJSON that by auto
  have e: "compare_elements (\<lambda>x y. cJSON_Compare fo cs x y) ch (map unref ch)" "compare_elements (\<lambda>x y. cJSON_Compare fo cs x y) (map unref ch) ch"
    using compare_elements_map [of ch "cJSON_Compare fo cs" id unref] compare_elements_map [of ch "cJSON_Compare fo cs" unref id] ih by auto
  have m: "compare_members (\<lambda>x y. cJSON_Compare fo cs x y) cs ch (map unref ch)" "compare_members (\<lambda>x y. cJSON_Compare fo cs x y) cs (map unref ch) ch"
    if "distinct_names cs ch"
    using compare_members_self [of cs "map unref ch" ch 0 "cJSON_Compare fo cs"] compare_members_self [of cs ch "map unref ch" 0 "cJSON_Compare fo cs"]
      that ih by (simp_all add: distinct_names_unref item_string_unref)
  show ?case using CJSON.prems e m unfolding cJSON_Compare.simps [of fo cs ?t] cJSON_Compare.simps [of fo cs "unref ?t"] k
    by (auto split: option.splits)
qed

section \<open>The properties of a duplicate\<close>

text \<open>
  C35. A duplicate equals its original and is separate from it. Given as many allocations as
  \<^verbatim>\<open>cJSON_Delete\<close> later gives back blocks, and no more, a deep copy of a tree of at most 10000 levels is the same
  tree with its own copies in the place of references; when any one of them fails, nothing is
  returned. If the tree has no name twice in an object, the copy and the original compare equal, in
  both orders.
\<close>

theorem duplicate_is_copy:
  assumes "height t \<le> CJSON_CIRCULAR_LIMIT"
  shows "cJSON_Duplicate fo (Some t) True (replicate (length (cJSON_Delete [unref t])) True @ r) = (Some (unref t), r) \<and>
    (\<forall>k < length (cJSON_Delete [unref t]). cJSON_Duplicate fo (Some t) True (replicate k True @ False # r) = (None, r)) \<and>
    (comparable fo cs t \<longrightarrow> cJSON_Compare fo cs t (unref t) \<and> cJSON_Compare fo cs (unref t) t)"
proof -
  have n: "needs (blocks t) (cJSON_Duplicate_rec fo t 0 True) (unref t)" using needs_duplicate [of t 0 fo] assms by simp
  have b: "length (cJSON_Delete [unref t]) = blocks t" by (simp add: cJSON_Delete_def blocks_def)
  show ?thesis unfolding b cJSON_Duplicate_def using needsD [OF n] compare_unref [of fo cs t] by simp
qed

text \<open>\<^verbatim>\<open>{"on": [true, -12]}\<close>.\<close>

theorem duplicate_is_copy_witness:
  "cJSON_Duplicate int_ops (Some sample) True (replicate 5 True @ [False]) = (Some sample, [False]) \<and>
   cJSON_Duplicate int_ops (Some sample) True (replicate 4 True @ [False]) = (None, []) \<and>
   cJSON_Compare int_ops True sample sample"
proof -
  have l: "length (cJSON_Delete [unref sample]) = 5" and u: "unref sample = sample"
    by (simp_all add: cJSON_Delete_def sample_def bytes_of_def)
  have h: "height sample \<le> CJSON_CIRCULAR_LIMIT" by (simp add: sample_def)
  have k: "length (cJSON_Delete [sample]) = 5" using l unfolding u .
  have c: "comparable int_ops True sample" by (simp add: sample_def int_ops_def distinct_names_def bytes_of_def)
  show ?thesis
    using duplicate_is_copy [OF h, where r = "[False]" and fo = int_ops and cs = True, unfolded u k]
      duplicate_is_copy [OF h, where r = "[]" and fo = int_ops and cs = True, unfolded u k] c by auto
qed

end
