(* ===== verification/Cjson_Chain.thy ===== *)
theory Cjson_Chain
  imports Prelude
begin

text \<open>
  The chain of the children of an item, as \<^verbatim>\<open>cJSON.c\<close> keeps it: \<^verbatim>\<open>next\<close> leads from each child to the
  following one and is \<^verbatim>\<open>NULL\<close> at the last, \<^verbatim>\<open>prev\<close> leads back, and \<^verbatim>\<open>prev\<close> of the first child is the last
  one. The functions that change a chain are their stores into these fields; they implement the
  operations on lists by which the other theories model the children.
\<close>

type_synonym ptr = nat

record child_chain =
  cnext :: "ptr \<Rightarrow> ptr option"
  cprev :: "ptr \<Rightarrow> ptr option"
  cchild :: "ptr option"

definition set_cnext :: "ptr \<Rightarrow> ptr option \<Rightarrow> child_chain \<Rightarrow> child_chain" where
  "set_cnext p v h = h\<lparr> cnext := (cnext h)(p := v) \<rparr>"
definition set_cprev :: "ptr \<Rightarrow> ptr option \<Rightarrow> child_chain \<Rightarrow> child_chain" where
  "set_cprev p v h = h\<lparr> cprev := (cprev h)(p := v) \<rparr>"

definition suffix_object :: "ptr \<Rightarrow> ptr \<Rightarrow> child_chain \<Rightarrow> child_chain" where
  "suffix_object prev item h = set_cprev item (Some prev) (set_cnext prev (Some item) h)"

text \<open>\<^verbatim>\<open>add_item_to_array\<close>.\<close>

definition chain_add :: "ptr \<Rightarrow> child_chain \<Rightarrow> child_chain" where
  "chain_add item h = (case cchild h of
     None \<Rightarrow> set_cnext item None (set_cprev item (Some item) (h\<lparr> cchild := Some item \<rparr>))
   | Some c \<Rightarrow> (case cprev h c of
       None \<Rightarrow> h
     | Some l \<Rightarrow> set_cprev c (Some item) (suffix_object l item h)))"

text \<open>\<^verbatim>\<open>cJSON_DetachItemViaPointer\<close>; \<^term>\<open>None\<close> is a refused item.\<close>

definition chain_detach :: "ptr \<Rightarrow> child_chain \<Rightarrow> child_chain option" where
  "chain_detach item h =
     (if cchild h \<noteq> Some item \<and> cprev h item = None then None
      else
        let h1 = (if cchild h \<noteq> Some item then (case cprev h item of Some q \<Rightarrow> set_cnext q (cnext h item) h | None \<Rightarrow> h) else h);
            h2 = (case cnext h1 item of Some n \<Rightarrow> set_cprev n (cprev h1 item) h1 | None \<Rightarrow> h1);
            h3 = (if cchild h2 = Some item then h2\<lparr> cchild := cnext h2 item \<rparr>
                  else if cnext h2 item = None then (case cchild h2 of Some c \<Rightarrow> set_cprev c (cprev h2 item) h2 | None \<Rightarrow> h2)
                  else h2)
        in Some (set_cnext item None (set_cprev item None h3)))"

text \<open>\<^verbatim>\<open>cJSON_InsertItemInArray\<close> in front of an existing item.\<close>

definition chain_insert :: "ptr \<Rightarrow> ptr \<Rightarrow> child_chain \<Rightarrow> child_chain option" where
  "chain_insert after item h =
     (if cchild h \<noteq> Some after \<and> cprev h after = None then None
      else
        let h1 = set_cprev after (Some item) (set_cprev item (cprev h after) (set_cnext item (Some after) h))
        in if cchild h1 = Some after then Some (h1\<lparr> cchild := Some item \<rparr>)
           else (case cprev h1 item of Some q \<Rightarrow> Some (set_cnext q (Some item) h1) | None \<Rightarrow> None))"

text \<open>\<^verbatim>\<open>cJSON_ReplaceItemViaPointer\<close>, up to the release of the replaced item.\<close>

definition chain_replace :: "ptr \<Rightarrow> ptr \<Rightarrow> child_chain \<Rightarrow> child_chain option" where
  "chain_replace item repl h = (case cchild h of
     None \<Rightarrow> None
   | Some c \<Rightarrow> if repl = item then Some h else
       let h1 = set_cprev repl (cprev h item) (set_cnext repl (cnext h item) h);
           h2 = (case cnext h1 repl of Some n \<Rightarrow> set_cprev n (Some repl) h1 | None \<Rightarrow> h1);
           h3 = (if c = item then
                   (if cprev h2 c = Some c then set_cprev repl (Some repl) h2 else h2)\<lparr> cchild := Some repl \<rparr>
                 else
                   let h2a = (case cprev h2 repl of Some q \<Rightarrow> set_cnext q (Some repl) h2 | None \<Rightarrow> h2)
                   in if cnext h2a repl = None then set_cprev c (Some repl) h2a else h2a)
       in Some (set_cprev item None (set_cnext item None h3)))"

text \<open>\<^verbatim>\<open>get_array_item\<close>, and the operations that find their item by its index.\<close>

fun chain_walk :: "child_chain \<Rightarrow> nat \<Rightarrow> ptr option \<Rightarrow> ptr option" where
  "chain_walk h index None = None"
| "chain_walk h 0 (Some p) = Some p"
| "chain_walk h (Suc index) (Some p) = chain_walk h index (cnext h p)"

definition chain_item :: "nat \<Rightarrow> child_chain \<Rightarrow> ptr option" where
  "chain_item index h = chain_walk h index (cchild h)"

datatype chain_op =
  Add_Item ptr              \<comment> \<open>\<^verbatim>\<open>cJSON_AddItemToArray\<close>\<close>
| Detach_Item int           \<comment> \<open>\<^verbatim>\<open>cJSON_DetachItemFromArray\<close>\<close>
| Insert_Item int ptr       \<comment> \<open>\<^verbatim>\<open>cJSON_InsertItemInArray\<close>\<close>
| Replace_Item int ptr      \<comment> \<open>\<^verbatim>\<open>cJSON_ReplaceItemInArray\<close>\<close>

text \<open>The result is the chain after the call; a refused call leaves it as it was.\<close>

definition chain_step :: "chain_op \<Rightarrow> child_chain \<Rightarrow> bool \<times> child_chain" where
  "chain_step op h = (case op of
     Add_Item item \<Rightarrow> (True, chain_add item h)
   | Detach_Item which \<Rightarrow>
       if which < 0 then (False, h)
       else (case chain_item (nat which) h of
         None \<Rightarrow> (False, h)
       | Some i \<Rightarrow> (case chain_detach i h of None \<Rightarrow> (False, h) | Some h' \<Rightarrow> (True, h')))
   | Insert_Item which item \<Rightarrow>
       if which < 0 then (False, h)
       else (case chain_item (nat which) h of
         None \<Rightarrow> (True, chain_add item h)
       | Some i \<Rightarrow> (case chain_insert i item h of None \<Rightarrow> (False, h) | Some h' \<Rightarrow> (True, h')))
   | Replace_Item which item \<Rightarrow>
       if which < 0 then (False, h)
       else (case chain_item (nat which) h of
         None \<Rightarrow> (False, h)
       | Some i \<Rightarrow> (case chain_replace i item h of None \<Rightarrow> (False, h) | Some h' \<Rightarrow> (True, h'))))"

fun chain_run :: "chain_op list \<Rightarrow> child_chain \<Rightarrow> bool list \<times> child_chain" where
  "chain_run [] h = ([], h)"
| "chain_run (op # ops) h = (case chain_step op h of (ok, h1) \<Rightarrow>
     case chain_run ops h1 of (oks, h2) \<Rightarrow> (ok # oks, h2))"

text \<open>
  What the operations mean on the list of the children. \<^term>\<open>None\<close>: the caller hands in an item that is
  in the chain already, which the documentation forbids.
\<close>

definition list_step :: "chain_op \<Rightarrow> ptr list \<Rightarrow> (bool \<times> ptr list) option" where
  "list_step op xs = (case op of
     Add_Item item \<Rightarrow> if item \<in> set xs then None else Some (True, xs @ [item])
   | Detach_Item which \<Rightarrow> Some (
       if 0 \<le> which \<and> nat which < length xs then (True, take (nat which) xs @ drop (nat which + 1) xs) else (False, xs))
   | Insert_Item which item \<Rightarrow>
       if item \<in> set xs then None
       else Some (if which < 0 then (False, xs) else (True, take (nat which) xs @ item # drop (nat which) xs))
   | Replace_Item which item \<Rightarrow>
       if item \<in> set xs then None
       else Some (if 0 \<le> which \<and> nat which < length xs then (True, xs[nat which := item]) else (False, xs)))"

fun list_run :: "chain_op list \<Rightarrow> ptr list \<Rightarrow> (bool list \<times> ptr list) option" where
  "list_run [] xs = Some ([], xs)"
| "list_run (op # ops) xs = (case list_step op xs of
     None \<Rightarrow> None
   | Some (ok, ys) \<Rightarrow> (case list_run ops ys of None \<Rightarrow> None | Some (oks, zs) \<Rightarrow> Some (ok # oks, zs)))"

section \<open>Chains and lists\<close>

text \<open>
  \<^term>\<open>nexts f xs r\<close>: following \<^term>\<open>f\<close> from the first of \<^term>\<open>xs\<close> visits \<^term>\<open>xs\<close> and arrives at
  \<^term>\<open>r\<close>. \<^term>\<open>prevs f p xs\<close>: \<^term>\<open>f\<close> leads from each of \<^term>\<open>xs\<close> to the one before, and from the first to \<^term>\<open>p\<close>.
\<close>

fun first_or :: "ptr option \<Rightarrow> ptr list \<Rightarrow> ptr option" where
  "first_or r [] = r"
| "first_or r (x # xs) = Some x"

fun nexts :: "(ptr \<Rightarrow> ptr option) \<Rightarrow> ptr list \<Rightarrow> ptr option \<Rightarrow> bool" where
  "nexts f [] r \<longleftrightarrow> True"
| "nexts f (x # xs) r \<longleftrightarrow> f x = first_or r xs \<and> nexts f xs r"

fun prevs :: "(ptr \<Rightarrow> ptr option) \<Rightarrow> ptr \<Rightarrow> ptr list \<Rightarrow> bool" where
  "prevs f p [] \<longleftrightarrow> True"
| "prevs f p (x # xs) \<longleftrightarrow> f x = Some p \<and> prevs f x xs"

definition is_chain :: "ptr list \<Rightarrow> child_chain \<Rightarrow> bool" where
  "is_chain xs h \<longleftrightarrow> distinct xs \<and> cchild h = first_or None xs \<and>
     nexts (cnext h) xs None \<and> prevs (cprev h) (last xs) xs"

text \<open>The chain together with the items outside it, which lead nowhere.\<close>

definition chain_inv :: "ptr list \<Rightarrow> child_chain \<Rightarrow> bool" where
  "chain_inv xs h \<longleftrightarrow> is_chain xs h \<and> (\<forall>p. p \<notin> set xs \<longrightarrow> cnext h p = None)"

lemma first_or_append [simp]: "first_or r (us @ ys) = first_or (first_or r ys) us"
  by (cases us) auto

lemma nexts_append [simp]:
  "nexts f (us @ ys) r \<longleftrightarrow> nexts f us (first_or r ys) \<and> nexts f ys r"
  by (induction us) auto

lemma prevs_append [simp]: "prevs f p (us @ ys) \<longleftrightarrow> prevs f p us \<and> prevs f (last (p # us)) ys"
  by (induction us arbitrary: p) auto

lemma nexts_upd [simp]: "p \<notin> set us \<Longrightarrow> nexts (f(p := v)) us r = nexts f us r"
  by (induction us) auto

lemma prevs_upd [simp]: "q \<notin> set us \<Longrightarrow> prevs (f(q := v)) p us = prevs f p us"
  by (induction us arbitrary: p) auto

lemmas chain_defs = set_cnext_def set_cprev_def suffix_object_def is_chain_def chain_inv_def

text \<open>A chain around one of its items: the item is the first, or the last, or between two others.\<close>

lemma chain_around_cases:
  obtains (only) "us = []" "vs = []"
  | (front) n ns where "us = []" "vs = n # ns"
  | (end1) c where "us = [c]" "vs = []"
  | (end2) c cs q where "us = c # cs @ [q]" "vs = []"
  | (mid1) q n ns where "us = [q]" "vs = n # ns"
  | (mid2) c cs q n ns where "us = c # cs @ [q]" "vs = n # ns"
  by (cases us; cases vs; cases "tl us" rule: rev_cases) auto

lemma chain_add_list:
  assumes "chain_inv xs h" "item \<notin> set xs"
  shows "chain_inv (xs @ [item]) (chain_add item h)"
  using assms by (cases xs "[] :: ptr list" rule: chain_around_cases) (auto simp: chain_defs chain_add_def)

lemma chain_detach_list:
  assumes "chain_inv (us @ item # vs) h"
  shows "\<exists>h'. chain_detach item h = Some h' \<and> chain_inv (us @ vs) h' \<and> cprev h' item = None"
  using assms by (cases us vs rule: chain_around_cases) (auto simp: chain_defs chain_detach_def Let_def)

lemma chain_insert_list:
  assumes "chain_inv (us @ i # vs) h" "item \<notin> set (us @ i # vs)"
  shows "\<exists>h'. chain_insert i item h = Some h' \<and> chain_inv (us @ item # i # vs) h'"
  using assms by (cases us vs rule: chain_around_cases) (auto simp: chain_defs chain_insert_def Let_def)

lemma chain_replace_list:
  assumes "chain_inv (us @ item # vs) h" "repl \<notin> set (us @ item # vs)"
  shows "\<exists>h'. chain_replace item repl h = Some h' \<and> chain_inv (us @ repl # vs) h' \<and> cprev h' item = None"
  using assms by (cases us vs rule: chain_around_cases) (auto simp: chain_defs chain_replace_def Let_def)

lemma chain_walk_nth:
  "nexts (cnext h) xs None \<Longrightarrow> chain_walk h n (first_or None xs) = (if n < length xs then Some (xs ! n) else None)"
proof (induction xs arbitrary: n)
  case (Cons x xs)
  then show ?case by (cases n) auto
qed simp

lemma chain_item_nth: "is_chain xs h \<Longrightarrow> chain_item n h = (if n < length xs then Some (xs ! n) else None)"
  using chain_walk_nth by (auto simp: chain_item_def is_chain_def)

lemma chain_item_inv: "chain_inv xs h \<Longrightarrow> chain_item n h = (if n < length xs then Some (xs ! n) else None)"
  by (simp add: chain_inv_def chain_item_nth)

lemma chain_step_list:
  assumes h: "chain_inv xs h" and l: "list_step op xs = Some (ok, ys)"
  shows "fst (chain_step op h) = ok \<and> chain_inv ys (snd (chain_step op h))"
proof -
  have around: "xs = take n xs @ xs ! n # drop (Suc n) xs" if "n < length xs" for n using that by (simp add: id_take_nth_drop [symmetric])
  show ?thesis
  proof (cases op)
    case (Add_Item item)
    then show ?thesis using l chain_add_list [OF h] by (auto simp: list_step_def chain_step_def split: if_splits)
  next
    case (Detach_Item which)
    show ?thesis
    proof (cases "0 \<le> which \<and> nat which < length xs")
      case True
      then show ?thesis using l chain_detach_list [of "take (nat which) xs" "xs ! nat which" "drop (Suc (nat which)) xs" h] h around [of "nat which"] Detach_Item
        by (auto simp: list_step_def chain_step_def chain_item_inv [OF h])
    qed (use l h Detach_Item in \<open>auto simp: list_step_def chain_step_def chain_item_inv [OF h]\<close>)
  next
    case (Insert_Item which item)
    show ?thesis
    proof (cases "0 \<le> which \<and> nat which < length xs")
      case True
      then show ?thesis using l chain_insert_list [of "take (nat which) xs" "xs ! nat which" "drop (Suc (nat which)) xs" h item] h around [of "nat which"] Insert_Item
        by (auto simp: list_step_def chain_step_def chain_item_inv [OF h] Cons_nth_drop_Suc split: if_splits)
    qed (use l h chain_add_list [OF h] Insert_Item in \<open>auto simp: list_step_def chain_step_def chain_item_inv [OF h] split: if_splits\<close>)
  next
    case (Replace_Item which item)
    show ?thesis
    proof (cases "0 \<le> which \<and> nat which < length xs")
      case True
      then show ?thesis using l chain_replace_list [of "take (nat which) xs" "xs ! nat which" "drop (Suc (nat which)) xs" h item] h around [of "nat which"] Replace_Item
        by (auto simp: list_step_def chain_step_def chain_item_inv [OF h] upd_conv_take_nth_drop split: if_splits)
    qed (use l h Replace_Item in \<open>auto simp: list_step_def chain_step_def chain_item_inv [OF h] split: if_splits\<close>)
  qed
qed

lemma chain_run_list:
  "chain_inv xs h \<Longrightarrow> list_run ops xs = Some (oks, ys) \<Longrightarrow> fst (chain_run ops h) = oks \<and> chain_inv ys (snd (chain_run ops h))"
proof (induction ops arbitrary: xs h oks)
  case (Cons op ops)
  obtain ok zs oks' where z: "list_step op xs = Some (ok, zs)" "list_run ops zs = Some (oks', ys)" "oks = ok # oks'"
    using Cons.prems(2) by (auto split: option.splits)
  show ?case using Cons.IH [OF _ z(2), of "snd (chain_step op h)"] chain_step_list [OF Cons.prems(1) z(1)] z(3)
    by (auto split: prod.splits)
qed simp

end
