(* ===== verification/Cjson_Children.thy ===== *)
theory Cjson_Children
  imports Cjson_Edit Cjson_Chain
begin

text \<open>
  The functions that edit the children of an item, at the level of their pointers and at the level of
  the trees: any sequence of calls gives the same answers at both, and leaves a well-linked chain that
  leads through the children of the tree in their order.
\<close>

text \<open>The calls on trees; \<open>obj\<close> is the item behind a pointer.\<close>

definition tree_step :: "(ptr \<Rightarrow> 'f cJSON) \<Rightarrow> chain_op \<Rightarrow> 'f cJSON option \<Rightarrow> bool \<times> 'f cJSON option" where
  "tree_step obj op arr = (case op of
     Add_Item item \<Rightarrow> cJSON_AddItemToArray arr (Some (obj item))
   | Detach_Item which \<Rightarrow> apfst (\<lambda>r. r \<noteq> None) (cJSON_DetachItemFromArray arr which)
   | Insert_Item which item \<Rightarrow> cJSON_InsertItemInArray arr which (Some (obj item))
   | Replace_Item which item \<Rightarrow> cJSON_ReplaceItemInArray arr which (Some (obj item)))"

fun tree_run :: "(ptr \<Rightarrow> 'f cJSON) \<Rightarrow> chain_op list \<Rightarrow> 'f cJSON option \<Rightarrow> bool list \<times> 'f cJSON option" where
  "tree_run obj [] arr = ([], arr)"
| "tree_run obj (op # ops) arr = (case tree_step obj op arr of (ok, a1) \<Rightarrow>
     case tree_run obj ops a1 of (oks, a2) \<Rightarrow> (ok # oks, a2))"

lemmas tree_defs = cJSON_AddItemToArray_def add_item_to_array_def cJSON_DetachItemFromArray_def cJSON_DetachItemViaPointer_def
  cJSON_InsertItemInArray_def cJSON_ReplaceItemInArray_def cJSON_ReplaceItemViaPointer_def get_array_item_def

lemma child_set_child [simp]: "child (set_child v a) = v"
  by (cases a) simp

lemma tree_step_list:
  assumes "child a = map obj xs" "list_step op xs = Some (ok, ys)"
  shows "\<exists>a'. tree_step obj op (Some a) = (ok, Some a') \<and> child a' = map obj ys"
  using assms
  by (cases op) (auto simp: tree_step_def list_step_def tree_defs take_map drop_map map_update split: if_splits)

lemma tree_run_list:
  "child a = map obj xs \<Longrightarrow> list_run ops xs = Some (oks, ys) \<Longrightarrow>
     \<exists>a'. tree_run obj ops (Some a) = (oks, Some a') \<and> child a' = map obj ys"
proof (induction ops arbitrary: xs a oks)
  case (Cons op ops)
  obtain ok zs oks' where z: "list_step op xs = Some (ok, zs)" "list_run ops zs = Some (oks', ys)" "oks = ok # oks'"
    using Cons.prems(2) by (auto split: option.splits)
  obtain a' where "tree_step obj op (Some a) = (ok, Some a')" "child a' = map obj zs"
    using tree_step_list [OF Cons.prems(1) z(1)] by blast
  then show ?case using Cons.IH [OF _ z(2), of a'] z(3) by auto
qed simp

text \<open>A chain of no items, in an array as it was created.\<close>

definition empty_chain :: child_chain where
  "empty_chain = \<lparr> cnext = \<lambda>_. None, cprev = \<lambda>_. None, cchild = None \<rparr>"

lemma empty_chain_inv: "chain_inv [] empty_chain"
  by (simp add: chain_defs empty_chain_def)

text \<open>
  C36. The children as the pointers have them and as the trees have them. Any sequence of additions,
  detachments, insertions and replacements on an array that starts empty, with positions in range or
  not, in which no item is handed in that is already there: both models give the same answers; the chain is well-linked (\<open>next\<close>
  ends at the last child, \<open>prev\<close> is its converse and leads from the first child to the last, nothing
  outside the chain leads anywhere); and the walk of \<open>get_array_item\<close> finds exactly the children of the tree.
\<close>

theorem children_refine_chain:
  assumes "list_run ops [] \<noteq> None" "child a = []"
  shows "\<exists>oks h a' ys. chain_run ops empty_chain = (oks, h) \<and> tree_run obj ops (Some a) = (oks, Some a') \<and>
     chain_inv ys h \<and> child a' = map obj ys \<and>
     (\<forall>n. map_option obj (chain_item n h) = (if n < length (child a') then Some (child a' ! n) else None))"
proof -
  obtain oks ys where r: "list_run ops [] = Some (oks, ys)" using assms(1) by auto
  have c: "fst (chain_run ops empty_chain) = oks" "chain_inv ys (snd (chain_run ops empty_chain))"
    using chain_run_list [OF empty_chain_inv r] by auto
  obtain a' where t: "tree_run obj ops (Some a) = (oks, Some a')" "child a' = map obj ys"
    using tree_run_list [of a obj "[]" ops oks ys] assms(2) r by auto
  show ?thesis using c t chain_item_inv [OF c(2)]
    by (intro exI [of _ oks] exI [of _ "snd (chain_run ops empty_chain)"] exI [of _ a'] exI [of _ ys]) (auto simp: prod_eq_iff)
qed

theorem children_refine_chain_witness:
  "\<exists>oks h a' ys. chain_run [Add_Item 1, Add_Item 2, Insert_Item 1 3, Detach_Item 0, Detach_Item 7, Replace_Item 1 4] empty_chain = (oks, h) \<and>
     tree_run (\<lambda>p. CJSON cJSON_Number None (int p) p None [])
       [Add_Item 1, Add_Item 2, Insert_Item 1 3, Detach_Item 0, Detach_Item 7, Replace_Item 1 4] (Some (CJSON cJSON_Array None 0 0 None [])) = (oks, Some a') \<and>
     chain_inv ys h \<and> child a' = map (\<lambda>p. CJSON cJSON_Number None (int p) p None []) ys \<and>
     (\<forall>n. map_option (\<lambda>p. CJSON cJSON_Number None (int p) p None []) (chain_item n h) =
        (if n < length (child a') then Some (child a' ! n) else None))"
  by (rule children_refine_chain) (simp_all add: list_step_def)

end
