(* ===== verification/Cjson_Minify.thy ===== *)
theory Cjson_Minify
  imports Cjson_Render
begin

text \<open>
  \<^verbatim>\<open>cJSON_Minify\<close>, which takes white space and comments out of a text in place: two indices into one
  memory, the one that is written never ahead of the one that is read. The loops end at the terminator.
\<close>

section \<open>The code\<close>

partial_function (option) oneline_loop :: "view \<Rightarrow> nat \<Rightarrow> nat option" where
  "oneline_loop v input = (if v input = 0 then Some input else if v input = 10 then Some (input + 1) else oneline_loop v (input + 1))"

definition skip_oneline_comment :: "view \<Rightarrow> nat \<Rightarrow> nat option" where
  "skip_oneline_comment v input = oneline_loop v (input + 2)"

partial_function (option) multiline_loop :: "view \<Rightarrow> nat \<Rightarrow> nat option" where
  "multiline_loop v input =
     (if v input = 0 then Some input
      else if v input = 0x2a \<and> v (input + 1) = 0x2f then Some (input + 2) else multiline_loop v (input + 1))"

definition skip_multiline_comment :: "view \<Rightarrow> nat \<Rightarrow> nat option" where
  "skip_multiline_comment v input = multiline_loop v (input + 2)"

partial_function (option) string_loop :: "view \<Rightarrow> nat \<Rightarrow> nat \<Rightarrow> (view \<times> nat \<times> nat) option" where
  "string_loop v input output =
     (if v input = 0 then Some (v, input, output)
      else let v1 = v(output := v input)
        in if v1 input = 0x22 then Some (v1(output := 0x22), input + 1, output + 1)
           else if v1 input = 0x5c \<and> v1 (input + 1) = 0x22 then
             string_loop (v1(output + 1 := v1 (input + 1))) (input + 1 + 1) (output + 1 + 1)
           else string_loop v1 (input + 1) (output + 1))"

definition minify_string :: "view \<Rightarrow> nat \<Rightarrow> nat \<Rightarrow> (view \<times> nat \<times> nat) option" where
  "minify_string v input output = string_loop (v(output := v input)) (input + 1) (output + 1)"

partial_function (option) minify_loop :: "view \<Rightarrow> nat \<Rightarrow> nat \<Rightarrow> (view \<times> nat) option" where
  "minify_loop v json into =
     (if v json = 0 then Some (v, into)
      else if v json = 0x20 \<or> v json = 9 \<or> v json = 13 \<or> v json = 10 then minify_loop v (json + 1) into
      else if v json = 0x2f then
        (if v (json + 1) = 0x2f then
           Option.bind (skip_oneline_comment v json) (\<lambda>json'. minify_loop v json' into)
         else if v (json + 1) = 0x2a then
           Option.bind (skip_multiline_comment v json) (\<lambda>json'. minify_loop v json' into)
         else minify_loop v (json + 1) into)
      else if v json = 0x22 then
        Option.bind (minify_string v json into) (\<lambda>(v', json', into'). minify_loop v' json' into')
      else minify_loop (v(into := v json)) (json + 1) (into + 1))"

definition cJSON_Minify :: "view option \<Rightarrow> view option option" where
  "cJSON_Minify json = (case json of
     None \<Rightarrow> Some None
   | Some v \<Rightarrow> map_option (\<lambda>(w, into). Some (w(into := 0))) (minify_loop v 0 0))"

section \<open>The text without white space and comments\<close>

fun after_line :: "byte list \<Rightarrow> byte list" where
  "after_line [] = []"
| "after_line (c # cs) = (if c = 10 then cs else after_line cs)"

fun after_block :: "byte list \<Rightarrow> byte list" where
  "after_block [] = []"
| "after_block (c # cs) = (if c = 0x2a \<and> take 1 cs = [0x2f] then drop 1 cs else after_block cs)"

text \<open>The rest of a string literal with its closing quote, and what follows it.\<close>

fun literal :: "byte list \<Rightarrow> byte list \<times> byte list" where
  "literal [] = ([], [])"
| "literal [c] = ([c], [])"
| "literal (c # d # cs) =
     (if c = 0x22 then ([c], d # cs)
      else if c = 0x5c \<and> d = 0x22 then apfst (\<lambda>t. c # d # t) (literal cs)
      else apfst (Cons c) (literal (d # cs)))"

lemma after_line_length: "length (after_line cs) \<le> length cs"
  by (induction cs) auto

lemma after_block_length: "length (after_block cs) \<le> length cs"
  by (induction cs) auto

lemma literal_length: "length (fst (literal cs)) + length (snd (literal cs)) = length cs"
  by (induction cs rule: literal.induct) auto

function minified :: "byte list \<Rightarrow> byte list" where
  "minified [] = []"
| "minified (c # cs) =
     (if c = 0x20 \<or> c = 9 \<or> c = 13 \<or> c = 10 then minified cs
      else if c = 0x2f then
        (if take 1 cs = [0x2f] then minified (after_line (drop 1 cs))
         else if take 1 cs = [0x2a] then minified (after_block (drop 1 cs))
         else minified cs)
      else if c = 0x22 then c # fst (literal cs) @ minified (snd (literal cs))
      else c # minified cs)"
  by pat_completeness auto
termination
proof (relation "measure length")
  fix c :: byte and cs
  show "(after_line (drop 1 cs), c # cs) \<in> measure length" using after_line_length [of "drop 1 cs"] by simp
  show "(after_block (drop 1 cs), c # cs) \<in> measure length" using after_block_length [of "drop 1 cs"] by simp
  show "(snd (literal cs), c # cs) \<in> measure length" using literal_length [of cs] by simp
qed auto

text \<open>The cases of the \<^verbatim>\<open>switch\<close>.\<close>

lemma minify_cases:
  fixes c :: byte and cs :: "byte list"
  obtains (ws) "c = 0x20 \<or> c = 9 \<or> c = 13 \<or> c = 10"
    | (line) "c = 0x2f" "take 1 cs = [0x2f]" | (block) "c = 0x2f" "take 1 cs = [0x2a]"
    | (slash) "c = 0x2f" "take 1 cs \<noteq> [0x2f]" "take 1 cs \<noteq> [0x2a]"
    | (str) "c = 0x22" | (other) "\<not> (c = 0x20 \<or> c = 9 \<or> c = 13 \<or> c = 10)" "c \<noteq> 0x2f" "c \<noteq> 0x22"
  by blast

section \<open>The code writes that text\<close>

text \<open>The terminated string \<open>cs\<close> at index \<open>i\<close>.\<close>

fun text_at :: "view \<Rightarrow> nat \<Rightarrow> byte list \<Rightarrow> bool" where
  "text_at v i [] \<longleftrightarrow> v i = 0"
| "text_at v i (c # cs) \<longleftrightarrow> v i = c \<and> c \<noteq> 0 \<and> text_at v (i + 1) cs"

lemma text_at_upd [simp]: "k < i \<Longrightarrow> text_at (v(k := x)) i cs = text_at v i cs"
  by (induction cs arbitrary: i) auto

lemma text_at_upd_Suc [simp]: "k \<le> i \<Longrightarrow> text_at (v(k := x)) (Suc i) cs = text_at v (Suc i) cs"
  by simp

lemma text_at_peek: "text_at v i cs \<Longrightarrow> x \<noteq> 0 \<Longrightarrow> v i = x \<longleftrightarrow> take 1 cs = [x]"
  by (cases cs) auto

lemma text_at_drop: "text_at v i cs \<Longrightarrow> take 1 cs = [x] \<Longrightarrow> text_at v (Suc i) (drop 1 cs)"
  by (cases cs) auto

lemma oneline_loop_after: "text_at v i cs \<Longrightarrow> \<exists>j. oneline_loop v i = Some j \<and> text_at v j (after_line cs) \<and> i \<le> j \<and> j + length (after_line cs) = i + length cs"
proof (induction cs arbitrary: i)
  case Nil
  then show ?case by (subst oneline_loop.simps) auto
next
  case (Cons c cs)
  then obtain j where "oneline_loop v (i + 1) = Some j" "text_at v j (after_line cs)" "i + 1 \<le> j" "j + length (after_line cs) = i + 1 + length cs"
    by (metis text_at.simps(2))
  then show ?case using Cons.prems by (subst oneline_loop.simps) auto
qed

lemma multiline_loop_after: "text_at v i cs \<Longrightarrow> \<exists>j. multiline_loop v i = Some j \<and> text_at v j (after_block cs) \<and> i \<le> j \<and> j + length (after_block cs) = i + length cs"
proof (induction cs arbitrary: i)
  case Nil
  then show ?case by (subst multiline_loop.simps) auto
next
  case (Cons c cs)
  then obtain j where j: "multiline_loop v (i + 1) = Some j" "text_at v j (after_block cs)" "i + 1 \<le> j" "j + length (after_block cs) = i + 1 + length cs"
    by (metis text_at.simps(2))
  have t: "text_at v (i + 1) cs" "v i = c" "c \<noteq> 0" using Cons.prems by auto
  show ?case using j t text_at_peek [OF t(1), of "0x2f"] text_at_drop [OF t(1), of "0x2f"]
    by (cases cs; subst multiline_loop.simps) (auto split: if_splits)
qed

text \<open>What has been written from \<open>k\<close> on, with everything in front of \<open>k\<close> and from \<open>e\<close> on as it was.\<close>

definition wrote_at :: "view \<Rightarrow> nat \<Rightarrow> byte list \<Rightarrow> nat \<Rightarrow> view \<Rightarrow> bool" where
  "wrote_at v k ts e w \<longleftrightarrow> take_view (length ts) (advance w k) = ts \<and> (\<forall>j. j < k \<or> e \<le> j \<longrightarrow> w j = v j)"

lemma wrote_at_Nil [simp]: "wrote_at v k [] e v"
  by (simp add: wrote_at_def)

lemma wrote_at_iff: "wrote_at v k ts e w \<longleftrightarrow> (\<forall>i < length ts. w (k + i) = ts ! i) \<and> (\<forall>j. j < k \<or> e \<le> j \<longrightarrow> w j = v j)"
  by (auto simp: wrote_at_def advance_apply list_eq_iff_nth_eq)

lemma wrote_at_Cons:
  assumes "wrote_at (v(k := c)) (k + 1) ts e w" "k < e"
  shows "wrote_at v k (c # ts) e w"
  unfolding wrote_at_iff
proof (intro conjI allI impI)
  note w = assms(1) [unfolded wrote_at_iff]
  have k: "w k = c" using w assms(2) by simp
  show "w (k + i) = (c # ts) ! i" if "i < length (c # ts)" for i using w k that by (cases i) auto
  show "w j = v j" if "j < k \<or> e \<le> j" for j using w assms(2) that by auto
qed

lemma wrote_at_append:
  assumes "wrote_at v k ts e u" "wrote_at u (k + length ts) us e w"
  shows "wrote_at v k (ts @ us) e w"
  unfolding wrote_at_iff
proof (intro conjI allI impI)
  note u = assms(1) [unfolded wrote_at_iff] and w = assms(2) [unfolded wrote_at_iff]
  show "w (k + i) = (ts @ us) ! i" if "i < length (ts @ us)" for i
  proof (cases "i < length ts")
    case False
    then have "i - length ts < length us" using that by auto
    then have "w (k + length ts + (i - length ts)) = us ! (i - length ts)" using w by blast
    moreover have "k + length ts + (i - length ts) = k + i" using False by simp
    ultimately have "w (k + i) = us ! (i - length ts)" by (simp only:)
    with False show ?thesis by (simp add: nth_append)
  qed (use u w in \<open>simp add: nth_append\<close>)
  show "w j = v j" if "j < k \<or> e \<le> j" for j using u w that by auto
qed

lemma string_loop_literal:
  "text_at v i cs \<Longrightarrow> k \<le> i \<Longrightarrow> \<exists>w j. string_loop v i k = Some (w, j, k + length (fst (literal cs))) \<and>
     text_at w j (snd (literal cs)) \<and> j = i + length (fst (literal cs)) \<and> wrote_at v k (fst (literal cs)) (i + length cs) w"
proof (induction cs arbitrary: v i k rule: literal.induct)
  case 1
  then show ?case by (subst string_loop.simps) simp
next
  case (2 c)
  then have "wrote_at v k [c] (i + 1) (v(k := c))" by (intro wrote_at_Cons) simp_all
  then show ?case using 2 by (subst string_loop.simps) (auto simp: string_loop.simps Let_def)
next
  case (3 c d cs)
  have t: "v i = c" "v (i + 1) = d" "c \<noteq> 0" "d \<noteq> 0" "text_at v (i + 2) cs" using "3.prems" by auto
  consider "c = 0x22" | "c = 0x5c \<and> d = 0x22" | "c \<noteq> 0x22 \<and> \<not> (c = 0x5c \<and> d = 0x22)" by blast
  then show ?case
  proof cases
    case 1
    then have "wrote_at v k [c] (i + length (c # d # cs)) (v(k := c))" using "3.prems" by (intro wrote_at_Cons) simp_all
    with 1 show ?thesis using t "3.prems" by (subst string_loop.simps) (auto simp: Let_def)
  next
    case 2
    let ?v = "v(k := c, k + 1 := d)"
    have a: "text_at ?v (i + 2) cs" using t(5) "3.prems"(2) by (simp del: fun_upd_apply)
    have n: "c \<noteq> 0x22" and k2: "k + 2 \<le> i + 2" using 2 "3.prems"(2) by simp_all
    have "string_loop v i k = string_loop ?v (i + 2) (k + 2)"
      using 2 t "3.prems" by (subst string_loop.simps) (auto simp: Let_def)
    moreover obtain w j where w: "string_loop ?v (i + 2) (k + 2) = Some (w, j, k + 2 + length (fst (literal cs)))"
      "text_at w j (snd (literal cs))" "j = i + 2 + length (fst (literal cs))" "wrote_at ?v (k + 2) (fst (literal cs)) (i + 2 + length cs) w"
      using "3.IH"(1) [OF n 2 a k2] by blast
    moreover have "wrote_at v k (c # d # fst (literal cs)) (i + 2 + length cs) w"
      using w(4) "3.prems" by (intro wrote_at_Cons) (simp_all add: numeral_2_eq_2)
    ultimately show ?thesis using 2 by simp
  next
    case 3
    let ?v = "v(k := c)"
    have a: "text_at ?v (i + 1) (d # cs)" using "3.prems" by (simp del: fun_upd_apply add: fun_upd_other)
    have n: "c \<noteq> 0x22" "\<not> (c = 0x5c \<and> d = 0x22)" and k1: "k + 1 \<le> i + 1" using 3 "3.prems"(2) by simp_all
    have "string_loop v i k = string_loop ?v (i + 1) (k + 1)"
      using 3 t "3.prems" by (subst string_loop.simps) (auto simp: Let_def)
    moreover obtain w j where w: "string_loop ?v (i + 1) (k + 1) = Some (w, j, k + 1 + length (fst (literal (d # cs))))"
      "text_at w j (snd (literal (d # cs)))" "j = i + 1 + length (fst (literal (d # cs)))" "wrote_at ?v (k + 1) (fst (literal (d # cs))) (i + 1 + length (d # cs)) w"
      using "3.IH"(2) [OF n a k1] by blast
    moreover have "wrote_at v k (c # fst (literal (d # cs))) (i + 1 + length (d # cs)) w"
      using w(4) "3.prems" by (intro wrote_at_Cons) simp_all
    moreover have "literal (c # d # cs) = apfst (Cons c) (literal (d # cs))" using n by auto
    ultimately show ?thesis by (simp del: literal.simps)
  qed
qed

lemma minify_string_literal:
  assumes "text_at v (i + 1) cs" "k \<le> i"
  shows "\<exists>w j. minify_string v i k = Some (w, j, k + 1 + length (fst (literal cs))) \<and> text_at w j (snd (literal cs)) \<and>
     j = i + 1 + length (fst (literal cs)) \<and> wrote_at v k (v i # fst (literal cs)) (i + 1 + length cs) w"
proof -
  let ?v = "v(k := v i)"
  have "text_at ?v (i + 1) cs" "k + 1 \<le> i + 1" using assms by (simp_all del: fun_upd_apply)
  from string_loop_literal [OF this] obtain w j where w: "string_loop ?v (i + 1) (k + 1) = Some (w, j, k + 1 + length (fst (literal cs)))"
    "text_at w j (snd (literal cs))" "j = i + 1 + length (fst (literal cs))" "wrote_at ?v (k + 1) (fst (literal cs)) (i + 1 + length cs) w"
    by blast
  moreover have "wrote_at v k (v i # fst (literal cs)) (i + 1 + length cs) w" using w(4) assms(2) by (intro wrote_at_Cons) simp_all
  ultimately show ?thesis by (simp add: minify_string_def)
qed

text \<open>What a run of the loop from \<open>i\<close> with output at \<open>k\<close> is to leave.\<close>

definition minifies :: "view \<Rightarrow> nat \<Rightarrow> byte list \<Rightarrow> nat \<Rightarrow> (view \<times> nat) option \<Rightarrow> bool" where
  "minifies v k ts e r \<longleftrightarrow> (\<exists>w. r = Some (w, k + length ts) \<and> wrote_at v k ts e w)"

lemma minifies_append:
  assumes "wrote_at v k ts e u" "minifies u (k + length ts) us e r"
  shows "minifies v k (ts @ us) e r"
  using assms wrote_at_append by (fastforce simp: minifies_def)

lemma minify_loop_line:
  assumes "text_at v i (0x2f # cs)" "take 1 cs = [0x2f]"
  shows "\<exists>j. minify_loop v i k = minify_loop v j k \<and> text_at v j (after_line (drop 1 cs)) \<and> i \<le> j \<and>
     j + length (after_line (drop 1 cs)) = i + length (0x2f # cs)"
proof -
  have t: "v i = 0x2f" "text_at v (i + 1) cs" using assms(1) by auto
  obtain j where j: "skip_oneline_comment v i = Some j" "text_at v j (after_line (drop 1 cs))" "i + 2 \<le> j"
    "j + length (after_line (drop 1 cs)) = i + 2 + length (drop 1 cs)"
    using oneline_loop_after [OF text_at_drop [OF t(2) assms(2)]] by (auto simp: skip_oneline_comment_def)
  have "minify_loop v i k = minify_loop v j k" using t assms(2) text_at_peek [OF t(2)] j(1) by (subst minify_loop.simps) simp
  moreover have "i + 2 + length (drop 1 cs) = i + length (0x2f # cs)" using assms(2) by (cases cs) simp_all
  ultimately show ?thesis using j by auto
qed

lemma minify_loop_block:
  assumes "text_at v i (0x2f # cs)" "take 1 cs = [0x2a]"
  shows "\<exists>j. minify_loop v i k = minify_loop v j k \<and> text_at v j (after_block (drop 1 cs)) \<and> i \<le> j \<and>
     j + length (after_block (drop 1 cs)) = i + length (0x2f # cs)"
proof -
  have t: "v i = 0x2f" "text_at v (i + 1) cs" using assms(1) by auto
  obtain j where j: "skip_multiline_comment v i = Some j" "text_at v j (after_block (drop 1 cs))" "i + 2 \<le> j"
    "j + length (after_block (drop 1 cs)) = i + 2 + length (drop 1 cs)"
    using multiline_loop_after [OF text_at_drop [OF t(2) assms(2)]] by (auto simp: skip_multiline_comment_def)
  have "minify_loop v i k = minify_loop v j k" using t assms(2) text_at_peek [OF t(2)] j(1) by (subst minify_loop.simps) simp
  moreover have "i + 2 + length (drop 1 cs) = i + length (0x2f # cs)" using assms(2) by (cases cs) simp_all
  ultimately show ?thesis using j by auto
qed

lemma minify_loop_minified:
  "text_at v i cs \<Longrightarrow> k \<le> i \<Longrightarrow> minifies v k (minified cs) (i + length cs) (minify_loop v i k)"
proof (induction cs arbitrary: v i k rule: minified.induct)
  case 1
  then show ?case by (subst minify_loop.simps) (simp add: minifies_def)
next
  case (2 c cs)
  have t: "v i = c" "c \<noteq> 0" "text_at v (i + 1) cs" using "2.prems" by auto
  note peek = text_at_peek [OF t(3)] and rest = text_at_drop [OF t(3)]
  show ?case
  proof (cases rule: minify_cases [where c = c and cs = cs])
    case ws
    then have "minify_loop v i k = minify_loop v (i + 1) k" using t by (subst minify_loop.simps) auto
    then show ?thesis using "2.IH"(1) [OF ws t(3)] ws "2.prems"(2) by simp
  next
    case line
    obtain j where j: "minify_loop v i k = minify_loop v j k" "text_at v j (after_line (drop 1 cs))" "i \<le> j"
      "j + length (after_line (drop 1 cs)) = i + length (c # cs)" using minify_loop_line [of v i cs k] line "2.prems"(1) by auto
    then show ?thesis using "2.IH"(2) [OF _ _ _ j(2), of k] line "2.prems"(2) by simp
  next
    case block
    obtain j where j: "minify_loop v i k = minify_loop v j k" "text_at v j (after_block (drop 1 cs))" "i \<le> j"
      "j + length (after_block (drop 1 cs)) = i + length (c # cs)" using minify_loop_block [of v i cs k] block "2.prems"(1) by auto
    then show ?thesis using "2.IH"(3) [OF _ _ _ _ j(2), of k] block "2.prems"(2) by simp
  next
    case slash
    then have "minify_loop v i k = minify_loop v (i + 1) k" using t peek by (subst minify_loop.simps) simp
    then show ?thesis using "2.IH"(4) [OF _ _ _ _ t(3)] slash "2.prems"(2) by simp
  next
    case str
    obtain w j where w: "minify_string v i k = Some (w, j, k + 1 + length (fst (literal cs)))" "text_at w j (snd (literal cs))"
      "j = i + 1 + length (fst (literal cs))" "wrote_at v k (v i # fst (literal cs)) (i + 1 + length cs) w"
      using minify_string_literal [OF t(3) "2.prems"(2)] by blast
    have "minify_loop v i k = minify_loop w j (k + 1 + length (fst (literal cs)))" using t str w(1) by (subst minify_loop.simps) simp
    moreover have "j + length (snd (literal cs)) = i + 1 + length cs" using w(3) literal_length [of cs] by simp
    moreover have "minifies w (k + 1 + length (fst (literal cs))) (minified (snd (literal cs))) (j + length (snd (literal cs)))
        (minify_loop w j (k + 1 + length (fst (literal cs))))"
      using "2.IH"(5) [OF _ _ _ w(2)] str w(3) "2.prems"(2) by simp
    ultimately show ?thesis using minifies_append [OF w(4)] str t(1) by simp
  next
    case other
    let ?v = "v(k := c)"
    have a: "text_at ?v (i + 1) cs" using t(3) "2.prems"(2) by (simp del: fun_upd_apply)
    have "minify_loop v i k = minify_loop ?v (i + 1) (k + 1)" using t other by (subst minify_loop.simps) auto
    moreover have "minifies ?v (k + 1) (minified cs) (i + 1 + length cs) (minify_loop ?v (i + 1) (k + 1))"
      using "2.prems"(2) by (intro "2.IH"(6) [OF other a]) simp
    moreover have "wrote_at v k [c] (i + 1 + length cs) ?v" using "2.prems"(2) by (intro wrote_at_Cons) simp_all
    ultimately show ?thesis using minifies_append [of v k "[c]" _ ?v] other by simp
  qed
qed

lemma minified_length: "length (minified cs) \<le> length cs"
proof (induction cs rule: minified.induct)
  case (2 c cs)
  then show ?case
    using after_line_length [of "drop 1 cs"] after_block_length [of "drop 1 cs"] literal_length [of cs] by (auto simp: not_le)
qed simp

lemma cJSON_Minify_text:
  assumes "text_at v 0 cs"
  shows "\<exists>w. cJSON_Minify (Some v) = Some (Some w) \<and> take_view (length (minified cs)) w = minified cs \<and>
     w (length (minified cs)) = 0 \<and> (\<forall>j > length cs. w j = v j)"
proof -
  obtain w where w: "minify_loop v 0 0 = Some (w, length (minified cs))" "wrote_at v 0 (minified cs) (length cs) w"
    using minify_loop_minified [OF assms, of 0] by (auto simp: minifies_def)
  have "take_view (length (minified cs)) (w(length (minified cs) := 0)) = minified cs"
    using w(2) by (auto simp: wrote_at_iff list_eq_iff_nth_eq)
  with w minified_length [of cs] show ?thesis by (intro exI [of _ "w(length (minified cs) := 0)"]) (auto simp: cJSON_Minify_def wrote_at_def)
qed

section \<open>Formatted text\<close>

text \<open>Text that is kept byte by byte.\<close>

definition plain :: "byte list \<Rightarrow> bool" where
  "plain t \<longleftrightarrow> (\<forall>c \<in> set t. c \<notin> {0, 9, 10, 13, 0x20, 0x22, 0x2f})"

lemma minified_plain: "plain t \<Longrightarrow> minified (t @ r) = t @ minified r"
  by (induction t) (auto simp: plain_def)

text \<open>A string that does not end in a backslash.\<close>

definition no_final_backslash :: "byte list option \<Rightarrow> bool" where
  "no_final_backslash s \<longleftrightarrow> (case s of None \<Rightarrow> True | Some bs \<Rightarrow> bs = [] \<or> last bs \<noteq> 0x5c)"

lemma literal_plain: "c \<noteq> 0x22 \<Longrightarrow> c \<noteq> 0x5c \<or> take 1 r \<noteq> [0x22] \<Longrightarrow> r \<noteq> [] \<Longrightarrow> literal (c # r) = apfst (Cons c) (literal r)"
  by (cases r) auto

lemma literal_quote: "literal (0x22 # r) = ([0x22], r)"
  by (cases r) auto

lemma literal_escaped_quote: "literal (0x5c # 0x22 # r) = apfst (\<lambda>t. 0x5c # 0x22 # t) (literal r)"
  by simp

declare literal.simps [simp del]

lemma literal_plain_append:
  "\<forall>c \<in> set t. c \<noteq> 0x22 \<and> c \<noteq> 0x5c \<Longrightarrow> r \<noteq> [] \<Longrightarrow> literal (t @ r) = apfst ((@) t) (literal r)"
  by (induction t) (auto simp: literal_plain apfst_def map_prod_def split: prod.splits)

lemma hex_char_range: "hex_char n \<noteq> 0x22 \<and> hex_char n \<noteq> 0x5c" if "n < 16"
proof -
  have "\<forall>n \<in> set [0..<16]. hex_char n \<noteq> 0x22 \<and> hex_char n \<noteq> 0x5c" by code_simp
  then show ?thesis using that by simp
qed

lemma escape_of_range: "c \<noteq> 0x22 \<Longrightarrow> c \<noteq> 0x5c \<Longrightarrow> x \<in> set (escape_of c) \<Longrightarrow> c \<le> 31 \<Longrightarrow> x \<noteq> 0x22 \<and> x \<noteq> 0x5c"
proof -
  assume c: "c \<noteq> 0x22" "c \<noteq> 0x5c" "x \<in> set (escape_of c)" "c \<le> 31"
  moreover have "unat c div 16 < 16" "unat c mod 16 < 16" using c(4) by (simp_all add: word_le_nat_alt)
  ultimately show ?thesis using hex_char_range [of 0] hex_char_range by (auto simp: escape_of_def split: if_splits)
qed

lemma literal_escaped:
  assumes r: "r \<noteq> []" "c \<noteq> 0x5c \<or> take 1 r \<noteq> [0x22]"
  shows "literal (escaped c @ r) = apfst ((@) (escaped c)) (literal r)"
proof -
  have s: "apfst f (apfst g p) = apfst (\<lambda>x. f (g x)) p" for f g p by (simp add: apfst_def map_prod_def split: prod.splits)
  consider "31 < c" "c \<noteq> 0x22" "c \<noteq> 0x5c" | "c = 0x22" | "c = 0x5c" | "c \<le> 31" "c \<noteq> 0x22" "c \<noteq> 0x5c" by force
  then show ?thesis
  proof cases
    case 1
    then show ?thesis using literal_plain [of c r] r by (simp add: escaped_def)
  next
    case 2
    then show ?thesis using literal_escaped_quote [of r] by (simp add: escaped_def escape_of_def)
  next
    case 3
    then show ?thesis using literal_plain [of "0x5c" r] literal_plain [of "0x5c" "0x5c # r"] r by (simp add: escaped_def escape_of_def s)
  next
    case 4
    then have e: "\<forall>x \<in> set (escape_of c). x \<noteq> 0x22 \<and> x \<noteq> 0x5c" using escape_of_range by blast
    moreover have ne: "escape_of c \<noteq> []" by (simp add: escape_of_def)
    then have "take 1 (escape_of c @ r) \<noteq> [0x22]" using e by (cases "escape_of c") auto
    with ne e have "literal (0x5c # escape_of c @ r) = apfst (Cons 0x5c) (apfst ((@) (escape_of c)) (literal r))"
      using literal_plain [of "0x5c" "escape_of c @ r"] literal_plain_append [OF e r(1)] by simp
    moreover have "escaped c = 0x5c # escape_of c" using 4 by (auto simp: escaped_def)
    ultimately show ?thesis by (simp add: s)
  qed
qed

lemma escaped_first: "take 1 (escaped c @ r) \<noteq> [0x22]"
  by (simp add: escaped_def)

lemma literal_concat_escaped:
  "bs = [] \<or> last bs \<noteq> 0x5c \<Longrightarrow> literal (concat (map escaped bs) @ 0x22 # r) = (concat (map escaped bs) @ [0x22], r)"
proof (induction bs)
  case Nil
  then show ?case by (simp add: literal_quote)
next
  case (Cons c bs)
  have "c \<noteq> 0x5c \<or> take 1 (concat (map escaped bs) @ 0x22 # r) \<noteq> [0x22]"
    using Cons.prems escaped_first [of _ "concat _ @ 0x22 # r"] by (cases bs) (simp_all only: list.map concat.simps append_assoc, auto)
  then show ?case using literal_escaped [of "concat (map escaped bs) @ 0x22 # r" c] Cons by (auto split: if_splits)
qed

lemma minified_quoted: "no_final_backslash s \<Longrightarrow> minified (quoted s @ r) = quoted s @ minified r"
  using literal_concat_escaped [of "the s" r]
  by (cases s) (auto simp: quoted_def no_final_backslash_def literal_quote)

fun minifiable :: "'f dbl_ops \<Rightarrow> 'f cJSON \<Rightarrow> bool" where
  "minifiable fo (CJSON ty vs vi vd s ch) \<longleftrightarrow>
     (let k = ty AND 0xff
      in (k = cJSON_Number \<longrightarrow> plain (number_text fo (CJSON ty vs vi vd s ch))) \<and>
         (k = cJSON_Raw \<longrightarrow> (case vs of None \<Rightarrow> True | Some raw \<Rightarrow> plain raw)) \<and>
         (k = cJSON_String \<longrightarrow> no_final_backslash vs) \<and>
         (\<forall>x \<in> set ch. no_final_backslash (item_string x) \<and> minifiable fo x))"

lemma minified_white: "\<forall>c \<in> set t. c \<in> {0x20, 9, 13, 10} \<Longrightarrow> minified (t @ r) = minified r"
  by (induction t) auto

lemma white_parts [simp]:
  "minified (tabs f d @ r) = minified r" "minified (if_fmt f [10] @ r) = minified r" "minified (if_fmt f [9] @ r) = minified r"
  "minified (if_fmt f [0x20] @ r) = minified r"
  by (intro minified_white; auto simp: tabs_def if_fmt_def split: if_splits)+

lemma minified_join:
  assumes "\<And>x r. x \<in> set ch \<Longrightarrow> minified (g x @ r) = h x @ minified r" and "\<And>r. minified (sep @ r) = sep' @ minified r"
  shows "minified (join sep (map g ch) @ r) = join sep' (map h ch) @ minified r"
  using assms(1)
proof (induction ch)
  case (Cons x ch)
  have "minified (join sep (map g ch) @ r) = join sep' (map h ch) @ minified r" using Cons by simp
  then show ?case using Cons.prems [of x] assms(2) by (simp add: join_Cons)
qed simp

lemma if_fmt_False [simp]: "if_fmt False t = []" "tabs False d = []"
  by (simp_all add: if_fmt_def tabs_def)

lemma minified_render: "minifiable fo it \<Longrightarrow> minified (render fo f d it @ r) = render fo False e it @ minified r"
proof (induction it arbitrary: d e r)
  case (CJSON ty vs vi vd s ch)
  let ?k = "ty AND 0xff"
  have p: "plain (bytes_of ''null'')" "plain (bytes_of ''false'')" "plain (bytes_of ''true'')" by (simp_all add: plain_def bytes_of_def)
  have x: "minified (render fo f (d + 1) x @ r) = render fo False (e + 1) x @ minified r" "no_final_backslash (item_string x)"
    if "x \<in> set ch" for x r using CJSON that by (auto simp: Let_def)
  have arr: "minified (join ([0x2c] @ if_fmt f [0x20]) (map (\<lambda>x. render fo f (d + 1) x) ch) @ r)
      = join ([0x2c] @ if_fmt False [0x20]) (map (\<lambda>x. render fo False (e + 1) x) ch) @ minified r" for r
    by (rule minified_join) (simp_all add: x [simplified])
  have obj: "minified (join ([0x2c] @ if_fmt f [10]) (map (\<lambda>x. tabs f (d + 1) @ quoted (item_string x) @ [0x3a] @ if_fmt f [9] @ render fo f (d + 1) x) ch) @ r)
      = join ([0x2c] @ if_fmt False [10]) (map (\<lambda>x. tabs False (e + 1) @ quoted (item_string x) @ [0x3a] @ if_fmt False [9] @ render fo False (e + 1) x) ch) @ minified r" for r
    by (rule minified_join) (simp_all add: x [simplified] minified_quoted)
  note k = CJSON.prems [simplified, unfolded Let_def]
  consider "?k = cJSON_NULL" | "?k = cJSON_False" | "?k = cJSON_True" | "?k = cJSON_Number" | "?k = cJSON_Raw" | "?k = cJSON_String"
    | (a) "?k = cJSON_Array" | (ob) "?k \<notin> {cJSON_NULL, cJSON_False, cJSON_True, cJSON_Number, cJSON_Raw, cJSON_String, cJSON_Array}" by blast
  then show ?case
  proof cases
    case a
    then show ?thesis using arr by (simp add: render.simps)
  next
    case ob
    then show ?thesis using obj by (simp add: render.simps)
  qed (use CJSON.prems in \<open>auto simp: render.simps p minified_plain minified_quoted split: option.splits\<close>)
qed

lemma set_literal: "set (fst (literal cs)) \<subseteq> set cs \<and> set (snd (literal cs)) \<subseteq> set cs"
  by (induction cs rule: literal.induct) (auto simp: literal.simps)

lemma set_after: "set (after_line cs) \<subseteq> set cs" "set (after_block cs) \<subseteq> set cs"
  by (induction cs) (auto dest: in_set_dropD)

lemma set_minified: "set (minified cs) \<subseteq> set cs"
proof (induction cs rule: minified.induct)
  case (2 c cs)
  have a: "set (after_line (drop 1 cs)) \<subseteq> set cs" "set (after_block (drop 1 cs)) \<subseteq> set cs"
    by (rule order_trans [OF set_after(1) set_drop_subset], rule order_trans [OF set_after(2) set_drop_subset])
  note l = set_literal [of cs]
  show ?case
  proof (cases rule: minify_cases [where c = c and cs = cs])
    case ws then show ?thesis using "2.IH"(1) [OF ws] by auto
  next
    case line then show ?thesis using "2.IH"(2) a(1) by auto
  next
    case block then show ?thesis using "2.IH"(3) a(2) by auto
  next
    case slash then show ?thesis using "2.IH"(4) by auto
  next
    case str then show ?thesis using "2.IH"(5) l by auto
  next
    case other then show ?thesis using "2.IH"(6) [OF other] by auto
  qed
qed simp

lemma text_at_take_view: "take_view (length cs + 1) v = cs @ [0] \<Longrightarrow> 0 \<notin> set cs \<Longrightarrow> text_at v 0 cs"
proof -
  assume v: "take_view (length cs + 1) v = cs @ [0]" and z: "0 \<notin> set cs"
  have "v i = (cs @ [0]) ! i" if "i \<le> length cs" for i using nth_take_view [of i "length cs + 1" v] that unfolding v by simp
  then have "text_at v i (drop i cs)" if "i \<le> length cs" for i using that
  proof (induction "length cs - i" arbitrary: i)
    case (Suc n)
    then have "i < length cs" "text_at v (Suc i) (drop (Suc i) cs)" by simp_all
    moreover have "v i = cs ! i" using Suc calculation(1) by (simp add: nth_append)
    ultimately show ?case using z by (subst Cons_nth_drop_Suc [symmetric]) (auto dest: nth_mem)
  qed simp
  from this [of 0] show ?thesis by simp
qed

text \<open>
  C37. Minifying a formatted text gives the unformatted one. A tree printed with
  \<^verbatim>\<open>cJSON_PrintPreallocated\<close> in formatted style and minified in place by \<^verbatim>\<open>cJSON_Minify\<close> leaves in the
  buffer exactly what \<^verbatim>\<open>cJSON_PrintUnformatted\<close> returns for the tree, terminator included, and no byte
  behind the buffer changes. The strings and names of the tree may hold quotes, backslashes, comment
  marks and control characters; only a backslash at their very end is excluded, and numbers must be
  written without white space, quotes and slashes.
\<close>

theorem minify_undoes_formatting:
  assumes "printable fo it" "minifiable fo it" "0 \<notin> set (render fo True 0 it)"
    and "length (render fo True 0 it) + 2 \<le> nat len" "len \<le> INT_MAX"
  shows "\<exists>v1 w u. cJSON_PrintPreallocated fo it (Some v) len True m = Some (True, Some v1) \<and> cJSON_Minify (Some v1) = Some (Some w) \<and>
     cJSON_PrintUnformatted fo it heap [] = Some (Some u) \<and> take_view (length u) w = u \<and> (\<forall>i \<ge> nat len. w i = v i)"
proof -
  let ?t = "render fo True 0 it" and ?u = "render fo False 0 it"
  obtain v1 where v1: "cJSON_PrintPreallocated fo it (Some v) len True m = Some (True, Some v1)"
    "take_view (length ?t + 1) v1 = ?t @ [0]" "\<forall>i \<ge> nat len. v1 i = v i" using preallocated_text [OF assms(1,3,4,5)] by blast
  have m: "minified ?t = ?u" using minified_render [OF assms(2), of True 0 "[]" 0] by simp
  then have z: "0 \<notin> set ?u" and l: "length ?u \<le> length ?t" using set_minified [of ?t] minified_length [of ?t] assms(3) by auto
  obtain w where w: "cJSON_Minify (Some v1) = Some (Some w)" "take_view (length ?u) w = ?u" "w (length ?u) = 0" "\<forall>j > length ?t. w j = v1 j"
    using cJSON_Minify_text [OF text_at_take_view [OF v1(2) assms(3)]] m by auto
  have "take_view (length (?u @ [0])) w = ?u @ [0]" using w(2,3) by (auto simp: list_eq_iff_nth_eq nth_append less_Suc_eq)
  moreover have "cJSON_PrintUnformatted fo it heap [] = Some (Some (?u @ [0]))"
    using unformatted_text [OF assms(1) z] l assms(4,5) by auto
  ultimately show ?thesis using v1 w assms(4) by (intro exI [of _ v1] exI [of _ w] exI [of _ "?u @ [0]"]) auto
qed

text \<open>\<^verbatim>\<open>{"on": [true, -12]}\<close> again.\<close>

lemma sample_minifiable: "minifiable int_ops sample"
  by (simp add: sample_def number_text_def int_ops_def dec_int_def dec_nat.simps plain_def no_final_backslash_def bytes_of_def)

lemma sample_formatted: "render int_ops True 0 sample = bytes_of ''{'' @ [10, 9] @ bytes_of ''\"on\":'' @ [9] @ bytes_of ''[true, -12]'' @ [10] @ bytes_of ''}''"
  by (simp add: sample_def render.simps number_text_def int_ops_def dec_int_def dec_nat.simps if_fmt_def tabs_def quoted_def
    bytes_of_def escaped_def word_less_nat_alt)

theorem minify_undoes_formatting_witness:
  "\<exists>v1 w u. cJSON_PrintPreallocated int_ops sample (Some (\<lambda>_. 7)) 30 True [] = Some (True, Some v1) \<and>
     cJSON_Minify (Some v1) = Some (Some w) \<and>
     cJSON_PrintUnformatted int_ops sample (\<lambda>_. 0) [] = Some (Some u) \<and> take_view (length u) w = u \<and> w 30 = 7"
proof -
  have "0 \<notin> set (render int_ops True 0 sample)" "length (render int_ops True 0 sample) + 2 \<le> nat 30" "(30 :: int) \<le> INT_MAX"
    unfolding sample_formatted by (simp_all add: bytes_of_def)
  from minify_undoes_formatting [OF sample_printable sample_minifiable this, of "\<lambda>_. 7" "[]" "\<lambda>_. 0"] show ?thesis by fastforce
qed

text \<open>
  A string that ends in a backslash, \<^verbatim>\<open>["\\", 1]\<close>: the second byte of the escape and the closing quote
  are taken for an escaped quote, and the blank behind the literal stays.
\<close>

lemma minify_final_backslash:
  "minified [0x5b, 0x22, 0x5c, 0x5c, 0x22, 0x2c, 0x20, 0x31, 0x5d] = [0x5b, 0x22, 0x5c, 0x5c, 0x22, 0x2c, 0x20, 0x31, 0x5d]"
  by (simp add: literal.simps)

end
