(* ===== verification/Cjson_Roundtrip.thy ===== *)
theory Cjson_Roundtrip
  imports Cjson_Bounds
begin

text \<open>
  Parsing what was printed. On the text of a tree of the shape the parser builds, formatted or
  not, \<^verbatim>\<open>cJSON_Parse\<close> returns that tree.
\<close>

section \<open>What lies ahead in the buffer\<close>

definition ahead :: "parse_buffer \<Rightarrow> byte list" where
  "ahead b = drop (offset b) (content b)"

lemma ahead_forward [simp]: "ahead (forward n b) = drop n (ahead b)"
  by (simp add: ahead_def forward_def add.commute)

lemma forward_forward [simp]: "forward n (forward k b) = forward (k + n) b"
  by (simp add: forward_def add.assoc)

lemma forward_0 [simp]: "forward 0 b = b"
  by (simp add: forward_def)

lemma forward_same [simp]: "hooks (forward n b) = hooks b" "depth (forward n b) = depth b" "content (forward n b) = content b"
  by (simp_all add: forward_def)

lemma can_access_ahead: "can_access_at_index b i \<longleftrightarrow> i < length (ahead b)"
  by (auto simp: can_access_at_index_def ahead_def)

lemma buffer_at_ahead: "i < length (ahead b) \<Longrightarrow> buffer_at b i = ahead b ! i"
  by (simp add: buffer_at_def ahead_def)

lemma literal_at_ahead:
  assumes "s \<noteq> []"
  shows "literal_at b s \<longleftrightarrow> take (length s) (ahead b) = s"
proof
  assume t: "take (length s) (ahead b) = s"
  have "length (take (length s) (ahead b)) = length s" by (simp only: t)
  then have "length s \<le> length (content b) - offset b" by (simp add: ahead_def min_def split: if_splits)
  then show "literal_at b s" using t assms by (cases s) (auto simp: literal_at_def can_read_def ahead_def)
qed (simp add: literal_at_def ahead_def)

lemma skip_whitespace_ahead:
  assumes "ahead b = ws @ c # r" "\<forall>x \<in> set ws. x \<le> 32" "\<not> c \<le> 32"
  shows "buffer_skip_whitespace b = forward (length ws) b"
proof -
  have "takeWhile (\<lambda>c. c \<le> 32) (drop (offset b) (content b)) = ws"
    using assms by (auto simp: ahead_def takeWhile_append)
  moreover have "offset b + length ws < length (content b)" using arg_cong [OF assms(1), of length] by (simp add: ahead_def)
  ultimately show ?thesis by (auto simp: buffer_skip_whitespace_def Let_def can_access_at_index_def forward_def)
qed

lemma buf_alloc_Nil [simp]: "hooks b = [] \<Longrightarrow> buf_alloc b = (True, b)"
  by (simp add: buf_alloc_def)

section \<open>Strings\<close>

lemma nth_ahead:
  assumes "drop n cs = u @ v" "i < length u"
  shows "n + i < length cs" "cs ! (n + i) = u ! i"
proof -
  have "length cs - n = length u + length v" using arg_cong [OF assms(1), of length] by simp
  then show l: "n + i < length cs" using assms(2) by simp
  have "cs ! (n + i) = drop n cs ! i" using l by simp
  then show "cs ! (n + i) = u ! i" using assms by (simp add: nth_append)
qed

lemma drop_step: "drop n cs = u @ v \<Longrightarrow> drop (n + length u) cs = v"
  by (metis add.commute append_eq_conv_conj drop_drop)

lemma drop_Cons: "drop n cs = c # v \<Longrightarrow> n < length cs \<and> cs ! n = c \<and> drop (n + 1) cs = v"
  using nth_ahead [of n cs "[c]" v 0] drop_step [of n cs "[c]" v] by simp

definition inert :: "byte list \<Rightarrow> bool" where
  "inert u \<longleftrightarrow> 0x22 \<notin> set u \<and> 0x5c \<notin> set u"

lemma hex_char_inert: "d < 16 \<Longrightarrow> hex_char d \<noteq> 0x22 \<and> hex_char d \<noteq> 0x5c"
proof -
  have "\<forall>d \<in> {..<16}. hex_char d \<noteq> 0x22 \<and> hex_char d \<noteq> 0x5c" by code_simp
  then show "d < 16 \<Longrightarrow> ?thesis" by simp
qed

lemma hex_digit_char: "d < 16 \<Longrightarrow> hex_digit (hex_char d) = Some d"
proof -
  have "\<forall>d \<in> {..<16}. hex_digit (hex_char d) = Some d" by code_simp
  then show "d < 16 \<Longrightarrow> ?thesis" by simp
qed

lemma unat_byte_div: "unat (c :: byte) div 16 < 16"
proof -
  have "unat c < 256" using unsigned_less [of c] by simp
  then show ?thesis by simp
qed

text \<open>The three forms of a character in a literal.\<close>

lemma escaped_cases:
  obtains (plain) "escaped c = [c]" "inert [c]"
    | (short) e where "escaped c = [0x5c, e]" "escape_char e = Some c"
    | (long) "escaped c = [0x5c, 0x75, hex_char 0, hex_char 0, hex_char (unat c div 16), hex_char (unat c mod 16)]" "c < 32"
proof -
  consider "31 < c" "c \<noteq> 0x22" "c \<noteq> 0x5c" | "c \<in> {0x22, 0x5c, 8, 12, 10, 13, 9}" | "c < 32" "c \<notin> {8, 12, 10, 13, 9}"
    using linorder_not_less [of "unat c" 32] by (force simp: word_less_nat_alt)
  then show thesis
  proof cases
    case 1
    then show ?thesis by (intro plain) (auto simp: escaped_def inert_def)
  next
    case 2
    then have "\<exists>e. escaped c = [0x5c, e] \<and> escape_char e = Some c"
      by (auto simp: escaped_def escape_of_def escape_char_def word_less_nat_alt)
    then show ?thesis using short by blast
  next
    case 3
    then have "c \<noteq> 0x22" "c \<noteq> 0x5c" "\<not> 31 < c" by (auto simp: word_less_nat_alt)
    then show ?thesis using 3 by (intro long) (auto simp: escaped_def escape_of_def)
  qed
qed

lemma scan_inert: "drop e cs = u @ v \<Longrightarrow> inert u \<Longrightarrow> scan_string cs e sk = scan_string cs (e + length u) sk"
proof (induction u arbitrary: e)
  case (Cons c u)
  then have c: "e < length cs" "cs ! e = c" "drop (e + 1) cs = u @ v" "c \<noteq> 0x22" "c \<noteq> 0x5c" "inert u"
    using drop_Cons [of e cs c "u @ v"] by (auto simp: inert_def)
  then have "scan_string cs e sk = scan_string cs (e + 1) sk" by (subst scan_string.simps) simp
  then show ?case using Cons.IH [OF c(3,6)] by simp
qed simp

lemma scan_escape:
  assumes "drop e cs = 0x5c # x # v"
  shows "scan_string cs e sk = scan_string cs (e + 2) (sk + 1)" "drop (e + 2) cs = v"
proof -
  have "e < length cs" "cs ! e = 0x5c" "drop (e + 1) cs = x # v" using drop_Cons [OF assms] by auto
  moreover from this have "e + 1 < length cs" "drop (e + 2) cs = v" using drop_Cons [of "e + 1" cs x v] by auto
  ultimately show "scan_string cs e sk = scan_string cs (e + 2) (sk + 1)" "drop (e + 2) cs = v"
    by (subst scan_string.simps, simp_all)
qed

lemma scan_escaped: "drop e cs = escaped c @ v \<Longrightarrow> \<exists>k. scan_string cs e sk = scan_string cs (e + length (escaped c)) k"
proof (cases rule: escaped_cases [of c])
  case plain
  then show "drop e cs = escaped c @ v \<Longrightarrow> ?thesis" using scan_inert [of e cs "[c]" v] by auto
next
  case (short x)
  then show "drop e cs = escaped c @ v \<Longrightarrow> ?thesis" using scan_escape [of e cs x v] by auto
next
  case long
  let ?u = "[hex_char 0, hex_char 0, hex_char (unat c div 16), hex_char (unat c mod 16)]"
  assume "drop e cs = escaped c @ v"
  then have "scan_string cs e sk = scan_string cs (e + 2) (sk + 1)" "drop (e + 2) cs = ?u @ v"
    using scan_escape [of e cs "0x75" "?u @ v"] long by auto
  moreover have "inert ?u" using hex_char_inert unat_byte_div by (simp add: inert_def)
  ultimately show ?thesis using scan_inert [of "e + 2" cs ?u v] long by auto
qed

lemma scan_string_escaped:
  "drop e cs = concat (map escaped s) @ 0x22 # r \<Longrightarrow> \<exists>k. scan_string cs e sk = Some (e + length (concat (map escaped s)), k)"
proof (induction s arbitrary: e sk)
  case Nil
  then show ?case using drop_Cons [of e cs "0x22" r] by (simp add: scan_string.simps)
next
  case (Cons c s)
  then obtain k where "scan_string cs e sk = scan_string cs (e + length (escaped c)) k"
    using scan_escaped [of e cs c] by fastforce
  moreover have "drop (e + length (escaped c)) cs = concat (map escaped s) @ 0x22 # r"
    using Cons.prems by (intro drop_step) simp
  ultimately show ?case using Cons.IH [of "e + length (escaped c)" k] by (simp add: add.assoc)
qed

lemma utf8_encode_ascii:
  assumes "n < 128"
  shows "utf8_encode n = [of_nat n]"
proof -
  have e: "(127 :: nat) = mask 7" by (simp add: mask_eq_exp_minus_1)
  have "n AND 127 = n" unfolding e take_bit_eq_mask [symmetric] take_bit_eq_mod using assms by simp
  then show ?thesis using assms by (simp add: utf8_encode_def)
qed

lemma hex4_loop_4: "hex4_loop (Suc (Suc (Suc (Suc 0)))) h r = h"
  by (cases r) simp_all

lemma parse_hex4_digits:
  assumes "a < 16" "b < 16" "c < 16" "d < 16"
  shows "parse_hex4 ([hex_char a, hex_char b, hex_char c, hex_char d] @ r) = ((a * 16 + b) * 16 + c) * 16 + d"
  using assms by (simp add: parse_hex4_def hex_digit_char hex4_loop_4)

lemma utf16_escaped:
  assumes "c < 32"
  shows "utf16_literal_to_utf8 ([0x5c, 0x75, hex_char 0, hex_char 0, hex_char (unat c div 16), hex_char (unat c mod 16)] @ r) = (6, [c])"
proof -
  have n: "unat c < 32" using assms by (simp add: word_less_nat_alt)
  have "parse_hex4 ([hex_char 0, hex_char 0, hex_char (unat c div 16), hex_char (unat c mod 16)] @ r) = unat c"
    using unat_byte_div [of c] by (subst parse_hex4_digits) simp_all
  then show ?thesis using n by (simp add: utf16_literal_to_utf8_def utf8_encode_ascii)
qed

lemma unescape_escaped:
  assumes "drop ip cs = escaped c @ v" "ip + length (escaped c) \<le> e"
  shows "unescape cs e ip out = unescape cs e (ip + length (escaped c)) (out @ [c])"
proof (cases rule: escaped_cases [of c])
  case plain
  then show ?thesis using assms drop_Cons [of ip cs c v] by (subst unescape.simps) (auto simp: inert_def)
next
  case (short x)
  then have "cs ! ip = 0x5c" "cs ! (ip + 1) = x"
    using assms drop_Cons [of ip cs "0x5c" "x # v"] drop_Cons [of "ip + 1" cs x v] by auto
  then show ?thesis using assms(2) short by (subst unescape.simps) simp
next
  case long
  then have "cs ! ip = 0x5c" "cs ! (ip + 1) = 0x75"
    using assms nth_ahead(2) [of ip cs "escaped c" v 0] nth_ahead(2) [of ip cs "escaped c" v 1] by auto
  moreover have "take (e - ip) (drop ip cs) = escaped c @ take (e - ip - length (escaped c)) v"
    unfolding assms(1) take_append using assms(2) by simp
  then have "utf16_literal_to_utf8 (take (e - ip) (drop ip cs)) = (6, [c])"
    using utf16_escaped [OF long(2)] long(1) by simp
  moreover have "escape_char 0x75 = None" by (simp add: escape_char_def)
  moreover have l: "length (escaped c) = 6" using long(1) by simp
  ultimately show ?thesis using assms(2) unfolding l by (subst unescape.simps) simp
qed

lemma unescape_string:
  "drop ip cs = concat (map escaped s) @ v \<Longrightarrow> unescape cs (ip + length (concat (map escaped s))) ip out = Inr (out @ s)"
proof (induction s arbitrary: ip out)
  case Nil
  then show ?case by (subst unescape.simps) simp
next
  case (Cons c s)
  have d: "drop (ip + length (escaped c)) cs = concat (map escaped s) @ v" using Cons.prems by (intro drop_step) simp
  have "unescape cs (ip + length (concat (map escaped (c # s)))) ip out =
      unescape cs (ip + length (concat (map escaped (c # s)))) (ip + length (escaped c)) (out @ [c])"
    using Cons.prems by (intro unescape_escaped) simp_all
  then show ?case using Cons.IH [OF d, of "out @ [c]"] by (simp add: add.assoc)
qed

lemma parse_string_quoted:
  assumes "ahead b = quoted (Some s) @ r" "hooks b = []" "0 \<notin> set s"
  shows "parse_string it b = Inr (set_valuestring (Some s) (set_type cJSON_String it), forward (length (quoted (Some s))) b)"
proof -
  let ?t = "concat (map escaped s)" and ?ip = "offset b + 1"
  have q: "drop (offset b) (content b) = 0x22 # ?t @ 0x22 # r" using assms(1) by (simp add: ahead_def quoted_def)
  then have d: "drop ?ip (content b) = ?t @ 0x22 # r" "content b ! offset b = 0x22"
    using drop_Cons [of "offset b" "content b" "0x22" "?t @ 0x22 # r"] by auto
  obtain k where k: "scan_string (content b) ?ip 0 = Some (?ip + length ?t, k)" using scan_string_escaped [OF d(1)] by auto
  have "c_string s = s" using assms(3) by (auto simp: c_string_def takeWhile_eq_all_conv)
  then show ?thesis using k d(2) unescape_string [OF d(1), of "[]"] assms(2)
    by (simp add: parse_string_def buffer_at_def quoted_def forward_def)
qed

section \<open>Trees of the shape the parser builds\<close>

text \<open>
  The text of a number reads back: what \<^verbatim>\<open>sprintf\<close> and \<^verbatim>\<open>strtod\<close> promise for a finite value printed
  with enough digits.
\<close>

definition number_reads_back :: "'f dbl_ops \<Rightarrow> 'f cJSON \<Rightarrow> bool" where
  "number_reads_back fo it \<longleftrightarrow>
     (case number_text fo it of
        [] \<Rightarrow> False
      | c # cs \<Rightarrow> (c = 0x2d \<or> (0x30 \<le> c \<and> c \<le> 0x39)) \<and> (\<forall>x \<in> set (c # cs). is_number_char x) \<and>
          strtod fo (c # cs) = (valuedouble it, length (c # cs)) \<and> valueint it = saturate fo (valuedouble it))"

fun canonical :: "'f dbl_ops \<Rightarrow> 'f cJSON \<Rightarrow> bool" where
  "canonical fo (CJSON ty vs vi vd s ch) \<longleftrightarrow>
     (if ty = cJSON_Number then vs = None \<and> ch = [] \<and> number_reads_back fo (CJSON ty vs vi vd s ch)
      else vd = d_zero fo \<and>
        (if ty = cJSON_True then vs = None \<and> vi = 1 \<and> ch = []
         else vi = 0 \<and>
           (if ty = cJSON_NULL \<or> ty = cJSON_False then vs = None \<and> ch = []
            else if ty = cJSON_String then (\<exists>bs. vs = Some bs \<and> 0 \<notin> set bs) \<and> ch = []
            else if ty = cJSON_Array then vs = None \<and> (\<forall>x \<in> set ch. item_string x = None \<and> canonical fo x)
            else if ty = cJSON_Object then vs = None \<and> (\<forall>x \<in> set ch. (\<exists>n. item_string x = Some n \<and> 0 \<notin> set n) \<and> canonical fo x)
            else False)))"

fun nesting :: "'f cJSON \<Rightarrow> nat" where
  "nesting (CJSON ty vs vi vd s ch) =
     (if ty = cJSON_Array \<or> ty = cJSON_Object then 1 + Max (insert 0 (nesting ` set ch)) else 0)"

declare canonical.simps [simp del] nesting.simps [simp del]

definition opens :: "byte \<Rightarrow> bool" where
  "opens c \<longleftrightarrow> \<not> c \<le> 32 \<and> c \<noteq> 0x5d \<and> c \<noteq> 0x7d"

lemma number_reads_backD:
  assumes "number_reads_back fo it"
  obtains c cs where "number_text fo it = c # cs" "c = 0x2d \<or> (0x30 \<le> c \<and> c \<le> 0x39)" "\<forall>x \<in> set (c # cs). is_number_char x"
    "strtod fo (c # cs) = (valuedouble it, length (c # cs))" "valueint it = saturate fo (valuedouble it)"
  using assms by (auto simp: number_reads_back_def split: list.splits)

lemma kind_values:
  "(8 :: 32 word) AND 0xff = 8" "(4 :: 32 word) AND 0xff = 4" "(2 :: 32 word) AND 0xff = 2" "(1 :: 32 word) AND 0xff = 1"
  "(16 :: 32 word) AND 0xff = 16" "(32 :: 32 word) AND 0xff = 32" "(64 :: 32 word) AND 0xff = 64"
  by simp_all

lemma render_opens:
  assumes "canonical fo it"
  obtains c r where "render fo f d it = c # r" "opens c"
proof (cases it)
  case (CJSON ty vs vi vd s ch)
  have "\<exists>c r. render fo f d it = c # r \<and> opens c"
  proof (cases "ty = cJSON_Number")
    case True
    then have "number_reads_back fo it" using assms CJSON by (auto simp: canonical.simps)
    then obtain c cs where "number_text fo it = c # cs" "c = 0x2d \<or> (0x30 \<le> c \<and> c \<le> 0x39)"
      by (rule number_reads_backD)
    then show ?thesis using True CJSON by (auto simp: render.simps opens_def word_le_nat_alt)
  next
    case False
    then show ?thesis using assms CJSON
      by (auto simp: canonical.simps render.simps opens_def bytes_of_def quoted_def word_le_nat_alt split: if_splits)
  qed
  then show thesis using that by blast
qed

section \<open>Values\<close>

text \<open>A parser for elements that reads back the text \<open>g x\<close> of an element and stops behind it.\<close>

definition follows :: "byte \<Rightarrow> bool" where
  "follows c \<longleftrightarrow> c \<in> {0, 0x2c, 0x5d, 0x7d, 10}"

definition reads :: "'f item_parser \<Rightarrow> 'f dbl_ops \<Rightarrow> nat \<Rightarrow> ('f cJSON \<Rightarrow> byte list) \<Rightarrow> 'f cJSON \<Rightarrow> bool" where
  "reads pv fo d g x \<longleftrightarrow>
     (\<forall>b ty c r. ahead b = g x @ c # r \<longrightarrow> follows c \<longrightarrow> hooks b = [] \<longrightarrow> depth b = d \<longrightarrow>
        pv (CJSON ty None 0 (d_zero fo) (item_string x) []) b = Some (Inr (x, forward (length (g x)) b)))"

lemma readsD:
  assumes "reads pv fo d g x" "ahead b = g x @ c # r" "follows c" "hooks b = []" "depth b = d" "item_string x = s"
  shows "pv (CJSON ty None 0 (d_zero fo) s []) b = Some (Inr (x, forward (length (g x)) b))"
  using assms unfolding reads_def by blast

lemma array_loop_reads:
  assumes "xs \<noteq> []" "length xs \<le> n" "\<And>x. x \<in> set xs \<Longrightarrow> reads pv fo d g x \<and> item_string x = None \<and> (\<exists>c r. g x = c # r \<and> opens c)"
    and "\<forall>x \<in> set ws. x \<le> 32" "\<forall>x \<in> set sp. x \<le> 32"
    and "ahead (forward 1 b) = ws @ join (0x2c # sp) (map g xs) @ 0x5d # r" and "hooks b = []" "depth b = d"
  shows "array_loop n pv fo acc b = Some (Inr (acc @ xs, forward (1 + length ws + length (join (0x2c # sp) (map g xs))) b))"
  using assms
proof (induction xs arbitrary: n acc ws b)
  case (Cons x xs)
  obtain n' where n: "n = Suc n'" using Cons.prems(2) by (cases n) simp_all
  obtain c r' where g: "g x = c # r'" "opens c" using Cons.prems(3) by force
  obtain c' u where u: "(if xs = [] then [] else (0x2c # sp) @ join (0x2c # sp) (map g xs)) @ 0x5d # r = c' # u"
      "c' = (if xs = [] then 0x5d else 0x2c)" by (cases "xs = []") auto
  have a: "ahead (forward 1 b) = ws @ g x @ c' # u" using Cons.prems(6) u(1) by (auto simp: join_Cons split: if_splits)
  let ?q = "forward (1 + length ws) b" and ?s = "forward (1 + length ws + length (g x)) b"
  have sk: "buffer_skip_whitespace (forward 1 b) = ?q"
    using skip_whitespace_ahead [of "forward 1 b" ws c "r' @ c' # u"] a g Cons.prems(4) by (simp add: opens_def)
  have q: "ahead ?q = g x @ c' # u" using arg_cong [OF a, of "drop (length ws)"] by simp
  have x: "reads pv fo d g x" "item_string x = None" using Cons.prems(3) by auto
  have pv: "pv (blank_item fo) ?q = Some (Inr (x, ?s))"
    using readsD [OF x(1) q _ _ _ x(2)] u(2) Cons.prems(7,8) by (simp add: blank_item_def follows_def)
  have s: "ahead ?s = c' # u" using arg_cong [OF q, of "drop (length (g x))"] by (simp add: add.commute)
  have sk2: "buffer_skip_whitespace ?s = ?s"
    using skip_whitespace_ahead [of ?s "[]" c' u] s u(2) by (auto simp: word_le_nat_alt)
  have st: "array_loop n pv fo acc b = (if c' = 0x2c then array_loop n' pv fo (acc @ [x]) ?s else Some (Inr (acc @ [x], ?s)))"
    using pv s sk sk2 u(2) Cons.prems(7) by (auto simp: n array_loop.simps can_access_ahead buffer_at_ahead)
  show ?case
  proof (cases "xs = []")
    case True
    then show ?thesis using st u(2) by (simp add: join_Cons)
  next
    case False
    have "ahead (forward 1 ?s) = sp @ join (0x2c # sp) (map g xs) @ 0x5d # r"
      using arg_cong [OF s, of "drop 1"] u False by simp
    then show ?thesis using Cons.IH [OF False, of n' sp ?s "acc @ [x]"] Cons.prems n st u(2) False by (simp add: join_Cons add.assoc)
  qed
qed simp

text \<open>The step of the object loop on one member, up to the character behind its value.\<close>

lemma object_step:
  assumes x: "reads pv fo d g x" "item_string x = Some nm" "0 \<notin> set nm" "g x = o1 # o2" "opens o1"
    and ws: "\<forall>x \<in> set ws. x \<le> 32" "\<forall>x \<in> set tab. x \<le> 32" "\<forall>x \<in> set post. x \<le> 32"
    and a: "ahead (forward 1 b) = ws @ quoted (Some nm) @ [0x3a] @ tab @ g x @ post @ e # u"
    and e: "e = 0x2c \<or> e = 0x7d" "follows (hd (post @ [e]))" and b: "hooks b = []" "depth b = d"
  defines "q \<equiv> forward (1 + length ws + length (quoted (Some nm)) + 1 + length tab + length (g x) + length post) b"
  shows "object_loop (Suc n) pv fo acc b = (if e = 0x2c then object_loop n pv fo (acc @ [x]) q else Some (Inr (acc @ [x], q)))"
proof -
  let ?b1 = "forward (1 + length ws) b" and ?b2 = "forward (1 + length ws + length (quoted (Some nm))) b"
  let ?b3 = "forward (1 + length ws + length (quoted (Some nm)) + 1 + length tab) b"
  let ?b4 = "forward (1 + length ws + length (quoted (Some nm)) + 1 + length tab + length (g x)) b"
  have acc: "can_access_at_index b 1"
    using arg_cong [OF a, of length] by (simp add: can_access_ahead)
  have s1: "buffer_skip_whitespace (forward 1 b) = ?b1"
    using skip_whitespace_ahead [of "forward 1 b" ws "0x22"] a ws by (simp add: quoted_def word_le_nat_alt)
  have a1: "ahead ?b1 = quoted (Some nm) @ [0x3a] @ tab @ g x @ post @ e # u"
    using arg_cong [OF a, of "drop (length ws)"] by simp
  have p1: "parse_string (blank_item fo) ?b1 = Inr (set_valuestring (Some nm) (set_type cJSON_String (blank_item fo)), ?b2)"
    using parse_string_quoted [OF a1 _ x(3)] b by simp
  have a2: "ahead ?b2 = 0x3a # tab @ g x @ post @ e # u"
    using arg_cong [OF a1, of "drop (length (quoted (Some nm)))"] by (simp add: add.commute)
  have s2: "buffer_skip_whitespace ?b2 = ?b2"
    using skip_whitespace_ahead [of ?b2 "[]" "0x3a"] a2 by (simp add: word_le_nat_alt)
  have t: "ahead (forward 1 ?b2) = tab @ o1 # o2 @ post @ e # u"
    using arg_cong [OF a2, of "drop 1"] x(4) by simp
  then have s3: "buffer_skip_whitespace (forward 1 ?b2) = ?b3"
    using skip_whitespace_ahead [of "forward 1 ?b2" tab o1] ws x(5) by (simp add: opens_def)
  have a3: "ahead ?b3 = g x @ post @ e # u"
    using arg_cong [OF t, of "drop (length tab)"] x(4) by (simp add: add.commute)
  obtain c r where c: "post @ e # u = c # r" "follows c" using e(2) by (cases post) auto
  have p3: "pv (CJSON cJSON_String None 0 (d_zero fo) (Some nm) []) ?b3 = Some (Inr (x, ?b4))"
    using readsD [OF x(1) a3 [unfolded c] c(2) _ _ x(2)] b by simp
  have a4: "ahead ?b4 = post @ e # u" using arg_cong [OF a3, of "drop (length (g x))"] by (simp add: add.commute)
  have s4: "buffer_skip_whitespace ?b4 = q"
    using skip_whitespace_ahead [OF a4 ws(3)] e(1) by (auto simp: q_def word_le_nat_alt)
  have a5: "ahead q = e # u" using arg_cong [OF a4, of "drop (length post)"] by (simp add: q_def add.commute)
  show ?thesis using acc s1 p1 s2 a2 s3 p3 s4 a5 e(1) b(1)
    by (auto simp: object_loop.simps can_access_ahead buffer_at_ahead blank_item_def)
qed

definition member :: "byte list \<Rightarrow> byte list \<Rightarrow> ('f cJSON \<Rightarrow> byte list) \<Rightarrow> 'f cJSON \<Rightarrow> byte list" where
  "member pre tab g x = pre @ quoted (item_string x) @ [0x3a] @ tab @ g x"

lemma members_open:
  assumes "xs \<noteq> []"
  obtains u where "join sep (map (member pre tab g) xs) = pre @ 0x22 # u"
proof -
  obtain y ys where "xs = y # ys" using assms by (cases xs) auto
  then show thesis by (cases "ys = []") (auto simp: join_Cons member_def quoted_def intro: that)
qed

text \<open>The loop starts behind the white space \<open>pre\<close> of the first member.\<close>

lemma object_loop_reads:
  assumes "xs \<noteq> []" "length xs \<le> n"
    and "\<And>x. x \<in> set xs \<Longrightarrow> reads pv fo d g x \<and> (\<exists>nm. item_string x = Some nm \<and> 0 \<notin> set nm) \<and> (\<exists>c r. g x = c # r \<and> opens c)"
    and "\<forall>x \<in> set ws. x \<le> 32" and blank: "\<forall>x \<in> set (pre @ tab @ nl @ post). x \<le> 32" and post: "follows (hd (post @ [0x7d]))"
    and "join (0x2c # nl) (map (member pre tab g) xs) = pre @ t"
    and "ahead (forward 1 b) = ws @ t @ post @ 0x7d # r" and "hooks b = []" "depth b = d"
  shows "object_loop n pv fo acc b = Some (Inr (acc @ xs, forward (1 + length ws + length t + length post) b))"
  using assms
proof (induction xs arbitrary: n acc ws b t)
  case (Cons x xs)
  obtain n' where n: "n = Suc n'" using Cons.prems(2) by (cases n) simp_all
  obtain nm c r' where x: "reads pv fo d g x" "item_string x = Some nm" "0 \<notin> set nm" "g x = c # r'" "opens c"
    using Cons.prems(3) by force
  have w: "\<forall>x \<in> set tab. x \<le> 32" "\<forall>x \<in> set post. x \<le> 32" "\<forall>x \<in> set (nl @ pre). x \<le> 32"
    using blank by auto
  let ?m = "quoted (Some nm) @ [0x3a] @ tab @ g x"
  have mx: "member pre tab g x = pre @ ?m" by (simp add: member_def x(2))
  note step = object_step [OF x Cons.prems(4) w(1) _ _ _ _ Cons.prems(9,10), of _ _ _ n' acc]
  show ?case
  proof (cases "xs = []")
    case True
    have t: "t = ?m" using Cons.prems(7) True by (simp add: join_Cons mx)
    have "ahead (forward 1 b) = ws @ quoted (Some nm) @ [0x3a] @ tab @ g x @ post @ 0x7d # r"
      using Cons.prems(8) t by simp
    note st = step [OF w(2) this _ post, simplified]
    show ?thesis using st True n t by (simp add: add_ac)
  next
    case False
    obtain u where u: "join (0x2c # nl) (map (member pre tab g) xs) = pre @ u"
      using members_open [OF False] by metis
    have t: "t = ?m @ 0x2c # nl @ pre @ u" using Cons.prems(7) False by (simp add: join_Cons mx u)
    let ?q = "forward (1 + length ws + length ?m) b" and ?u = "(nl @ pre) @ u @ post @ 0x7d # r"
    have a: "ahead (forward 1 b) = ws @ quoted (Some nm) @ [0x3a] @ tab @ g x @ [] @ 0x2c # ?u"
      using Cons.prems(8) t by simp
    have st: "object_loop n pv fo acc b = object_loop n' pv fo (acc @ [x]) ?q"
      using step [OF _ a] n by (simp add: follows_def add_ac)
    have "ahead (forward 1 ?q) = ?u"
      using arg_cong [OF a, of "drop (length ws + length ?m + 1)"] by (simp add: add_ac)
    then have "object_loop n' pv fo (acc @ [x]) ?q =
        Some (Inr ((acc @ [x]) @ xs, forward (1 + length (nl @ pre) + length u + length post) ?q))"
      using Cons.prems n by (intro Cons.IH [OF False _ _ w(3) blank post u]) auto
    then show ?thesis using st t by (simp add: add_ac)
  qed
qed simp

lemma ahead_depth [simp]: "ahead (b\<lparr> depth := d \<rparr>) = ahead b"
  by (simp add: ahead_def)

lemma backward_forward [simp]: "n > 0 \<Longrightarrow> backward (forward n b) = forward (n - 1) b"
  by (simp add: backward_def forward_def)

text \<open>The closing bracket, one level up again.\<close>

lemma leave_level [simp]: "depth b = d \<Longrightarrow> forward k ((forward n (b\<lparr> depth := e \<rparr>))\<lparr> depth := d \<rparr>) = forward (n + k) b"
  by (simp add: forward_def add.assoc)

lemma join_opens:
  assumes "xs \<noteq> []" "\<And>x. x \<in> set xs \<Longrightarrow> \<exists>c r. g x = c # r \<and> opens c"
  obtains c r where "join sep (map g xs) = c # r" "opens c"
proof -
  obtain y ys where "xs = y # ys" using assms(1) by (cases xs) auto
  moreover then obtain c r where "g y = c # r" "opens c" using assms(2) [of y] by auto
  ultimately show thesis by (cases "ys = []") (auto simp: join_Cons intro: that)
qed

lemma parse_array_reads:
  assumes ch: "length ch \<le> n" "\<And>x. x \<in> set ch \<Longrightarrow> reads pv fo (d + 1) g x \<and> item_string x = None \<and> (\<exists>c r. g x = c # r \<and> opens c)"
    and sp: "\<forall>x \<in> set sp. x \<le> 32" and d: "d < CJSON_NESTING_LIMIT" "depth b = d" "hooks b = []"
    and a: "ahead b = 0x5b # join (0x2c # sp) (map g ch) @ 0x5d # r"
  shows "parse_array n pv fo (CJSON ty None 0 (d_zero fo) s []) b =
    Some (Inr (CJSON cJSON_Array None 0 (d_zero fo) s ch, forward (length (join (0x2c # sp) (map g ch)) + 2) b))"
proof -
  let ?b = "b\<lparr> depth := d + 1 \<rparr>" and ?t = "join (0x2c # sp) (map g ch)"
  have a1: "ahead (forward 1 ?b) = ?t @ 0x5d # r" using a by simp
  have b0: "buffer_at ?b 0 = 0x5b" using a by (simp add: buffer_at_ahead)
  show ?thesis
  proof (cases "ch = []")
    case True
    have "buffer_skip_whitespace (forward 1 ?b) = forward 1 ?b"
      using skip_whitespace_ahead [of "forward 1 ?b" "[]" "0x5d" r] a1 True by (simp add: word_le_nat_alt)
    then show ?thesis using a1 b0 d True unfolding parse_array_def Let_def
      by (simp add: can_access_ahead buffer_at_ahead)
  next
    case False
    obtain c u where c: "?t = c # u" "opens c" by (rule join_opens [OF False]) (use ch(2) in auto)
    have "buffer_skip_whitespace (forward 1 ?b) = forward 1 ?b"
      using skip_whitespace_ahead [of "forward 1 ?b" "[]" c "u @ 0x5d # r"] a1 c by (simp add: opens_def)
    moreover have "array_loop n pv fo [] ?b = Some (Inr (ch, forward (1 + length ?t) ?b))"
      using array_loop_reads [OF False ch(1) ch(2), where ws = "[]" and acc = "[]" and b = ?b and sp = sp and r = r] sp a1 d by simp
    ultimately show ?thesis using a1 b0 c d unfolding parse_array_def Let_def
      by (simp add: can_access_ahead buffer_at_ahead opens_def)
  qed
qed

lemma parse_object_reads:
  assumes ch: "length ch \<le> n"
      "\<And>x. x \<in> set ch \<Longrightarrow> reads pv fo (d + 1) g x \<and> (\<exists>nm. item_string x = Some nm \<and> 0 \<notin> set nm) \<and> (\<exists>c r. g x = c # r \<and> opens c)"
    and blank: "\<forall>x \<in> set (pre @ tab @ nl @ post). x \<le> 32" and post: "ch \<noteq> [] \<Longrightarrow> follows (hd (post @ [0x7d]))"
    and d: "d < CJSON_NESTING_LIMIT" "depth b = d" "hooks b = []"
    and a: "ahead b = 0x7b # nl @ join (0x2c # nl) (map (member pre tab g) ch) @ post @ 0x7d # r"
  shows "parse_object n pv fo (CJSON ty None 0 (d_zero fo) s []) b =
    Some (Inr (CJSON cJSON_Object None 0 (d_zero fo) s ch,
      forward (1 + length nl + length (join (0x2c # nl) (map (member pre tab g) ch)) + length post + 1) b))"
proof -
  let ?b = "b\<lparr> depth := d + 1 \<rparr>" and ?t = "join (0x2c # nl) (map (member pre tab g) ch)"
  have a1: "ahead (forward 1 ?b) = nl @ ?t @ post @ 0x7d # r" using a by simp
  have b0: "can_access_at_index ?b 0" "buffer_at ?b 0 = 0x7b" using a by (simp_all add: can_access_ahead buffer_at_ahead)
  show ?thesis
  proof (cases "ch = []")
    case True
    have w: "\<forall>x \<in> set (nl @ post). x \<le> 32" using blank by auto
    let ?q = "forward (1 + length (nl @ post)) ?b"
    have "buffer_skip_whitespace (forward 1 ?b) = ?q"
      using skip_whitespace_ahead [OF _ w, of "forward 1 ?b" "0x7d" r] a1 True by (simp add: word_le_nat_alt)
    moreover have "ahead ?q = 0x7d # r" using arg_cong [OF a1, of "drop (length (nl @ post))"] True by simp
    ultimately show ?thesis using b0 d True unfolding parse_object_def Let_def
      by (simp add: can_access_ahead buffer_at_ahead)
  next
    case False
    obtain u where u: "?t = pre @ 0x22 # u" by (rule members_open [OF False])
    have w: "\<forall>x \<in> set (nl @ pre). x \<le> 32" using blank by auto
    let ?q = "forward (1 + length (nl @ pre)) ?b"
    have s: "buffer_skip_whitespace (forward 1 ?b) = ?q"
      using skip_whitespace_ahead [OF _ w, of "forward 1 ?b" "0x22" "u @ post @ 0x7d # r"] a1 u by (simp add: word_le_nat_alt)
    have q: "ahead ?q = 0x22 # u @ post @ 0x7d # r" using arg_cong [OF a1, of "drop (length (nl @ pre))"] u by simp
    have "object_loop n pv fo [] (backward ?q) = Some (Inr ([] @ ch, forward (1 + length ([] :: byte list) + length (0x22 # u) + length post) (backward ?q)))"
      using q d by (intro object_loop_reads [OF False ch(1) ch(2) _ blank post [OF False] u]) simp_all
    then show ?thesis using b0 d s q unfolding parse_object_def Let_def
      by (simp add: can_access_ahead buffer_at_ahead u) (simp add: add_ac)?
  qed
qed

lemma parse_number_reads:
  assumes "number_reads_back fo it" "ahead b = number_text fo it @ c # r" "follows c" "hooks b = []"
  shows "parse_number fo (CJSON ty vs vi vd s ch) b =
    Inr (CJSON cJSON_Number vs (valueint it) (valuedouble it) s ch, forward (length (number_text fo it)) b)"
proof -
  obtain x xs where t: "number_text fo it = x # xs" "\<forall>y \<in> set (x # xs). is_number_char y"
    "strtod fo (x # xs) = (valuedouble it, length (x # xs))" "valueint it = saturate fo (valuedouble it)"
    by (rule number_reads_backD [OF assms(1)])
  have "\<not> is_number_char c" using assms(3) by (auto simp: follows_def is_number_char_def word_le_nat_alt)
  then have tw: "takeWhile is_number_char (drop (offset b) (content b)) = x # xs"
    using assms(2) t(2) unfolding ahead_def [symmetric] t(1) by (simp add: takeWhile_append2 takeWhile_tail)
  have "map (\<lambda>c. if c = 0x2e then get_decimal_point else c) (x # xs) = x # xs"
    by (simp add: get_decimal_point_def map_idI)
  then show ?thesis unfolding parse_number_def Let_def tw using t assms(4) by simp
qed

section \<open>The theorem\<close>

lemma nesting_child: "x \<in> set ch \<Longrightarrow> ty = cJSON_Array \<or> ty = cJSON_Object \<Longrightarrow> nesting x < nesting (CJSON ty vs vi vd s ch)"
  by (simp add: nesting.simps less_Suc_eq_le)

lemma join_length: "x \<in> set xs \<Longrightarrow> length x \<le> length (join sep xs)"
  by (induction xs) (auto simp: join_Cons)

lemma join_count: "(\<And>x. x \<in> set xs \<Longrightarrow> x \<noteq> []) \<Longrightarrow> length xs \<le> length (join sep xs)"
proof (induction xs)
  case (Cons x xs)
  then have "x \<noteq> []" "length xs \<le> length (join sep xs)" by auto
  then show ?case by (cases x) (auto simp: join_Cons)
qed simp

lemma member_fun: "member pre tab g = (\<lambda>x. pre @ quoted (item_string x) @ [0x3a] @ tab @ g x)"
  by (rule ext) (simp add: member_def)

lemma blank_texts: "\<forall>x \<in> set (tabs f d). x \<le> 32" "\<forall>x \<in> set (if_fmt f [9]). x \<le> 32" "\<forall>x \<in> set (if_fmt f [10]). x \<le> 32"
    "\<forall>x \<in> set (if_fmt f [0x20]). x \<le> 32"
  by (auto simp: tabs_def if_fmt_def word_le_nat_alt)

lemma not_literal: "ahead b = c # r \<Longrightarrow> s \<noteq> [] \<Longrightarrow> hd s \<noteq> c \<Longrightarrow> \<not> literal_at b s"
  by (cases s) (auto simp: literal_at_ahead)

lemma parse_value_literal:
  assumes "ahead b = c # r" "c \<noteq> 0x6e" "c \<noteq> 0x66" "c \<noteq> 0x74"
  shows "parse_value (Suc n) fo it b =
     (if c = 0x22 then Some (parse_string it b)
      else if c = 0x2d \<or> (0x30 \<le> c \<and> c \<le> 0x39) then Some (parse_number fo it b)
      else if c = 0x5b then parse_array n (parse_value n fo) fo it b
      else if c = 0x7b then parse_object n (parse_value n fo) fo it b
      else Some (Inl b))"
proof -
  have "hd (bytes_of ''null'') = 0x6e" "hd (bytes_of ''false'') = 0x66" "hd (bytes_of ''true'') = 0x74"
    "bytes_of ''null'' \<noteq> []" "bytes_of ''false'' \<noteq> []" "bytes_of ''true'' \<noteq> []" by (simp_all add: bytes_of_def)
  then have "\<not> literal_at b (bytes_of ''null'')" "\<not> literal_at b (bytes_of ''false'')" "\<not> literal_at b (bytes_of ''true'')"
    using assms(2-4) by (simp_all add: not_literal [OF assms(1)])
  moreover have "can_access_at_index b 0" "buffer_at b 0 = c" using assms(1) by (simp_all add: can_access_ahead buffer_at_ahead)
  ultimately show ?thesis by (simp only: parse_value.simps) simp
qed

lemma readsI:
  assumes "\<And>b ty c r. ahead b = g x @ c # r \<Longrightarrow> follows c \<Longrightarrow> hooks b = [] \<Longrightarrow> depth b = d \<Longrightarrow>
    pv (CJSON ty None 0 (d_zero fo) (item_string x) []) b = Some (Inr (x, forward (length (g x)) b))"
  shows "reads pv fo d g x"
  using assms unfolding reads_def by blast

lemma reads_number:
  assumes "canonical fo (CJSON cJSON_Number vs vi vd s ch)"
  shows "reads (parse_value (Suc n) fo) fo d (render fo f k) (CJSON cJSON_Number vs vi vd s ch)"
proof (rule readsI)
  let ?it = "CJSON cJSON_Number vs vi vd s ch"
  fix b ty c r assume a: "ahead b = render fo f k ?it @ c # r" and c: "follows c" and b: "hooks b = []"
  have it: "vs = None" "ch = []" and nr: "number_reads_back fo ?it" using assms by (auto simp: canonical.simps)
  have t: "render fo f k ?it = number_text fo ?it" by (simp add: render.simps)
  obtain x xs where x: "number_text fo ?it = x # xs" "x = 0x2d \<or> (0x30 \<le> x \<and> x \<le> 0x39)" by (rule number_reads_backD [OF nr])
  have h: "x \<noteq> 0x6e" "x \<noteq> 0x66" "x \<noteq> 0x74" "x \<noteq> 0x22" using x(2) by (auto simp: word_le_nat_alt)
  have "ahead b = x # xs @ c # r" using a t x(1) by simp
  from parse_value_literal [OF this h(1-3)] x(2) h(4)
  have "parse_value (Suc n) fo it b = Some (parse_number fo it b)" for it by simp
  then show "parse_value (Suc n) fo (CJSON ty None 0 (d_zero fo) (item_string ?it) []) b = Some (Inr (?it, forward (length (render fo f k ?it)) b))"
    using parse_number_reads [OF nr _ c b] a t it by simp
qed

lemma reads_string:
  assumes "canonical fo (CJSON cJSON_String vs vi vd s ch)"
  shows "reads (parse_value (Suc n) fo) fo d (render fo f k) (CJSON cJSON_String vs vi vd s ch)"
proof (rule readsI)
  let ?it = "CJSON cJSON_String vs vi vd s ch"
  fix b ty c r assume a: "ahead b = render fo f k ?it @ c # r" and b: "hooks b = []"
  obtain bs where vs: "vs = Some bs" "0 \<notin> set bs" "ch = []" "vi = 0" "vd = d_zero fo" using assms by (auto simp: canonical.simps)
  have q: "render fo f k ?it = quoted (Some bs)" using vs by (simp add: render.simps)
  obtain u where u: "quoted (Some bs) = 0x22 # u" by (simp add: quoted_def)
  have "ahead b = 0x22 # u @ c # r" using a q u by simp
  from parse_value_literal [OF this]
  have "parse_value (Suc n) fo it b = Some (parse_string it b)" for it by simp
  then show "parse_value (Suc n) fo (CJSON ty None 0 (d_zero fo) (item_string ?it) []) b = Some (Inr (?it, forward (length (render fo f k ?it)) b))"
    using parse_string_quoted [of b bs "c # r" "CJSON ty None 0 (d_zero fo) s []"] a b q vs by simp
qed

lemma literal_here: "ahead b = s @ r \<Longrightarrow> s \<noteq> [] \<Longrightarrow> literal_at b s"
  by (simp add: literal_at_ahead)

lemma reads_literal:
  assumes "canonical fo (CJSON ty vs vi vd s ch)" "ty \<in> {cJSON_NULL, cJSON_False, cJSON_True}"
  shows "reads (parse_value (Suc n) fo) fo d (render fo f k) (CJSON ty vs vi vd s ch)"
proof (rule readsI)
  let ?it = "CJSON ty vs vi vd s ch"
  fix b ty' c r assume a: "ahead b = render fo f k ?it @ c # r"
  have it: "vs = None" "ch = []" "vd = d_zero fo" "vi = (if ty = cJSON_True then 1 else 0)"
    using assms by (auto simp: canonical.simps)
  have tx: "bytes_of ''null'' = [0x6e, 0x75, 0x6c, 0x6c]" "bytes_of ''false'' = [0x66, 0x61, 0x6c, 0x73, 0x65]" "bytes_of ''true'' = [0x74, 0x72, 0x75, 0x65]"
    by (simp_all add: bytes_of_def)
  consider "ty = cJSON_NULL" | "ty = cJSON_False" | "ty = cJSON_True" using assms(2) by auto
  then show "parse_value (Suc n) fo (CJSON ty' None 0 (d_zero fo) (item_string ?it) []) b = Some (Inr (?it, forward (length (render fo f k ?it)) b))"
  proof cases
    case 1
    then have "ahead b = [0x6e, 0x75, 0x6c, 0x6c] @ c # r" using a by (simp add: render.simps tx)
    then show ?thesis using 1 it literal_here [of b] by (simp add: parse_value.simps render.simps tx) (simp add: eval_nat_numeral)?
  next
    case 2
    then have h: "ahead b = [0x66, 0x61, 0x6c, 0x73, 0x65] @ c # r" using a by (simp add: render.simps tx)
    then have "\<not> literal_at b [0x6e, 0x75, 0x6c, 0x6c]" by (intro not_literal) auto
    then show ?thesis using 2 it literal_here [OF h] by (simp add: parse_value.simps render.simps tx) (simp add: eval_nat_numeral)?
  next
    case 3
    then have h: "ahead b = [0x74, 0x72, 0x75, 0x65] @ c # r" using a by (simp add: render.simps tx)
    then have "\<not> literal_at b [0x6e, 0x75, 0x6c, 0x6c]" "\<not> literal_at b [0x66, 0x61, 0x6c, 0x73, 0x65]" by (simp_all add: not_literal [OF h [simplified]])
    then show ?thesis using 3 it literal_here [OF h] by (simp add: parse_value.simps render.simps tx) (simp add: eval_nat_numeral)?
  qed
qed

lemma reads_array:
  assumes "canonical fo (CJSON cJSON_Array vs vi vd s ch)" "d < CJSON_NESTING_LIMIT"
    and n: "length (render fo f k (CJSON cJSON_Array vs vi vd s ch)) \<le> n"
    and ch: "\<And>x. x \<in> set ch \<Longrightarrow> length (render fo f (k + 1) x) < n \<Longrightarrow> reads (parse_value n fo) fo (d + 1) (render fo f (k + 1)) x"
  shows "reads (parse_value (Suc n) fo) fo d (render fo f k) (CJSON cJSON_Array vs vi vd s ch)"
proof (rule readsI)
  let ?it = "CJSON cJSON_Array vs vi vd s ch" and ?g = "render fo f (k + 1)" and ?sep = "0x2c # if_fmt f [0x20]"
  fix b ty c r assume a: "ahead b = render fo f k ?it @ c # r" and b: "hooks b = []" "depth b = d"
  have it: "vs = None" "vi = 0" "vd = d_zero fo" and el: "\<And>x. x \<in> set ch \<Longrightarrow> item_string x = None \<and> canonical fo x"
    using assms(1) by (auto simp: canonical.simps)
  have t: "render fo f k ?it = 0x5b # join ?sep (map ?g ch) @ [0x5d]" by (simp add: render.simps)
  have op: "\<exists>c r. ?g x = c # r \<and> opens c" if "x \<in> set ch" for x using render_opens el [OF that] by metis
  have "length (map ?g ch) \<le> length (join ?sep (map ?g ch))" by (rule join_count) (use op in force)
  then have l: "length ch \<le> n" using n t by simp
  have "length (?g x) < n" if "x \<in> set ch" for x
    using join_length [of "?g x" "map ?g ch" ?sep] that n t by simp
  then have rd: "reads (parse_value n fo) fo (d + 1) ?g x \<and> item_string x = None \<and> (\<exists>c r. ?g x = c # r \<and> opens c)"
    if "x \<in> set ch" for x using ch [OF that] el [OF that] op [OF that] that by simp
  have a1: "ahead b = 0x5b # join ?sep (map ?g ch) @ 0x5d # c # r" using a t by simp
  from parse_value_literal [OF a1]
  have "parse_value (Suc n) fo it b = parse_array n (parse_value n fo) fo it b" for it by simp
  then show "parse_value (Suc n) fo (CJSON ty None 0 (d_zero fo) (item_string ?it) []) b = Some (Inr (?it, forward (length (render fo f k ?it)) b))"
    using parse_array_reads [OF l rd blank_texts(4) assms(2) b(2,1) a1] it t by simp
qed

text \<open>An object reads back whatever follows it.\<close>

lemma object_value_reads:
  assumes "canonical fo (CJSON cJSON_Object vs vi vd s ch)" "d < CJSON_NESTING_LIMIT"
    and n: "length (render fo f k (CJSON cJSON_Object vs vi vd s ch)) \<le> n"
    and ch: "\<And>x. x \<in> set ch \<Longrightarrow> length (render fo f (k + 1) x) < n \<Longrightarrow> reads (parse_value n fo) fo (d + 1) (render fo f (k + 1)) x"
    and a: "ahead b = render fo f k (CJSON cJSON_Object vs vi vd s ch) @ r" and b: "hooks b = []" "depth b = d"
  shows "parse_value (Suc n) fo (CJSON ty None 0 (d_zero fo) s []) b =
    Some (Inr (CJSON cJSON_Object vs vi vd s ch, forward (length (render fo f k (CJSON cJSON_Object vs vi vd s ch))) b))"
proof -
  let ?it = "CJSON cJSON_Object vs vi vd s ch" and ?g = "render fo f (k + 1)"
  let ?m = "member (tabs f (k + 1)) (if_fmt f [9]) ?g" and ?nl = "if_fmt f [10]" and ?post = "if_fmt (f \<and> ch \<noteq> []) [10] @ tabs f k"
  have it: "vs = None" "vi = 0" "vd = d_zero fo"
    and el: "\<And>x. x \<in> set ch \<Longrightarrow> (\<exists>nm. item_string x = Some nm \<and> 0 \<notin> set nm) \<and> canonical fo x"
    using assms(1) by (auto simp: canonical.simps)
  have t: "render fo f k ?it = 0x7b # ?nl @ join (0x2c # ?nl) (map ?m ch) @ ?post @ [0x7d]"
    by (simp add: render.simps member_fun)
  have op: "\<exists>c r. ?g x = c # r \<and> opens c" if "x \<in> set ch" for x using render_opens el [OF that] by metis
  have "length (map ?m ch) \<le> length (join (0x2c # ?nl) (map ?m ch))" by (rule join_count) (auto simp: member_def)
  then have l: "length ch \<le> n" using n t by simp
  have "length (?g x) < n" if "x \<in> set ch" for x
    using join_length [of "?m x" "map ?m ch" "0x2c # ?nl"] that n t by (simp add: member_def)
  then have rd: "reads (parse_value n fo) fo (d + 1) ?g x \<and> (\<exists>nm. item_string x = Some nm \<and> 0 \<notin> set nm) \<and> (\<exists>c r. ?g x = c # r \<and> opens c)"
    if "x \<in> set ch" for x using ch [OF that] el [OF that] op [OF that] that by simp
  have a1: "ahead b = 0x7b # ?nl @ join (0x2c # ?nl) (map ?m ch) @ ?post @ 0x7d # r" using a t by simp
  have bl: "\<forall>x \<in> set (tabs f (k + 1) @ if_fmt f [9] @ ?nl @ ?post). x \<le> 32"
    using blank_texts(1) [of f "k + 1"] blank_texts(1) [of f k] blank_texts(2,3) [of f] by (auto simp: if_fmt_def)
  have po: "ch \<noteq> [] \<Longrightarrow> follows (hd (?post @ [0x7d]))" by (auto simp: if_fmt_def tabs_def follows_def)
  from parse_value_literal [OF a1]
  have "parse_value (Suc n) fo it b = parse_object n (parse_value n fo) fo it b" for it by simp
  then show ?thesis
    using parse_object_reads [OF l rd bl po assms(2) b(2,1) a1] it t by (simp add: add.assoc)
qed

lemma reads_object:
  assumes "canonical fo (CJSON cJSON_Object vs vi vd s ch)" "d < CJSON_NESTING_LIMIT"
    and n: "length (render fo f k (CJSON cJSON_Object vs vi vd s ch)) \<le> n"
    and ch: "\<And>x. x \<in> set ch \<Longrightarrow> length (render fo f (k + 1) x) < n \<Longrightarrow> reads (parse_value n fo) fo (d + 1) (render fo f (k + 1)) x"
  shows "reads (parse_value (Suc n) fo) fo d (render fo f k) (CJSON cJSON_Object vs vi vd s ch)"
  by (rule readsI) (use object_value_reads [OF assms(1-3) ch] in simp)

lemma parse_value_reads:
  "canonical fo it \<Longrightarrow> nesting it + d \<le> CJSON_NESTING_LIMIT \<Longrightarrow> length (render fo f k it) < n \<Longrightarrow>
     reads (parse_value n fo) fo d (render fo f k) it"
proof (induction it arbitrary: n d k)
  case (CJSON ty vs vi vd s ch)
  let ?it = "CJSON ty vs vi vd s ch"
  obtain m where n: "n = Suc m" using CJSON.prems(3) by (cases n) simp_all
  have ch: "reads (parse_value m fo) fo (d + 1) (render fo f (k + 1)) x"
    if "ty = cJSON_Array \<or> ty = cJSON_Object" "x \<in> set ch" "length (render fo f (k + 1) x) < m" for x
  proof (rule CJSON.IH [OF that(2) _ _ that(3)])
    show "canonical fo x" using CJSON.prems(1) that by (auto simp: canonical.simps)
    show "nesting x + (d + 1) \<le> CJSON_NESTING_LIMIT" using nesting_child [OF that(2,1), of vs vi vd s] CJSON.prems(2) by linarith
  qed
  have d: "d < CJSON_NESTING_LIMIT" if "ty = cJSON_Array \<or> ty = cJSON_Object" using CJSON.prems(2) that by (auto simp: nesting.simps)
  have l: "length (render fo f k ?it) \<le> m" using CJSON.prems(3) n by simp
  consider "ty = cJSON_Number" | "ty = cJSON_String" | "ty = cJSON_Array" | "ty = cJSON_Object"
    | "ty \<in> {cJSON_NULL, cJSON_False, cJSON_True}" using CJSON.prems(1) by (auto simp: canonical.simps split: if_splits)
  then show ?case unfolding n
  proof cases
    case 1
    then show "reads (parse_value (Suc m) fo) fo d (render fo f k) ?it" using CJSON.prems(1) by (simp add: reads_number)
  next
    case 2
    then show "reads (parse_value (Suc m) fo) fo d (render fo f k) ?it" using CJSON.prems(1) by (simp add: reads_string)
  next
    case 3
    then show "reads (parse_value (Suc m) fo) fo d (render fo f k) ?it"
      using reads_array [of fo vs vi vd s ch d f k m] CJSON.prems(1) d l ch by simp
  next
    case 4
    then show "reads (parse_value (Suc m) fo) fo d (render fo f k) ?it"
      using reads_object [of fo vs vi vd s ch d f k m] CJSON.prems(1) d l ch by simp
  next
    case 5
    then show "reads (parse_value (Suc m) fo) fo d (render fo f k) ?it" using CJSON.prems(1) by (simp add: reads_literal)
  qed
qed

lemma parse_object_value:
  assumes "canonical fo (CJSON cJSON_Object vs vi vd s ch)" "nesting (CJSON cJSON_Object vs vi vd s ch) \<le> CJSON_NESTING_LIMIT"
    and "length (render fo f 0 (CJSON cJSON_Object vs vi vd s ch)) < n"
    and "ahead b = render fo f 0 (CJSON cJSON_Object vs vi vd s ch) @ r" "hooks b = []" "depth b = 0"
  shows "parse_value n fo (CJSON ty None 0 (d_zero fo) s []) b =
    Some (Inr (CJSON cJSON_Object vs vi vd s ch, forward (length (render fo f 0 (CJSON cJSON_Object vs vi vd s ch))) b))"
proof -
  obtain m where n: "n = Suc m" using assms(3) by (cases n) simp_all
  have "reads (parse_value m fo) fo (0 + 1) (render fo f (0 + 1)) x" if "x \<in> set ch" "length (render fo f (0 + 1) x) < m" for x
    using nesting_child [OF that(1), of cJSON_Object vs vi vd s] assms(1,2) that by (intro parse_value_reads) (auto simp: canonical.simps)
  then show ?thesis unfolding n using assms n by (intro object_value_reads) simp_all
qed

lemma skip_utf8_bom_ascii: "ahead b = c # r \<Longrightarrow> c \<noteq> 0xEF \<Longrightarrow> skip_utf8_bom b = b"
  by (auto simp: skip_utf8_bom_def ahead_def [symmetric])

lemma canonical_first: "canonical fo it \<Longrightarrow> render fo f d it = c # r \<Longrightarrow> c \<noteq> 0xEF"
proof (cases it)
  case (CJSON ty vs vi vd s ch)
  assume c: "canonical fo it" and r: "render fo f d it = c # r"
  show ?thesis
  proof (cases "ty = cJSON_Number")
    case True
    then have "number_reads_back fo it" using c CJSON by (auto simp: canonical.simps)
    then obtain x xs where "number_text fo it = x # xs" "x = 0x2d \<or> (0x30 \<le> x \<and> x \<le> 0x39)" by (rule number_reads_backD)
    then show ?thesis using True CJSON r by (auto simp: render.simps word_le_nat_alt)
  next
    case False
    then show ?thesis using c r CJSON by (auto simp: canonical.simps render.simps bytes_of_def quoted_def split: if_splits)
  qed
qed

text \<open>
  C34. Parsing undoes printing. For every tree of the shape the parser builds, at most 1000 levels
  deep and with numbers that the C library reads back from their text, \<^verbatim>\<open>cJSON_Parse\<close> on the text
  of the tree, formatted or not, returns exactly that tree (kinds, names, strings with every
  escape, numbers, order of the children) and stops at the end of the text.
\<close>

theorem parse_print_roundtrip:
  assumes "canonical fo it" and "item_string it = None" and "nesting it \<le> CJSON_NESTING_LIMIT"
  shows "cJSON_Parse fo [] (render fo f 0 it) = Some (Some it, length (render fo f 0 it))"
proof -
  let ?t = "render fo f 0 it"
  let ?b = "\<lparr> content = ?t @ [0], offset = 0, depth = 0, hooks = [] \<rparr>"
  obtain c r where t: "?t = c # r" "opens c" by (rule render_opens [OF assms(1)])
  have a: "ahead ?b = ?t @ [0]" by (simp add: ahead_def)
  have s: "buffer_skip_whitespace (skip_utf8_bom ?b) = ?b"
    using skip_utf8_bom_ascii [of ?b c "r @ [0]"] skip_whitespace_ahead [of ?b "[]" c "r @ [0]"] a t canonical_first [OF assms(1) t(1)]
    by (simp add: opens_def)
  have "reads (parse_value (parse_fuel (length (?t @ [0]))) fo) fo 0 (render fo f 0) it"
    by (rule parse_value_reads) (use assms in \<open>simp_all add: parse_fuel_def\<close>)
  then have "parse_value (parse_fuel (length (?t @ [0]))) fo (blank_item fo) ?b = Some (Inr (it, forward (length ?t) ?b))"
    unfolding blank_item_def by (rule readsD [where c = 0 and r = "[]"]) (use a assms(2) in \<open>auto simp: follows_def\<close>)
  then show ?thesis using s
    by (simp add: cJSON_Parse_def cJSON_ParseWithOpts_def cJSON_ParseWithLengthOpts_def forward_def)
qed

theorem parse_print_roundtrip_witness:
  "cJSON_Parse int_ops [] (bytes_of ''{\"on\":[true,-12]}'') = Some (Some sample, length (bytes_of ''{\"on\":[true,-12]}''))"
proof -
  have "canonical int_ops sample"
    by (simp add: sample_def canonical.simps number_reads_back_def number_text_def int_ops_def dec_int_def dec_nat.simps
      strtol_int_def decimal_def digits_def is_number_char_def saturate_def bytes_of_def word_le_nat_alt)
  moreover have "item_string sample = None" "nesting sample \<le> CJSON_NESTING_LIMIT" by (simp_all add: sample_def nesting.simps)
  ultimately show ?thesis using parse_print_roundtrip [of int_ops sample False] unfolding sample_text by blast
qed

end
