(* ===== verification/Cjson_Total.thy ===== *)
theory Cjson_Total
  imports Cjson_Parse
begin

text \<open>
  The parser returns on every input: every successful step moves the offset forward, so the fuel
  the entry points give is never used up.
\<close>

named_theorems buffer_simps \<open>the fields of a parse buffer after a step\<close>

lemma forward_fields [buffer_simps]:
  "offset (forward n b) = offset b + n" "content (forward n b) = content b" "depth (forward n b) = depth b" "hooks (forward n b) = hooks b"
  by (simp_all add: forward_def)

lemma backward_fields [buffer_simps]:
  "offset (backward b) = offset b - 1" "content (backward b) = content b" "depth (backward b) = depth b" "hooks (backward b) = hooks b"
  by (simp_all add: backward_def)

lemma buf_alloc_fields [buffer_simps]:
  "offset (snd (buf_alloc b)) = offset b" "content (snd (buf_alloc b)) = content b" "depth (snd (buf_alloc b)) = depth b"
  by (simp_all add: buf_alloc_def split: prod.split)

lemma skip_whitespace_fields [buffer_simps]:
  "content (buffer_skip_whitespace b) = content b" "depth (buffer_skip_whitespace b) = depth b" "hooks (buffer_skip_whitespace b) = hooks b"
  by (simp_all add: buffer_skip_whitespace_def Let_def buffer_simps)

lemma skip_whitespace_offset: "offset b \<le> offset (buffer_skip_whitespace b)"
proof (cases "takeWhile (\<lambda>c. c \<le> 32) (drop (offset b) (content b)) = []")
  case True
  then show ?thesis by (auto simp: buffer_skip_whitespace_def Let_def can_access_at_index_def buffer_simps)
next
  case False
  then have "0 < length (takeWhile (\<lambda>c. c \<le> 32) (drop (offset b) (content b)))" by blast
  then show ?thesis by (auto simp: buffer_skip_whitespace_def Let_def can_access_at_index_def buffer_simps)
qed

lemma buf_alloc_eq: "buf_alloc b = (ok, b1) \<Longrightarrow> content b1 = content b \<and> offset b1 = offset b \<and> depth b1 = depth b"
  using buf_alloc_fields [of b] by simp

lemma skip_bom_fields: "content (skip_utf8_bom b) = content b"
  by (simp add: skip_utf8_bom_def buffer_simps)

text \<open>A step that succeeded moved on in the same input.\<close>

definition advanced :: "parse_buffer \<Rightarrow> parse_buffer \<Rightarrow> bool" where
  "advanced b b' \<longleftrightarrow> content b' = content b \<and> offset b < offset b'"

lemma advanced_trans: "advanced a b \<Longrightarrow> advanced b c \<Longrightarrow> advanced a c"
  by (simp add: advanced_def)

lemma parse_number_advances: "parse_number fo it b = Inr (it', b') \<Longrightarrow> advanced b b'"
  by (auto simp: parse_number_def Let_def advanced_def buffer_simps dest!: buf_alloc_eq split: prod.splits if_splits)

lemma scan_string_end: "scan_string cs e sk = Some (e', sk') \<Longrightarrow> e \<le> e' \<and> e' < length cs"
proof (induction cs e sk rule: scan_string.induct)
  case (1 cs e sk)
  then show ?case by (subst (asm) (3) scan_string.simps) (auto split: if_splits)
qed

lemma parse_string_advances: "parse_string it b = Inr (it', b') \<Longrightarrow> advanced b b'"
  by (auto simp: parse_string_def Let_def advanced_def dest!: scan_string_end buf_alloc_eq split: prod.splits if_splits option.splits sum.splits)

text \<open>The outcome of a step that returned, and moved on if it succeeded.\<close>

definition ok_result :: "parse_buffer \<Rightarrow> (parse_buffer + 'x \<times> parse_buffer) option \<Rightarrow> bool" where
  "ok_result b r \<longleftrightarrow> (case r of None \<Rightarrow> False | Some (Inl _) \<Rightarrow> True | Some (Inr (_, b')) \<Rightarrow> advanced b b')"

lemma ok_result_simps [simp]:
  "\<not> ok_result b None" "ok_result b (Some (Inl b2))" "ok_result b (Some (Inr (x, b'))) = advanced b b'"
  by (simp_all add: ok_result_def)

lemma ok_result_bind:
  assumes "ok_result b2 r" and "\<And>x b'. r = Some (Inr (x, b')) \<Longrightarrow> advanced b2 b' \<Longrightarrow> ok_result b (f x b')"
  shows "ok_result b (case r of None \<Rightarrow> None | Some (Inl b3) \<Rightarrow> Some (Inl b3) | Some (Inr (x, b3)) \<Rightarrow> f x b3)"
  using assms by (auto simp: ok_result_def split: option.splits sum.splits)

lemma ok_result_trans: "ok_result b' r \<Longrightarrow> advanced b b' \<Longrightarrow> ok_result b r"
  by (auto simp: ok_result_def advanced_def split: option.splits sum.splits)

text \<open>What the element parser of the loops provides, with fuel for inputs of up to \<open>n\<close> remaining bytes.\<close>

definition returns :: "nat \<Rightarrow> 'f item_parser \<Rightarrow> bool" where
  "returns n pv \<longleftrightarrow> (\<forall>it b. length (content b) - offset b < n \<longrightarrow> ok_result b (pv it b))"

lemma returnsD: "returns n pv \<Longrightarrow> length (content b) - offset b < n \<Longrightarrow> ok_result b (pv it b)"
  by (simp add: returns_def)

lemma array_loop_returns:
  assumes pv: "returns n0 pv" and "offset b < length (content b)" "length (content b) - offset b \<le> m" "length (content b) - offset b \<le> n0"
  shows "ok_result b (array_loop m pv fo xs b)"
  using assms(2-4)
proof (induction m arbitrary: xs b)
  case (Suc m)
  obtain ok b1 where a: "buf_alloc b = (ok, b1)" by fastforce
  let ?b = "buffer_skip_whitespace (forward 1 b1)"
  have o: "advanced b ?b"
    using skip_whitespace_offset [of "forward 1 b1"] buf_alloc_eq [OF a] by (simp add: advanced_def buffer_simps)
  have p: "ok_result ?b (pv (blank_item fo) ?b)"
    by (rule returnsD [OF pv]) (use o Suc.prems in \<open>auto simp: advanced_def\<close>)
  have next_ok: "ok_result b (let b3 = buffer_skip_whitespace b2
      in if can_access_at_index b3 0 \<and> buffer_at b3 0 = 0x2c then array_loop m pv fo (xs @ [it]) b3
         else if \<not> can_access_at_index b3 0 \<or> buffer_at b3 0 \<noteq> 0x5d then Some (Inl b3) else Some (Inr (xs @ [it], b3)))"
    if r: "advanced ?b b2" for it b2
  proof -
    let ?b3 = "buffer_skip_whitespace b2"
    have b3: "advanced b ?b3" using o r skip_whitespace_offset [of b2] by (simp add: advanced_def buffer_simps)
    have "ok_result b (array_loop m pv fo (xs @ [it]) ?b3)" if "can_access_at_index ?b3 0"
      by (rule ok_result_trans [OF Suc.IH b3]) (use that b3 Suc.prems in \<open>auto simp: can_access_at_index_def advanced_def\<close>)
    with b3 show ?thesis by (simp add: Let_def)
  qed
  have "ok_result b (case pv (blank_item fo) ?b of None \<Rightarrow> None | Some (Inl b2) \<Rightarrow> Some (Inl b2)
    | Some (Inr (it, b2)) \<Rightarrow> (let b3 = buffer_skip_whitespace b2
      in if can_access_at_index b3 0 \<and> buffer_at b3 0 = 0x2c then array_loop m pv fo (xs @ [it]) b3
         else if \<not> can_access_at_index b3 0 \<or> buffer_at b3 0 \<noteq> 0x5d then Some (Inl b3) else Some (Inr (xs @ [it], b3))))"
    by (rule ok_result_bind [OF p next_ok])
  then show ?case by (simp add: array_loop.simps a del: One_nat_def)
qed simp

lemma object_loop_returns:
  assumes pv: "returns n0 pv" and "offset b < length (content b)" "length (content b) - offset b \<le> m" "length (content b) - offset b \<le> n0"
  shows "ok_result b (object_loop m pv fo xs b)"
  using assms(2-4)
proof (induction m arbitrary: xs b)
  case (Suc m)
  obtain ok b1 where a: "buf_alloc b = (ok, b1)" by fastforce
  let ?s = "parse_string (blank_item fo) (buffer_skip_whitespace (forward 1 b1))"
  have next_ok: "ok_result b (let b5 = buffer_skip_whitespace b4
      in if can_access_at_index b5 0 \<and> buffer_at b5 0 = 0x2c then object_loop m pv fo (xs @ [it]) b5
         else if \<not> can_access_at_index b5 0 \<or> buffer_at b5 0 \<noteq> 0x7d then Some (Inl b5) else Some (Inr (xs @ [it], b5)))"
    if r: "advanced b b4" for it b4
  proof -
    let ?b5 = "buffer_skip_whitespace b4"
    have b5: "advanced b ?b5" using r skip_whitespace_offset [of b4] by (simp add: advanced_def buffer_simps)
    have "ok_result b (object_loop m pv fo (xs @ [it]) ?b5)" if "can_access_at_index ?b5 0"
      by (rule ok_result_trans [OF Suc.IH b5]) (use that b5 Suc.prems in \<open>auto simp: can_access_at_index_def advanced_def\<close>)
    with b5 show ?thesis by (simp add: Let_def)
  qed
  have value_ok: "ok_result b (case pv it (buffer_skip_whitespace (forward 1 (buffer_skip_whitespace b2))) of
      None \<Rightarrow> None | Some (Inl b4) \<Rightarrow> Some (Inl b4)
    | Some (Inr (it2, b4)) \<Rightarrow> (let b5 = buffer_skip_whitespace b4
      in if can_access_at_index b5 0 \<and> buffer_at b5 0 = 0x2c then object_loop m pv fo (xs @ [it2]) b5
         else if \<not> can_access_at_index b5 0 \<or> buffer_at b5 0 \<noteq> 0x7d then Some (Inl b5) else Some (Inr (xs @ [it2], b5))))"
    if s: "?s = Inr (named, b2)" for it named b2
  proof -
    let ?b = "buffer_skip_whitespace (forward 1 (buffer_skip_whitespace b2))"
    have o: "advanced b ?b"
      using parse_string_advances [OF s] buf_alloc_eq [OF a] skip_whitespace_offset [of "forward 1 b1"] skip_whitespace_offset [of b2]
        skip_whitespace_offset [of "forward 1 (buffer_skip_whitespace b2)"] by (simp add: advanced_def buffer_simps)
    have "ok_result ?b (pv it ?b)" by (rule returnsD [OF pv]) (use o Suc.prems in \<open>auto simp: advanced_def\<close>)
    then show ?thesis by (rule ok_result_bind) (rule next_ok, rule advanced_trans [OF o])
  qed
  show ?case
    using value_ok by (cases ?s) (auto simp: object_loop.simps a Let_def simp del: One_nat_def)
qed simp

lemma loop_start:
  assumes "can_access_at_index b 0" "length (content b) - offset b \<le> n"
  defines "b2 \<equiv> buffer_skip_whitespace (forward 1 (b\<lparr> depth := depth b + 1 \<rparr>))"
  assumes "can_access_at_index b2 0"
  shows "offset (backward b2) < length (content (backward b2))" "length (content (backward b2)) - offset (backward b2) \<le> n"
    and "advanced (backward b2) b' \<Longrightarrow> advanced b (forward 1 (b'\<lparr> depth := d \<rparr>))"
  using assms skip_whitespace_offset [of "forward 1 (b\<lparr> depth := depth b + 1 \<rparr>)"]
  by (auto simp: can_access_at_index_def buffer_simps advanced_def)

lemma past_bracket: "advanced b (forward 1 (buffer_skip_whitespace (forward 1 (b\<lparr> depth := k \<rparr>))\<lparr> depth := d \<rparr>))"
  using skip_whitespace_offset [of "forward 1 (b\<lparr> depth := k \<rparr>)"] by (simp add: advanced_def buffer_simps)

lemma parse_array_returns:
  assumes "returns n pv" "can_access_at_index b 0" "length (content b) - offset b \<le> n"
  shows "ok_result b (parse_array n pv fo it b)"
proof -
  let ?b2 = "buffer_skip_whitespace (forward 1 (b\<lparr> depth := depth b + 1 \<rparr>))"
  have "ok_result b (case array_loop n pv fo [] (backward ?b2) of None \<Rightarrow> None | Some (Inl b3) \<Rightarrow> Some (Inl b3)
      | Some (Inr (xs, b3)) \<Rightarrow> Some (Inr (set_child xs (set_type cJSON_Array it), forward 1 (b3\<lparr> depth := depth b3 - 1 \<rparr>))))"
    if c: "can_access_at_index ?b2 0"
    by (rule ok_result_bind [OF array_loop_returns [OF assms(1)]])
      (use loop_start [OF assms(2,3) c] in \<open>simp_all del: One_nat_def\<close>)
  then show ?thesis by (simp add: parse_array_def Let_def past_bracket del: One_nat_def)
qed

lemma parse_object_returns:
  assumes "returns n pv" "can_access_at_index b 0" "length (content b) - offset b \<le> n"
  shows "ok_result b (parse_object n pv fo it b)"
proof -
  let ?b2 = "buffer_skip_whitespace (forward 1 (b\<lparr> depth := depth b + 1 \<rparr>))"
  have "ok_result b (case object_loop n pv fo [] (backward ?b2) of None \<Rightarrow> None | Some (Inl b3) \<Rightarrow> Some (Inl b3)
      | Some (Inr (xs, b3)) \<Rightarrow> Some (Inr (set_child xs (set_type cJSON_Object it), forward 1 (b3\<lparr> depth := depth b3 - 1 \<rparr>))))"
    if c: "can_access_at_index ?b2 0"
    by (rule ok_result_bind [OF object_loop_returns [OF assms(1)]])
      (use loop_start [OF assms(2,3) c] in \<open>simp_all del: One_nat_def\<close>)
  then show ?thesis by (simp add: parse_object_def Let_def past_bracket del: One_nat_def)
qed

lemma parse_string_ok: "ok_result b (Some (parse_string it b))"
  using parse_string_advances [of it b] by (cases "parse_string it b") auto

lemma parse_number_ok: "ok_result b (Some (parse_number fo it b))"
  using parse_number_advances [of fo it b] by (cases "parse_number fo it b") auto

lemma parse_value_returns: "returns n (parse_value n fo)"
proof (induction n)
  case 0
  show ?case by (simp add: returns_def)
next
  case (Suc n)
  have "ok_result b (parse_value (Suc n) fo it b)" if l: "length (content b) - offset b \<le> n" for it and b :: parse_buffer
    using parse_array_returns [OF Suc.IH _ l, of fo it] parse_object_returns [OF Suc.IH _ l, of fo it]
      parse_string_ok [of b it] parse_number_ok [of b fo it]
    by (simp add: parse_value.simps advanced_def buffer_simps)
  then show ?case by (simp add: returns_def)
qed

text \<open>
  C40. Parsing always returns: for every input, every answer of the allocator and every behaviour
  of the number conversion, the parser ends with an item or with an error position.
\<close>

theorem parse_always_returns:
  "\<exists>r. cJSON_ParseWithLengthOpts fo m val require_null_terminated = Some r"
proof -
  have p: "parse_value (parse_fuel (length val)) fo it b \<noteq> None" if "content b = val" for it b
  proof -
    have "length (content b) - offset b < parse_fuel (length val)" using that by (simp add: parse_fuel_def)
    from returnsD [OF parse_value_returns this, of fo it] show ?thesis
      by (cases "parse_value (parse_fuel (length val)) fo it b") auto
  qed
  obtain ok b1 where a: "buf_alloc \<lparr> content = val, offset = 0, depth = 0, hooks = m \<rparr> = (ok, b1)" by fastforce
  have "content (buffer_skip_whitespace (skip_utf8_bom b1)) = val" using buf_alloc_eq [OF a] by (simp add: buffer_simps skip_bom_fields)
  from p [OF this, of "blank_item fo"] show ?thesis
    by (auto simp: cJSON_ParseWithLengthOpts_def Let_def a split: option.splits sum.splits)
qed

end
