(* ===== verification/Json_Mirror.thy ===== *)
theory Json_Mirror
  imports Cjson_Roundtrip Cjson_Total
begin

text \<open>
  \<^verbatim>\<open>json_handler.c\<close>: the configuration tree \<^verbatim>\<open>mirror\<close>, its update counter, and the three functions
  that exchange it with another device through a buffer with a header. The global \<^verbatim>\<open>mirror\<close> is passed
  and returned, \<^term>\<open>None\<close> being \<^verbatim>\<open>NULL\<close>; so are the answers of the allocator for the construction of
  the default tree, while the ones for a parse are an argument of the call. Where a function reads a
  C string out of a buffer, \<^term>\<open>None\<close> is a \<^verbatim>\<open>strlen\<close> that does not end.
\<close>

section \<open>Construction of the default tree\<close>

definition get_localhostname_and_port :: "byte list \<Rightarrow> nat \<Rightarrow> byte list" where
  "get_localhostname_and_port host maxlen =
     (let name = take maxlen host
      in name @ take (u32_of_int (int maxlen - int (length name) - 6)) (bytes_of ''.local''))"

definition add_string :: "'f dbl_ops \<Rightarrow> string \<Rightarrow> byte list \<Rightarrow> 'f cJSON option \<times> mem \<Rightarrow> 'f cJSON option \<times> mem" where
  "add_string fo key val om =
     (let (it, m1) = cJSON_CreateString fo (Some val) (snd om);
          (r, obj, m2) = cJSON_AddItemToObject (fst om) (Some (bytes_of key)) it m1
      in (obj, m2))"

definition add_number :: "'f dbl_ops \<Rightarrow> string \<Rightarrow> 'f \<Rightarrow> 'f cJSON option \<times> mem \<Rightarrow> 'f cJSON option \<times> mem" where
  "add_number fo key num om =
     (let (r, obj, m1) = cJSON_AddNumberToObject fo (fst om) (Some (bytes_of key)) num (snd om) in (obj, m1))"

text \<open>
  \<^verbatim>\<open>buddy_array\<close> is filled after it has become the last child of the tree; when it has not, the
  strings are added to an array nothing else refers to.
\<close>

definition add_buddy :: "'f dbl_ops \<Rightarrow> string \<Rightarrow> bool \<Rightarrow> 'f cJSON option \<times> mem \<Rightarrow> 'f cJSON option \<times> mem" where
  "add_buddy fo name attached om =
     (let (it, m1) = cJSON_CreateString fo (Some (bytes_of name)) (snd om)
      in (if attached then
            map_option (\<lambda>t. set_child (butlast (child t) @ [the (snd (cJSON_AddItemToArray (Some (last (child t))) it))]) t) (fst om)
          else fst om, m1))"

definition add_buddies :: "'f dbl_ops \<Rightarrow> 'f cJSON option \<times> mem \<Rightarrow> 'f cJSON option \<times> mem" where
  "add_buddies fo om =
     (let (arr, m1) = cJSON_CreateArray fo (snd om);
          (attached, obj, m2) = cJSON_AddItemToObject (fst om) (Some (bytes_of ''buddy_ip'')) arr m1
      in add_buddy fo ''freddy.local'' attached (add_buddy fo ''george.local'' attached (obj, m2)))"

definition junk :: "byte list" where
  "junk = bytes_of ''This is a very long string to test large json sending. 0123456789, 1123456789, 2123456789, 3123456789, 4123456789''"

definition get_mirror :: "'f dbl_ops \<Rightarrow> byte list \<Rightarrow> 'f cJSON option \<Rightarrow> mem \<Rightarrow> 'f cJSON option \<times> mem" where
  "get_mirror fo host mirror m = (case mirror of
     Some t \<Rightarrow> (mirror, m)
   | None \<Rightarrow>
       add_string fo ''junk3'' junk (add_string fo ''junk2'' junk (add_string fo ''junk1'' junk
         (add_string fo ''skip_days'' (bytes_of ''0'') (add_string fo ''well_delay'' (bytes_of ''1'')
           (add_string fo ''server_ip'' (get_localhostname_and_port host 64)
             (add_buddies fo
               (add_string fo ''server_version'' (bytes_of ''1.0'')
                 (add_number fo ''update_count'' (d_of_int fo 1)
                   (add_string fo ''json_version'' (bytes_of ''1.0'') (cJSON_CreateObject fo m)))))))))))"

section \<open>The update counter\<close>

definition inc_mirror_counter :: "'f dbl_ops \<Rightarrow> 'f cJSON \<Rightarrow> 'f cJSON" where
  "inc_mirror_counter fo ptr =
     (case get_object_item (Some ptr) (Some (bytes_of ''update_count'')) False of
        None \<Rightarrow> ptr
      | Some k \<Rightarrow>
          let counter = child ptr ! k
          in if cJSON_IsNumber (Some counter) then
               set_child ((child ptr)[k := cJSON_SetNumberHelper fo counter (d_of_int fo (wrap_int (valueint counter + 1)))]) ptr
             else ptr)"

definition update_count :: "'f cJSON option \<Rightarrow> int" where
  "update_count mptr =
     (case mptr of
        None \<Rightarrow> 1
      | Some t \<Rightarrow> (case cJSON_GetObjectItem t (bytes_of ''update_count'') of
                    Some counter \<Rightarrow> if cJSON_IsNumber (Some counter) then valueint counter else 1
                  | None \<Rightarrow> 1))"

definition get_mirror_update_count ::
    "'f dbl_ops \<Rightarrow> byte list \<Rightarrow> 'f cJSON option \<Rightarrow> mem \<Rightarrow> int \<times> 'f cJSON option \<times> mem" where
  "get_mirror_update_count fo host mirror m =
     (let (mptr, m1) = get_mirror fo host mirror m in (update_count mptr, mptr, m1))"

section \<open>The header and the exchange\<close>

abbreviation (input) MAX_JSON_BUF_SIZE :: nat where "MAX_JSON_BUF_SIZE \<equiv> 2048"
abbreviation (input) HDR_SIZE :: nat where "HDR_SIZE \<equiv> 12"

definition hdr_field :: "nat \<Rightarrow> view \<Rightarrow> nat" where
  "hdr_field off v = le_value (take_view 4 (advance v off))"

definition set_hdr_field :: "nat \<Rightarrow> nat \<Rightarrow> view \<Rightarrow> view" where
  "set_hdr_field off x v = store v off (le_bytes 4 x)"

abbreviation (input) hdr_protocol_version :: "view \<Rightarrow> nat" where "hdr_protocol_version \<equiv> hdr_field 0"
abbreviation (input) hdr_size :: "view \<Rightarrow> nat" where "hdr_size \<equiv> hdr_field 4"
abbreviation (input) hdr_data_version :: "view \<Rightarrow> nat" where "hdr_data_version \<equiv> hdr_field 8"

text \<open>A buffer whose bytes from \<open>off\<close> on are those of \<open>w\<close>.\<close>

definition splice_at :: "view \<Rightarrow> nat \<Rightarrow> view \<Rightarrow> view" where
  "splice_at v off w = (\<lambda>i. if i < off then v i else w (i - off))"

text \<open>The result is the counter or -1, the tree and the buffer.\<close>

definition json_prep_get_counter_value ::
    "'f dbl_ops \<Rightarrow> byte list \<Rightarrow> 'f cJSON option \<Rightarrow> mem \<Rightarrow> view \<Rightarrow> (int \<times> 'f cJSON option \<times> view) option" where
  "json_prep_get_counter_value fo host mirror m binary =
     (case get_mirror fo host mirror m of
        (None, m1) \<Rightarrow> Some (- 1, None, binary)
      | (Some mptr, m1) \<Rightarrow> do {
          (jready, w) \<leftarrow> cJSON_PrintPreallocated fo mptr (Some (advance binary HDR_SIZE))
                          (int (MAX_JSON_BUF_SIZE - 5 - HDR_SIZE)) False [];
          let v = (case w of None \<Rightarrow> binary | Some j \<Rightarrow> splice_at binary HDR_SIZE j);
          if jready then do {
            jlength \<leftarrow> strlen (advance v HDR_SIZE);
            let count = update_count (Some mptr);
            Some (count, Some mptr,
                  set_hdr_field 8 (u32_of_int count) (set_hdr_field 4 (jlength + HDR_SIZE) (set_hdr_field 0 1 v)))
          }
          else Some (- 1, Some mptr, v)
        })"

text \<open>\<^verbatim>\<open>cJSON_Parse\<close> on the text behind the header.\<close>

definition parse_body :: "'f dbl_ops \<Rightarrow> mem \<Rightarrow> view \<Rightarrow> 'f cJSON option option" where
  "parse_body fo pm buf = do {
     n \<leftarrow> strlen (advance buf HDR_SIZE);
     map_option fst (cJSON_Parse fo pm (take_view n (advance buf HDR_SIZE)))
   }"

definition tcp_client_json_handle_reply ::
    "'f dbl_ops \<Rightarrow> byte list \<Rightarrow> 'f cJSON option \<Rightarrow> mem \<Rightarrow> mem \<Rightarrow> int \<Rightarrow> view \<Rightarrow> 'f cJSON option option" where
  "tcp_client_json_handle_reply fo host mirror m pm sz buf =
     (if u32_of_int sz \<le> HDR_SIZE then Some mirror
      else let (my_counter, mirror1, m1) = get_mirror_update_count fo host mirror m
        in if u32_of_int my_counter \<le> hdr_data_version buf then parse_body fo pm buf else Some mirror1)"

text \<open>The result is the number of bytes to send, the tree and the buffer.\<close>

definition tcp_server_json_check_freshness ::
    "'f dbl_ops \<Rightarrow> byte list \<Rightarrow> 'f cJSON option \<Rightarrow> mem \<Rightarrow> mem \<Rightarrow> view \<Rightarrow> (nat \<times> 'f cJSON option \<times> view) option" where
  "tcp_server_json_check_freshness fo host mirror m pm hptr =
     (let (my_counter, mirror1, m1) = get_mirror_update_count fo host mirror m
      in if u32_of_int my_counter \<le> hdr_data_version hptr then do {
           mirror2 \<leftarrow> parse_body fo pm hptr;
           Some (HDR_SIZE, mirror2, set_hdr_field 4 HDR_SIZE hptr)
         }
         else Some (HDR_SIZE + 10, mirror1, set_hdr_field 4 (HDR_SIZE + 10) hptr))"

end
