(* ===== verification/Tcp_Link.thy ===== *)
theory Tcp_Link
  imports Prelude
begin

text \<open>
  \<^verbatim>\<open>picow_tcp_server.c\<close> and \<^verbatim>\<open>picow_tcp_client.c\<close>: the slots of a server, the state of a client, and
  the calls of both into lwIP. A connection (\<^verbatim>\<open>tcp_pcb\<close>) is a number. The calls are recorded in
  the order they are made; what lwIP answers may depend on everything called so far. The functions
  of the protocol that runs over the connection are arguments, with the state \<open>'s\<close> they work on.
  \<^term>\<open>None\<close> is undefined behaviour or a loop that does not end.
\<close>

section \<open>lwIP\<close>

type_synonym pcb = nat

abbreviation (input) ERR_OK :: int where "ERR_OK \<equiv> 0"
abbreviation (input) ERR_MEM :: int where "ERR_MEM \<equiv> - 1"
abbreviation (input) ERR_INPROGRESS :: int where "ERR_INPROGRESS \<equiv> - 5"
abbreviation (input) ERR_VAL :: int where "ERR_VAL \<equiv> - 6"
abbreviation (input) ERR_ABRT :: int where "ERR_ABRT \<equiv> - 13"
abbreviation (input) ERR_USER :: int where "ERR_USER \<equiv> - 42"

text \<open>
  The calls the program makes. \<open>Freed\<close> is none of them: it is the note that lwIP has freed a connection
  on its own, which it does before it calls the error callback of the connection.
\<close>

datatype lwip_call =
    New_pcb | Bind pcb nat | Listen pcb | Resolve "byte list" | Connect pcb nat
  | Register pcb | Unregister pcb | Write pcb "byte list" | Recved pcb nat
  | Close pcb | Abort pcb | Completed int | Freed pcb

type_synonym calls = "lwip_call list"

text \<open>The result of an error code, and the connection a call creates, if any.\<close>

record tcp_env =
  answer :: "calls \<Rightarrow> lwip_call \<Rightarrow> int"
  fresh :: "calls \<Rightarrow> lwip_call \<Rightarrow> pcb option"

section \<open>Messages in pieces\<close>

text \<open>\<open>piece B n c\<close>: the chunk \<open>c\<close> is what follows the first \<open>n\<close> bytes of \<open>B\<close>.\<close>

definition piece :: "byte list \<Rightarrow> nat \<Rightarrow> byte list \<Rightarrow> bool" where
  "piece B n c \<longleftrightarrow> n + length c \<le> length B \<and> c \<noteq> [] \<and> take (length c) (drop n B) = c"

lemma take_piece: "piece B n c \<Longrightarrow> take n B @ c = take (n + length c) B"
  unfolding piece_def by (metis take_add)

lemma store_piece: "piece B n c \<Longrightarrow> store (store v 0 (take n B)) n c = store v 0 (take (n + length c) B)"
  using take_piece [of B n c] by (subst store_chain) (auto simp: piece_def)

lemma piece_split:
  assumes "drop n B = concat (c # cs)" "[] \<notin> set (c # cs)" "n \<le> length B"
  shows "piece B n c" "drop (n + length c) B = concat cs"
proof -
  have "length B - n = length c + length (concat cs)" using arg_cong [OF assms(1), of length] by simp
  then show "piece B n c" using assms by (auto simp: piece_def)
  show "drop (n + length c) B = concat cs" using assms(1) by (simp flip: drop_drop add: add.commute [of n])
qed

lemma piece_last:
  assumes "piece B n c" "drop (n + length c) B = concat cs" "[] \<notin> set cs"
  shows "n + length c = length B \<longleftrightarrow> cs = []"
  using assms by (cases cs) (auto simp: piece_def dest: arg_cong [where f = length])

lemma wrap_int_small: "0 \<le> i \<Longrightarrow> i < 2 ^ 31 \<Longrightarrow> wrap_int i = i"
  by (simp add: wrap_int_def)

section \<open>The server\<close>

record server_per_client =
  client_pcb :: "pcb option"
  pc_status :: int
  recv_size :: int
  recv_flag :: int
  send_size :: int
  pc_count :: int
  pc_recv_len :: int
  pc_sent_len :: int

record TCP_SERVER_T =
  server_pcb :: "pcb option"
  has_completed :: bool
  max_connections :: nat
  per_accept :: "server_per_client list"

text \<open>A protocol function on a slot: the result, the slot, the state of the protocol and the calls.\<close>

type_synonym 's on_slot = "server_per_client \<Rightarrow> 's \<Rightarrow> calls \<Rightarrow> (int \<times> server_per_client \<times> 's \<times> calls) option"

definition zero_slot :: server_per_client where
  "zero_slot = \<lparr> client_pcb = None, pc_status = 0, recv_size = 0, recv_flag = 0, send_size = 0,
     pc_count = 0, pc_recv_len = 0, pc_sent_len = 0 \<rparr>"

text \<open>The two booleans tell whether the allocations succeed.\<close>

definition tcp_server_init :: "bool \<Rightarrow> bool \<Rightarrow> int \<Rightarrow> TCP_SERVER_T option" where
  "tcp_server_init ok1 ok2 conns =
     (if \<not> ok1 \<or> conns < 1 then None
      else if \<not> ok2 then None
      else Some \<lparr> server_pcb = None, has_completed = False, max_connections = nat conns,
                  per_accept = replicate (nat conns) zero_slot \<rparr>)"

definition tcp_close_client :: "tcp_env \<Rightarrow> server_per_client \<Rightarrow> calls \<Rightarrow> int \<times> server_per_client \<times> calls" where
  "tcp_close_client env per tr = (case client_pcb per of
     None \<Rightarrow> (ERR_OK, per, tr)
   | Some p \<Rightarrow>
       let tr1 = tr @ [Unregister p];
           err = answer env tr1 (Close p);
           tr2 = tr1 @ [Close p]
       in if err \<noteq> ERR_OK then (ERR_ABRT, per\<lparr> client_pcb := None \<rparr>, tr2 @ [Abort p])
          else (err, per\<lparr> client_pcb := None \<rparr>, tr2))"

definition tcp_server_result :: "tcp_env \<Rightarrow> bool \<Rightarrow> int \<Rightarrow> server_per_client \<Rightarrow> calls \<Rightarrow> int \<times> server_per_client \<times> calls" where
  "tcp_server_result env completed status per tr =
     tcp_close_client env per (if completed then tr @ [Completed status] else tr)"

text \<open>The result of a protocol function that ends the connection.\<close>

definition slot_result :: "tcp_env \<Rightarrow> bool \<Rightarrow> int \<Rightarrow> 's on_slot" where
  "slot_result env completed status per s tr =
     (let (r, per1, tr1) = tcp_server_result env completed status per tr in Some (r, per1, s, tr1))"

definition tcp_server_poll :: "'s on_slot \<Rightarrow> 's on_slot" where
  "tcp_server_poll user_send per s tr =
     (if pc_status per = ERR_MEM then do { (r, per1, s1, tr1) \<leftarrow> user_send per s tr; Some (ERR_OK, per1, s1, tr1) }
      else Some (ERR_OK, per, s, tr))"

definition tcp_server_err :: "tcp_env \<Rightarrow> bool \<Rightarrow> int \<Rightarrow> server_per_client \<Rightarrow> calls \<Rightarrow> server_per_client \<times> calls" where
  "tcp_server_err env completed err per tr =
     (if err \<noteq> ERR_ABRT then snd (tcp_server_result env completed err per tr) else (per, tr))"

text \<open>The loop that looks for a free slot.\<close>

fun free_slot :: "nat \<Rightarrow> server_per_client list \<Rightarrow> nat option" where
  "free_slot i [] = None"
| "free_slot i (x # xs) = (if client_pcb x = None then Some i else free_slot (i + 1) xs)"

text \<open>
  A failed accept hands the server to \<^verbatim>\<open>tcp_server_result\<close>, which follows it as if it were a slot.
\<close>

definition tcp_server_accept ::
    "tcp_env \<Rightarrow> 's on_slot \<Rightarrow> TCP_SERVER_T \<Rightarrow> pcb option \<Rightarrow> int \<Rightarrow> 's \<Rightarrow> calls \<Rightarrow> (int \<times> TCP_SERVER_T \<times> 's \<times> calls) option" where
  "tcp_server_accept env user_accept srv new_pcb err s tr = (case new_pcb of
     None \<Rightarrow> None
   | Some p \<Rightarrow>
       if err \<noteq> ERR_OK then None
       else (case free_slot 0 (take (max_connections srv) (per_accept srv)) of
               None \<Rightarrow> Some (ERR_MEM, srv, s, tr @ [Close p])
             | Some i \<Rightarrow>
                 let per = (per_accept srv ! i)\<lparr> client_pcb := Some p, pc_count := 0 \<rparr>
                 in do {
                   (r, per1, s1, tr1) \<leftarrow> user_accept per s (tr @ [Register p]);
                   Some (r, srv\<lparr> per_accept := (per_accept srv)[i := per1] \<rparr>, s1, tr1)
                 }))"

definition tcp_server_open :: "tcp_env \<Rightarrow> bool \<Rightarrow> nat \<Rightarrow> TCP_SERVER_T \<Rightarrow> calls \<Rightarrow> int \<times> TCP_SERVER_T \<times> calls" where
  "tcp_server_open env completed port srv tr =
     (let tr1 = tr @ [New_pcb]
      in case fresh env tr New_pcb of
           None \<Rightarrow> (0, srv, tr1)
         | Some p \<Rightarrow>
             let srv1 = srv\<lparr> has_completed := completed \<rparr>;
                 err = answer env tr1 (Bind p port);
                 tr2 = tr1 @ [Bind p port]
             in if err \<noteq> ERR_OK then (err, srv1, tr2)
                else case fresh env tr2 (Listen p) of
                       None \<Rightarrow> (ERR_MEM, srv1\<lparr> server_pcb := None \<rparr>, tr2 @ [Listen p, Close p])
                     | Some l \<Rightarrow> (ERR_OK, srv1\<lparr> server_pcb := Some l \<rparr>, tr2 @ [Listen p, Register l]))"

section \<open>The client\<close>

record TCP_CLIENT_T =
  tcp_pcb :: "pcb option"
  remote_addr :: nat
  cl_port :: nat
  cl_status :: int
  cl_count :: int
  cl_recv_len :: int
  cl_sent_len :: int
  cl_busy :: bool

type_synonym client_result = "int \<times> TCP_CLIENT_T option \<times> calls"

definition tcp_client_init :: "bool \<Rightarrow> TCP_CLIENT_T option" where
  "tcp_client_init ok =
     (if \<not> ok then None
      else Some \<lparr> tcp_pcb = None, remote_addr = 0, cl_port = 0, cl_status = 0, cl_count = 0,
                  cl_recv_len = 0, cl_sent_len = 0, cl_busy = False \<rparr>)"

definition tcp_client_close :: "tcp_env \<Rightarrow> TCP_CLIENT_T \<Rightarrow> calls \<Rightarrow> int \<times> TCP_CLIENT_T \<times> calls" where
  "tcp_client_close env st tr = (case tcp_pcb st of
     None \<Rightarrow> (ERR_OK, st, tr)
   | Some p \<Rightarrow>
       let tr1 = tr @ [Unregister p];
           err = answer env tr1 (Close p);
           tr2 = tr1 @ [Close p]
       in if err \<noteq> ERR_OK then (ERR_ABRT, st\<lparr> tcp_pcb := None \<rparr>, tr2 @ [Abort p])
          else (err, st\<lparr> tcp_pcb := None \<rparr>, tr2))"

text \<open>The callback of both protocols frees the state, so \<^term>\<open>None\<close> is the state after it.\<close>

definition tcp_client_result :: "tcp_env \<Rightarrow> TCP_CLIENT_T \<Rightarrow> int \<Rightarrow> calls \<Rightarrow> int \<times> TCP_CLIENT_T option \<times> calls" where
  "tcp_client_result env st status tr =
     (let (cls_err, st1, tr1) = tcp_client_close env st tr in (cls_err, None, tr1 @ [Completed status]))"

definition tcp_client_connected :: "tcp_env \<Rightarrow> TCP_CLIENT_T \<Rightarrow> int \<Rightarrow> calls \<Rightarrow> int \<times> TCP_CLIENT_T option \<times> calls" where
  "tcp_client_connected env st err tr =
     (if err \<noteq> ERR_OK then tcp_client_result env st err tr else (ERR_OK, Some st, tr))"

definition tcp_client_err :: "tcp_env \<Rightarrow> TCP_CLIENT_T \<Rightarrow> int \<Rightarrow> calls \<Rightarrow> TCP_CLIENT_T option \<times> calls" where
  "tcp_client_err env st err tr =
     (if err \<noteq> ERR_ABRT then snd (tcp_client_result env (st\<lparr> tcp_pcb := None \<rparr>) err tr) else (Some st, tr))"

definition client_request_common :: "tcp_env \<Rightarrow> TCP_CLIENT_T \<Rightarrow> calls \<Rightarrow> TCP_CLIENT_T \<times> calls" where
  "client_request_common env st tr =
     (let np = fresh env tr New_pcb; st1 = st\<lparr> tcp_pcb := np \<rparr>; tr1 = tr @ [New_pcb]
      in case np of
           None \<Rightarrow> (st1, tr1)
         | Some p \<Rightarrow> (st1, tr1 @ [Register p, Connect p (cl_port st1)]))"

definition dns_found :: "tcp_env \<Rightarrow> TCP_CLIENT_T \<Rightarrow> nat option \<Rightarrow> calls \<Rightarrow> TCP_CLIENT_T option \<times> calls" where
  "dns_found env st ipaddr tr = (case ipaddr of
     Some a \<Rightarrow> let (st1, tr1) = client_request_common env (st\<lparr> remote_addr := a \<rparr>) tr in (Some st1, tr1)
   | None \<Rightarrow> snd (tcp_client_result env st ERR_USER tr))"

text \<open>\<open>addr\<close> is what the resolver stores when it knows the address already.\<close>

definition tcp_client_open ::
    "tcp_env \<Rightarrow> TCP_CLIENT_T \<Rightarrow> byte list \<Rightarrow> nat \<Rightarrow> nat \<Rightarrow> calls \<Rightarrow> bool \<times> TCP_CLIENT_T option \<times> calls" where
  "tcp_client_open env st hostname port addr tr =
     (let st1 = st\<lparr> cl_port := port, cl_status := 0, cl_count := 0, cl_recv_len := 0, cl_sent_len := 0, cl_busy := True \<rparr>;
          err = answer env tr (Resolve hostname);
          tr1 = tr @ [Resolve hostname]
      in if err = ERR_OK then let (st2, tr2) = client_request_common env (st1\<lparr> remote_addr := addr \<rparr>) tr1 in (True, Some st2, tr2)
         else if err \<noteq> ERR_INPROGRESS then let (r, st2, tr2) = tcp_client_result env st1 err tr1 in (True, st2, tr2)
         else (True, Some st1, tr1))"

end
