(* ===== verification/Tcp_Json.thy ===== *)
theory Tcp_Json
  imports Json_Mirror Tcp_Link
begin

text \<open>
  \<^verbatim>\<open>tcp_json.c\<close> and \<^verbatim>\<open>tcp_client_json_update_buddies\<close> of \<^verbatim>\<open>json_handler.c\<close>: the protocol that carries
  the configuration tree between two devices. A device has one \<^verbatim>\<open>json_buffer\<close>; it is the receive and
  the send buffer of the server, the buffer of the client, and its first twelve bytes are the header
  that the client keeps as its private data. A received \<^verbatim>\<open>pbuf\<close> is the list of its bytes,
  \<^term>\<open>None\<close> is \<^verbatim>\<open>NULL\<close>, and \<^verbatim>\<open>pbuf_copy_partial\<close> copies at most as many bytes as there are.
\<close>

record 'f device =
  dev_mirror :: "'f cJSON option"
  json_buffer :: view

text \<open>The answers of the allocator during one callback.\<close>

record heap_answers =
  for_get :: mem
  for_parse :: mem
  for_prep :: mem

section \<open>The server\<close>

definition tcp_server_json_send :: "tcp_env \<Rightarrow> bool \<Rightarrow> 'f device on_slot" where
  "tcp_server_json_send env completed per dev tr =
     (let per1 = per\<lparr> pc_sent_len := 0 \<rparr>
      in case client_pcb per1 of
           None \<Rightarrow> None
         | Some p \<Rightarrow>
             let data = take_view (u16_of_int (send_size per1)) (json_buffer dev);
                 err = answer env tr (Write p data);
                 tr1 = tr @ [Write p data]
             in if err \<noteq> ERR_OK then
                  let per2 = per1\<lparr> pc_status := err \<rparr>
                  in if err = ERR_MEM then Some (ERR_OK, per2, dev, tr1)
                     else slot_result env completed err per2 dev tr1
                else Some (ERR_OK, per1, dev, tr1))"

definition tcp_server_json_accept :: "'f device on_slot" where
  "tcp_server_json_accept per dev tr =
     Some (ERR_OK, per\<lparr> recv_size := int MAX_JSON_BUF_SIZE, pc_recv_len := 0, send_size := 0, recv_flag := 0 \<rparr>, dev, tr)"

definition tcp_server_json_sent :: "nat \<Rightarrow> 'f device on_slot" where
  "tcp_server_json_sent len per dev tr = Some (ERR_OK, per\<lparr> pc_sent_len := wrap_int (pc_sent_len per + int len) \<rparr>, dev, tr)"

text \<open>The part of \<^verbatim>\<open>tcp_server_json_recv\<close> that copies a chunk and looks at the header.\<close>

definition server_store_chunk :: "byte list \<Rightarrow> server_per_client \<Rightarrow> 'f device \<Rightarrow> server_per_client \<times> 'f device" where
  "server_store_chunk chunk per dev =
     (let buffer_left = u16_of_int (int MAX_JSON_BUF_SIZE - pc_recv_len per);
          data = take (if length chunk > buffer_left then buffer_left else length chunk) chunk;
          dev1 = dev\<lparr> json_buffer := store (json_buffer dev) (nat (pc_recv_len per)) data \<rparr>;
          per1 = per\<lparr> pc_recv_len := pc_recv_len per + int (length data) \<rparr>
      in if recv_flag per1 = 0 \<and> u32_of_int (pc_recv_len per1) > HDR_SIZE
         then (per1\<lparr> recv_flag := 1, recv_size := wrap_int (int (hdr_size (json_buffer dev1))) \<rparr>, dev1)
         else (per1, dev1))"

text \<open>The part that answers once the whole message is there.\<close>

definition server_answer ::
    "tcp_env \<Rightarrow> bool \<Rightarrow> 'f dbl_ops \<Rightarrow> byte list \<Rightarrow> heap_answers \<Rightarrow> 'f device on_slot" where
  "server_answer env completed fo host ha per dev tr = do {
     (n, mir, buf) \<leftarrow> tcp_server_json_check_freshness fo host (dev_mirror dev) (for_get ha) (for_parse ha) (json_buffer dev);
     let per1 = per\<lparr> send_size := int n \<rparr>;
     let dev1 = \<lparr> dev_mirror = mir, json_buffer = buf \<rparr>;
     if n > HDR_SIZE then do {
       (counter, mir2, buf2) \<leftarrow> json_prep_get_counter_value fo host mir (for_prep ha) buf;
       let dev2 = \<lparr> dev_mirror = mir2, json_buffer = buf2 \<rparr>;
       if counter > 0 then do {
         (r, per2, dev3, tr1) \<leftarrow> tcp_server_json_send env completed (per1\<lparr> send_size := wrap_int (int (hdr_size buf2)) \<rparr>) dev2 tr;
         Some (ERR_OK, per2, dev3, tr1)
       }
       else slot_result env completed ERR_USER per1 dev2 tr
     }
     else do {
       (r, per2, dev2, tr1) \<leftarrow> tcp_server_json_send env completed per1 dev1 tr;
       Some (ERR_OK, per2, dev2, tr1)
     }
   }"

definition tcp_server_json_recv ::
    "tcp_env \<Rightarrow> bool \<Rightarrow> 'f dbl_ops \<Rightarrow> byte list \<Rightarrow> heap_answers \<Rightarrow> pcb \<Rightarrow> byte list option \<Rightarrow> int \<Rightarrow> 'f device on_slot" where
  "tcp_server_json_recv env completed fo host ha tpcb p err per dev tr =
     (if err = ERR_OK \<or> err = ERR_ABRT then
        (case p of
           None \<Rightarrow> slot_result env completed err per dev tr
         | Some chunk \<Rightarrow>
             let (per1, dev1) = (if length chunk > 0 then server_store_chunk chunk per dev else (per, dev));
                 tr1 = (if length chunk > 0 then tr @ [Recved tpcb (length chunk)] else tr)
             in if pc_recv_len per1 \<ge> recv_size per1 then server_answer env completed fo host ha per1 dev1 tr1
                else Some (ERR_OK, per1, dev1, tr1))
      else Some (ERR_OK, per, dev, tr))"

definition tcp_server_json_init_open ::
    "tcp_env \<Rightarrow> bool \<Rightarrow> bool \<Rightarrow> bool \<Rightarrow> nat \<Rightarrow> calls \<Rightarrow> (int \<times> TCP_SERVER_T \<times> calls) option" where
  "tcp_server_json_init_open env ok1 ok2 completed port tr =
     (case tcp_server_init ok1 ok2 1 of
        None \<Rightarrow> None
      | Some srv \<Rightarrow> Some (tcp_server_open env completed port srv tr))"

section \<open>The client\<close>

definition tcp_client_json_sending :: "tcp_env \<Rightarrow> pcb \<Rightarrow> TCP_CLIENT_T \<Rightarrow> view \<Rightarrow> calls \<Rightarrow> client_result" where
  "tcp_client_json_sending env p st buf tr =
     (if u32_of_int (cl_sent_len st) \<le> hdr_size buf then
        let data = take_view (hdr_size buf mod 2 ^ 16) buf;
            err = answer env tr (Write p data);
            tr1 = tr @ [Write p data]
        in if err \<noteq> ERR_OK then
             let st1 = st\<lparr> cl_status := err \<rparr>
             in if err = ERR_MEM then (ERR_OK, Some st1, tr1) else tcp_client_result env st1 err tr1
           else (ERR_OK, Some st, tr1)
      else (ERR_OK, Some st, tr))"

definition tcp_json_poll :: "tcp_env \<Rightarrow> pcb \<Rightarrow> TCP_CLIENT_T \<Rightarrow> view \<Rightarrow> calls \<Rightarrow> client_result" where
  "tcp_json_poll env p st buf tr =
     (if cl_status st = ERR_MEM then let (r, st1, tr1) = tcp_client_json_sending env p st buf tr in (ERR_OK, st1, tr1)
      else (ERR_OK, Some st, tr))"

definition tcp_client_json_sent :: "nat \<Rightarrow> TCP_CLIENT_T \<Rightarrow> view \<Rightarrow> TCP_CLIENT_T \<times> view" where
  "tcp_client_json_sent len st buf =
     (let st1 = st\<lparr> cl_sent_len := wrap_int (cl_sent_len st + int len) \<rparr>
      in if u32_of_int (cl_sent_len st1) \<ge> hdr_size buf
         then (st1\<lparr> cl_count := wrap_int (cl_count st1 + 1), cl_recv_len := 0, cl_sent_len := 0 \<rparr>,
               set_hdr_field 4 MAX_JSON_BUF_SIZE buf)
         else (st1, buf))"

text \<open>
  Copying a chunk. The header in the buffer is the private one, so storing the received size there
  changes nothing.
\<close>

definition client_store_chunk :: "byte list \<Rightarrow> TCP_CLIENT_T \<Rightarrow> view \<Rightarrow> TCP_CLIENT_T \<times> view" where
  "client_store_chunk chunk st buf =
     (let buffer_left = u16_of_int (int (hdr_size buf) - cl_recv_len st);
          data = take (if length chunk > buffer_left then buffer_left else length chunk) chunk;
          buf1 = store buf (nat (cl_recv_len st)) data;
          buf2 = (if cl_recv_len st = 0 \<and> length data \<ge> HDR_SIZE then set_hdr_field 4 (hdr_size buf1) buf1 else buf1)
      in (st\<lparr> cl_recv_len := cl_recv_len st + int (length data) \<rparr>, buf2))"

definition tcp_client_json_recv ::
    "tcp_env \<Rightarrow> 'f dbl_ops \<Rightarrow> byte list \<Rightarrow> heap_answers \<Rightarrow> pcb \<Rightarrow> byte list option \<Rightarrow> int \<Rightarrow>
     TCP_CLIENT_T \<Rightarrow> 'f device \<Rightarrow> calls \<Rightarrow> (int \<times> TCP_CLIENT_T option \<times> 'f device \<times> calls) option" where
  "tcp_client_json_recv env fo host ha tpcb p err st dev tr =
     (case p of
        None \<Rightarrow> let (r, st1, tr1) = tcp_client_result env st ERR_USER tr in Some (r, st1, dev, tr1)
      | Some chunk \<Rightarrow>
          let (st1, buf) = (if length chunk > 0 then client_store_chunk chunk st (json_buffer dev) else (st, json_buffer dev));
              dev1 = dev\<lparr> json_buffer := buf \<rparr>;
              tr1 = (if length chunk > 0 then tr @ [Recved tpcb (length chunk)] else tr)
          in if u32_of_int (cl_recv_len st1) \<ge> hdr_size buf then do {
               mir \<leftarrow> tcp_client_json_handle_reply fo host (dev_mirror dev1) (for_get ha) (for_parse ha) (wrap_int (int (hdr_size buf))) buf;
               let (r, st2, tr2) = tcp_client_result env st1 ERR_OK tr1;
               Some (r, st2, dev1\<lparr> dev_mirror := mir \<rparr>, tr2)
             }
             else Some (ERR_OK, Some st1, dev1, tr1))"

definition json_client_connected :: "tcp_env \<Rightarrow> pcb \<Rightarrow> TCP_CLIENT_T \<Rightarrow> int \<Rightarrow> view \<Rightarrow> calls \<Rightarrow> client_result" where
  "json_client_connected env p st err buf tr =
     (if err \<noteq> ERR_OK then tcp_client_result env st err tr
      else tcp_client_json_sending env p (st\<lparr> cl_recv_len := 0, cl_sent_len := 0 \<rparr>) buf tr)"

text \<open>\<^verbatim>\<open>fail_count\<close> is static; the result is the new client as the resolver leaves it.\<close>

definition tcp_client_json_init_open ::
    "tcp_env \<Rightarrow> bool \<Rightarrow> nat \<Rightarrow> byte list \<Rightarrow> nat \<Rightarrow> int \<Rightarrow> calls \<Rightarrow> (bool \<times> int \<times> TCP_CLIENT_T option \<times> calls) option" where
  "tcp_client_json_init_open env ok addr hostname port fail_count tr =
     (case tcp_client_init ok of
        None \<Rightarrow> None
      | Some st \<Rightarrow>
          if cl_busy st \<and> \<not> fail_count > 10 then Some (False, wrap_int (fail_count + 1), Some st, tr)
          else let (r, st1, tr1) = tcp_client_open env (st\<lparr> cl_busy := False \<rparr>) hostname port addr tr in Some (r, 0, st1, tr1))"

abbreviation (input) JSON_PORT :: nat where "JSON_PORT \<equiv> 4243"

text \<open>The loop over the buddies; the clients that are opened, in order, and whether the last call succeeded.\<close>

fun buddy_loop ::
    "tcp_env \<Rightarrow> (byte list \<Rightarrow> bool \<times> nat) \<Rightarrow> byte list \<Rightarrow> 'f cJSON list \<Rightarrow> bool \<Rightarrow> int \<Rightarrow> TCP_CLIENT_T option list \<Rightarrow> calls \<Rightarrow>
     (bool \<times> int \<times> TCP_CLIENT_T option list \<times> calls) option" where
  "buddy_loop env sys name [] jready fc cls tr = Some (jready, fc, cls, tr)"
| "buddy_loop env sys name (b # bs) jready fc cls tr =
     (case valuestring b of
        None \<Rightarrow> None
      | Some host \<Rightarrow>
          if name \<noteq> host then do {
            (r, fc1, st, tr1) \<leftarrow> tcp_client_json_init_open env (fst (sys host)) (snd (sys host)) host JSON_PORT fc tr;
            buddy_loop env sys name bs r fc1 (cls @ [st]) tr1
          }
          else buddy_loop env sys name bs jready fc cls tr)"

text \<open>\<open>sys\<close> tells for a name whether the state can be allocated and which address is known for it.\<close>

definition tcp_client_json_update_buddies ::
    "tcp_env \<Rightarrow> (byte list \<Rightarrow> bool \<times> nat) \<Rightarrow> 'f dbl_ops \<Rightarrow> byte list \<Rightarrow> heap_answers \<Rightarrow> int \<Rightarrow> 'f device \<Rightarrow> calls \<Rightarrow>
     (bool \<times> int \<times> TCP_CLIENT_T option list \<times> 'f device \<times> calls) option" where
  "tcp_client_json_update_buddies env sys fo host ha fail_count dev tr = do {
     (counter, mir, buf) \<leftarrow> json_prep_get_counter_value fo host (dev_mirror dev) (for_prep ha) (json_buffer dev);
     let dev1 = \<lparr> dev_mirror = mir, json_buffer = buf \<rparr>;
     if counter > 0 then
       let name = get_localhostname_and_port host 64;
           buddys = (case mir of None \<Rightarrow> None | Some t \<Rightarrow> cJSON_GetObjectItemCaseSensitive t (bytes_of ''buddy_ip''));
           list = (case buddys of None \<Rightarrow> [] | Some a \<Rightarrow> child a)
       in do {
         (r, fc, cls, tr1) \<leftarrow> buddy_loop env sys name list False fail_count [] tr;
         Some (r, fc, cls, dev1, tr1)
       }
     else Some (False, fail_count, [], dev1, tr)
   }"

end
