(* ===== verification/Json_Sync.thy ===== *)
theory Json_Sync
  imports Tcp_Json
begin

text \<open>
  One exchange between a client and a server leaves both devices with the same configuration: the
  one with the higher update counter, whatever pieces TCP delivers the messages in.
\<close>

section \<open>The text of a tree in a message\<close>

lemma hex_char_nonzero: "d < 16 \<Longrightarrow> hex_char d \<noteq> 0"
proof -
  have "\<forall>d \<in> {..<16}. hex_char d \<noteq> 0" by code_simp
  then show "d < 16 \<Longrightarrow> ?thesis" by simp
qed

lemma escaped_nonzero: "c \<noteq> 0 \<Longrightarrow> 0 \<notin> set (escaped c)"
proof (cases rule: escaped_cases [of c])
  case long
  then show ?thesis using hex_char_nonzero [of "unat c div 16"] hex_char_nonzero [of "unat c mod 16"] hex_char_nonzero [of 0] unat_byte_div [of c]
    by auto
next
  case (short e)
  then show ?thesis by (auto simp: escape_char_def split: if_splits)
qed simp

lemma quoted_nonzero: "0 \<notin> set bs \<Longrightarrow> 0 \<notin> set (quoted (Some bs))"
  by (induction bs) (use escaped_nonzero in \<open>auto simp: quoted_def\<close>)

lemma join_nonzero: "0 \<notin> set sep \<Longrightarrow> (\<And>x. x \<in> set xs \<Longrightarrow> 0 \<notin> set x) \<Longrightarrow> (0 :: byte) \<notin> set (join sep xs)"
  by (induction xs) (auto simp: join_Cons)

lemma number_char_nonzero: "\<not> is_number_char 0"
  by (simp add: is_number_char_def)

lemma canonical_nonzero: "canonical fo it \<Longrightarrow> 0 \<notin> set (render fo f d it)"
proof (induction it arbitrary: d)
  case (CJSON ty vs vi vd s ch)
  let ?it = "CJSON ty vs vi vd s ch"
  have w: "0 \<notin> set (tabs f k)" "0 \<notin> set (if_fmt b [9])" "0 \<notin> set (if_fmt b [10])" "0 \<notin> set (if_fmt b [0x20])" for k b
    by (auto simp: tabs_def if_fmt_def)
  consider "ty = cJSON_Number" | bs where "ty = cJSON_String" "vs = Some bs" "0 \<notin> set bs" | "ty = cJSON_Array" | "ty = cJSON_Object"
    | "ty \<in> {cJSON_NULL, cJSON_False, cJSON_True}" using CJSON.prems by (auto simp: canonical.simps split: if_splits)
  then show ?case
  proof cases
    case 1
    then have "number_reads_back fo ?it" using CJSON.prems by (auto simp: canonical.simps)
    then obtain c cs where "number_text fo ?it = c # cs" "\<forall>x \<in> set (c # cs). is_number_char x" by (rule number_reads_backD)
    then have "0 \<notin> set (number_text fo ?it)" using number_char_nonzero by auto
    then show ?thesis using 1 by (simp add: render.simps)
  next
    case 2
    then show ?thesis using quoted_nonzero by (simp add: render.simps)
  next
    case 3
    then have "0 \<notin> set (render fo f (d + 1) x)" if "x \<in> set ch" for x
      using CJSON.IH [OF that] CJSON.prems that by (auto simp: canonical.simps)
    then show ?thesis using 3 w(4) [of f] by (simp add: render.simps) (intro join_nonzero; auto)
  next
    case 4
    then have x: "0 \<notin> set (render fo f (d + 1) x)" "\<exists>n. item_string x = Some n \<and> 0 \<notin> set n" if "x \<in> set ch" for x
      using CJSON.IH [OF that] CJSON.prems that by (auto simp: canonical.simps)
    have "0 \<notin> set (tabs f (d + 1) @ quoted (item_string x) @ [0x3a] @ if_fmt f [9] @ render fo f (d + 1) x)" if "x \<in> set ch" for x
      using x [OF that] w quoted_nonzero by auto
    then have "0 \<notin> set (join ([0x2c] @ if_fmt f [10]) (map (\<lambda>x. tabs f (d + 1) @ quoted (item_string x) @ [0x3a] @ if_fmt f [9] @ render fo f (d + 1) x) ch))"
      using w(3) by (intro join_nonzero) auto
    then have "0 \<notin> set (members_text f (d + 1) (render fo f (d + 1)) ch)" using w(3) by (simp add: members_text_def)
    then show ?thesis unfolding render_object [of ty, OF 4 [THEN arg_cong [of _ _ "\<lambda>x. x AND 0xff"], simplified]] using w by auto
  next
    case 5
    then show ?thesis by (auto simp: render.simps bytes_of_def)
  qed
qed

text \<open>The text of an object reads back whatever follows it in the buffer.\<close>

lemma parse_object_text:
  assumes "canonical fo it" "item_type it = cJSON_Object" "item_string it = None" "nesting it \<le> CJSON_NESTING_LIMIT"
  shows "cJSON_Parse fo [] (render fo f 0 it @ z) = Some (Some it, length (render fo f 0 it))"
proof (cases it)
  case (CJSON ty vs vi vd s ch)
  let ?t = "render fo f 0 it" and ?n = "length (render fo f 0 it @ z @ [0])"
  let ?b = "\<lparr> content = ?t @ z @ [0], offset = 0, depth = 0, hooks = [] \<rparr>"
  have ty: "ty = cJSON_Object" "s = None" using assms CJSON by simp_all
  obtain u where t: "?t = 0x7b # u" using CJSON ty by (simp add: render_object)
  obtain c r where r: "z @ [0] = c # r" by (cases "z @ [0]") auto
  have a: "ahead ?b = ?t @ c # r" by (simp add: ahead_def r)
  have sk: "buffer_skip_whitespace (skip_utf8_bom ?b) = ?b"
    using skip_utf8_bom_ascii [of ?b "0x7b" "u @ c # r"] skip_whitespace_ahead [of ?b "[]" "0x7b" "u @ c # r"] a t
    by (simp add: word_le_nat_alt)
  have "parse_value (parse_fuel ?n) fo (blank_item fo) ?b = Some (Inr (it, forward (length ?t) ?b))"
    using parse_object_value [where b = ?b and n = "parse_fuel ?n" and f = f and r = "c # r" and fo = fo] assms(1,4) CJSON ty a
    by (simp add: parse_fuel_def blank_item_def)
  then show ?thesis using sk
    by (simp add: cJSON_Parse_def cJSON_ParseWithOpts_def cJSON_ParseWithLengthOpts_def forward_def)
qed

section \<open>Messages\<close>

definition message :: "'f dbl_ops \<Rightarrow> 'f cJSON \<Rightarrow> byte list" where
  "message fo t =
     (let r = render fo False 0 t
      in le_bytes 4 1 @ le_bytes 4 (length r + HDR_SIZE) @ le_bytes 4 (u32_of_int (update_count (Some t))) @ r)"

text \<open>A tree the protocol can carry: it reads back, its text fits in the buffer, its counter is positive.\<close>

definition sendable :: "'f dbl_ops \<Rightarrow> 'f cJSON \<Rightarrow> bool" where
  "sendable fo t \<longleftrightarrow> canonical fo t \<and> printable fo t \<and> item_type t = cJSON_Object \<and> item_string t = None \<and>
     nesting t \<le> CJSON_NESTING_LIMIT \<and> length (render fo False 0 t) \<le> 2029 \<and>
     0 < update_count (Some t) \<and> update_count (Some t) \<le> INT_MAX"

lemma length_message: "length (message fo t) = length (render fo False 0 t) + HDR_SIZE"
  by (simp add: message_def Let_def)

lemma hdr_field_prefix: "take_view n v = bs \<Longrightarrow> off + 4 \<le> n \<Longrightarrow> hdr_field off v = le_value (take 4 (drop off bs))"
  unfolding hdr_field_def by (rule arg_cong [of _ _ le_value]) (auto intro!: nth_equalityI)

lemma message_fields:
  assumes "sendable fo t"
  shows "le_value (take 4 (drop 4 (message fo t))) = length (message fo t)"
    "le_value (take 4 (drop 8 (message fo t))) = nat (update_count (Some t))"
    "drop HDR_SIZE (message fo t) = render fo False 0 t"
proof -
  have "length (render fo False 0 t) + 12 < 256 ^ 4" "u32_of_int (update_count (Some t)) < 256 ^ 4" "u32_of_int (update_count (Some t)) = nat (update_count (Some t))"
    using assms by (simp_all add: sendable_def u32_of_int_def nat_less_iff)
  then show "le_value (take 4 (drop 4 (message fo t))) = length (message fo t)"
    "le_value (take 4 (drop 8 (message fo t))) = nat (update_count (Some t))" "drop HDR_SIZE (message fo t) = render fo False 0 t"
    by (simp_all add: message_def Let_def le_value_le_bytes_id del: le_bytes.simps)
qed

lemma message_bounds: "sendable fo t \<Longrightarrow> 12 < length (message fo t) \<and> length (message fo t) \<le> 2041"
proof -
  assume s: "sendable fo t"
  then have "render fo False 0 t \<noteq> []" using render_opens [of fo t False 0] by (metis sendable_def list.distinct(1))
  then show ?thesis using s by (simp add: sendable_def length_message)
qed

lemma sendable_message_hdr:
  assumes "sendable fo t" "take_view (length (message fo t)) v = message fo t"
  shows "hdr_size v = length (message fo t)" "hdr_data_version v = nat (update_count (Some t))"
  using message_bounds [OF assms(1)] message_fields [OF assms(1)] hdr_field_prefix [OF assms(2)] by simp_all

lemma take_view_splice_at: "take_view (12 + n) (splice_at v 12 w) = take_view 12 v @ take_view n w"
  by (simp add: take_view_append) (auto simp: splice_at_def intro!: take_view_cong)

lemma take_view_header:
  assumes "length a = 4" "length b = 4" "length c = 4"
  shows "take_view (12 + n) (store (store (store v 0 a) 4 b) 8 c) = a @ b @ c @ take_view n (advance v 12)"
proof -
  have "store (store (store v 0 a) 4 b) 8 c = store v 0 (a @ b @ c)" using assms by (simp add: store_chain)
  then show ?thesis using take_view_store_0 [of "a @ b @ c" n v] assms by simp
qed

lemma prep_message:
  assumes "sendable fo t"
  shows "\<exists>buf. json_prep_get_counter_value fo host (Some t) m v = Some (update_count (Some t), Some t, buf) \<and>
     take_view (length (message fo t)) buf = message fo t \<and> (\<forall>i \<ge> MAX_JSON_BUF_SIZE. buf i = v i)"
proof -
  let ?r = "render fo False 0 t"
  have z: "0 \<notin> set ?r" using assms by (simp add: sendable_def canonical_nonzero)
  obtain w where w: "cJSON_PrintPreallocated fo t (Some (advance v 12)) 2031 False [] = Some (True, Some w)"
    "take_view (length ?r + 1) w = ?r @ [0]" "\<forall>i \<ge> 2031. w i = advance v 12 i"
    using preallocated_text [of fo t False 2031 "advance v 12" "[]"] z assms by (auto simp: sendable_def)
  let ?b = "splice_at v 12 w"
  have "advance ?b 12 = w" by (rule ext) (simp add: splice_at_def)
  moreover have "strlen w = Some (length ?r)"
  proof (rule strlen_eq)
    have e: "w j = (?r @ [0]) ! j" if "j < length ?r + 1" for j using nth_take_view [OF that, of w] w(2) by simp
    show "w (length ?r) = 0" using e [of "length ?r"] by simp
    show "w j \<noteq> 0" if "j < length ?r" for j using e [of j] that z by (simp add: nth_append) (metis nth_mem)
  qed
  ultimately have p: "json_prep_get_counter_value fo host (Some t) m v =
      Some (update_count (Some t), Some t, set_hdr_field 8 (u32_of_int (update_count (Some t)))
        (set_hdr_field 4 (length ?r + 12) (set_hdr_field 0 1 ?b)))"
    using w(1) by (simp add: json_prep_get_counter_value_def get_mirror_def Let_def)
  have "take_view (length ?r) w = ?r" using arg_cong [OF w(2), of "take (length ?r)"] by (simp add: take_view_def take_map)
  then show ?thesis unfolding p set_hdr_field_def
    using take_view_header [of "le_bytes 4 1" "le_bytes 4 (length ?r + 12)" "le_bytes 4 (u32_of_int (update_count (Some t)))" "length ?r" ?b]
      \<open>advance ?b 12 = w\<close> w(3)
    by (auto simp: length_message message_def Let_def add.commute store_def splice_at_def advance_def simp del: le_bytes.simps)
qed

lemma parse_body_message:
  assumes "sendable fo t" "take_view (length (message fo t)) v = message fo t" "v k = 0" "k \<ge> length (message fo t)"
  shows "parse_body fo [] v = Some (Some t)"
proof -
  let ?r = "render fo False 0 t" and ?w = "advance v 12"
  let ?n = "LEAST n. ?w n = 0"
  have k: "?w (k - 12) = 0" using assms(3,4) by (simp add: length_message)
  have r: "?w j = ?r ! j" if "j < length ?r" for j
  proof -
    have "v (12 + j) = take_view (length (message fo t)) v ! (12 + j)" using that by (simp add: length_message)
    then have "v (12 + j) = message fo t ! (12 + j)" by (simp only: assms(2))
    also have "\<dots> = drop 12 (message fo t) ! j" using that by (simp add: length_message)
    finally show ?thesis using message_fields(3) [OF assms(1)] by simp
  qed
  have "0 \<notin> set ?r" using assms(1) by (simp add: sendable_def canonical_nonzero)
  then have "?w j \<noteq> 0" if "j < length ?r" for j using r [OF that] nth_mem [OF that] by auto
  then have n: "length ?r \<le> ?n" using LeastI [of "\<lambda>n. ?w n = 0", OF k] by (meson not_le)
  have "strlen ?w = Some ?n" using LeastI [of "\<lambda>n. ?w n = 0", OF k] not_less_Least by (intro strlen_eq) auto
  moreover have "take_view ?n ?w = ?r @ take_view (?n - length ?r) (advance ?w (length ?r))"
    using take_view_append [of "length ?r" "?n - length ?r" ?w] n r by (auto intro!: nth_equalityI)
  ultimately show ?thesis using parse_object_text [of fo t False] assms(1) by (simp add: parse_body_def sendable_def)
qed

section \<open>Messages in pieces\<close>

text \<open>
  A stream of the length its header names.
\<close>

definition framed :: "byte list \<Rightarrow> bool" where
  "framed B \<longleftrightarrow> HDR_SIZE \<le> length B \<and> length B \<le> MAX_JSON_BUF_SIZE \<and> le_value (take 4 (drop 4 B)) = length B"

lemma message_framed: "sendable fo t \<Longrightarrow> framed (message fo t)"
  using message_fields(1) [of fo t] message_bounds [of fo t] by (simp add: framed_def)

lemma hdr_size_prefix:
  assumes "8 \<le> n" "n \<le> length B"
  shows "hdr_size (store v 0 (take n B)) = le_value (take 4 (drop 4 B))"
proof -
  have "take_view n (store v 0 (take n B)) = take n B" using take_view_store_0 [of "take n B" 0 v] assms by simp
  then have "hdr_size (store v 0 (take n B)) = le_value (take 4 (drop 4 (take n B)))" using assms by (intro hdr_field_prefix) auto
  then show ?thesis using assms by (simp add: drop_take)
qed

definition receiving :: "byte list \<Rightarrow> view \<Rightarrow> nat \<Rightarrow> server_per_client \<Rightarrow> 'f device \<Rightarrow> bool" where
  "receiving B v n per dev \<longleftrightarrow> pc_recv_len per = int n \<and> json_buffer dev = store v 0 (take n B) \<and>
     (if n \<le> HDR_SIZE then recv_flag per = 0 \<and> recv_size per = int MAX_JSON_BUF_SIZE
      else recv_flag per = 1 \<and> recv_size per = int (length B))"

lemma server_store_piece:
  assumes B: "framed B" and r: "receiving B v n per dev" and c: "piece B n c" and l: "12 < length B"
  shows "\<exists>per' dev'. server_store_chunk c per dev = (per', dev') \<and> receiving B v (n + length c) per' dev' \<and>
     dev_mirror dev' = dev_mirror dev \<and> client_pcb per' = client_pcb per"
proof -
  have le: "n + length c \<le> length B" "length B \<le> 2048" using B c by (auto simp: framed_def piece_def)
  have n: "pc_recv_len per = int n" and buf: "json_buffer dev = store v 0 (take n B)" using r by (auto simp: receiving_def)
  have left: "u16_of_int (2048 - pc_recv_len per) = 2048 - n" using le n by (simp add: u16_of_int_def nat_diff_distrib)
  have d: "take (if length c > 2048 - n then 2048 - n else length c) c = c" using le by auto
  have st: "store (json_buffer dev) n c = store v 0 (take (n + length c) B)" using store_piece [OF c] buf by simp
  have u: "u32_of_int (int n + int (length c)) = n + length c" using le by (simp add: u32_of_int_def nat_add_distrib)
  have h: "hdr_size (store v 0 (take (n + length c) B)) = length B" if "12 < n + length c"
    using hdr_size_prefix [of "n + length c" B v] that le B by (simp add: framed_def)
  have w: "wrap_int (int (length B)) = int (length B)" using le by (intro wrap_int_small) auto
  show ?thesis
    using r n left d st u h w by (cases "12 < n + length c"; cases "12 < n") (auto simp: server_store_chunk_def Let_def receiving_def)
qed

primrec server_recvs ::
    "tcp_env \<Rightarrow> bool \<Rightarrow> 'f dbl_ops \<Rightarrow> byte list \<Rightarrow> heap_answers \<Rightarrow> pcb \<Rightarrow> byte list list \<Rightarrow>
     server_per_client \<Rightarrow> 'f device \<Rightarrow> calls \<Rightarrow> (server_per_client \<times> 'f device \<times> calls) option" where
  "server_recvs env completed fo host ha p [] per dev tr = Some (per, dev, tr)"
| "server_recvs env completed fo host ha p (c # cs) per dev tr = do {
     (r, per1, dev1, tr1) \<leftarrow> tcp_server_json_recv env completed fo host ha p (Some c) ERR_OK per dev tr;
     server_recvs env completed fo host ha p cs per1 dev1 tr1
   }"

text \<open>The message is answered when its last piece arrives, and nothing is answered before.\<close>

lemma server_recvs_message:
  assumes "framed B" "12 < length B" "receiving B v n per dev" "drop n B = concat cs" "cs \<noteq> []" "[] \<notin> set cs" "n \<le> length B"
  shows "\<exists>per1 dev1. receiving B v (length B) per1 dev1 \<and> dev_mirror dev1 = dev_mirror dev \<and> client_pcb per1 = client_pcb per \<and>
    server_recvs env completed fo host ha p cs per dev tr =
      map_option snd (server_answer env completed fo host ha per1 dev1 (tr @ map (\<lambda>c. Recved p (length c)) cs))"
  using assms(3-)
proof (induction cs arbitrary: n per dev tr)
  case (Cons c cs)
  have pc: "piece B n c" "drop (n + length c) B = concat cs" by (rule piece_split; use Cons.prems in auto)+
  obtain per' dev' where st: "server_store_chunk c per dev = (per', dev')" "receiving B v (n + length c) per' dev'"
    "dev_mirror dev' = dev_mirror dev" "client_pcb per' = client_pcb per"
    using server_store_piece [OF assms(1) Cons.prems(1) pc(1) assms(2)] by auto
  have le: "n + length c \<le> length B" "c \<noteq> []" using pc(1) by (auto simp: piece_def)
  show ?case
  proof (cases "cs = []")
    case True
    then have e: "n + length c = length B" using pc(2) le by simp
    then have "pc_recv_len per' \<ge> recv_size per'" using st(2) assms(2) by (simp add: receiving_def)
    then show ?thesis using st True e le(2) by (intro exI [of _ per'] exI [of _ dev'])
      (auto simp: tcp_server_json_recv_def map_option_case split: option.split)
  next
    case False
    have "concat cs \<noteq> []" using False Cons.prems(4) by (cases cs) auto
    then have lt: "n + length c < length B" using pc(2) le by (cases "n + length c = length B") auto
    have "\<not> pc_recv_len per' \<ge> recv_size per'" using st(2) lt assms(1) by (auto simp: receiving_def framed_def split: if_splits)
    then have "server_recvs env completed fo host ha p (c # cs) per dev tr =
        server_recvs env completed fo host ha p cs per' dev' (tr @ [Recved p (length c)])"
      using st(1) le(2) by (simp add: tcp_server_json_recv_def)
    then show ?thesis using Cons.IH [OF st(2) pc(2) False _ le(1), of "tr @ [Recved p (length c)]"] Cons.prems(4) st(3,4) by auto
  qed
qed simp

text \<open>The header field is four bytes, least significant first.\<close>

lemma hdr_field_bytes: "hdr_field off v = unat (v off) + 256 * (unat (v (off + 1)) + 256 * (unat (v (off + 2)) + 256 * unat (v (off + 3))))"
proof -
  have "take_view 4 (advance v off) = [v off, v (off + 1), v (off + 2), v (off + 3)]"
    by (auto simp: take_view_def upt_conv_Cons numeral_eq_Suc)
  then show ?thesis by (simp add: hdr_field_def)
qed

lemma set_hdr_same: "set_hdr_field off (hdr_field off v) v = v"
proof -
  have "le_bytes 4 (hdr_field off v) = take_view 4 (advance v off)"
    using le_bytes_le_value [of "take_view 4 (advance v off)"] by (simp add: hdr_field_def)
  then show ?thesis by (intro ext) (auto simp: set_hdr_field_def store_def)
qed

lemma hdr_field_set:
  assumes "x < 2 ^ 32"
  shows "hdr_field off (set_hdr_field off x v) = x"
proof -
  have "take_view 4 (advance (set_hdr_field off x v) off) = le_bytes 4 x"
    by (rule nth_equalityI) (simp_all add: set_hdr_field_def store_def del: le_bytes.simps)
  then show ?thesis using assms by (simp add: hdr_field_def le_value_le_bytes_id)
qed

text \<open>
  While a reply overwrites the header with the private size in it, the size never drops below the
  length of the reply.
\<close>

lemma byte_values_2048:
  assumes "unat (a :: byte) + 256 * (unat (b :: byte) + 256 * (unat (c :: byte) + 256 * unat (d :: byte))) = x" "x \<le> 2048"
  shows "unat c = 0" "unat d = 0" "unat a + 256 * unat b = x"
proof -
  have "256 * (256 * unat c) \<le> x" "256 * (256 * (256 * unat d)) \<le> x"
    unfolding assms(1) [symmetric] by simp_all
  then show "unat c = 0" "unat d = 0" using assms(2) by simp_all
  then show "unat a + 256 * unat b = x" using assms(1) by simp
qed

lemma hdr_size_overwritten:
  assumes v: "hdr_size v = 2048" and B: "framed B" and n: "n \<le> length B"
  shows "length B \<le> hdr_size (store v 0 (take n B)) \<and> hdr_size (store v 0 (take n B)) < 2 ^ 12"
    "8 \<le> n \<Longrightarrow> hdr_size (store v 0 (take n B)) = length B"
proof -
  let ?w = "store v 0 (take n B)"
  have w: "?w i = (if i < n then B ! i else v i)" for i using n by (auto simp: store_def)
  have "take_view (length B) (store v 0 B) = B" using take_view_store_0 [of B 0 v] by simp
  then have Bs: "hdr_size (store v 0 B) = length B" using B hdr_size_prefix [of "length B" B v] by (simp add: framed_def)
  have l: "12 \<le> length B" "length B \<le> 2048" using B by (auto simp: framed_def)
  have b: "unat (B ! 6) = 0" "unat (B ! 7) = 0" "unat (B ! 4) + 256 * unat (B ! 5) = length B"
    using byte_values_2048 [of "B ! 4" "B ! 5" "B ! 6" "B ! 7" "length B"] Bs l by (simp_all add: hdr_field_bytes store_def)
  have o: "unat (v 6) = 0" "unat (v 7) = 0" "unat (v 4) + 256 * unat (v 5) = 2048"
    using byte_values_2048 [of "v 4" "v 5" "v 6" "v 7" 2048] v by (simp_all add: hdr_field_bytes)
  have lt: "unat (B ! 4) < 256" "unat (v 4) < 256" using unsigned_less [of "B ! 4"] unsigned_less [of "v 4"] by simp_all
  then have "unat (v 5) \<le> 8" "7 < unat (v 5)" using o(3) by linarith+
  then have "unat (v 5) = 8" by simp
  then have o5: "unat (v 5) = 8" "unat (v 4) = 0" using o(3) by simp_all
  consider "n \<le> 4" | "n = 5" | "6 \<le> n" by linarith
  then have e: "hdr_size ?w = (if n \<le> 4 then 2048 else if n = 5 then unat (B ! 4) + 2048 else length B)"
  proof cases
    case 1
    then show ?thesis unfolding hdr_field_bytes w using o by simp
  next
    case 2
    then show ?thesis unfolding hdr_field_bytes w using o o5 by simp
  next
    case 3
    then show ?thesis unfolding hdr_field_bytes w using b o by simp
  qed
  show "length B \<le> hdr_size ?w \<and> hdr_size ?w < 2 ^ 12" "8 \<le> n \<Longrightarrow> hdr_size ?w = length B"
    unfolding e using l lt by auto
qed

section \<open>The client\<close>

definition awaiting :: "byte list \<Rightarrow> view \<Rightarrow> nat \<Rightarrow> TCP_CLIENT_T \<Rightarrow> view \<Rightarrow> bool" where
  "awaiting B v n st buf \<longleftrightarrow> hdr_size v = MAX_JSON_BUF_SIZE \<and> cl_recv_len st = int n \<and> buf = store v 0 (take n B)"

lemma client_store_piece:
  assumes B: "framed B" and r: "awaiting B v n st buf" and c: "piece B n c"
  shows "\<exists>st' buf'. client_store_chunk c st buf = (st', buf') \<and> awaiting B v (n + length c) st' buf' \<and> tcp_pcb st' = tcp_pcb st"
proof -
  have le: "n + length c \<le> length B" using c by (auto simp: piece_def)
  have a: "hdr_size v = 2048" "cl_recv_len st = int n" "buf = store v 0 (take n B)" using r by (auto simp: awaiting_def)
  have h: "length B \<le> hdr_size buf" "hdr_size buf < 2 ^ 12" using hdr_size_overwritten(1) [OF a(1) B, of n] le a(3) by auto
  have "u16_of_int (int (hdr_size buf) - int n) = hdr_size buf - n" using h le by (simp add: u16_of_int_def nat_diff_distrib)
  then have d: "take (if length c > u16_of_int (int (hdr_size buf) - int n) then u16_of_int (int (hdr_size buf) - int n) else length c) c = c"
    using h(1) le by auto
  have "store buf n c = store v 0 (take (n + length c) B)" using store_piece [OF c] a(3) by simp
  then show ?thesis using a d by (auto simp: client_store_chunk_def Let_def awaiting_def set_hdr_same)
qed

text \<open>The acknowledgements of the request, and the pieces of the reply.\<close>

primrec client_sents :: "nat list \<Rightarrow> TCP_CLIENT_T \<Rightarrow> view \<Rightarrow> TCP_CLIENT_T \<times> view" where
  "client_sents [] st buf = (st, buf)"
| "client_sents (n # ns) st buf = (let (st1, buf1) = tcp_client_json_sent n st buf in client_sents ns st1 buf1)"

primrec client_recvs ::
    "tcp_env \<Rightarrow> 'f dbl_ops \<Rightarrow> byte list \<Rightarrow> heap_answers \<Rightarrow> pcb \<Rightarrow> byte list list \<Rightarrow> TCP_CLIENT_T option \<Rightarrow> 'f device \<Rightarrow> calls \<Rightarrow>
     (TCP_CLIENT_T option \<times> 'f device \<times> calls) option" where
  "client_recvs env fo host ha p [] st dev tr = Some (st, dev, tr)"
| "client_recvs env fo host ha p (c # cs) st dev tr = (case st of
     None \<Rightarrow> None
   | Some st1 \<Rightarrow> do {
       (r, st2, dev2, tr2) \<leftarrow> tcp_client_json_recv env fo host ha p (Some c) ERR_OK st1 dev tr;
       client_recvs env fo host ha p cs st2 dev2 tr2
     })"

lemma client_sents_done:
  assumes "ns \<noteq> []" "0 \<notin> set ns" "cl_sent_len st = int k" "k + sum_list ns = hdr_size buf" "hdr_size buf \<le> 2048"
  shows "\<exists>st'. client_sents ns st buf = (st', set_hdr_field 4 MAX_JSON_BUF_SIZE buf) \<and> cl_recv_len st' = 0 \<and> tcp_pcb st' = tcp_pcb st"
  using assms
proof (induction ns arbitrary: st k)
  case (Cons n ns)
  have w: "wrap_int (int k + int n) = int (k + n)" "u32_of_int (int (k + n)) = k + n"
    using Cons.prems(4,5) by (auto simp: wrap_int_def u32_of_int_def)
  show ?case
  proof (cases "ns = []")
    case True
    then show ?thesis using Cons.prems w by (simp add: tcp_client_json_sent_def)
  next
    case False
    then have "0 < sum_list ns" using Cons.prems(2) by (cases ns) auto
    then have "\<not> k + n \<ge> hdr_size buf" using Cons.prems(4) by simp
    then have "tcp_client_json_sent n st buf = (st\<lparr> cl_sent_len := int (k + n) \<rparr>, buf)"
      using Cons.prems(3) w by (simp add: tcp_client_json_sent_def Let_def)
    then show ?thesis using Cons.IH [OF False, of "st\<lparr> cl_sent_len := int (k + n) \<rparr>" "k + n"] Cons.prems by (simp add: add.assoc)
  qed
qed simp

lemma client_recvs_reply:
  assumes "framed B" "awaiting B v n st (json_buffer dev)" "drop n B = concat cs" "cs \<noteq> []" "[] \<notin> set cs" "n \<le> length B"
    and "tcp_client_json_handle_reply fo host (dev_mirror dev) (for_get ha) (for_parse ha) (int (length B)) (store v 0 B) = Some mir"
  shows "\<exists>tr'. client_recvs env fo host ha p cs (Some st) dev tr = Some (None, dev\<lparr> dev_mirror := mir, json_buffer := store v 0 B \<rparr>, tr')"
  using assms(2-)
proof (induction cs arbitrary: n st dev tr)
  case (Cons c cs)
  have pc: "piece B n c" "drop (n + length c) B = concat cs" by (rule piece_split; use Cons.prems in auto)+
  obtain st' buf' where st: "client_store_chunk c st (json_buffer dev) = (st', buf')" "awaiting B v (n + length c) st' buf'"
    using client_store_piece [OF assms(1) Cons.prems(1) pc(1)] by auto
  have le: "n + length c \<le> length B" "c \<noteq> []" "length B \<le> 2048" "12 \<le> length B" using pc(1) assms(1) by (auto simp: piece_def framed_def)
  have a: "hdr_size v = 2048" "cl_recv_len st' = int (n + length c)" "buf' = store v 0 (take (n + length c) B)"
    using st(2) by (auto simp: awaiting_def)
  have u: "u32_of_int (cl_recv_len st') = n + length c" using a(2) le by (simp add: u32_of_int_def nat_add_distrib)
  show ?case
  proof (cases "cs = []")
    case True
    then have e: "n + length c = length B" using pc(2) le by simp
    then have h: "hdr_size buf' = length B" "buf' = store v 0 B" using hdr_size_overwritten(2) [OF a(1) assms(1), of "length B"] le a(3) by auto
    have w: "wrap_int (int (length B)) = int (length B)" using le by (intro wrap_int_small) auto
    show ?thesis using st(1) True e le(2) h w u Cons.prems(6)
      by (auto simp: tcp_client_json_recv_def tcp_client_result_def split: prod.split)
  next
    case False
    have "concat cs \<noteq> []" using False Cons.prems(4) by (cases cs) auto
    then have lt: "n + length c < length B" using pc(2) le by (cases "n + length c = length B") auto
    then have "\<not> n + length c \<ge> hdr_size buf'" using hdr_size_overwritten(1) [OF a(1) assms(1), of "n + length c"] a(3) by auto
    then have "client_recvs env fo host ha p (c # cs) (Some st) dev tr =
        client_recvs env fo host ha p cs (Some st') (dev\<lparr> json_buffer := buf' \<rparr>) (tr @ [Recved p (length c)])"
      using st(1) le(2) u by (simp add: tcp_client_json_recv_def)
    moreover have "awaiting B v (n + length c) st' (json_buffer (dev\<lparr> json_buffer := buf' \<rparr>))" using st(2) by simp
    ultimately show ?thesis
      using Cons.IH [OF _ pc(2) False _ le(1), of st' "dev\<lparr> json_buffer := buf' \<rparr>" "tr @ [Recved p (length c)]"] Cons.prems(4,6) by auto
  qed
qed simp

section \<open>The exchange\<close>

text \<open>A zero byte behind the buffer ends every string in it; every allocation succeeds.\<close>

definition zero_behind :: "view \<Rightarrow> bool" where
  "zero_behind v \<longleftrightarrow> (\<exists>k \<ge> MAX_JSON_BUF_SIZE. v k = 0)"

lemma zero_behind_set_hdr:
  assumes "zero_behind v" "off \<le> 8"
  shows "zero_behind (set_hdr_field off x v)"
proof -
  obtain k where "2048 \<le> k" "v k = 0" using assms(1) by (auto simp: zero_behind_def)
  then show ?thesis using assms(2) unfolding zero_behind_def
    by (intro exI [of _ k]) (auto simp: set_hdr_field_def store_def)
qed

definition plenty :: heap_answers where
  "plenty = \<lparr> for_get = [], for_parse = [], for_prep = [] \<rparr>"

definition fresher :: "'f cJSON \<Rightarrow> 'f cJSON \<Rightarrow> 'f cJSON" where
  "fresher tc ts = (if update_count (Some ts) \<le> update_count (Some tc) then tc else ts)"

text \<open>What the server replies with: the header alone when it took over the tree of the client.\<close>

lemma server_answer_fresher:
  assumes s: "sendable fo tc" "sendable fo ts" and ok: "\<forall>tr d. answer env tr (Write p d) = ERR_OK"
    and v: "zero_behind v" and per: "client_pcb per = Some p"
  shows "\<exists>per' buf R. server_answer env completed fo host plenty per \<lparr> dev_mirror = Some ts, json_buffer = store v 0 (message fo tc) \<rparr> tr =
      Some (ERR_OK, per', \<lparr> dev_mirror = Some (fresher tc ts), json_buffer = buf \<rparr>, tr @ [Write p R]) \<and> framed R \<and>
      (if update_count (Some ts) \<le> update_count (Some tc) then length R = HDR_SIZE else R = message fo ts)"
proof -
  let ?b = "store v 0 (message fo tc)"
  have tv: "take_view (length (message fo tc)) ?b = message fo tc" using take_view_store_0 [of "message fo tc" 0 v] by simp
  have c: "0 < update_count (Some tc)" "update_count (Some tc) \<le> INT_MAX" "0 < update_count (Some ts)" "update_count (Some ts) \<le> INT_MAX"
    using s by (auto simp: sendable_def)
  have u: "u32_of_int (update_count (Some ts)) = nat (update_count (Some ts))" using c by (simp add: u32_of_int_def)
  obtain k where k: "?b k = 0" "k \<ge> length (message fo tc)" using v message_bounds [OF s(1)] by (auto simp: store_def zero_behind_def)
  show ?thesis
  proof (cases "update_count (Some ts) \<le> update_count (Some tc)")
    case True
    let ?R = "take_view 12 (set_hdr_field 4 12 ?b)"
    have "hdr_size (set_hdr_field 4 12 ?b) = 12" by (rule hdr_field_set) simp
    then have "framed ?R" using hdr_field_prefix [of 12 "set_hdr_field 4 12 ?b" ?R 4] by (simp add: framed_def)
    moreover have "server_answer env completed fo host plenty per \<lparr> dev_mirror = Some ts, json_buffer = ?b \<rparr> tr =
        Some (ERR_OK, per\<lparr> send_size := 12, pc_sent_len := 0 \<rparr>, \<lparr> dev_mirror = Some tc, json_buffer = set_hdr_field 4 12 ?b \<rparr>, tr @ [Write p ?R])"
      using True sendable_message_hdr(2) [OF s(1) tv] parse_body_message [OF s(1) tv k] u c ok per
      by (simp add: server_answer_def tcp_server_json_check_freshness_def get_mirror_update_count_def get_mirror_def plenty_def
        tcp_server_json_send_def u16_of_int_def Let_def nat_le_eq_zle)
    ultimately show ?thesis using True by (auto simp: fresher_def)
  next
    case False
    obtain buf where p: "json_prep_get_counter_value fo host (Some ts) [] (set_hdr_field 4 22 ?b) = Some (update_count (Some ts), Some ts, buf)"
      "take_view (length (message fo ts)) buf = message fo ts" using prep_message [OF s(2)] by blast
    have h: "hdr_size buf = length (message fo ts)" "length (message fo ts) \<le> 2041"
      using sendable_message_hdr(1) [OF s(2) p(2)] message_bounds [OF s(2)] by auto
    have w: "wrap_int (int (length (message fo ts))) = int (length (message fo ts))" "u16_of_int (int (length (message fo ts))) = length (message fo ts)"
      using h(2) by (auto simp: wrap_int_def u16_of_int_def)
    have "server_answer env completed fo host plenty per \<lparr> dev_mirror = Some ts, json_buffer = ?b \<rparr> tr =
        Some (ERR_OK, per\<lparr> send_size := int (length (message fo ts)), pc_sent_len := 0 \<rparr>, \<lparr> dev_mirror = Some ts, json_buffer = buf \<rparr>,
          tr @ [Write p (message fo ts)])"
      using False sendable_message_hdr(2) [OF s(1) tv] p h w u c ok per
      by (simp add: server_answer_def tcp_server_json_check_freshness_def get_mirror_update_count_def get_mirror_def plenty_def
        tcp_server_json_send_def Let_def nat_le_eq_zle)
    then show ?thesis using False message_framed [OF s(2)] by (auto simp: fresher_def)
  qed
qed

lemma client_takes_reply:
  assumes s: "sendable fo tc" "sendable fo ts" and R: "framed R"
      "if update_count (Some ts) \<le> update_count (Some tc) then length R = HDR_SIZE else R = message fo ts"
    and v: "zero_behind v"
  shows "tcp_client_json_handle_reply fo host (Some tc) [] [] (int (length R)) (store v 0 R) = Some (Some (fresher tc ts))"
proof -
  have l: "u32_of_int (int (length R)) = length R" using R(1) by (simp add: framed_def u32_of_int_def)
  show ?thesis
  proof (cases "update_count (Some ts) \<le> update_count (Some tc)")
    case True
    then show ?thesis using R(2) l by (simp add: tcp_client_json_handle_reply_def fresher_def)
  next
    case False
    then have r: "R = message fo ts" using R(2) by simp
    have tv: "take_view (length (message fo ts)) (store v 0 R) = message fo ts" using take_view_store_0 [of R 0 v] r by simp
    have b: "12 < length R" "length R \<le> 2041" using message_bounds [OF s(2)] r by auto
    obtain k where k: "store v 0 R k = 0" "k \<ge> length (message fo ts)" using v b r by (auto simp: store_def zero_behind_def)
    have c: "0 < update_count (Some tc)" "update_count (Some tc) \<le> INT_MAX" using s by (auto simp: sendable_def)
    then have "u32_of_int (update_count (Some tc)) = nat (update_count (Some tc))" by (simp add: u32_of_int_def)
    then show ?thesis using False l b sendable_message_hdr(2) [OF s(2) tv] parse_body_message [OF s(2) tv k] c
      by (simp add: tcp_client_json_handle_reply_def get_mirror_update_count_def get_mirror_def fresher_def nat_le_eq_zle)
  qed
qed

lemma accepted_receiving: "receiving B v 0 (per\<lparr> recv_size := int MAX_JSON_BUF_SIZE, pc_recv_len := 0, send_size := 0, recv_flag := 0 \<rparr>)
    \<lparr> dev_mirror = mir, json_buffer = v \<rparr>"
  by (simp add: receiving_def)

lemma server_replies:
  assumes s: "sendable fo tc" "sendable fo ts" and ok: "\<forall>p tr d. answer env tr (Write p d) = ERR_OK"
    and zs: "zero_behind bs" and per: "client_pcb per = Some p" and cs: "concat cs = message fo tc" "[] \<notin> set cs"
    and acc: "per0 = per\<lparr> recv_size := int MAX_JSON_BUF_SIZE, pc_recv_len := 0, send_size := 0, recv_flag := 0 \<rparr>"
  shows "\<exists>per2 b2 R. server_recvs env completed fo hs plenty p cs per0 \<lparr> dev_mirror = Some ts, json_buffer = bs \<rparr> tr =
       Some (per2, \<lparr> dev_mirror = Some (fresher tc ts), json_buffer = b2 \<rparr>, tr @ map (\<lambda>c. Recved p (length c)) cs @ [Write p R]) \<and> framed R \<and>
     (if update_count (Some ts) \<le> update_count (Some tc) then length R = HDR_SIZE else R = message fo ts)"
proof -
  let ?B = "message fo tc" and ?ds = "\<lparr> dev_mirror = Some ts, json_buffer = bs \<rparr>" and ?tr = "tr @ map (\<lambda>c. Recved p (length c)) cs"
  have B: "framed ?B" "12 < length ?B" using message_framed [OF s(1)] message_bounds [OF s(1)] by auto
  have ne: "cs \<noteq> []" using cs(1) B by auto
  obtain per1 dev1 where r: "receiving ?B bs (length ?B) per1 dev1" "dev_mirror dev1 = Some ts" "client_pcb per1 = Some p"
    "server_recvs env completed fo hs plenty p cs per0 ?ds tr = map_option snd (server_answer env completed fo hs plenty per1 dev1 ?tr)"
    using server_recvs_message [OF B accepted_receiving [of ?B bs per "Some ts"], where cs = cs and completed = completed and env = env
      and fo = fo and host = hs and ha = plenty and p = p and tr = tr] cs ne per acc by auto
  have d1: "dev1 = \<lparr> dev_mirror = Some ts, json_buffer = store bs 0 ?B \<rparr>" using r(1,2) by (cases dev1) (simp add: receiving_def)
  have "\<forall>tr d. answer env tr (Write p d) = ERR_OK" using ok by blast
  then obtain per2 b2 R where a: "server_answer env completed fo hs plenty per1 dev1 ?tr =
      Some (ERR_OK, per2, \<lparr> dev_mirror = Some (fresher tc ts), json_buffer = b2 \<rparr>, ?tr @ [Write p R])" "framed R"
    "if update_count (Some ts) \<le> update_count (Some tc) then length R = HDR_SIZE else R = message fo ts"
    using server_answer_fresher [OF s _ zs r(3), where completed = completed and host = hs and tr = ?tr and env = env] unfolding d1 by blast
  show ?thesis by (intro exI [of _ per2] exI [of _ b2] exI [of _ R] conjI) (use r(4) a in simp_all)
qed

lemma client_finishes:
  assumes s: "sendable fo tc" "sendable fo ts" and R: "framed R"
      "if update_count (Some ts) \<le> update_count (Some tc) then length R = HDR_SIZE else R = message fo ts"
    and zc: "zero_behind buf" and h: "hdr_size buf = length (message fo tc)" and st: "cl_sent_len st = 0"
    and a: "sum_list ns = length (message fo tc)" "0 \<notin> set ns" "concat rs = R" "[] \<notin> set rs"
  shows "let (st1, buf1) = client_sents ns st buf in
      \<exists>buf2 tr2. client_recvs env fo hc plenty q rs (Some st1) \<lparr> dev_mirror = Some tc, json_buffer = buf1 \<rparr> tr =
        Some (None, \<lparr> dev_mirror = Some (fresher tc ts), json_buffer = buf2 \<rparr>, tr2)"
proof -
  let ?v = "set_hdr_field 4 MAX_JSON_BUF_SIZE buf"
  have B: "12 < length (message fo tc)" "length (message fo tc) \<le> 2041" using message_bounds [OF s(1)] by auto
  have "ns \<noteq> []" using a(1) B by auto
  then obtain st1 where st1: "client_sents ns st buf = (st1, ?v)" "cl_recv_len st1 = 0"
    using client_sents_done [of ns st 0 buf] a(1,2) h B st by auto
  have aw: "awaiting R ?v 0 st1 ?v" using st1(2) by (simp add: awaiting_def hdr_field_set)
  have rs: "rs \<noteq> []" using a(3) R(1) by (auto simp: framed_def)
  have k: "zero_behind ?v" by (rule zero_behind_set_hdr [OF zc]) simp
  have "tcp_client_json_handle_reply fo hc (Some tc) [] [] (int (length R)) (store ?v 0 R) = Some (Some (fresher tc ts))"
    by (rule client_takes_reply [OF s R k])
  then obtain tr2 where "client_recvs env fo hc plenty q rs (Some st1) \<lparr> dev_mirror = Some tc, json_buffer = ?v \<rparr> tr =
      Some (None, \<lparr> dev_mirror = Some (fresher tc ts), json_buffer = store ?v 0 R \<rparr>, tr2)"
    using client_recvs_reply [OF R(1), where dev = "\<lparr> dev_mirror = Some tc, json_buffer = ?v \<rparr>" and n = 0 and cs = rs and st = st1
      and v = ?v and ha = plenty and fo = fo and host = hc and env = env and p = q and tr = tr and mir = "Some (fresher tc ts)"] aw a(3,4) rs
    unfolding plenty_def by auto
  then show ?thesis unfolding st1(1) by auto
qed

text \<open>
  C7. One exchange synchronises two devices. The client prepares its tree in the buffer and sends
  it; the server, which has just accepted the connection, receives it in any pieces and replies; the
  client gets its acknowledgements and the reply, again in any pieces. Afterwards the trees of both
  devices are equal to the one whose update counter was higher, the client's if the counters were
  equal, and the client has closed the connection and released its state. This holds although the
  text is sent without its terminator and the reply overwrites the header in which the client
  counts, provided some zero byte lies behind either buffer.
\<close>

theorem exchange_synchronises:
  assumes s: "sendable fo tc" "sendable fo ts" and ok: "\<forall>p tr d. answer env tr (Write p d) = ERR_OK"
    and zc: "zero_behind bc" and zs: "zero_behind bs"
    and per: "client_pcb per = Some p" and cs: "concat cs = message fo tc" "[] \<notin> set cs" and st: "cl_sent_len st = 0"
  shows "\<exists>buf per1 per2 dev2 R.
     json_prep_get_counter_value fo hc (Some tc) [] bc = Some (update_count (Some tc), Some tc, buf) \<and>
     tcp_client_json_sending env q st buf tr = (ERR_OK, Some st, tr @ [Write q (message fo tc)]) \<and>
     tcp_server_json_accept per \<lparr> dev_mirror = Some ts, json_buffer = bs \<rparr> tr = Some (ERR_OK, per1, \<lparr> dev_mirror = Some ts, json_buffer = bs \<rparr>, tr) \<and>
     server_recvs env completed fo hs plenty p cs per1 \<lparr> dev_mirror = Some ts, json_buffer = bs \<rparr> tr =
       Some (per2, dev2, tr @ map (\<lambda>c. Recved p (length c)) cs @ [Write p R]) \<and>
     dev_mirror dev2 = Some (fresher tc ts) \<and>
     (\<forall>ns rs. sum_list ns = length (message fo tc) \<and> 0 \<notin> set ns \<and> concat rs = R \<and> [] \<notin> set rs \<longrightarrow>
        (let (st1, buf1) = client_sents ns st buf in
         \<exists>buf2 tr2. client_recvs env fo hc plenty q rs (Some st1) \<lparr> dev_mirror = Some tc, json_buffer = buf1 \<rparr> tr =
           Some (None, \<lparr> dev_mirror = Some (fresher tc ts), json_buffer = buf2 \<rparr>, tr2)))"
proof -
  let ?B = "message fo tc"
  have B: "12 < length ?B" "length ?B \<le> 2041" using message_bounds [OF s(1)] by auto
  obtain buf where buf: "json_prep_get_counter_value fo hc (Some tc) [] bc = Some (update_count (Some tc), Some tc, buf)"
    "take_view (length ?B) buf = ?B" "\<forall>i \<ge> MAX_JSON_BUF_SIZE. buf i = bc i" using prep_message [OF s(1)] by blast
  have h: "hdr_size buf = length ?B" by (rule sendable_message_hdr [OF s(1) buf(2)])
  have snd: "tcp_client_json_sending env q st buf tr = (ERR_OK, Some st, tr @ [Write q ?B])"
    using ok h buf(2) B st by (simp add: tcp_client_json_sending_def u32_of_int_def)
  let ?per = "per\<lparr> recv_size := int MAX_JSON_BUF_SIZE, pc_recv_len := 0, send_size := 0, recv_flag := 0 \<rparr>"
  obtain per2 b2 R where R: "server_recvs env completed fo hs plenty p cs ?per \<lparr> dev_mirror = Some ts, json_buffer = bs \<rparr> tr =
      Some (per2, \<lparr> dev_mirror = Some (fresher tc ts), json_buffer = b2 \<rparr>, tr @ map (\<lambda>c. Recved p (length c)) cs @ [Write p R])" "framed R"
    "if update_count (Some ts) \<le> update_count (Some tc) then length R = HDR_SIZE else R = message fo ts"
    using server_replies [OF s ok zs per cs refl] by blast
  have k: "zero_behind buf" using zc buf(3) by (auto simp: zero_behind_def)
  note fin = client_finishes [OF s R(2,3) k h st]
  show ?thesis
    by (intro exI [of _ buf] exI [of _ ?per] exI [of _ per2] exI [of _ "\<lparr> dev_mirror = Some (fresher tc ts), json_buffer = b2 \<rparr>"] exI [of _ R] conjI)
      (use buf(1) snd R(1) fin in \<open>auto simp: tcp_server_json_accept_def\<close>)
qed

text \<open>Two devices of which only the counter differs, and a network that takes everything.\<close>

definition counted :: "int \<Rightarrow> int cJSON" where
  "counted n = CJSON cJSON_Object None 0 0 None [CJSON cJSON_Number None n n (Some (bytes_of ''update_count'')) []]"

definition quiet_net :: tcp_env where
  "quiet_net = \<lparr> answer = (\<lambda>_ _. 0), fresh = (\<lambda>_ _. None) \<rparr>"

lemma number_1_2: "n = 1 \<or> n = 2 \<Longrightarrow> number_text int_ops (CJSON cJSON_Number None n n s []) = [if n = 1 then 0x31 else 0x32]"
  by (auto simp: number_text_def int_ops_def dec_int_def dec_nat.simps)

lemma counted_length: "n = 1 \<or> n = 2 \<Longrightarrow> length (render int_ops False 0 (counted n)) = 18"
  by (simp add: counted_def render.simps number_1_2 if_fmt_def tabs_def quoted_def bytes_of_def escaped_def word_less_nat_alt)

lemma update_count_counted: "update_count (Some (counted n)) = n"
  by (simp add: update_count_def counted_def cJSON_GetObjectItem_def get_object_item_def bytes_of_def cJSON_IsNumber_def kind_def
    case_insensitive_strcmp_def)

lemma sendable_counted:
  assumes "n = 1 \<or> n = 2"
  shows "sendable int_ops (counted n)"
proof -
  have "number_reads_back int_ops (CJSON cJSON_Number None n n s [])" for s
    using assms unfolding number_reads_back_def number_1_2 [OF assms]
    by (auto simp: int_ops_def strtol_int_def decimal_def digits_def is_number_char_def saturate_def word_le_nat_alt)
  then have "canonical int_ops (counted n)" by (simp add: counted_def canonical.simps bytes_of_def int_ops_def)
  moreover have "printable int_ops (counted n)" using assms by (simp add: counted_def printable.simps number_1_2)
  ultimately show ?thesis using assms counted_length [OF assms] update_count_counted [of n]
    by (auto simp add: sendable_def counted_def nesting.simps)
qed

theorem exchange_synchronises_witness:
  "\<exists>per2 dev2 calls2. server_recvs quiet_net True int_ops [] plenty 4 [message int_ops (counted 1)]
      (zero_slot\<lparr> client_pcb := Some 4, recv_size := int MAX_JSON_BUF_SIZE \<rparr>)
      \<lparr> dev_mirror = Some (counted 2), json_buffer = (\<lambda>_. 0) \<rparr> [] = Some (per2, dev2, calls2) \<and> dev_mirror dev2 = Some (counted 2)"
proof -
  have z: "zero_behind (\<lambda>_. 0)" by (auto simp: zero_behind_def)
  have ok: "\<forall>p tr d. answer quiet_net tr (Write p d) = ERR_OK" by (simp add: quiet_net_def)
  have m: "message int_ops (counted 1) \<noteq> []" using counted_length [of 1] length_message [of int_ops "counted 1"] by auto
  obtain cl :: TCP_CLIENT_T where cl: "cl_sent_len cl = 0" by (rule that [of "the (tcp_client_init True)"]) (simp add: tcp_client_init_def)
  have a: "tcp_server_json_accept (zero_slot\<lparr> client_pcb := Some 4 \<rparr>) dev tr =
      Some (ERR_OK, zero_slot\<lparr> client_pcb := Some 4, recv_size := int MAX_JSON_BUF_SIZE \<rparr>, dev, tr)" for dev :: "int device" and tr
    by (simp add: tcp_server_json_accept_def zero_slot_def)
  have f: "fresher (counted 1) (counted 2) = counted 2" by (simp add: fresher_def update_count_counted)
  have "client_pcb (zero_slot\<lparr> client_pcb := Some 4 \<rparr>) = Some 4" by simp
  from exchange_synchronises [OF sendable_counted [of 1] sendable_counted [of 2] ok z z this, of "[message int_ops (counted 1)]" cl
      "[]" 5 "[]" True "[]", unfolded a f]
  show ?thesis using m cl by auto
qed

end
