(* ===== verification/Tcp_Slots.thy ===== *)
theory Tcp_Slots
  imports Tcp_Link
begin

text \<open>
  The life of the slots of a TCP server. lwIP calls \<^const>\<open>tcp_server_accept\<close> with new connections and
  the registered functions with the slots that hold one, in any order. Open are the connections that
  lwIP has: handed over, not closed by the program, and not freed by lwIP itself, which the error
  callback reports. Whatever protocol runs over the server, every open connection is in exactly one slot, and
  the slots hold nothing else than open connections and those lost to an aborted connection, as long as each
  function of the protocol either leaves its connection alone or closes it through
  \<^const>\<open>tcp_server_result\<close>, and closes it when the other side has. That is the contract of a protocol; the two
  protocols of the program keep it.
\<close>

section \<open>Open connections\<close>

fun live_step :: "pcb set \<Rightarrow> lwip_call \<Rightarrow> pcb set" where
  "live_step L (Register p) = insert p L"
| "live_step L (Close p) = L - {p}"
| "live_step L (Freed p) = L - {p}"
| "live_step L _ = L"

definition live :: "calls \<Rightarrow> pcb set" where
  "live tr = foldl live_step {} tr"

lemma live_Nil [simp]: "live [] = {}"
  by (simp add: live_def)

lemma live_snoc: "live (tr @ [c]) = live_step (live tr) c"
  by (simp add: live_def)

lemma live_two: "live (tr @ [c, d]) = live_step (live_step (live tr) c) d"
  by (simp add: live_def)

lemma live_three: "live (tr @ [c, d, e]) = live_step (live_step (live_step (live tr) c) d) e"
  by (simp add: live_def)

lemmas live_app = live_snoc live_two live_three

section \<open>The contract of a protocol function\<close>

text \<open>The connection stays in its slot, or it is closed and the slot is free.\<close>

definition slot_move :: "pcb \<Rightarrow> server_per_client \<Rightarrow> calls \<Rightarrow> calls \<Rightarrow> bool" where
  "slot_move p per' tr tr' \<longleftrightarrow>
     client_pcb per' = Some p \<and> live tr' = live tr \<or> client_pcb per' = None \<and> live tr' = live tr - {p}"

locale connection_function =
  fixes f :: "'s on_slot"
  assumes keeps_or_closes: "client_pcb per = Some p \<Longrightarrow> f per s tr = Some (r, per', s', tr') \<Longrightarrow> slot_move p per' tr tr'"
begin

lemma poll_keeps_or_closes:
  "client_pcb per = Some p \<Longrightarrow> tcp_server_poll f per s tr = Some (r, per', s', tr') \<Longrightarrow> slot_move p per' tr tr'"
  using keeps_or_closes [of per p s tr]
  by (cases "f per s tr") (auto simp: tcp_server_poll_def slot_move_def split: if_splits)

end

text \<open>The function pointers of \<^verbatim>\<open>TCP_SERVER_T\<close>; \<open>'h\<close> is what the allocator answers during a call.\<close>

record ('s, 'h) slot_protocol =
  user_accept :: "'s on_slot"
  user_sent :: "nat \<Rightarrow> 's on_slot"
  user_recv :: "'h \<Rightarrow> pcb \<Rightarrow> byte list option \<Rightarrow> int \<Rightarrow> 's on_slot"
  user_send :: "'s on_slot"

lemma tcp_close_client_move:
  assumes "client_pcb per = Some p" "tcp_close_client env per tr = (r, per', tr')"
  shows "slot_move p per' tr tr'"
  using assms by (auto simp: tcp_close_client_def slot_move_def Let_def live_app split: if_splits)

lemma tcp_server_result_move:
  assumes "client_pcb per = Some p" "tcp_server_result env completed status per tr = (r, per', tr')"
  shows "slot_move p per' tr tr'"
  using tcp_close_client_move [OF assms(1) assms(2) [unfolded tcp_server_result_def]]
  by (auto simp: slot_move_def live_app split: if_splits)

section \<open>The steps of a server\<close>

text \<open>
  What lwIP does: it accepts a connection; reports for the connection in a slot that bytes were acknowledged, that a
  chunk arrived or the other side closed (no chunk), that time passed, or that the connection failed and is gone.
\<close>

datatype lwip_event = Accepted pcb | Sent nat nat | Received nat "byte list option" int | Polled nat | Failed nat int

text \<open>
  The server, the state of its protocol, the calls, and the slots that hold a connection lwIP has already
  freed. lwIP hands out a connection that is not open yet, at an address that may have been used before, and
  calls the functions registered for an open connection with the slot that was registered with it; so a
  lost slot gets no callback any more.
\<close>

type_synonym 's serving = "TCP_SERVER_T \<times> 's \<times> calls \<times> nat set"

inductive server_step :: "tcp_env \<Rightarrow> ('s, 'h) slot_protocol \<Rightarrow> lwip_event \<Rightarrow> 's serving \<Rightarrow> 's serving \<Rightarrow> bool" for env P where
  accepted: "p \<notin> live tr \<Longrightarrow> tcp_server_accept env (user_accept P) srv (Some p) ERR_OK s tr = Some (r, srv', s', tr') \<Longrightarrow>
     server_step env P (Accepted p) (srv, s, tr, lost) (srv', s', tr', lost)"
| sent: "i < length (per_accept srv) \<Longrightarrow> i \<notin> lost \<Longrightarrow> client_pcb (per_accept srv ! i) = Some p \<Longrightarrow>
     user_sent P n (per_accept srv ! i) s tr = Some (r, per', s', tr') \<Longrightarrow>
     server_step env P (Sent i n) (srv, s, tr, lost) (srv\<lparr> per_accept := (per_accept srv)[i := per'] \<rparr>, s', tr', lost)"
| recv: "i < length (per_accept srv) \<Longrightarrow> i \<notin> lost \<Longrightarrow> client_pcb (per_accept srv ! i) = Some p \<Longrightarrow>
     user_recv P h p c e (per_accept srv ! i) s tr = Some (r, per', s', tr') \<Longrightarrow>
     server_step env P (Received i c e) (srv, s, tr, lost) (srv\<lparr> per_accept := (per_accept srv)[i := per'] \<rparr>, s', tr', lost)"
| poll: "i < length (per_accept srv) \<Longrightarrow> i \<notin> lost \<Longrightarrow> client_pcb (per_accept srv ! i) = Some p \<Longrightarrow>
     tcp_server_poll (user_send P) (per_accept srv ! i) s tr = Some (r, per', s', tr') \<Longrightarrow>
     server_step env P (Polled i) (srv, s, tr, lost) (srv\<lparr> per_accept := (per_accept srv)[i := per'] \<rparr>, s', tr', lost)"
| err: "i < length (per_accept srv) \<Longrightarrow> i \<notin> lost \<Longrightarrow> client_pcb (per_accept srv ! i) = Some p \<Longrightarrow>
     tcp_server_err env (has_completed srv) e (per_accept srv ! i) (tr @ [Freed p]) = (per', tr') \<Longrightarrow>
     server_step env P (Failed i e) (srv, s, tr, lost) (srv\<lparr> per_accept := (per_accept srv)[i := per'] \<rparr>, s, tr',
       if client_pcb per' = None then lost else insert i lost)"

definition server_steps :: "tcp_env \<Rightarrow> ('s, 'h) slot_protocol \<Rightarrow> 's serving \<Rightarrow> 's serving \<Rightarrow> bool" where
  "server_steps env P = (\<lambda>st st'. \<exists>ev. server_step env P ev st st')\<^sup>*\<^sup>*"

lemma server_steps_refl [simp]: "server_steps env P st st"
  by (simp add: server_steps_def)

lemma server_steps_step: "server_steps env P st st1 \<Longrightarrow> server_step env P ev st1 st2 \<Longrightarrow> server_steps env P st st2"
  unfolding server_steps_def by (rule rtranclp.rtrancl_into_rtrancl) auto

text \<open>
  The invariant, over the connections \<open>L\<close> that are not the server's to close, such as the one it
  listens on: the slots keep their number; leaving the lost ones aside, no connection is in two of them, and those in the
  slots are exactly the open ones besides \<open>L\<close>. A lost slot is never free.
\<close>

definition holds :: "TCP_SERVER_T \<Rightarrow> nat set \<Rightarrow> nat \<Rightarrow> pcb \<Rightarrow> bool" where
  "holds srv lost i p \<longleftrightarrow> i < length (per_accept srv) \<and> i \<notin> lost \<and> client_pcb (per_accept srv ! i) = Some p"

definition slots_ok :: "pcb set \<Rightarrow> nat \<Rightarrow> 's serving \<Rightarrow> bool" where
  "slots_ok L n st = (case st of (srv, s, tr, lost) \<Rightarrow>
     max_connections srv = n \<and> length (per_accept srv) = n \<and>
     (\<forall>i \<in> lost. i < n \<and> client_pcb (per_accept srv ! i) \<noteq> None) \<and>
     (\<forall>i j p. holds srv lost i p \<and> holds srv lost j p \<longrightarrow> i = j) \<and>
     L \<inter> {p. \<exists>i. holds srv lost i p} = {} \<and> live tr = L \<union> {p. \<exists>i. holds srv lost i p})"

text \<open>
  What a step does besides: a connection that finds no free slot is not left open; a slot is free once the other side has closed its
  connection or the connection has failed, but for \<^verbatim>\<open>ERR_ABRT\<close>, after which it is lost; and a lost
  slot stays as it is.
\<close>

definition step_outcome :: "lwip_event \<Rightarrow> 's serving \<Rightarrow> 's serving \<Rightarrow> bool" where
  "step_outcome ev st st' = (case (st, st') of ((srv, s, tr, lost), (srv', s', tr', lost')) \<Rightarrow>
     (case ev of
        Accepted p \<Rightarrow> (\<forall>x \<in> set (per_accept srv). client_pcb x \<noteq> None) \<longrightarrow> srv' = srv \<and> p \<notin> live tr'
      | Received i None e \<Rightarrow> e = ERR_OK \<or> e = ERR_ABRT \<longrightarrow> client_pcb (per_accept srv' ! i) = None
      | Failed i e \<Rightarrow> if e = ERR_ABRT then lost' = insert i lost \<and> srv' = srv else lost' = lost \<and> client_pcb (per_accept srv' ! i) = None
      | _ \<Rightarrow> True) \<and>
     lost \<subseteq> lost' \<and> (\<forall>i \<in> lost. per_accept srv' ! i = per_accept srv ! i))"

text \<open>The connections in the slots other than \<open>i\<close>.\<close>

definition others :: "TCP_SERVER_T \<Rightarrow> nat set \<Rightarrow> nat \<Rightarrow> pcb set" where
  "others srv lost i = {q. \<exists>j. j \<noteq> i \<and> holds srv lost j q}"

lemma slots_okD:
  assumes "slots_ok L n (srv, s, tr, lost)"
  shows "max_connections srv = n" "length (per_accept srv) = n"
    and "k \<in> lost \<Longrightarrow> k < n \<and> client_pcb (per_accept srv ! k) \<noteq> None"
    and "holds srv lost j q \<Longrightarrow> holds srv lost k q \<Longrightarrow> j = k"
    and "holds srv lost i p \<Longrightarrow> live tr = insert p (L \<union> others srv lost i) \<and> p \<notin> L \<and> p \<notin> others srv lost i"
    and "(\<forall>q. \<not> holds srv lost i q) \<Longrightarrow> live tr = L \<union> others srv lost i"
    and "L \<inter> others srv lost i = {}"
proof -
  have ok: "max_connections srv = n" "length (per_accept srv) = n" "\<forall>k \<in> lost. k < n \<and> client_pcb (per_accept srv ! k) \<noteq> None"
    "\<forall>i j p. holds srv lost i p \<and> holds srv lost j p \<longrightarrow> i = j" "L \<inter> {p. \<exists>i. holds srv lost i p} = {}"
    "live tr = L \<union> {p. \<exists>i. holds srv lost i p}"
    using assms by (simp_all add: slots_ok_def)
  show "max_connections srv = n" "length (per_accept srv) = n" "k \<in> lost \<Longrightarrow> k < n \<and> client_pcb (per_accept srv ! k) \<noteq> None"
    "holds srv lost j q \<Longrightarrow> holds srv lost k q \<Longrightarrow> j = k" using ok(1-4) by blast+
  have "{p. \<exists>i. holds srv lost i p} = others srv lost i \<union> {p. holds srv lost i p}" by (auto simp: others_def)
  note e = ok(5,6) [unfolded this]
  show "L \<inter> others srv lost i = {}" "(\<forall>q. \<not> holds srv lost i q) \<Longrightarrow> live tr = L \<union> others srv lost i" using e by auto
  assume p: "holds srv lost i p"
  have "{q. holds srv lost i q} = {p}" using p by (auto simp: holds_def)
  moreover have "p \<notin> others srv lost i" using p ok(4) by (auto simp: others_def)
  ultimately show "live tr = insert p (L \<union> others srv lost i) \<and> p \<notin> L \<and> p \<notin> others srv lost i" using e by auto
qed

text \<open>A state that differs in slot \<open>i\<close> only.\<close>

lemma slots_ok_update:
  assumes ok: "slots_ok L n (srv, s, tr, lost)" and i: "i < length (per_accept srv)"
    and lost': "lost' = lost \<or> lost' = insert i lost \<and> client_pcb per' \<noteq> None" "i \<notin> lost"
    and new: "if i \<in> lost' then live tr' = L \<union> others srv lost i
              else case client_pcb per' of None \<Rightarrow> live tr' = L \<union> others srv lost i
                | Some p \<Rightarrow> live tr' = insert p (L \<union> others srv lost i) \<and> p \<notin> L \<and> p \<notin> others srv lost i"
  shows "slots_ok L n (srv\<lparr> per_accept := (per_accept srv)[i := per'] \<rparr>, s', tr', lost')"
proof -
  let ?srv = "srv\<lparr> per_accept := (per_accept srv)[i := per'] \<rparr>"
  have h: "holds ?srv lost' j q \<longleftrightarrow> (if j = i then i \<notin> lost' \<and> client_pcb per' = Some q else holds srv lost j q)" for j q
    using i lost' by (cases "j = i") (auto simp: holds_def)
  have e: "{q. \<exists>j. holds ?srv lost' j q} = others srv lost i \<union> (if i \<in> lost' then {} else set_option (client_pcb per'))"
    unfolding h others_def by auto
  have inj: "\<forall>j k q. holds ?srv lost' j q \<and> holds ?srv lost' k q \<longrightarrow> j = k"
  proof (intro allI impI)
    fix j k q assume a: "holds ?srv lost' j q \<and> holds ?srv lost' k q"
    have n: "\<not> (client_pcb per' = Some q \<and> i \<notin> lost' \<and> holds srv lost l q)" if "l \<noteq> i" for l
      using new that by (auto simp: others_def)
    show "j = k" using a slots_okD(4) [OF ok] n unfolding h by (cases "j = i"; cases "k = i") auto
  qed
  have b: "\<forall>k \<in> lost'. k < n \<and> client_pcb (per_accept ?srv ! k) \<noteq> None"
    using slots_okD(2,3) [OF ok] lost' i by (auto simp: nth_list_update)
  have "L \<inter> {q. \<exists>j. holds ?srv lost' j q} = {} \<and> live tr' = L \<union> {q. \<exists>j. holds ?srv lost' j q}"
    unfolding e using new slots_okD(7) [OF ok, of i] by (cases "i \<in> lost'"; cases "client_pcb per'") auto
  then show ?thesis using inj b slots_okD(1,2) [OF ok] unfolding slots_ok_def by simp
qed

lemma slots_ok_move:
  assumes ok: "slots_ok L n (srv, s, tr, lost)" and i: "i < length (per_accept srv)" "i \<notin> lost"
    and p: "client_pcb (per_accept srv ! i) = Some p" and m: "slot_move p per' tr tr'"
  shows "slots_ok L n (srv\<lparr> per_accept := (per_accept srv)[i := per'] \<rparr>, s', tr', lost)"
  by (rule slots_ok_update [OF ok i(1) disjI1 [OF refl] i(2)])
    (use slots_okD(5) [OF ok, of i p] i p m in \<open>auto simp: holds_def slot_move_def\<close>)

text \<open>A connection that lwIP has freed is no longer open, whether its slot is freed or lost.\<close>

lemma slots_ok_failed:
  assumes ok: "slots_ok L n (srv, s, tr, lost)" and i: "i < length (per_accept srv)" "i \<notin> lost"
    and p: "client_pcb (per_accept srv ! i) = Some p" and l: "live tr' = live tr - {p}"
  shows "slots_ok L n (srv\<lparr> per_accept := (per_accept srv)[i := per'] \<rparr>, s', tr', if client_pcb per' = None then lost else insert i lost)"
  by (rule slots_ok_update [OF ok i(1) _ i(2)])
    (use slots_okD(5) [OF ok, of i p] i p l in \<open>auto simp: holds_def\<close>)

section \<open>Accepting\<close>

lemma free_slot_Some: "free_slot k xs = Some i \<Longrightarrow> k \<le> i \<and> i < k + length xs \<and> client_pcb (xs ! (i - k)) = None"
proof (induction k xs rule: free_slot.induct)
  case (2 k x xs)
  then show ?case by (cases "client_pcb x = None") (auto simp: nth_Cons split: nat.split dest: Suc_diff_le)
qed simp

lemma free_slot_None: "free_slot k xs = None \<longleftrightarrow> (\<forall>x \<in> set xs. client_pcb x \<noteq> None)"
  by (induction k xs rule: free_slot.induct) auto

lemma slots_ok_accept:
  assumes ok: "slots_ok L n (srv, s, tr, lost)" and p: "p \<notin> live tr"
    and a: "tcp_server_accept env f srv (Some p) ERR_OK s tr = Some (r, srv', s', tr')" and f: "connection_function f"
  shows "slots_ok L n (srv', s', tr', lost) \<and> step_outcome (Accepted p) (srv, s, tr, lost) (srv', s', tr', lost)"
proof (cases "free_slot 0 (take (max_connections srv) (per_accept srv))")
  case None
  then show ?thesis using ok p a by (auto simp: tcp_server_accept_def slots_ok_def step_outcome_def live_app)
next
  case (Some i)
  have i: "i < length (per_accept srv)" "client_pcb (per_accept srv ! i) = None" "i \<notin> lost"
    using free_slot_Some [OF Some] ok by (auto simp: slots_ok_def)
  let ?per = "(per_accept srv ! i)\<lparr> client_pcb := Some p, pc_count := 0 \<rparr>"
  obtain per1 where f1: "f ?per s (tr @ [Register p]) = Some (r, per1, s', tr')"
    and srv': "srv' = srv\<lparr> per_accept := (per_accept srv)[i := per1] \<rparr>"
    using a Some by (auto simp: tcp_server_accept_def Let_def split: bind_splits)
  let ?srv = "srv\<lparr> per_accept := (per_accept srv)[i := ?per] \<rparr>"
  have l: "live tr = L \<union> others srv lost i" using slots_okD(6) [OF ok, of i] i(2) by (simp add: holds_def)
  have o: "slots_ok L n (?srv, s, tr @ [Register p], lost)"
    by (rule slots_ok_update [OF ok i(1) disjI1 [OF refl] i(3)]) (use l p i(3) in \<open>auto simp: live_app\<close>)
  have m: "slot_move p per1 (tr @ [Register p]) tr'" by (rule connection_function.keeps_or_closes [OF f _ f1]) simp
  have "slots_ok L n (srv', s', tr', lost)"
    using slots_ok_move [OF o _ _ _ m, where i = i and s' = s'] i unfolding srv' by simp
  moreover have "\<not> (\<forall>x \<in> set (per_accept srv). client_pcb x \<noteq> None)" using i(1,2) nth_mem by blast
  moreover have "(per_accept srv)[i := per1] ! k = per_accept srv ! k" if "k \<in> lost" for k using that i(3) by (metis nth_list_update_neq)
  ultimately show ?thesis unfolding srv' by (auto simp: step_outcome_def)
qed

section \<open>Any protocol that keeps the contract\<close>

lemma update_outcome:
  assumes "i \<notin> lost" "lost \<subseteq> lost'"
    and "case ev of Accepted p \<Rightarrow> False | Received j None e \<Rightarrow> j = i \<and> (e = ERR_OK \<or> e = ERR_ABRT \<longrightarrow> client_pcb per' = None) | Failed j e \<Rightarrow> False | _ \<Rightarrow> True"
    and "i < length (per_accept srv)"
  shows "step_outcome ev (srv, s, tr, lost) (srv\<lparr> per_accept := (per_accept srv)[i := per'] \<rparr>, s', tr', lost')"
  using assms by (auto simp: step_outcome_def nth_list_update split: lwip_event.splits option.splits)

locale slot_server =
  fixes P :: "('s, 'h) slot_protocol"
  assumes accept_law: "connection_function (user_accept P)"
    and sent_law: "connection_function (user_sent P n)"
    and recv_law: "connection_function (user_recv P h p c e)"
    and send_law: "connection_function (user_send P)"
    and closed_law: "client_pcb per = Some p \<Longrightarrow> e = ERR_OK \<or> e = ERR_ABRT \<Longrightarrow>
      user_recv P h p None e per s tr = Some (r, per', s', tr') \<Longrightarrow> client_pcb per' = None"
begin

lemma step_keeps: "server_step env P ev st st' \<Longrightarrow> slots_ok L n st \<Longrightarrow> slots_ok L n st' \<and> step_outcome ev st st'"
proof (induction rule: server_step.induct)
  case (accepted p tr srv s r srv' s' tr' lost)
  show ?case by (rule slots_ok_accept [OF accepted.prems accepted.hyps accept_law])
next
  case (sent i srv lost p m s tr r per' s' tr')
  show ?case
    using slots_ok_move [OF sent.prems sent.hyps(1-3) connection_function.keeps_or_closes [OF sent_law sent.hyps(3,4)]] sent.hyps(1,2)
    by (auto intro!: update_outcome)
next
  case (recv i srv lost p h c e s tr r per' s' tr')
  have "c = None \<Longrightarrow> e = ERR_OK \<or> e = ERR_ABRT \<Longrightarrow> client_pcb per' = None" using closed_law [OF recv.hyps(3)] recv.hyps(4) by blast
  then show ?case
    using slots_ok_move [OF recv.prems recv.hyps(1-3) connection_function.keeps_or_closes [OF recv_law recv.hyps(3,4)]] recv.hyps(1,2)
    by (auto intro!: update_outcome split: option.split)
next
  case (poll i srv lost p s tr r per' s' tr')
  show ?case
    using slots_ok_move [OF poll.prems poll.hyps(1-3) connection_function.poll_keeps_or_closes [OF send_law poll.hyps(3,4)]] poll.hyps(1,2)
    by (auto intro!: update_outcome)
next
  case (err i srv lost p e tr per' tr' s)
  have r: "if e = ERR_ABRT then per' = per_accept srv ! i \<and> live tr' = live tr - {p} else client_pcb per' = None \<and> live tr' = live tr - {p}"
    using err.hyps(3,4) by (auto simp: tcp_server_err_def tcp_server_result_def tcp_close_client_def Let_def live_def split: if_splits)
  then have "live tr' = live tr - {p}" by (auto split: if_splits)
  note ok = slots_ok_failed [OF err.prems err.hyps(1-3) this, of per' s]
  have "step_outcome (Failed i e) (srv, s, tr, lost) (srv\<lparr> per_accept := (per_accept srv)[i := per'] \<rparr>, s, tr',
      if client_pcb per' = None then lost else insert i lost)"
    using r err.hyps(1-3) by (auto simp: step_outcome_def nth_list_update split: if_splits)
  with ok show ?case by blast
qed

lemma reachable_ok: "server_steps env P st st' \<Longrightarrow> slots_ok L n st \<Longrightarrow> slots_ok L n st'"
  unfolding server_steps_def by (induction rule: rtranclp_induct) (auto dest: step_keeps)

lemma reachable_outcome:
  "server_steps env P st st' \<Longrightarrow> slots_ok L n st \<Longrightarrow> server_step env P ev st' st'' \<Longrightarrow> slots_ok L n st'' \<and> step_outcome ev st' st''"
  using step_keeps reachable_ok by blast

end

section \<open>A freshly opened server\<close>

lemma opened_slots_ok:
  assumes "tcp_server_init ok1 ok2 conns = Some srv" "tcp_server_open env completed port srv [] = (r, srv', tr')"
  shows "slots_ok (live tr') (nat conns) (srv', s, tr', {})" "live tr' = set_option (server_pcb srv')"
proof -
  have z: "\<not> holds srv' {} i p" for i p
    using assms by (auto simp: tcp_server_init_def tcp_server_open_def Let_def holds_def zero_slot_def split: if_splits option.splits)
  show "slots_ok (live tr') (nat conns) (srv', s, tr', {})"
    using assms z by (auto simp: tcp_server_init_def tcp_server_open_def Let_def slots_ok_def split: if_splits option.splits)
  show "live tr' = set_option (server_pcb srv')"
    using assms by (auto simp: tcp_server_init_def tcp_server_open_def Let_def live_def split: if_splits option.splits)
qed

end
