(* ===== verification/Tcp_Test1.thy ===== *)
theory Tcp_Test1
  imports Tcp_Slots
begin

text \<open>
  \<^verbatim>\<open>tcp_test1.c\<close>: the echo test. The server fills a buffer with random bytes and sends it, the client
  sends it back, the server compares; after ten rounds both end with success. All slots of the server
  share the two buffers. \<open>rnd\<close> stands for \<^verbatim>\<open>rand\<close>: the bytes it delivers during one filling.
\<close>

abbreviation (input) TEST1_BUF_SIZE :: nat where "TEST1_BUF_SIZE \<equiv> 2048"
abbreviation (input) TEST_ITERATIONS :: int where "TEST_ITERATIONS \<equiv> 10"

record test1_buffers =
  buffer_sent :: view
  buffer_recv :: view

section \<open>The server\<close>

definition test1_fill :: "(calls \<Rightarrow> nat \<Rightarrow> byte) \<Rightarrow> calls \<Rightarrow> view \<Rightarrow> view" where
  "test1_fill rnd tr v = store v 0 (map (rnd tr) [0..<TEST1_BUF_SIZE])"

definition tcp_server_send_data :: "tcp_env \<Rightarrow> bool \<Rightarrow> (calls \<Rightarrow> nat \<Rightarrow> byte) \<Rightarrow> test1_buffers on_slot" where
  "tcp_server_send_data env completed rnd per s tr =
     (let s1 = s\<lparr> buffer_sent := test1_fill rnd tr (buffer_sent s) \<rparr>;
          per1 = per\<lparr> pc_sent_len := 0 \<rparr>
      in case client_pcb per1 of
           None \<Rightarrow> None
         | Some p \<Rightarrow>
             let data = take_view TEST1_BUF_SIZE (buffer_sent s1);
                 err = answer env tr (Write p data);
                 tr1 = tr @ [Write p data]
             in if err \<noteq> ERR_OK then
                  let per2 = per1\<lparr> pc_status := err \<rparr>
                  in if err = ERR_MEM then Some (ERR_OK, per2, s1, tr1)
                     else slot_result env completed err per2 s1 tr1
                else Some (ERR_OK, per1, s1, tr1))"

definition tcp_server_test1_accept :: "tcp_env \<Rightarrow> bool \<Rightarrow> (calls \<Rightarrow> nat \<Rightarrow> byte) \<Rightarrow> test1_buffers on_slot" where
  "tcp_server_test1_accept env completed rnd per s tr = tcp_server_send_data env completed rnd per s tr"

text \<open>The part of \<^verbatim>\<open>tcp_server_recv\<close> after the pbuf is freed.\<close>

definition test1_check :: "tcp_env \<Rightarrow> bool \<Rightarrow> (calls \<Rightarrow> nat \<Rightarrow> byte) \<Rightarrow> test1_buffers on_slot" where
  "test1_check env completed rnd per s tr =
     (if pc_recv_len per = int TEST1_BUF_SIZE then
        if take_view TEST1_BUF_SIZE (buffer_sent s) \<noteq> take_view TEST1_BUF_SIZE (buffer_recv s)
        then slot_result env completed ERR_USER per s tr
        else let per1 = per\<lparr> pc_count := wrap_int (pc_count per + 1) \<rparr>
          in if pc_count per1 \<ge> TEST_ITERATIONS then do {
               (r, per2, s2, tr2) \<leftarrow> slot_result env completed 0 per1 s tr;
               Some (ERR_OK, per2, s2, tr2)
             }
             else tcp_server_send_data env completed rnd per1 s tr
      else Some (ERR_OK, per, s, tr))"

definition tcp_server_recv ::
    "tcp_env \<Rightarrow> bool \<Rightarrow> (calls \<Rightarrow> nat \<Rightarrow> byte) \<Rightarrow> unit \<Rightarrow> pcb \<Rightarrow> byte list option \<Rightarrow> int \<Rightarrow> test1_buffers on_slot" where
  "tcp_server_recv env completed rnd h tpcb p err per s tr =
     (if err = ERR_OK \<or> err = ERR_ABRT then
        (case p of
           None \<Rightarrow> slot_result env completed err per s tr
         | Some chunk \<Rightarrow>
             if length chunk > 0 then
               let buffer_left = u16_of_int (int TEST1_BUF_SIZE - pc_recv_len per);
                   data = take (if length chunk > buffer_left then buffer_left else length chunk) chunk;
                   s1 = s\<lparr> buffer_recv := store (buffer_recv s) (nat (pc_recv_len per)) data \<rparr>
               in test1_check env completed rnd (per\<lparr> pc_recv_len := pc_recv_len per + int (length data) \<rparr>) s1
                    (tr @ [Recved tpcb (length chunk)])
             else test1_check env completed rnd per s tr)
      else Some (ERR_OK, per, s, tr))"

definition tcp_server_sent :: "nat \<Rightarrow> test1_buffers on_slot" where
  "tcp_server_sent len per s tr =
     (let per1 = per\<lparr> pc_sent_len := wrap_int (pc_sent_len per + int len) \<rparr>
      in Some (ERR_OK, if pc_sent_len per1 \<ge> int TEST1_BUF_SIZE then per1\<lparr> pc_recv_len := 0 \<rparr> else per1, s, tr))"

definition tcp_server_sendtest_init_open ::
    "tcp_env \<Rightarrow> bool \<Rightarrow> bool \<Rightarrow> bool \<Rightarrow> nat \<Rightarrow> calls \<Rightarrow> (int \<times> TCP_SERVER_T \<times> calls) option" where
  "tcp_server_sendtest_init_open env ok1 ok2 completed port tr =
     (case tcp_server_init ok1 ok2 2 of
        None \<Rightarrow> None
      | Some srv \<Rightarrow> Some (tcp_server_open env completed port srv tr))"

definition test1_protocol :: "tcp_env \<Rightarrow> bool \<Rightarrow> (calls \<Rightarrow> nat \<Rightarrow> byte) \<Rightarrow> (test1_buffers, unit) slot_protocol" where
  "test1_protocol env completed rnd =
     \<lparr> user_accept = tcp_server_test1_accept env completed rnd, user_sent = tcp_server_sent,
       user_recv = tcp_server_recv env completed rnd, user_send = tcp_server_send_data env completed rnd \<rparr>"

section \<open>The client\<close>

definition tcp_client_sending :: "tcp_env \<Rightarrow> pcb \<Rightarrow> TCP_CLIENT_T \<Rightarrow> view \<Rightarrow> calls \<Rightarrow> client_result" where
  "tcp_client_sending env p st buf tr =
     (if cl_recv_len st = int TEST1_BUF_SIZE then
        let data = take_view (u16_of_int (cl_recv_len st)) buf;
            err = answer env tr (Write p data);
            tr1 = tr @ [Write p data]
        in if err \<noteq> ERR_OK then
             let st1 = st\<lparr> cl_status := err \<rparr>
             in if err = ERR_MEM then (ERR_OK, Some st1, tr1) else tcp_client_result env st1 err tr1
           else (ERR_OK, Some st, tr1)
      else (ERR_OK, Some st, tr))"

definition tcp_client_poll :: "tcp_env \<Rightarrow> pcb \<Rightarrow> TCP_CLIENT_T \<Rightarrow> view \<Rightarrow> calls \<Rightarrow> client_result" where
  "tcp_client_poll env p st buf tr =
     (if cl_status st = ERR_MEM then let (r, st1, tr1) = tcp_client_sending env p st buf tr in (ERR_OK, st1, tr1)
      else (ERR_OK, Some st, tr))"

definition tcp_client_sent :: "tcp_env \<Rightarrow> nat \<Rightarrow> TCP_CLIENT_T \<Rightarrow> calls \<Rightarrow> client_result" where
  "tcp_client_sent env len st tr =
     (let st1 = st\<lparr> cl_sent_len := wrap_int (cl_sent_len st + int len) \<rparr>
      in if cl_sent_len st1 \<ge> int TEST1_BUF_SIZE then
           let st2 = st1\<lparr> cl_count := wrap_int (cl_count st1 + 1) \<rparr>
           in if cl_count st2 \<ge> TEST_ITERATIONS then let (r, st3, tr1) = tcp_client_result env st2 0 tr in (ERR_OK, st3, tr1)
              else (ERR_OK, Some (st2\<lparr> cl_recv_len := 0, cl_sent_len := 0 \<rparr>), tr)
         else (ERR_OK, Some st1, tr))"

definition tcp_client_recv ::
    "tcp_env \<Rightarrow> pcb \<Rightarrow> byte list option \<Rightarrow> TCP_CLIENT_T \<Rightarrow> view \<Rightarrow> calls \<Rightarrow> int \<times> TCP_CLIENT_T option \<times> view \<times> calls" where
  "tcp_client_recv env tpcb p st buf tr =
     (case p of
        None \<Rightarrow> let (r, st1, tr1) = tcp_client_result env st ERR_USER tr in (r, st1, buf, tr1)
      | Some chunk \<Rightarrow>
          let (st1, buf1, tr1) =
            (if length chunk > 0 then
               let buffer_left = u16_of_int (int TEST1_BUF_SIZE - cl_recv_len st);
                   data = take (if length chunk > buffer_left then buffer_left else length chunk) chunk
               in (st\<lparr> cl_recv_len := cl_recv_len st + int (length data) \<rparr>, store buf (nat (cl_recv_len st)) data,
                   tr @ [Recved tpcb (length chunk)])
             else (st, buf, tr));
              (r, st2, tr2) = tcp_client_sending env tpcb st1 buf1 tr1
          in (r, st2, buf1, tr2))"

text \<open>A busy state is never seen, since the state is a new one; the branch is the code's.\<close>

definition tcp_client_sendtest_init_open ::
    "tcp_env \<Rightarrow> bool \<Rightarrow> nat \<Rightarrow> byte list \<Rightarrow> nat \<Rightarrow> int \<Rightarrow> calls \<Rightarrow> (int \<times> int \<times> TCP_CLIENT_T option \<times> calls) option" where
  "tcp_client_sendtest_init_open env ok addr hostname port fail_count tr =
     (case tcp_client_init ok of
        None \<Rightarrow> None
      | Some st \<Rightarrow>
          if cl_busy st \<and> \<not> fail_count > 10 then Some (0, wrap_int (fail_count + 1), None, tr)
          else let fc = (if cl_busy st then wrap_int (fail_count + 1) else fail_count);
                   (r, st1, tr1) = tcp_client_open env (st\<lparr> cl_busy := False \<rparr>) hostname port addr tr
               in Some (if r then 1 else 0, fc, st1, tr1))"

end
