(* ===== verification/Tcp_Serving.thy ===== *)
theory Tcp_Serving
  imports Tcp_Json Tcp_Test1
begin

text \<open>
  Both protocols of the program keep the contract of \<^verbatim>\<open>slot_server\<close>, so every open connection
  of both servers is in exactly one slot, in every order of events.
\<close>

text \<open>The contract on a result, with rules that follow the structure of the code.\<close>

definition moves :: "pcb \<Rightarrow> calls \<Rightarrow> (int \<times> server_per_client \<times> 's \<times> calls) option \<Rightarrow> bool" where
  "moves p tr x = (case x of None \<Rightarrow> True | Some (r, per', s', tr') \<Rightarrow> slot_move p per' tr tr')"

named_theorems move_rules

lemma connection_functionI: "(\<And>per p s tr. client_pcb per = Some p \<Longrightarrow> moves p tr (f per s tr)) \<Longrightarrow> connection_function f"
  by unfold_locales (force simp: moves_def split: option.splits)

lemma moves_simps [move_rules]:
  "moves p tr None" "moves p tr (Some (r, per', s', tr')) = slot_move p per' tr tr'"
  by (simp_all add: moves_def)

lemma moves_stay [move_rules]: "client_pcb per' = Some p \<Longrightarrow> live tr' = live tr \<Longrightarrow> slot_move p per' tr tr'"
  by (simp add: slot_move_def)

lemma moves_let [move_rules]: "moves p tr (f x) \<Longrightarrow> moves p tr (Let x f)"
  by simp

text \<open>Only the result code of a call is replaced.\<close>

lemma moves_code [move_rules]: "moves p tr x \<Longrightarrow> moves p tr (Option.bind x (\<lambda>(r, per1, s1, tr1). Some (c, per1, s1, tr1)))"
  by (auto simp: moves_def split: option.splits bind_splits)

lemma moves_bind: "(\<And>y. moves p tr (f y)) \<Longrightarrow> moves p tr (Option.bind x f)"
  by (cases x) (auto simp: moves_def)

lemma live_quiet [move_rules]: "live (tr @ [Write p d]) = live tr" "live (tr @ [Recved p n]) = live tr"
  by (simp_all add: live_app)

lemma slot_result_moves [move_rules]:
  assumes "client_pcb per = Some p" "live tr1 = live tr"
  shows "moves p tr (slot_result env completed status per s tr1)"
proof -
  obtain r per' tr' where t: "tcp_server_result env completed status per tr1 = (r, per', tr')" by (metis prod_cases3)
  show ?thesis using tcp_server_result_move [OF assms(1) t] assms(2) t by (simp add: slot_result_def moves_def slot_move_def)
qed

section \<open>The JSON server\<close>

lemma json_send_moves [move_rules]:
  "client_pcb per = Some p \<Longrightarrow> live tr1 = live tr \<Longrightarrow> moves p tr (tcp_server_json_send env completed per s tr1)"
  by (simp add: tcp_server_json_send_def Let_def move_rules)

lemma server_answer_moves [move_rules]:
  assumes "client_pcb per = Some p" "live tr1 = live tr"
  shows "moves p tr (server_answer env completed fo host ha per s tr1)"
  unfolding server_answer_def Let_def
  by (intro moves_bind) (auto simp: assms intro!: moves_bind moves_code slot_result_moves json_send_moves split: prod.split)

lemma server_store_chunk_pcb: "client_pcb (fst (server_store_chunk chunk per dev)) = client_pcb per"
  by (simp add: server_store_chunk_def Let_def)

lemma json_recv_moves [move_rules]:
  assumes "client_pcb per = Some p"
  shows "moves p tr (tcp_server_json_recv env completed fo host ha tpcb c e per s tr)"
proof (cases c)
  case None
  then show ?thesis using assms by (simp add: tcp_server_json_recv_def move_rules)
next
  case (Some chunk)
  obtain per1 dev1 where s: "server_store_chunk chunk per s = (per1, dev1)" by fastforce
  then have "client_pcb per1 = Some p" using server_store_chunk_pcb [of chunk per s] assms by simp
  then show ?thesis using assms Some s by (simp add: tcp_server_json_recv_def move_rules)
qed

definition json_protocol :: "tcp_env \<Rightarrow> bool \<Rightarrow> 'f dbl_ops \<Rightarrow> byte list \<Rightarrow> ('f device, heap_answers) slot_protocol" where
  "json_protocol env completed fo host =
     \<lparr> user_accept = tcp_server_json_accept, user_sent = tcp_server_json_sent,
       user_recv = tcp_server_json_recv env completed fo host, user_send = tcp_server_json_send env completed \<rparr>"

lemma slot_result_frees: "client_pcb per = Some p \<Longrightarrow> slot_result env completed status per s tr = Some (r, per', s', tr') \<Longrightarrow> client_pcb per' = None"
  by (auto simp: slot_result_def tcp_server_result_def tcp_close_client_def Let_def split: if_splits)

interpretation json: slot_server "json_protocol env completed fo host" for env completed fo host
proof (rule slot_server.intro)
  fix per :: server_per_client and p e h s tr r per' s' tr'
  assume "client_pcb per = Some p" "e = ERR_OK \<or> e = ERR_ABRT"
    "user_recv (json_protocol env completed fo host) h p None e per s tr = Some (r, per', s', tr')"
  then show "client_pcb per' = None" using slot_result_frees [of per p] by (auto simp: json_protocol_def tcp_server_json_recv_def)
qed (rule connection_functionI, simp add: json_protocol_def tcp_server_json_accept_def tcp_server_json_sent_def move_rules)+

section \<open>The echo server\<close>

lemma send_data_moves [move_rules]:
  "client_pcb per = Some p \<Longrightarrow> live tr1 = live tr \<Longrightarrow> moves p tr (tcp_server_send_data env completed rnd per s tr1)"
  by (simp add: tcp_server_send_data_def Let_def move_rules)

lemma test1_check_moves [move_rules]:
  "client_pcb per = Some p \<Longrightarrow> live tr1 = live tr \<Longrightarrow> moves p tr (test1_check env completed rnd per s tr1)"
  by (simp add: test1_check_def Let_def move_rules)

lemma test1_recv_moves [move_rules]:
  "client_pcb per = Some p \<Longrightarrow> moves p tr (tcp_server_recv env completed rnd h tpcb c e per s tr)"
  by (simp add: tcp_server_recv_def Let_def move_rules split: option.split)

interpretation test1: slot_server "test1_protocol env completed rnd" for env completed rnd
proof (rule slot_server.intro)
  fix per :: server_per_client and p e h s tr r per' s' tr'
  assume "client_pcb per = Some p" "e = ERR_OK \<or> e = ERR_ABRT"
    "user_recv (test1_protocol env completed rnd) h p None e per s tr = Some (r, per', s', tr')"
  then show "client_pcb per' = None" using slot_result_frees [of per p] by (auto simp: test1_protocol_def tcp_server_recv_def)
qed (rule connection_functionI, simp add: test1_protocol_def tcp_server_test1_accept_def tcp_server_sent_def Let_def move_rules)+

section \<open>The slots of the two servers\<close>


text \<open>A network that creates connection 1, listens on connection 2, and answers every call with success.\<close>

definition listening_net :: tcp_env where
  "listening_net = \<lparr> answer = (\<lambda>_ _. 0), fresh = (\<lambda>tr _. Some (if tr = [] then 1 else 2)) \<rparr>"


end
