(* ===== verification/Echo_Session.thy ===== *)
theory Echo_Session
  imports Tcp_Test1
begin

text \<open>
  A whole session of the echo test: the server of one device and the client of another run all ten
  rounds, whatever pieces the network cuts the data and the acknowledgements into.
\<close>

section \<open>Runs of callbacks\<close>

primrec slot_run :: "'s on_slot list \<Rightarrow> server_per_client \<Rightarrow> 's \<Rightarrow> calls \<Rightarrow> (server_per_client \<times> 's \<times> calls) option" where
  "slot_run [] per s tr = Some (per, s, tr)"
| "slot_run (f # fs) per s tr = do { (r, per1, s1, tr1) \<leftarrow> f per s tr; slot_run fs per1 s1 tr1 }"

datatype client_event = Acked nat | Data "byte list"

text \<open>The client is called no more once it has released its state.\<close>

primrec client_run :: "tcp_env \<Rightarrow> pcb \<Rightarrow> client_event list \<Rightarrow> TCP_CLIENT_T option \<Rightarrow> view \<Rightarrow> calls \<Rightarrow> TCP_CLIENT_T option \<times> view \<times> calls" where
  "client_run env q [] st buf tr = (st, buf, tr)"
| "client_run env q (e # es) st buf tr = (case st of
     None \<Rightarrow> (None, buf, tr)
   | Some c \<Rightarrow>
       let (st1, buf1, tr1) = (case e of
             Acked n \<Rightarrow> let (r, st1, tr1) = tcp_client_sent env n c tr in (st1, buf, tr1)
           | Data d \<Rightarrow> let (r, st1, buf1, tr1) = tcp_client_recv env q (Some d) c buf tr in (st1, buf1, tr1))
       in client_run env q es st1 buf1 tr1)"

text \<open>What was written last.\<close>

definition written :: "calls \<Rightarrow> byte list" where
  "written tr = fold (\<lambda>c d. case c of Write p b \<Rightarrow> b | _ \<Rightarrow> d) tr []"

lemma written_snoc: "written (tr @ [c]) = (case c of Write p b \<Rightarrow> b | _ \<Rightarrow> written tr)"
  by (cases c) (simp_all add: written_def)

lemma written_app: "(\<forall>c \<in> set cs. \<forall>p b. c \<noteq> Write p b) \<Longrightarrow> written (tr @ cs) = written tr"
  by (induction cs rule: rev_induct) (auto simp: written_snoc simp flip: append_assoc split: lwip_call.split)

section \<open>One round\<close>

text \<open>How the network cuts one round: acknowledgements and data, to the server and to the client.\<close>

record cuts =
  acks_server :: "nat list"
  acks_client :: "nat list"
  cut_server :: "byte list \<Rightarrow> byte list list"
  cut_client :: "byte list \<Rightarrow> byte list list"

definition fair_acks :: "nat list \<Rightarrow> bool" where
  "fair_acks ns \<longleftrightarrow> sum_list ns = TEST1_BUF_SIZE \<and> 0 \<notin> set ns"

definition fair_cut :: "(byte list \<Rightarrow> byte list list) \<Rightarrow> bool" where
  "fair_cut f \<longleftrightarrow> (\<forall>xs. concat (f xs) = xs \<and> [] \<notin> set (f xs))"

definition fair :: "cuts \<Rightarrow> bool" where
  "fair c \<longleftrightarrow> fair_acks (acks_server c) \<and> fair_acks (acks_client c) \<and> fair_cut (cut_server c) \<and> fair_cut (cut_client c)"

type_synonym session = "(server_per_client \<times> test1_buffers \<times> calls) \<times> (TCP_CLIENT_T option \<times> view \<times> calls)"

definition echo_round :: "tcp_env \<Rightarrow> bool \<Rightarrow> (calls \<Rightarrow> nat \<Rightarrow> byte) \<Rightarrow> pcb \<Rightarrow> pcb \<Rightarrow> cuts \<Rightarrow> session \<Rightarrow> session option" where
  "echo_round env completed rnd p q c ss = (case ss of ((per, s, trs), (st, buf, trc)) \<Rightarrow> do {
     (per1, s1, trs1) \<leftarrow> slot_run (map tcp_server_sent (acks_server c)) per s trs;
     let (st1, buf1, trc1) = client_run env q (map Data (cut_client c (written trs1))) st buf trc;
     let (st2, buf2, trc2) = client_run env q (map Acked (acks_client c)) st1 buf1 trc1;
     (per2, s2, trs2) \<leftarrow>
       slot_run (map (\<lambda>d. tcp_server_recv env completed rnd () p (Some d) ERR_OK) (cut_server c (written trc2))) per1 s1 trs1;
     Some ((per2, s2, trs2), (st2, buf2, trc2))
   })"

primrec echo_rounds :: "tcp_env \<Rightarrow> bool \<Rightarrow> (calls \<Rightarrow> nat \<Rightarrow> byte) \<Rightarrow> pcb \<Rightarrow> pcb \<Rightarrow> cuts list \<Rightarrow> session \<Rightarrow> session option" where
  "echo_rounds env completed rnd p q [] ss = Some ss"
| "echo_rounds env completed rnd p q (c # cs) ss = do { ss1 \<leftarrow> echo_round env completed rnd p q c ss; echo_rounds env completed rnd p q cs ss1 }"

definition obliging :: "tcp_env \<Rightarrow> bool" where
  "obliging env \<longleftrightarrow> (\<forall>tr p d. answer env tr (Write p d) = ERR_OK) \<and> (\<forall>tr p. answer env tr (Close p) = ERR_OK)"

section \<open>The parts of a round\<close>

lemma server_acked:
  assumes "ns \<noteq> []" "0 \<notin> set ns" "pc_sent_len per = int k" "k + sum_list ns = 2048"
  shows "slot_run (map tcp_server_sent ns) per s tr = Some (per\<lparr> pc_sent_len := 2048, pc_recv_len := 0 \<rparr>, s, tr)"
  using assms
proof (induction ns arbitrary: per k)
  case (Cons n ns)
  have w: "wrap_int (int k + int n) = int (k + n)" using Cons.prems(4) by (subst wrap_int_small) auto
  show ?case
  proof (cases "ns = []")
    case True
    then show ?thesis using Cons.prems w by (simp add: tcp_server_sent_def)
  next
    case False
    then have "0 < sum_list ns" using Cons.prems(2) by (cases ns) auto
    then have "k + n < 2048" using Cons.prems(4) by simp
    then have "tcp_server_sent n per s tr = Some (ERR_OK, per\<lparr> pc_sent_len := int (k + n) \<rparr>, s, tr)"
      using Cons.prems(3) w by (simp add: tcp_server_sent_def Let_def)
    then show ?thesis using Cons.IH [OF False, of "per\<lparr> pc_sent_len := int (k + n) \<rparr>" "k + n"] Cons.prems by (simp add: add.assoc)
  qed
qed simp

lemma client_acked:
  assumes "ns \<noteq> []" "0 \<notin> set ns" "cl_sent_len c = int k" "k + sum_list ns = 2048" "0 \<le> cl_count c" "cl_count c < 10"
  shows "client_run env q (map Acked ns) (Some c) buf tr =
    (if cl_count c < 9 then (Some (c\<lparr> cl_count := cl_count c + 1, cl_recv_len := 0, cl_sent_len := 0 \<rparr>), buf, tr)
     else let (r, st, tr1) = tcp_client_result env (c\<lparr> cl_sent_len := 2048, cl_count := 10 \<rparr>) 0 tr in (st, buf, tr1))"
  using assms
proof (induction ns arbitrary: c k)
  case (Cons n ns)
  have w: "wrap_int (int k + int n) = int (k + n)" using Cons.prems(4) by (subst wrap_int_small) auto
  have w1: "wrap_int (cl_count c + 1) = cl_count c + 1" using Cons.prems(5,6) by (subst wrap_int_small) auto
  show ?case
  proof (cases "ns = []")
    case True
    show ?thesis
    proof (cases "cl_count c < 9")
      case False
      then have "cl_count c = 9" using Cons.prems(6) by simp
      then show ?thesis using True Cons.prems w w1 by (simp add: tcp_client_sent_def Let_def split: prod.split)
    qed (use True Cons.prems w w1 in \<open>simp add: tcp_client_sent_def Let_def\<close>)
  next
    case False
    then have "0 < sum_list ns" using Cons.prems(2) by (cases ns) auto
    then have "k + n < 2048" using Cons.prems(4) by simp
    then have "tcp_client_sent env n c tr = (ERR_OK, Some (c\<lparr> cl_sent_len := int (k + n) \<rparr>), tr)"
      using Cons.prems(3) w by (simp add: tcp_client_sent_def Let_def)
    then show ?thesis using Cons.IH [OF False, of "c\<lparr> cl_sent_len := int (k + n) \<rparr>" "k + n"] Cons.prems by (simp add: add.assoc)
  qed
qed simp

lemma piece_taken:
  assumes "piece B n c" "length B = 2048"
  shows "\<not> length c > u16_of_int (2048 - int n)"
proof -
  have "n + length c \<le> 2048" using assms by (auto simp: piece_def)
  then have "u16_of_int (2048 - int n) = 2048 - n" by (simp add: u16_of_int_def nat_diff_distrib)
  then show ?thesis using \<open>n + length c \<le> 2048\<close> by simp
qed

text \<open>The client sends back what it received, once it is complete.\<close>

lemma client_echoes:
  assumes "obliging env" "length B = 2048"
    and "cs \<noteq> []" "[] \<notin> set cs" "drop n B = concat cs" "n \<le> length B" "cl_recv_len c = int n" "buf = store v 0 (take n B)"
  shows "client_run env q (map Data cs) (Some c) buf tr =
    (Some (c\<lparr> cl_recv_len := 2048 \<rparr>), store v 0 B, tr @ map (\<lambda>d. Recved q (length d)) cs @ [Write q B])"
  using assms(3-)
proof (induction cs arbitrary: n c buf tr)
  case (Cons d ds)
  have pc: "piece B n d" "drop (n + length d) B = concat ds" by (rule piece_split; use Cons.prems in auto)+
  have le: "n + length d \<le> length B" "d \<noteq> []" using pc(1) by (auto simp: piece_def)
  have last: "n + length d = 2048 \<longleftrightarrow> ds = []" using piece_last [OF pc] Cons.prems(2) assms(2) by simp
  let ?c = "c\<lparr> cl_recv_len := int (n + length d) \<rparr>" and ?b = "store v 0 (take (n + length d) B)" and ?t = "tr @ [Recved q (length d)]"
  have sb: "store buf n d = ?b" using store_piece [OF pc(1)] Cons.prems(6) by simp
  have "tcp_client_recv env q (Some d) c buf tr = (let (r, st, tr2) = tcp_client_sending env q ?c ?b ?t in (r, st, ?b, tr2))"
    using Cons.prems(5) le(2) sb piece_taken [OF pc(1) assms(2)] by (simp add: tcp_client_recv_def Let_def)
  moreover have "tcp_client_sending env q ?c ?b ?t = (ERR_OK, Some ?c, if ds = [] then ?t @ [Write q B] else ?t)"
  proof (cases "ds = []")
    case True
    then have e: "n + length d = 2048" using last by simp
    have "take_view 2048 (store v 0 B) = B" using take_view_store_0 [of B 0 v] assms(2) by simp
    then show ?thesis using True e assms(1,2)
      by (simp add: tcp_client_sending_def Let_def obliging_def u16_of_int_def flip: of_nat_add)
  next
    case False
    then have "int (n + length d) \<noteq> 2048" using last by presburger
    then show ?thesis using False by (simp add: tcp_client_sending_def)
  qed
  ultimately have r: "tcp_client_recv env q (Some d) c buf tr = (ERR_OK, Some ?c, ?b, if ds = [] then ?t @ [Write q B] else ?t)" by simp
  show ?case
  proof (cases "ds = []")
    case True
    then show ?thesis using r last assms(2) by (simp flip: of_nat_add)
  next
    case False
    then show ?thesis using r Cons.IH [OF False _ pc(2) le(1), of ?c ?b ?t] Cons.prems(2) by simp
  qed
qed simp

text \<open>The server checks what comes back, once it is complete.\<close>

lemma server_receives:
  assumes "length B = 2048"
    and "cs \<noteq> []" "[] \<notin> set cs" "drop n B = concat cs" "n \<le> length B" "pc_recv_len per = int n" "buffer_recv s = store v 0 (take n B)"
  shows "slot_run (map (\<lambda>d. tcp_server_recv env completed rnd () p (Some d) ERR_OK) cs) per s tr =
    map_option snd (test1_check env completed rnd (per\<lparr> pc_recv_len := 2048 \<rparr>) (s\<lparr> buffer_recv := store v 0 B \<rparr>)
      (tr @ map (\<lambda>d. Recved p (length d)) cs))"
  using assms(2-)
proof (induction cs arbitrary: n per s tr)
  case (Cons d ds)
  have pc: "piece B n d" "drop (n + length d) B = concat ds" by (rule piece_split; use Cons.prems in auto)+
  have le: "n + length d \<le> length B" "d \<noteq> []" using pc(1) by (auto simp: piece_def)
  have last: "n + length d = 2048 \<longleftrightarrow> ds = []" using piece_last [OF pc] Cons.prems(2) assms(1) by simp
  let ?per = "per\<lparr> pc_recv_len := int (n + length d) \<rparr>" and ?s = "s\<lparr> buffer_recv := store v 0 (take (n + length d) B) \<rparr>"
    and ?t = "tr @ [Recved p (length d)]"
  have sb: "store (buffer_recv s) n d = store v 0 (take (n + length d) B)" using store_piece [OF pc(1)] Cons.prems(6) by simp
  have r: "tcp_server_recv env completed rnd () p (Some d) ERR_OK per s tr = test1_check env completed rnd ?per ?s ?t"
    using Cons.prems(5) le(2) sb piece_taken [OF pc(1) assms(1)] by (simp add: tcp_server_recv_def Let_def)
  show ?case
  proof (cases "ds = []")
    case True
    then have "n + length d = 2048" using last by simp
    then show ?thesis using r True assms(1)
      by (cases "test1_check env completed rnd ?per ?s ?t") (auto simp flip: of_nat_add)
  next
    case False
    then have "int (n + length d) \<noteq> 2048" using last by presburger
    then have "test1_check env completed rnd ?per ?s ?t = Some (ERR_OK, ?per, ?s, ?t)" by (simp add: test1_check_def)
    then show ?thesis using r Cons.IH [OF False _ pc(2) le(1), of ?per ?s ?t] Cons.prems(2) by simp
  qed
qed simp

section \<open>Rounds\<close>

definition ready :: "pcb \<Rightarrow> pcb \<Rightarrow> nat \<Rightarrow> session \<Rightarrow> bool" where
  "ready p q k ss = (case ss of ((per, s, trs), (st, buf, trc)) \<Rightarrow>
     client_pcb per = Some p \<and> pc_count per = int k \<and> pc_sent_len per = 0 \<and> written trs = take_view 2048 (buffer_sent s) \<and>
     (case st of None \<Rightarrow> False
      | Some c \<Rightarrow> tcp_pcb c = Some q \<and> cl_count c = int k \<and> cl_recv_len c = 0 \<and> cl_sent_len c = 0))"

text \<open>The slot's connection is closed with success, which is reported if there is somebody to report to.\<close>

definition closes :: "bool \<Rightarrow> pcb \<Rightarrow> calls \<Rightarrow> bool" where
  "closes completed p tr \<longleftrightarrow>
     (if completed then drop (length tr - 3) tr = [Completed 0, Unregister p, Close p] else drop (length tr - 2) tr = [Unregister p, Close p])"

definition succeeded :: "bool \<Rightarrow> pcb \<Rightarrow> pcb \<Rightarrow> session \<Rightarrow> bool" where
  "succeeded completed p q ss = (case ss of ((per, s, trs), (st, buf, trc)) \<Rightarrow>
     client_pcb per = None \<and> pc_count per = TEST_ITERATIONS \<and> st = None \<and> closes completed p trs \<and>
     drop (length trc - 3) trc = [Unregister q, Close q, Completed 0])"

lemma fair_acks_D: "fair_acks ns \<Longrightarrow> ns \<noteq> [] \<and> 0 \<notin> set ns \<and> sum_list ns = 2048"
  by (auto simp: fair_acks_def)

lemma fair_cut_D: "fair_cut f \<Longrightarrow> B \<noteq> [] \<Longrightarrow> f B \<noteq> [] \<and> [] \<notin> set (f B) \<and> concat (f B) = B"
  unfolding fair_cut_def by (metis concat.simps(1))

text \<open>What the server does when its buffer has come back unchanged.\<close>

lemma test1_check_echoed:
  assumes env: "obliging env" and per: "client_pcb per = Some p" "pc_count per = int k" "k < 10" "pc_recv_len per = 2048"
    and eq: "take_view 2048 (buffer_sent s) = take_view 2048 (buffer_recv s)"
  shows "test1_check env completed rnd per s tr =
    (if k = 9 then Some (ERR_OK, per\<lparr> pc_count := 10, client_pcb := None \<rparr>, s, tr @ (if completed then [Completed 0] else []) @ [Unregister p, Close p])
     else let buf = test1_fill rnd tr (buffer_sent s)
       in Some (ERR_OK, per\<lparr> pc_count := int (k + 1), pc_sent_len := 0 \<rparr>, s\<lparr> buffer_sent := buf \<rparr>, tr @ [Write p (take_view 2048 buf)]))"
proof -
  have "wrap_int (int k + 1) = int (k + 1)" using per(3) by (subst wrap_int_small) auto
  then show ?thesis using assms
    by (auto simp: test1_check_def Let_def tcp_server_send_data_def slot_result_def tcp_server_result_def tcp_close_client_def obliging_def)
qed

lemma client_round:
  assumes env: "obliging env" and f: "fair c" and k: "k < 10" and B: "length B = 2048"
    and cl: "tcp_pcb cl = Some q" "cl_count cl = int k" "cl_recv_len cl = 0" "cl_sent_len cl = 0"
  obtains st1 buf1 trc1 st2 buf2 trc2 where "client_run env q (map Data (cut_client c B)) (Some cl) buf trc = (st1, buf1, trc1)"
    "client_run env q (map Acked (acks_client c)) st1 buf1 trc1 = (st2, buf2, trc2)" "written trc2 = B"
    "if k = 9 then st2 = None \<and> drop (length trc2 - 3) trc2 = [Unregister q, Close q, Completed 0]
     else st2 = Some (cl\<lparr> cl_recv_len := 0, cl_count := int (k + 1), cl_sent_len := 0 \<rparr>)"
proof -
  let ?trc = "trc @ map (\<lambda>d. Recved q (length d)) (cut_client c B) @ [Write q B]"
  have "B \<noteq> []" using B by auto
  then have b: "client_run env q (map Data (cut_client c B)) (Some cl) buf trc = (Some (cl\<lparr> cl_recv_len := 2048 \<rparr>), store buf 0 B, ?trc)"
    using client_echoes [OF env B, of "cut_client c B" 0 cl buf buf] fair_cut_D [of "cut_client c" B] f cl(3) by (simp add: fair_def)
  have d: "client_run env q (map Acked (acks_client c)) (Some (cl\<lparr> cl_recv_len := 2048 \<rparr>)) (store buf 0 B) ?trc =
      (if k = 9 then (None, store buf 0 B, ?trc @ [Unregister q, Close q, Completed 0])
       else (Some (cl\<lparr> cl_recv_len := 0, cl_count := int (k + 1), cl_sent_len := 0 \<rparr>), store buf 0 B, ?trc))"
    using client_acked [of "acks_client c" "cl\<lparr> cl_recv_len := 2048 \<rparr>" 0 env q "store buf 0 B" ?trc] f fair_acks_D [of "acks_client c"] cl k env
    by (auto simp: fair_def tcp_client_result_def tcp_client_close_def obliging_def)
  show ?thesis
  proof (cases "k = 9")
    case True
    show ?thesis by (rule that [OF b d [unfolded if_P [OF True]]]) (use True in \<open>simp_all add: written_def\<close>)
  next
    case False
    show ?thesis by (rule that [OF b d [unfolded if_not_P [OF False]]]) (use False in \<open>simp_all add: written_def\<close>)
  qed
qed

lemma server_round:
  assumes env: "obliging env" and f: "fair c" and k: "k < 10"
    and per: "client_pcb per = Some p" "pc_count per = int k" "pc_recv_len per = 0"
  shows "\<exists>per2 s2 trs2. slot_run (map (\<lambda>d. tcp_server_recv env completed rnd () p (Some d) ERR_OK) (cut_server c (take_view 2048 (buffer_sent s)))) per s trs =
      Some (per2, s2, trs2) \<and>
    (if k = 9 then client_pcb per2 = None \<and> pc_count per2 = 10 \<and> closes completed p trs2
     else client_pcb per2 = Some p \<and> pc_count per2 = int (k + 1) \<and> pc_sent_len per2 = 0 \<and> written trs2 = take_view 2048 (buffer_sent s2))"
proof -
  let ?B = "take_view 2048 (buffer_sent s)"
  let ?cs = "cut_server c ?B"
  let ?tr = "trs @ map (\<lambda>d. Recved p (length d)) ?cs" and ?s = "s\<lparr> buffer_recv := store (buffer_recv s) 0 ?B \<rparr>"
  have "?B \<noteq> []" using length_take_view [of 2048 "buffer_sent s"] by force
  then have e: "slot_run (map (\<lambda>d. tcp_server_recv env completed rnd () p (Some d) ERR_OK) ?cs) per s trs =
      map_option snd (test1_check env completed rnd (per\<lparr> pc_recv_len := 2048 \<rparr>) ?s ?tr)"
    using server_receives [of ?B ?cs 0 per s "buffer_recv s" env completed rnd p trs] fair_cut_D [of "cut_server c" ?B] f per(3) by (simp add: fair_def)
  have "take_view 2048 (store (buffer_recv s) 0 ?B) = ?B" using take_view_store_0 [of ?B 0 "buffer_recv s"] by simp
  then show ?thesis unfolding e using test1_check_echoed [OF env, of "per\<lparr> pc_recv_len := 2048 \<rparr>" p k ?s completed rnd ?tr] per(1,2) k
    by (simp add: Let_def written_snoc closes_def del: map_append flip: append_assoc)
qed

lemma echo_round_step:
  assumes env: "obliging env" and f: "fair c" and k: "k < 10" and rd: "ready p q k ss"
  shows "\<exists>ss1. echo_round env completed rnd p q c ss = Some ss1 \<and> (if k = 9 then succeeded completed p q ss1 else ready p q (k + 1) ss1)"
proof -
  obtain per s trs cl buf trc where ss: "ss = ((per, s, trs), (Some cl, buf, trc))" using rd by (cases ss) (auto simp: ready_def split: option.splits)
  have per: "client_pcb per = Some p" "pc_count per = int k" "pc_sent_len per = 0" "written trs = take_view 2048 (buffer_sent s)"
    and cl: "tcp_pcb cl = Some q" "cl_count cl = int k" "cl_recv_len cl = 0" "cl_sent_len cl = 0" using rd by (auto simp: ss ready_def)
  let ?B = "take_view 2048 (buffer_sent s)" and ?per = "per\<lparr> pc_sent_len := 2048, pc_recv_len := 0 \<rparr>"
  have a: "slot_run (map tcp_server_sent (acks_server c)) per s trs = Some (?per, s, trs)"
    using server_acked [of "acks_server c" per 0] f fair_acks_D per(3) by (auto simp: fair_def)
  obtain st1 buf1 trc1 st2 buf2 trc2 where b: "client_run env q (map Data (cut_client c ?B)) (Some cl) buf trc = (st1, buf1, trc1)"
    "client_run env q (map Acked (acks_client c)) st1 buf1 trc1 = (st2, buf2, trc2)" "written trc2 = ?B"
    "if k = 9 then st2 = None \<and> drop (length trc2 - 3) trc2 = [Unregister q, Close q, Completed 0]
     else st2 = Some (cl\<lparr> cl_recv_len := 0, cl_count := int (k + 1), cl_sent_len := 0 \<rparr>)"
    by (rule client_round [OF env f k _ cl, of ?B buf trc]) simp_all
  obtain per2 s2 trs2 where e: "slot_run (map (\<lambda>d. tcp_server_recv env completed rnd () p (Some d) ERR_OK) (cut_server c ?B)) ?per s trs = Some (per2, s2, trs2)"
    "if k = 9 then client_pcb per2 = None \<and> pc_count per2 = 10 \<and> closes completed p trs2
     else client_pcb per2 = Some p \<and> pc_count per2 = int (k + 1) \<and> pc_sent_len per2 = 0 \<and> written trs2 = take_view 2048 (buffer_sent s2)"
    using server_round [OF env f k, of ?per p completed rnd s trs] per(1,2) by auto
  have "echo_round env completed rnd p q c ss = Some ((per2, s2, trs2), (st2, buf2, trc2))"
    using a b(1-3) e(1) per(4) by (simp add: echo_round_def ss)
  then show ?thesis using b(4) e(2) cl(1) by (auto simp: ready_def succeeded_def split: if_splits)
qed

lemma echo_rounds_succeed:
  assumes "obliging env" "\<forall>c \<in> set cs. fair c" "length cs + k = 10" "cs \<noteq> []" "ready p q k ss"
  shows "\<exists>ss1. echo_rounds env completed rnd p q cs ss = Some ss1 \<and> succeeded completed p q ss1"
  using assms(2-)
proof (induction cs arbitrary: k ss)
  case (Cons c cs)
  have "k < 10" using Cons.prems(2) by simp
  then obtain ss1 where ss1: "echo_round env completed rnd p q c ss = Some ss1" "if k = 9 then succeeded completed p q ss1 else ready p q (k + 1) ss1"
    using echo_round_step [OF assms(1), of c k p q ss completed rnd] Cons.prems(1,4) by auto
  show ?case
  proof (cases "cs = []")
    case False
    then have "k \<noteq> 9" using Cons.prems(2) by auto
    then show ?thesis using Cons.IH [of "k + 1" ss1] ss1 Cons.prems False by simp
  qed (use ss1 Cons.prems(2) in simp)
qed simp

section \<open>The session\<close>

text \<open>
  C11. The echo test succeeds. On a network that takes all data and closes connections, a server slot
  that has just accepted a connection and a client that has just connected go through ten rounds, and
  then both have closed the connection, each with the status of success, and the slot is free. In
  every round the server compares all 2048 bytes, and the bytes and the acknowledgements may arrive in
  any pieces.
\<close>

theorem echo_test_succeeds:
  assumes "obliging env" "length cs = 10" "\<forall>c \<in> set cs. fair c"
    and "client_pcb per = Some p" "pc_count per = 0" "tcp_pcb cl = Some q" "cl_count cl = 0" "cl_recv_len cl = 0" "cl_sent_len cl = 0"
  shows "\<exists>per1 s1 trs1 ss1. tcp_server_test1_accept env completed rnd per s trs = Some (ERR_OK, per1, s1, trs1) \<and>
    echo_rounds env completed rnd p q cs ((per1, s1, trs1), (Some cl, buf, trc)) = Some ss1 \<and> succeeded completed p q ss1"
proof -
  let ?b = "test1_fill rnd trs (buffer_sent s)"
  let ?s = "s\<lparr> buffer_sent := ?b \<rparr>" and ?per = "per\<lparr> pc_sent_len := 0 \<rparr>" and ?tr = "trs @ [Write p (take_view 2048 ?b)]"
  have "tcp_server_test1_accept env completed rnd per s trs = Some (ERR_OK, ?per, ?s, ?tr)"
    using assms(1,4) by (simp add: tcp_server_test1_accept_def tcp_server_send_data_def Let_def obliging_def)
  moreover have "ready p q 0 ((?per, ?s, ?tr), (Some cl, buf, trc))" using assms(4-) by (simp add: ready_def written_snoc)
  moreover have "cs \<noteq> []" using assms(2) by auto
  ultimately show ?thesis using echo_rounds_succeed [OF assms(1,3), of 0 p q] assms(2) by auto
qed

text \<open>Every round in one piece of data and two acknowledgements.\<close>

definition plain_cuts :: cuts where
  "plain_cuts = \<lparr> acks_server = [1000, 1048], acks_client = [2048], cut_server = (\<lambda>xs. if xs = [] then [] else [xs]),
     cut_client = (\<lambda>xs. if xs = [] then [] else [take 1 xs] @ (if tl xs = [] then [] else [tl xs])) \<rparr>"

theorem echo_test_succeeds_witness:
  "\<exists>per1 s1 trs1 ss1.
     tcp_server_test1_accept \<lparr> answer = (\<lambda>_ _. 0), fresh = (\<lambda>_ _. None) \<rparr> True (\<lambda>tr i. of_nat (length tr + i))
       (zero_slot\<lparr> client_pcb := Some 4 \<rparr>) \<lparr> buffer_sent = (\<lambda>_. 0), buffer_recv = (\<lambda>_. 0) \<rparr> [] = Some (ERR_OK, per1, s1, trs1) \<and>
     echo_rounds \<lparr> answer = (\<lambda>_ _. 0), fresh = (\<lambda>_ _. None) \<rparr> True (\<lambda>tr i. of_nat (length tr + i)) 4 7 (replicate 10 plain_cuts)
       ((per1, s1, trs1), (Some (the (tcp_client_init True)\<lparr> tcp_pcb := Some 7 \<rparr>), (\<lambda>_. 0), [])) = Some ss1 \<and> succeeded True 4 7 ss1"
proof (rule echo_test_succeeds)
  have "concat (cut_client plain_cuts xs) = xs \<and> [] \<notin> set (cut_client plain_cuts xs)" for xs :: "byte list"
    by (cases xs) (auto simp: plain_cuts_def)
  then have "fair plain_cuts" by (auto simp: fair_def fair_acks_def fair_cut_def plain_cuts_def)
  then show "\<forall>c \<in> set (replicate 10 plain_cuts). fair c" by simp
qed (simp_all add: obliging_def zero_slot_def tcp_client_init_def)

end
