(* ===== verification/Relay_Control.thy ===== *)
theory Relay_Control
  imports Flash_Io
begin

text \<open>
  \<^verbatim>\<open>relay_control.c\<close> and \<^verbatim>\<open>cgi.c\<close>: the relays of the sprinkler and the requests of the web page that
  switch them, the LED and the flash. The pins belong to the SDK; \<open>'g\<close> is their state.
\<close>

section \<open>The pins\<close>

record 'g gpio_ops =
  gpio_init_mask :: "nat \<Rightarrow> 'g \<Rightarrow> 'g"
  gpio_set_dir_masked :: "nat \<Rightarrow> nat \<Rightarrow> 'g \<Rightarrow> 'g"
  gpio_clr_mask :: "nat \<Rightarrow> 'g \<Rightarrow> 'g"
  gpio_put :: "nat \<Rightarrow> bool \<Rightarrow> 'g \<Rightarrow> 'g"
  gpio_get :: "nat \<Rightarrow> 'g \<Rightarrow> bool"
  led_put :: "bool \<Rightarrow> 'g \<Rightarrow> 'g"
  led_get :: "'g \<Rightarrow> bool"

abbreviation (input) SPRINKLER_RELAY_GPIO :: nat where "SPRINKLER_RELAY_GPIO \<equiv> 22"
abbreviation (input) SPRINKLER_RELAY_GPIOB :: nat where "SPRINKLER_RELAY_GPIOB \<equiv> 21"

definition SPRINKLER_ALL_RELAY_MASK :: nat where
  "SPRINKLER_ALL_RELAY_MASK = 2 ^ SPRINKLER_RELAY_GPIO OR 2 ^ SPRINKLER_RELAY_GPIOB"

definition relay_put :: "'g gpio_ops \<Rightarrow> nat \<Rightarrow> bool \<Rightarrow> 'g \<Rightarrow> 'g" where
  "relay_put go pin dir g = gpio_put go pin dir (gpio_clr_mask go SPRINKLER_ALL_RELAY_MASK g)"

definition relay_init_mask :: "'g gpio_ops \<Rightarrow> 'g \<Rightarrow> 'g" where
  "relay_init_mask go g =
     gpio_clr_mask go SPRINKLER_ALL_RELAY_MASK
       (gpio_set_dir_masked go SPRINKLER_ALL_RELAY_MASK SPRINKLER_ALL_RELAY_MASK (gpio_init_mask go SPRINKLER_ALL_RELAY_MASK g))"

definition relay_get :: "'g gpio_ops \<Rightarrow> nat \<Rightarrow> 'g \<Rightarrow> nat" where
  "relay_get go pin g = (if gpio_get go pin g then 1 else 0)"

section \<open>The requests\<close>

text \<open>
  The parameters of a request, in order: a name and, when there was an equals sign, a value. The
  handlers look at the first one without asking whether there is one; \<^term>\<open>None\<close> is the comparison with
  a string that does not exist.
\<close>

type_synonym cgi_params = "(byte list \<times> byte list option) list"

definition cgi_led_handler :: "'g gpio_ops \<Rightarrow> cgi_params \<Rightarrow> 'g \<Rightarrow> (byte list \<times> 'g) option" where
  "cgi_led_handler go params g = (case params of
     [] \<Rightarrow> None
   | (name, val) # _ \<Rightarrow>
       if name = bytes_of ''led'' then
         (case val of
            None \<Rightarrow> None
          | Some v \<Rightarrow> Some (bytes_of ''/index.shtml'',
              if v = bytes_of ''0'' then led_put go False g else if v = bytes_of ''1'' then led_put go True g else g))
       else Some (bytes_of ''/index.shtml'', g))"

text \<open>Switching one relay by name.\<close>

definition relay_request :: "'g gpio_ops \<Rightarrow> byte list \<Rightarrow> nat \<Rightarrow> byte list \<times> byte list option \<Rightarrow> 'g \<Rightarrow> 'g option" where
  "relay_request go key pin nv g =
     (if fst nv = key then
        (case snd nv of
           None \<Rightarrow> None
         | Some v \<Rightarrow> Some (if v = bytes_of ''0'' then relay_put go pin False g
                          else if v = bytes_of ''1'' then relay_put go pin True g else g))
      else Some g)"

definition cgi_relay_handler :: "'g gpio_ops \<Rightarrow> cgi_params \<Rightarrow> 'g \<Rightarrow> (byte list \<times> 'g) option" where
  "cgi_relay_handler go params g = (case params of
     [] \<Rightarrow> None
   | nv # _ \<Rightarrow> do {
       g1 \<leftarrow> relay_request go (bytes_of ''relay'') SPRINKLER_RELAY_GPIO nv g;
       g2 \<leftarrow> relay_request go (bytes_of ''relay2'') SPRINKLER_RELAY_GPIOB nv g1;
       Some (bytes_of ''/index.shtml'', g2)
     })"

definition cgi_resflash_handler :: "'d flash_dev \<Rightarrow> rb_t \<Rightarrow> cgi_params \<Rightarrow> 'd io_state \<Rightarrow> (byte list \<times> 'd io_state) option" where
  "cgi_resflash_handler dev stk params st = (case params of
     [] \<Rightarrow> None
   | (name, val) # _ \<Rightarrow>
       Some (bytes_of ''/index.shtml'',
         if name = bytes_of ''resflash'' then snd (flash_io_erase_ssids_hostnames dev stk st) else st))"

text \<open>The table of the web server: the handler of a path, on the pins and the flash.\<close>

definition cgi_request ::
    "'g gpio_ops \<Rightarrow> 'd flash_dev \<Rightarrow> rb_t \<Rightarrow> byte list \<Rightarrow> cgi_params \<Rightarrow> 'g \<times> 'd io_state \<Rightarrow> (byte list \<times> 'g \<times> 'd io_state) option" where
  "cgi_request go dev stk path params s =
     (if path = bytes_of ''/led.cgi'' then map_option (\<lambda>(u, g). (u, g, snd s)) (cgi_led_handler go params (fst s))
      else if path = bytes_of ''/relay.cgi'' then map_option (\<lambda>(u, g). (u, g, snd s)) (cgi_relay_handler go params (fst s))
      else if path = bytes_of ''/resflash.cgi'' then map_option (\<lambda>(u, st). (u, fst s, st)) (cgi_resflash_handler dev stk params (snd s))
      else Some (path, s))"

section \<open>One relay at a time\<close>

text \<open>What the SDK documents of the pins: clearing a mask clears exactly its pins, putting a pin sets exactly that one.\<close>

definition gpio_documented :: "'g gpio_ops \<Rightarrow> bool" where
  "gpio_documented go \<longleftrightarrow>
     (\<forall>k m g. gpio_get go k (gpio_clr_mask go m g) = (gpio_get go k g \<and> \<not> bit m k)) \<and>
     (\<forall>k pin d g. gpio_get go k (gpio_put go pin d g) = (if k = pin then d else gpio_get go k g)) \<and>
     (\<forall>k d g. gpio_get go k (led_put go d g) = gpio_get go k g)"

definition relays_on :: "'g gpio_ops \<Rightarrow> 'g \<Rightarrow> nat set" where
  "relays_on go g = {k. bit SPRINKLER_ALL_RELAY_MASK k \<and> gpio_get go k g}"

lemma bit_relay_mask: "bit SPRINKLER_ALL_RELAY_MASK k \<longleftrightarrow> k = 22 \<or> k = 21"
  unfolding SPRINKLER_ALL_RELAY_MASK_def bit_or_iff bit_exp_iff by auto

lemma relays_on_put:
  assumes "gpio_documented go" "bit SPRINKLER_ALL_RELAY_MASK pin"
  shows "relays_on go (relay_put go pin d g) = (if d then {pin} else {})"
  using assms by (auto simp: relays_on_def relay_put_def gpio_documented_def)

lemma relays_on_init: "gpio_documented go \<Longrightarrow> relays_on go (relay_init_mask go g) = {}"
  by (auto simp: relays_on_def relay_init_mask_def gpio_documented_def)

text \<open>The runs of the program: it initialises the relays and then serves requests.\<close>

inductive served :: "'g gpio_ops \<Rightarrow> 'd flash_dev \<Rightarrow> rb_t \<Rightarrow> 'g \<times> 'd io_state \<Rightarrow> bool" for go dev stk where
  booted: "served go dev stk (relay_init_mask go g, st)"
| request: "served go dev stk s \<Longrightarrow> cgi_request go dev stk path params s = Some (u, s') \<Longrightarrow> served go dev stk s'"

lemma relay_request_effect:
  assumes "gpio_documented go" "relay_request go key pin nv g = Some g'" "bit SPRINKLER_ALL_RELAY_MASK pin"
  shows "g' = g \<or> relays_on go g' \<subseteq> {pin}"
  using assms by (auto simp: relay_request_def relays_on_put split: if_splits option.splits)

lemma relay_handler_effect:
  assumes go: "gpio_documented go" and h: "cgi_relay_handler go params g = Some (u, g')"
  shows "g' = g \<or> (\<exists>pin. relays_on go g' \<subseteq> {pin})"
proof -
  obtain nv g1 where "relay_request go (bytes_of ''relay'') 22 nv g = Some g1" "relay_request go (bytes_of ''relay2'') 21 nv g1 = Some g'"
    using h by (auto simp: cgi_relay_handler_def split: list.splits bind_splits)
  then show ?thesis using relay_request_effect [OF go] bit_relay_mask by metis
qed

lemma led_keeps_relays: "gpio_documented go \<Longrightarrow> cgi_led_handler go params g = Some (u, g') \<Longrightarrow> relays_on go g' = relays_on go g"
  by (auto simp: cgi_led_handler_def relays_on_def gpio_documented_def split: list.splits if_splits option.splits)

text \<open>
  C12. Only one relay is on at a time. However the web page is used, in every state after the relays
  have been initialised at most one of the sprinkler's relay pins is high; and a request to switch a
  relay on leaves exactly that one on, a request to switch one off leaves all of them off.
\<close>

theorem one_relay_at_a_time:
  assumes go: "gpio_documented go"
  shows "(served go dev stk (g, st) \<longrightarrow> (\<exists>pin. relays_on go g \<subseteq> {pin})) \<and>
    (\<exists>g1. cgi_relay_handler go ((bytes_of ''relay'', Some (bytes_of ''1'')) # rest) g = Some (bytes_of ''/index.shtml'', g1) \<and> relays_on go g1 = {22}) \<and>
    (\<exists>g2. cgi_relay_handler go ((bytes_of ''relay2'', Some (bytes_of ''1'')) # rest) g = Some (bytes_of ''/index.shtml'', g2) \<and> relays_on go g2 = {21}) \<and>
    (\<exists>g3. cgi_relay_handler go ((bytes_of ''relay'', Some (bytes_of ''0'')) # rest) g = Some (bytes_of ''/index.shtml'', g3) \<and> relays_on go g3 = {})"
proof (intro conjI impI)
  have "\<exists>pin. relays_on go (fst s) \<subseteq> {pin}" if "served go dev stk s" for s
    using that
  proof (induction rule: served.induct)
    case (booted g st)
    then show ?case using relays_on_init [OF go] by simp
  next
    case (request s path params u s')
    then consider "fst s' = fst s" | u g where "cgi_led_handler go params (fst s) = Some (u, g)" "fst s' = g"
      | u g where "cgi_relay_handler go params (fst s) = Some (u, g)" "fst s' = g"
      by (auto simp: cgi_request_def split: if_splits)
    then show ?case by cases (use request.IH led_keeps_relays [OF go] relay_handler_effect [OF go] in \<open>fastforce+\<close>)
  qed
  then show "\<exists>pin. relays_on go g \<subseteq> {pin}" if "served go dev stk (g, st)" using that by fastforce
qed (auto simp: cgi_relay_handler_def relay_request_def relays_on_put [OF go] bit_relay_mask bytes_of_def)

text \<open>Pins kept as the set of those that are high.\<close>

definition pin_set :: "(nat set \<times> bool) gpio_ops" where
  "pin_set = \<lparr> gpio_init_mask = (\<lambda>m (s, l). (s - {k. bit m k}, l)), gpio_set_dir_masked = (\<lambda>m v g. g),
     gpio_clr_mask = (\<lambda>m (s, l). (s - {k. bit m k}, l)), gpio_put = (\<lambda>p d (s, l). (if d then insert p s else s - {p}, l)),
     gpio_get = (\<lambda>p g. p \<in> fst g), led_put = (\<lambda>d g. (fst g, d)), led_get = snd \<rparr>"

theorem one_relay_at_a_time_witness:
  "\<exists>g1. cgi_relay_handler pin_set [(bytes_of ''relay2'', Some (bytes_of ''1''))] ({22, 3}, False) = Some (bytes_of ''/index.shtml'', g1) \<and>
     relays_on pin_set g1 = {21}"
proof -
  have "gpio_documented pin_set" by (auto simp: gpio_documented_def pin_set_def split: prod.split)
  then show ?thesis using one_relay_at_a_time [of pin_set undefined undefined "({22, 3}, False)" undefined "[]"] by blast
qed

end
