(* ===== verification/Ssi.thy ===== *)
theory Ssi
  imports Json_Sync Relay_Control
begin

text \<open>
  \<^verbatim>\<open>ssi.c\<close>: the texts the web server inserts into its pages. The configuration tree is longer than one
  insertion, so the server asks for it part by part. The texts that come from the clock and the
  analogue converter are formatted by the SDK and the C library; they are fields of \<open>ssi_env\<close>.
\<close>

datatype ssi_tag = Dtime | Host | Volt | Relay | Temp | Led | U_cnt | Json

definition ssi_tags_name :: "ssi_tag list" where
  "ssi_tags_name = [Dtime, Host, Volt, Relay, Temp, Led, U_cnt, Json]"

record 'g ssi_env =
  datetime_text :: "nat \<Rightarrow> byte list"
  volt_text :: "byte list"
  temp_text :: "byte list"
  pins :: "'g gpio_ops"
  pin_state :: 'g

text \<open>\<^verbatim>\<open>snprintf\<close> returns the length of the whole text even when it is cut; nothing is written when there is no room at all.\<close>

definition snprintf_at :: "view \<Rightarrow> nat \<Rightarrow> int \<Rightarrow> byte list \<Rightarrow> view" where
  "snprintf_at v off room s = (if room \<le> 0 then v else store v off (take (nat room - 1) s @ [0]))"

text \<open>\<^verbatim>\<open>ffs\<close>: one more than the number of trailing zero bits.\<close>

fun ffs :: "nat \<Rightarrow> nat" where
  "ffs n = (if n = 0 then 0 else if odd n then 1 else 1 + ffs (n div 2))"

declare ffs.simps [simp del]

lemma ffs_pos: "0 < n \<Longrightarrow> 0 < ffs n"
  by (subst ffs.simps) simp

text \<open>The loop over the relays.\<close>

function relay_loop :: "'g gpio_ops \<Rightarrow> 'g \<Rightarrow> nat \<Rightarrow> nat \<Rightarrow> int \<Rightarrow> nat \<Rightarrow> view \<Rightarrow> nat \<times> view" where
  "relay_loop go g relay_list last_pin iInsertLen printed v =
     (if relay_list = 0 then (printed, v)
      else let pin_offset = ffs relay_list;
               last_pin1 = last_pin + pin_offset;
               s = dec_nat (relay_get go (last_pin1 - 1) g) @ [0x20]
           in relay_loop go g (drop_bit pin_offset relay_list) last_pin1 iInsertLen (printed + length s)
                (snprintf_at v printed (iInsertLen - int printed) s))"
  by pat_completeness auto
termination
  by (relation "measure (\<lambda>(go, g, relay_list, r). relay_list)") (auto simp: drop_bit_eq_div ffs_pos one_less_power intro!: div_less_dividend simp flip: One_nat_def)

declare relay_loop.simps [simp del]

text \<open>
  The part of the handler for the tree, on the device: the length of the part, the insertion buffer,
  the next part, and the device. \<open>HTTPD_LAST_TAG_PART\<close> is what the server stores in
  \<^verbatim>\<open>next_tag_part\<close> before the call. First the copying, once \<^verbatim>\<open>remlen\<close> is known.
\<close>

abbreviation (input) HTTPD_LAST_TAG_PART :: nat where "HTTPD_LAST_TAG_PART \<equiv> 0xffff"

definition json_chunk :: "nat \<Rightarrow> int \<Rightarrow> view \<Rightarrow> view \<Rightarrow> int \<Rightarrow> (int \<times> view \<times> nat) option" where
  "json_chunk current_tag_part iInsertLen pcInsert buf remlen =
     (let v = (if remlen > iInsertLen - 1 then store pcInsert (nat (iInsertLen - 1)) [0] else pcInsert);
          thischunk = (if remlen > iInsertLen - 1 then iInsertLen - 1 else remlen);
          sofar = wrap_int (int (hdr_size buf) - int HDR_SIZE - remlen)
      in if thischunk < 0 \<or> sofar < 0 then None
         else Some (thischunk, store v 0 (take_view (nat thischunk) (advance buf (HDR_SIZE + nat sofar))),
                    if thischunk \<ge> iInsertLen - 1 then (current_tag_part + 1) mod 2 ^ 16 else HTTPD_LAST_TAG_PART))"

definition ssi_json ::
    "'f dbl_ops \<Rightarrow> byte list \<Rightarrow> mem \<Rightarrow> nat \<Rightarrow> int \<Rightarrow> 'f device \<Rightarrow> view \<Rightarrow> (int \<times> view \<times> nat \<times> 'f device) option" where
  "ssi_json fo host m current_tag_part iInsertLen dev pcInsert =
     (if current_tag_part = 0 then do {
        (good, mir, buf) \<leftarrow> json_prep_get_counter_value fo host (dev_mirror dev) m (json_buffer dev);
        (n, v, next_part) \<leftarrow> json_chunk current_tag_part iInsertLen pcInsert buf
                              (if good \<ge> 0 then wrap_int (int (hdr_size buf) - int HDR_SIZE) else 0);
        Some (n, v, next_part, \<lparr> dev_mirror = mir, json_buffer = buf \<rparr>)
      }
      else do {
        (n, v, next_part) \<leftarrow> json_chunk current_tag_part iInsertLen pcInsert (json_buffer dev)
                              (wrap_int (wrap_int (int (hdr_size (json_buffer dev)) - int HDR_SIZE) - int current_tag_part * (iInsertLen - 1)));
        Some (n, v, next_part, dev)
      })"

definition ssi_handler ::
    "'g ssi_env \<Rightarrow> 'f dbl_ops \<Rightarrow> byte list \<Rightarrow> mem \<Rightarrow> int \<Rightarrow> view \<Rightarrow> int \<Rightarrow> nat \<Rightarrow> 'f device \<Rightarrow> (nat \<times> view \<times> nat \<times> 'f device) option" where
  "ssi_handler env fo host m iIndex pcInsert iInsertLen current_tag_part dev =
     (let plain = (\<lambda>s. Some (length s mod 2 ^ 16, snprintf_at pcInsert 0 iInsertLen s, HTTPD_LAST_TAG_PART, dev))
      in if iIndex < 0 \<or> int (length ssi_tags_name) \<le> iIndex then Some (0, pcInsert, HTTPD_LAST_TAG_PART, dev)
         else case ssi_tags_name ! nat iIndex of
           Dtime \<Rightarrow> let s = datetime_text env (nat iInsertLen)
                    in Some (length s mod 2 ^ 16, store pcInsert 0 (s @ [0]), HTTPD_LAST_TAG_PART, dev)
         | Host \<Rightarrow> plain host
         | Volt \<Rightarrow> plain (volt_text env)
         | Relay \<Rightarrow>
             let (printed, v) = relay_loop (pins env) (pin_state env) SPRINKLER_ALL_RELAY_MASK 0 iInsertLen 0 pcInsert
             in if printed = 0 then plain (bytes_of ''No Relays Defined '')
                else Some (printed mod 2 ^ 16, v, HTTPD_LAST_TAG_PART, dev)
         | Temp \<Rightarrow> plain (temp_text env)
         | Led \<Rightarrow> plain (if led_get (pins env) (pin_state env) then bytes_of ''ON'' else bytes_of ''OFF'')
         | U_cnt \<Rightarrow>
             let mir = map_option (inc_mirror_counter fo) (dev_mirror dev);
                 (count, mir1, m1) = get_mirror_update_count fo host mir m;
                 s = dec_int count
             in Some (length s mod 2 ^ 16, snprintf_at pcInsert 0 iInsertLen s, HTTPD_LAST_TAG_PART, dev\<lparr> dev_mirror := mir1 \<rparr>)
         | Json \<Rightarrow> do {
             (printed, v, next_part, dev1) \<leftarrow> ssi_json fo host m current_tag_part iInsertLen dev pcInsert;
             Some (nat (printed mod 2 ^ 16), v, next_part, dev1)
           })"

section \<open>The parts of the tree\<close>

text \<open>The server asks for parts until no next one is announced, and puts them one behind the other.\<close>

partial_function (option) page_text ::
    "'g ssi_env \<Rightarrow> 'f dbl_ops \<Rightarrow> byte list \<Rightarrow> mem \<Rightarrow> int \<Rightarrow> int \<Rightarrow> nat \<Rightarrow> view \<Rightarrow> 'f device \<Rightarrow> byte list \<Rightarrow> (byte list \<times> 'f device) option" where
  "page_text env fo host m iIndex iInsertLen part v dev acc = do {
     (printed, v1, next_part, dev1) \<leftarrow> ssi_handler env fo host m iIndex v iInsertLen part dev;
     let acc1 = acc @ take_view printed v1;
     if next_part = HTTPD_LAST_TAG_PART then Some (acc1, dev1)
     else page_text env fo host m iIndex iInsertLen next_part v1 dev1 acc1
   }"

text \<open>A buffer that holds the text of a tree behind its header.\<close>

definition holds_text :: "byte list \<Rightarrow> view \<Rightarrow> bool" where
  "holds_text r buf \<longleftrightarrow> hdr_size buf = length r + HDR_SIZE \<and> take_view (length r) (advance buf HDR_SIZE) = r"

lemma holds_text_slice:
  assumes "holds_text r buf" "a + n \<le> length r"
  shows "take_view n (advance buf (HDR_SIZE + a)) = take n (drop a r)"
proof (rule nth_equalityI)
  fix i assume "i < length (take_view n (advance buf (HDR_SIZE + a)))"
  then have "a + i < length r" "i < n" using assms(2) by simp_all
  then show "take_view n (advance buf (HDR_SIZE + a)) ! i = take n (drop a r) ! i"
    using assms nth_take_view [of "a + i" "length r" "advance buf 12"] by (simp add: holds_text_def add.assoc)
qed (use assms in simp)

lemma json_chunk_text:
  assumes h: "holds_text r buf" and l: "length r < 2 ^ 15" and a: "a \<le> length r"
  shows "\<exists>v1. json_chunk k (int c + 1) v buf (int (length r - a)) =
      Some (int (min c (length r - a)), v1, if c \<le> length r - a then (k + 1) mod 2 ^ 16 else HTTPD_LAST_TAG_PART) \<and>
    take_view (min c (length r - a)) v1 = take c (drop a r)"
proof -
  let ?n = "min c (length r - a)"
  have "a + ?n \<le> length r" using a by simp
  moreover have "take ?n (drop a r) = take c (drop a r)" by (simp add: min_def)
  ultimately have e: "take_view ?n (advance buf (HDR_SIZE + a)) = take c (drop a r)" using holds_text_slice [OF h, of a ?n] by simp
  have w: "wrap_int (int (hdr_size buf) - int HDR_SIZE - int (length r - a)) = int a"
    using h a l by (subst wrap_int_small) (auto simp: holds_text_def of_nat_diff)
  let ?v = "if int (length r - a) > int c then store v c [0] else v"
  have "(if int (length r - a) > int c then int c else int (length r - a)) = int ?n" by auto
  then have "json_chunk k (int c + 1) v buf (int (length r - a)) = Some (int ?n, store ?v 0 (take c (drop a r)),
      if c \<le> length r - a then (k + 1) mod 2 ^ 16 else HTTPD_LAST_TAG_PART)"
    unfolding json_chunk_def w using e by (cases "c < length r - a") (auto simp: Let_def min_def)
  moreover have "take_view ?n (store ?v 0 (take c (drop a r))) = take c (drop a r)"
    using take_view_store_0 [of "take c (drop a r)" 0 ?v] by (simp add: min.commute)
  ultimately show ?thesis by blast
qed

text \<open>The result of one part, for the first after the text has been prepared and for the others at once.\<close>

lemma ssi_json_part:
  assumes h: "holds_text r (json_buffer dev1)" and l: "length r < 2 ^ 15" and k: "k * c \<le> length r"
    and p: "if k = 0 then json_prep_get_counter_value fo host (dev_mirror dev) m (json_buffer dev) = Some (good, dev_mirror dev1, json_buffer dev1) \<and> good \<ge> 0
        else dev = dev1"
  shows "\<exists>v1. ssi_json fo host m k (int c + 1) dev v =
      Some (int (min c (length r - k * c)), v1, if c \<le> length r - k * c then (k + 1) mod 2 ^ 16 else HTTPD_LAST_TAG_PART, dev1) \<and>
    take_view (min c (length r - k * c)) v1 = take c (drop (k * c) r)"
proof -
  have hs: "int (hdr_size (json_buffer dev1)) - 12 = int (length r)" using h by (simp add: holds_text_def)
  have w: "wrap_int (int (length r)) = int (length r)" using l by (simp add: wrap_int_small)
  have i: "int (length r) - int k * int c = int (length r - k * c)" using k by (simp add: of_nat_diff)
  have w2: "wrap_int (int (length r) - int k * int c) = int (length r - k * c)"
    unfolding i by (rule wrap_int_small) (use l in auto)
  show ?thesis
  proof (cases "k = 0")
    case True
    then show ?thesis using json_chunk_text [OF h l, of 0 0 c v] p hs w by (auto simp: ssi_json_def)
  next
    case False
    then show ?thesis using json_chunk_text [OF h l k, of k c v] p by (auto simp: ssi_json_def hs w w2)
  qed
qed

lemma page_text_parts:
  assumes h: "holds_text r (json_buffer dev1)" and l: "length r < 2 ^ 15" and c: "0 < c" and k: "k * c \<le> length r"
    and p: "if k = 0 then json_prep_get_counter_value fo host (dev_mirror dev) m (json_buffer dev) = Some (good, dev_mirror dev1, json_buffer dev1) \<and> good \<ge> 0
        else dev = dev1"
  shows "page_text env fo host m 7 (int c + 1) k v dev acc = Some (acc @ drop (k * c) r, dev1)"
  using k p
proof (induction "length r - k * c" arbitrary: k v dev acc rule: less_induct)
  case less
  let ?n = "min c (length r - k * c)"
  obtain v1 where v1: "ssi_json fo host m k (int c + 1) dev v =
      Some (int ?n, v1, if c \<le> length r - k * c then (k + 1) mod 2 ^ 16 else HTTPD_LAST_TAG_PART, dev1)"
    "take_view ?n v1 = take c (drop (k * c) r)" using ssi_json_part [OF h l less.prems] by blast
  have n: "nat (int ?n mod 2 ^ 16) = ?n" using l by simp
  have "k \<le> k * c" using c by simp
  then have "k < 2 ^ 15" using less.prems(1) l by linarith
  then have kk: "(k + 1) mod 2 ^ 16 = k + 1" "k + 1 \<noteq> 0xffff" by simp_all
  have s: "ssi_handler env fo host m 7 v (int c + 1) k dev =
      Some (?n, v1, if c \<le> length r - k * c then k + 1 else HTTPD_LAST_TAG_PART, dev1)"
    using v1(1) n kk(1) by (simp add: ssi_handler_def ssi_tags_name_def)
  show ?case
  proof (cases "c \<le> length r - k * c")
    case True
    then have "(k + 1) * c \<le> length r" "length r - (k + 1) * c < length r - k * c" using c less.prems(1) by simp_all
    then have "page_text env fo host m 7 (int c + 1) (k + 1) v1 dev1 (acc @ take c (drop (k * c) r)) =
        Some ((acc @ take c (drop (k * c) r)) @ drop ((k + 1) * c) r, dev1)" by (intro less.hyps) auto
    moreover have "take c (drop (k * c) r) @ drop ((k + 1) * c) r = drop (k * c) r"
      using append_take_drop_id [of c "drop (k * c) r"] by (simp add: add.commute)
    ultimately show ?thesis using s v1(2) True kk(2) by (subst page_text.simps) (simp add: min_def)
  next
    case False
    then show ?thesis using s v1(2) by (subst page_text.simps) (simp add: min_def)
  qed
qed

text \<open>
  C10. The page shows the whole configuration. When the web server asks for the parts of the tag
  \<^verbatim>\<open>json\<close> until there is no further one, with any insertion length from 2 on, the parts put together are
  exactly the JSON text of the tree, also when the text is a multiple of a part; the tree is unchanged.
\<close>

theorem page_shows_tree:
  assumes "sendable fo t" "2 \<le> n"
  shows "\<exists>buf. page_text env fo host m 7 (int n) 0 v \<lparr> dev_mirror = Some t, json_buffer = b \<rparr> [] =
    Some (render fo False 0 t, \<lparr> dev_mirror = Some t, json_buffer = buf \<rparr>)"
proof -
  let ?r = "render fo False 0 t"
  obtain buf where buf: "json_prep_get_counter_value fo host (Some t) m b = Some (update_count (Some t), Some t, buf)"
    "take_view (length (message fo t)) buf = message fo t" using prep_message [OF assms(1)] by blast
  have l: "length (message fo t) = 12 + length ?r" by (simp add: length_message)
  have "take_view 12 buf @ take_view (length ?r) (advance buf 12) = message fo t"
    using buf(2) take_view_append [of 12 "length ?r" buf] unfolding l by simp
  then have "take_view (length ?r) (advance buf 12) = drop 12 (message fo t)" by (metis append_eq_conv_conj length_take_view)
  then have h: "holds_text ?r buf"
    using message_fields(3) [OF assms(1)] sendable_message_hdr(1) [OF assms(1) buf(2)] l by (simp add: holds_text_def)
  have s: "length ?r < 2 ^ 15" "0 \<le> update_count (Some t)" using assms(1) by (simp_all add: sendable_def)
  have "page_text env fo host m 7 (int (n - 1) + 1) 0 v \<lparr> dev_mirror = Some t, json_buffer = b \<rparr> [] =
      Some ([] @ drop (0 * (n - 1)) ?r, \<lparr> dev_mirror = Some t, json_buffer = buf \<rparr>)"
    by (rule page_text_parts) (use h s buf(1) assms(2) in auto)
  then show ?thesis using assms(2) by (simp add: of_nat_diff)
qed

definition blank_env :: "(nat set \<times> bool) ssi_env" where
  "blank_env = \<lparr> datetime_text = (\<lambda>_. []), volt_text = [], temp_text = [], pins = pin_set, pin_state = ({}, False) \<rparr>"

theorem page_shows_tree_witness:
  "\<exists>buf. page_text blank_env int_ops [] [] 7 6 0 (\<lambda>_. 0) \<lparr> dev_mirror = Some (counted 2), json_buffer = (\<lambda>_. 0) \<rparr> [] =
       Some (render int_ops False 0 (counted 2), \<lparr> dev_mirror = Some (counted 2), json_buffer = buf \<rparr>)"
proof -
  have "sendable int_ops (counted 2)" by (rule sendable_counted) simp
  from page_shows_tree [OF this, of 6 blank_env] show ?thesis by simp
qed

end
