(* ===== verification/Cdll.thy ===== *)
theory Cdll
  imports Prelude
begin

text \<open>
  The circular doubly linked lists of \<^verbatim>\<open>cdll.c\<close>. A node is an address, and the heap of nodes is
  the pair of maps that its two pointer fields make. Every operation is the sequence of stores
  the code performs, so a call whose nodes coincide has the effect it has in C. The second
  part relates a heap to the sequence of nodes behind a list head, and shows what each
  operation does to that sequence.
\<close>

section \<open>Nodes and operations\<close>

type_synonym addr = nat

record cdll =
  nxt :: "addr \<Rightarrow> addr"
  prv :: "addr \<Rightarrow> addr"

definition set_next :: "addr \<Rightarrow> addr \<Rightarrow> cdll \<Rightarrow> cdll" where
  "set_next p v h = h\<lparr> nxt := (nxt h)(p := v) \<rparr>"

definition set_prev :: "addr \<Rightarrow> addr \<Rightarrow> cdll \<Rightarrow> cdll" where
  "set_prev p v h = h\<lparr> prv := (prv h)(p := v) \<rparr>"

definition cdll_empty :: "cdll \<Rightarrow> addr \<Rightarrow> bool" where
  "cdll_empty h head \<longleftrightarrow> head = nxt h head"

definition cdll_init :: "addr \<Rightarrow> cdll \<Rightarrow> cdll" where
  "cdll_init listhead h = set_prev listhead listhead (set_next listhead listhead h)"

definition cdll_add_node :: "addr \<Rightarrow> addr \<Rightarrow> addr \<Rightarrow> cdll \<Rightarrow> cdll" where
  "cdll_add_node new prev nextn h =
     (let h1 = set_prev nextn new h;
          h2 = set_next new nextn h1;
          h3 = set_prev new prev h2
      in set_next prev new h3)"

definition cdll_insert_node_head :: "addr \<Rightarrow> addr \<Rightarrow> cdll \<Rightarrow> cdll" where
  "cdll_insert_node_head newnode head h = cdll_add_node newnode head (nxt h head) h"

definition cdll_insert_node_tail :: "addr \<Rightarrow> addr \<Rightarrow> cdll \<Rightarrow> cdll" where
  "cdll_insert_node_tail newnode head h = cdll_add_node newnode (prv h head) head h"

definition cdll_delete_node :: "addr \<Rightarrow> cdll \<Rightarrow> cdll" where
  "cdll_delete_node l h =
     (let h1 = set_next (prv h l) (nxt h l) h;
          h2 = set_prev (nxt h1 l) (prv h1 l) h1
      in cdll_init l h2)"

definition cdll_swap_nodes :: "addr \<Rightarrow> addr \<Rightarrow> cdll \<Rightarrow> cdll" where
  "cdll_swap_nodes oldfirst newfirst h =
     (if oldfirst \<noteq> newfirst then cdll_insert_node_tail newfirst oldfirst (cdll_delete_node newfirst h) else h)"

text \<open>
  The loops \<^verbatim>\<open>cdll_for_each\<close> and \<^verbatim>\<open>cdll_for_each_rev\<close> whose body may leave the surrounding
  function: \<open>step\<close> is the pointer field they follow, the body answers \<^term>\<open>Some r\<close> when it
  returns \<open>r\<close>. The result is \<^term>\<open>Some None\<close> when the loop runs to its end, and \<^term>\<open>None\<close>
  when it never does.
\<close>

partial_function (option) for_each_from ::
    "(addr \<Rightarrow> addr) \<Rightarrow> (addr \<Rightarrow> 'r option) \<Rightarrow> addr \<Rightarrow> addr \<Rightarrow> 'r option option" where
  "for_each_from step body pos head =
     (if pos = head then Some None
      else case body pos of
        Some r \<Rightarrow> Some (Some r)
      | None \<Rightarrow> for_each_from step body (step pos) head)"

definition cdll_for_each :: "cdll \<Rightarrow> (addr \<Rightarrow> 'r option) \<Rightarrow> addr \<Rightarrow> 'r option option" where
  "cdll_for_each h body head = for_each_from (nxt h) body (nxt h head) head"

definition cdll_for_each_rev :: "cdll \<Rightarrow> (addr \<Rightarrow> 'r option) \<Rightarrow> addr \<Rightarrow> 'r option option" where
  "cdll_for_each_rev h body head = for_each_from (prv h) body (prv h head) head"

section \<open>The sequence behind a list head\<close>

fun linked :: "cdll \<Rightarrow> addr list \<Rightarrow> bool" where
  "linked h (a # b # r) \<longleftrightarrow> nxt h a = b \<and> prv h b = a \<and> linked h (b # r)"
| "linked h _ \<longleftrightarrow> True"

definition cdll_list :: "cdll \<Rightarrow> addr \<Rightarrow> addr list \<Rightarrow> bool" where
  "cdll_list h head xs \<longleftrightarrow> distinct (head # xs) \<and> linked h (head # xs @ [head])"

named_theorems heap_simps \<open>what a store into a node leaves in the pointer fields\<close>

lemma nxt_set_next [heap_simps]: "nxt (set_next p v h) q = (if q = p then v else nxt h q)"
  and nxt_set_prev [heap_simps]: "nxt (set_prev p v h) q = nxt h q"
  and prv_set_next [heap_simps]: "prv (set_next p v h) q = prv h q"
  and prv_set_prev [heap_simps]: "prv (set_prev p v h) q = (if q = p then v else prv h q)"
  by (simp_all add: set_next_def set_prev_def)

lemma linked_join: "linked h (xs @ a # ys) \<longleftrightarrow> linked h (xs @ [a]) \<and> linked h (a # ys)"
proof (induction xs)
  case Nil
  show ?case by simp
next
  case (Cons x xs)
  then show ?case by (cases xs) auto
qed

lemma linked_cong:
  assumes "\<And>x. x \<in> set (butlast l) \<Longrightarrow> nxt h' x = nxt h x"
    and "\<And>x. x \<in> set (tl l) \<Longrightarrow> prv h' x = prv h x"
  shows "linked h' l = linked h l"
  using assms
proof (induction l rule: linked.induct [of "\<lambda>h l. _ l", case_names step])
  case (step h a b r)
  then show ?case by (cases r) auto
qed simp_all

lemma linked_split:
  "linked h (xs @ a # b # ys) \<longleftrightarrow> linked h (xs @ [a]) \<and> nxt h a = b \<and> prv h b = a \<and> linked h (b # ys)"
  using linked_join [of h xs a "b # ys"] by simp

lemma cdll_list_distinct: "cdll_list h head xs \<Longrightarrow> distinct (head # xs)"
  by (simp add: cdll_list_def)

lemma cdll_list_frame:
  assumes "cdll_list h head xs" "\<And>x. x \<in> set (head # xs) \<Longrightarrow> nxt h' x = nxt h x \<and> prv h' x = prv h x"
  shows "cdll_list h' head xs"
proof -
  have "linked h' (head # xs @ [head]) = linked h (head # xs @ [head])"
    by (rule linked_cong) (use assms(2) in \<open>auto dest: in_set_butlastD\<close>)
  with assms(1) show ?thesis by (simp add: cdll_list_def)
qed

lemma cdll_list_at:
  assumes "cdll_list h head (xs @ ys)"
  shows "nxt h (last (head # xs)) = hd (ys @ [head]) \<and> prv h (hd (ys @ [head])) = last (head # xs)"
proof -
  obtain us where us: "head # xs = us @ [last (head # xs)]" by (metis append_butlast_last_id list.distinct(1))
  obtain vs where vs: "ys @ [head] = hd (ys @ [head]) # vs" by (cases ys) auto
  have "(head # xs) @ (ys @ [head]) = us @ last (head # xs) # hd (ys @ [head]) # vs"
    by (subst us, subst vs) simp
  then have "linked h (us @ last (head # xs) # hd (ys @ [head]) # vs)"
    using assms by (simp add: cdll_list_def)
  then show ?thesis by (simp only: linked_split simp_thms)
qed

lemma cdll_empty_iff: "cdll_list h head xs \<Longrightarrow> cdll_empty h head \<longleftrightarrow> xs = []"
  using cdll_list_at [of h head "[]" xs] by (cases xs) (auto simp: cdll_empty_def cdll_list_def)

lemma cdll_init_list: "cdll_list (cdll_init p h) p []"
  by (simp add: cdll_list_def cdll_init_def heap_simps)

text \<open>A sequence of linked nodes is joined to another by the two pointers in between.\<close>

lemma cdll_list_halves:
  "cdll_list h head (xs @ ys) \<longleftrightarrow>
     distinct (head # xs @ ys) \<and> linked h (head # xs) \<and> linked h (ys @ [head]) \<and>
     nxt h (last (head # xs)) = hd (ys @ [head]) \<and> prv h (hd (ys @ [head])) = last (head # xs)"
proof -
  obtain us p where us: "head # xs = us @ [p]" by (metis append_butlast_last_id list.distinct(1))
  obtain n vs where vs: "ys @ [head] = n # vs" by (cases ys) auto
  have p: "last (head # xs) = p" by (simp only: us) simp
  have n: "hd (ys @ [head]) = n" by (simp only: vs) simp
  have "head # (xs @ ys) @ [head] = us @ p # n # vs" using us vs by simp
  then show ?thesis by (simp only: cdll_list_def p n us vs linked_split) auto
qed

lemma add_node_list:
  assumes l: "cdll_list h head (xs @ ys)" and new: "new \<notin> set (head # xs @ ys)"
  shows "cdll_list (cdll_add_node new (last (head # xs)) (hd (ys @ [head])) h) head (xs @ new # ys)"
proof -
  let ?p = "last (head # xs)" and ?n = "hd (ys @ [head])"
  let ?h = "cdll_add_node new ?p ?n h"
  have d: "distinct (head # xs @ ys)" and l1: "linked h (head # xs)" and l2: "linked h (ys @ [head])"
    using l by (auto simp: cdll_list_halves)
  have p: "?p \<in> set (head # xs)" "?p \<notin> set ys" "?p \<notin> set (butlast (head # xs))"
    using d last_in_set [of "head # xs"] by (auto simp: distinct_butlast dest: in_set_butlastD split: if_splits)
      (metis append_butlast_last_id distinct_append disjoint_iff last_in_set list.set_intros(1))+
  have n: "?n \<notin> set xs" "?n \<notin> set (tl (ys @ [head]))" "?n \<in> set (ys @ [head])"
    using d by (cases ys; auto)+
  have t: "set (tl (ys @ [head])) \<subseteq> set (head # ys)" "set (butlast (ys @ [head])) = set ys"
    by (cases ys; auto)+
  have "linked ?h (head # xs) = linked h (head # xs)"
    by (rule linked_cong) (use p n new in \<open>auto simp: cdll_add_node_def Let_def heap_simps dest: in_set_butlastD\<close>)
  moreover have "linked ?h (ys @ [head]) = linked h (ys @ [head])"
    by (rule linked_cong) (use p n t new in \<open>auto simp: cdll_add_node_def Let_def heap_simps\<close>)
  moreover have "nxt ?h ?p = new" "prv ?h new = ?p" "nxt ?h new = ?n" "prv ?h ?n = new"
    using p n new by (auto simp: cdll_add_node_def Let_def heap_simps)
  moreover have "linked ?h (new # ys @ [head]) \<longleftrightarrow> nxt ?h new = ?n \<and> prv ?h ?n = new \<and> linked ?h (ys @ [head])"
    by (cases ys) auto
  ultimately show ?thesis using d new l1 l2 by (simp add: cdll_list_halves)
qed

lemma insert_head_list:
  "cdll_list h head xs \<Longrightarrow> new \<notin> set (head # xs) \<Longrightarrow> cdll_list (cdll_insert_node_head new head h) head (new # xs)"
  using add_node_list [of h head "[]" xs new] cdll_list_at [of h head "[]" xs]
  by (simp add: cdll_insert_node_head_def)

lemma insert_tail_list:
  "cdll_list h head xs \<Longrightarrow> new \<notin> set (head # xs) \<Longrightarrow> cdll_list (cdll_insert_node_tail new head h) head (xs @ [new])"
  using add_node_list [of h head xs "[]" new] cdll_list_at [of h head xs "[]"]
  by (simp add: cdll_insert_node_tail_def)

text \<open>Inserting at the tail of a node inside a list puts the new node before it.\<close>

lemma insert_before_list:
  "cdll_list h head (xs @ a # ys) \<Longrightarrow> new \<notin> set (head # xs @ a # ys) \<Longrightarrow>
     cdll_list (cdll_insert_node_tail new a h) head (xs @ new # a # ys)"
  using add_node_list [of h head xs "a # ys" new] cdll_list_at [of h head xs "a # ys"]
  by (simp add: cdll_insert_node_tail_def)

lemma delete_list:
  assumes l: "cdll_list h head (xs @ n # ys)"
  shows "cdll_list (cdll_delete_node n h) head (xs @ ys)"
proof -
  let ?p = "last (head # xs)" and ?m = "hd (ys @ [head])"
  let ?h = "cdll_delete_node n h"
  have d: "distinct (head # xs @ n # ys)" and l1: "linked h (head # xs)" and l2: "linked h (ys @ [head])"
    and pn: "prv h n = ?p" "nxt h n = ?m"
    using l cdll_list_halves [of h head "xs @ [n]" ys] by (auto simp: cdll_list_halves [of h head xs "n # ys"])
  have p: "?p \<noteq> n" "?p \<notin> set ys" "?p \<notin> set (butlast (head # xs))"
    using d last_in_set [of "head # xs"]
    by (auto simp: distinct_butlast dest: in_set_butlastD split: if_splits)
      (metis append_butlast_last_id distinct_append disjoint_iff last_in_set list.set_intros(1))+
  have m: "?m \<noteq> n" "?m \<notin> set xs" "?m \<notin> set (tl (ys @ [head]))"
    using d by (cases ys; auto)+
  have t: "set (tl (ys @ [head])) \<subseteq> set (head # ys)" "set (butlast (ys @ [head])) = set ys"
    by (cases ys; auto)+
  have e: "?h = cdll_init n (set_prev ?m ?p (set_next ?p ?m h))"
    using p by (simp add: cdll_delete_node_def Let_def heap_simps pn)
  have "linked ?h (head # xs) = linked h (head # xs)"
    by (rule linked_cong) (use p m d in \<open>auto simp: e cdll_init_def heap_simps dest: in_set_butlastD\<close>)
  moreover have "linked ?h (ys @ [head]) = linked h (ys @ [head])"
    by (rule linked_cong) (use p m t d in \<open>auto simp: e cdll_init_def heap_simps\<close>)
  moreover have "nxt ?h ?p = ?m" "prv ?h ?m = ?p"
    using p m by (auto simp: e cdll_init_def heap_simps)
  ultimately show ?thesis using d l1 l2 by (simp add: cdll_list_halves)
qed

lemma delete_single: "cdll_list (cdll_delete_node n h) n []"
  by (simp add: cdll_delete_node_def Let_def cdll_init_list)

text \<open>Exchanging a node with the one behind it.\<close>

lemma swap_list:
  assumes l: "cdll_list h head (xs @ a # b # ys)"
  shows "cdll_list (cdll_swap_nodes a b h) head (xs @ b # a # ys)"
proof -
  have d: "distinct (head # xs @ a # b # ys)" using l by (rule cdll_list_distinct)
  have "cdll_list (cdll_delete_node b h) head (xs @ a # ys)"
    using delete_list [of h head "xs @ [a]" b ys] l by simp
  then show ?thesis using d by (simp add: cdll_swap_nodes_def insert_before_list)
qed

section \<open>Walking a list in either direction\<close>

text \<open>The first answer a body gives along a list of nodes.\<close>

fun first_answer :: "(addr \<Rightarrow> 'r option) \<Rightarrow> addr list \<Rightarrow> 'r option" where
  "first_answer body [] = None"
| "first_answer body (x # xs) = (case body x of Some r \<Rightarrow> Some r | None \<Rightarrow> first_answer body xs)"

text \<open>
  What the two loop macros rely on: the pointer field leads through the nodes of a sequence
  and back to the head.
\<close>

locale cyclic_walk =
  fixes step :: "cdll \<Rightarrow> addr \<Rightarrow> addr" and rep :: "cdll \<Rightarrow> addr \<Rightarrow> addr list \<Rightarrow> bool"
  assumes step_next: "rep h head (xs @ ys) \<Longrightarrow> step h (last (head # xs)) = hd (ys @ [head])"
    and rep_distinct: "rep h head xs \<Longrightarrow> distinct (head # xs)"
begin

lemma for_each_suffix:
  assumes "rep h head (xs @ ys)"
  shows "for_each_from (step h) body (hd (ys @ [head])) head = Some (first_answer body ys)"
  using assms
proof (induction ys arbitrary: xs)
  case Nil
  show ?case by (subst for_each_from.simps) simp
next
  case (Cons y ys)
  have "y \<noteq> head" using rep_distinct [OF Cons.prems] by auto
  moreover have "step h y = hd (ys @ [head])" using step_next [of h head "xs @ [y]" ys] Cons.prems by simp
  moreover have "for_each_from (step h) body (hd (ys @ [head])) head = Some (first_answer body ys)"
    using Cons.IH [of "xs @ [y]"] Cons.prems by simp
  ultimately show ?case by (subst for_each_from.simps) (auto split: option.split)
qed

lemma for_each_whole:
  "rep h head xs \<Longrightarrow>
     for_each_from (step h) body (step h head) head = Some (first_answer body xs)"
  using for_each_suffix [of h head "[]" xs] step_next [of h head "[]" xs] by simp

end

interpretation forward: cyclic_walk nxt cdll_list
  by unfold_locales (auto dest: cdll_list_at cdll_list_distinct)

lemma backward_next:
  assumes "cdll_list h head (rev (xs @ ys))"
  shows "prv h (last (head # xs)) = hd (ys @ [head])"
proof -
  have "hd (rev xs @ [head]) = last (head # xs)" by (cases xs rule: rev_cases) auto
  moreover have "last (head # rev ys) = hd (ys @ [head])" by (cases ys) auto
  ultimately show ?thesis using assms cdll_list_at [of h head "rev ys" "rev xs"] by simp
qed

interpretation backward: cyclic_walk prv "\<lambda>h head xs. cdll_list h head (rev xs)"
  by unfold_locales (use backward_next in blast, auto dest: cdll_list_distinct)

lemma for_each_list: "cdll_list h head xs \<Longrightarrow> cdll_for_each h body head = Some (first_answer body xs)"
  by (simp add: cdll_for_each_def forward.for_each_whole)

lemma for_each_rev_list: "cdll_list h head xs \<Longrightarrow> cdll_for_each_rev h body head = Some (first_answer body (rev xs))"
  using backward.for_each_whole [of h head "rev xs" body] by (simp add: cdll_for_each_rev_def)

section \<open>What the operations do to the sequence\<close>

text \<open>The nodes a list's own operations store into are nodes of the list.\<close>

lemma list_neighbours:
  "cdll_list h head xs \<Longrightarrow> x \<in> set (head # xs) \<Longrightarrow> nxt h x \<in> set (head # xs) \<and> prv h x \<in> set (head # xs)"
proof -
  assume l: "cdll_list h head xs" and x: "x \<in> set (head # xs)"
  then consider "x = head" | us vs where "xs = us @ x # vs" by (auto dest: split_list)
  then show ?thesis
  proof cases
    case 1
    then show ?thesis using cdll_list_at [of h head "[]" xs] cdll_list_at [of h head xs "[]"] l
      by (cases xs) auto
  next
    case 2
    then show ?thesis using cdll_list_at [of h head us "x # vs"] cdll_list_at [of h head "us @ [x]" vs] l
      by (cases vs) (auto split: if_splits)
  qed
qed

lemma add_node_outside:
  "q \<notin> {new, p, n} \<Longrightarrow> nxt (cdll_add_node new p n h) q = nxt h q \<and> prv (cdll_add_node new p n h) q = prv h q"
  by (simp add: cdll_add_node_def Let_def heap_simps)

lemma delete_node_outside:
  "q \<notin> {n, nxt h n, prv h n} \<Longrightarrow> nxt (cdll_delete_node n h) q = nxt h q \<and> prv (cdll_delete_node n h) q = prv h q"
  by (auto simp: cdll_delete_node_def cdll_init_def Let_def heap_simps)

lemma keeps_other:
  assumes l: "cdll_list h head (xs @ a # b # ys)" and new: "new \<notin> set (head # xs @ a # b # ys)"
    and other: "cdll_list h g zs" and disj: "set (g # zs) \<inter> set (new # head # xs @ a # b # ys) = {}"
  shows "cdll_list (cdll_insert_node_head new head h) g zs \<and> cdll_list (cdll_insert_node_tail new head h) g zs \<and>
    cdll_list (cdll_delete_node a h) g zs \<and> cdll_list (cdll_swap_nodes a b h) g zs"
proof (intro conjI; rule cdll_list_frame [OF other])
  fix q assume q: "q \<in> set (g # zs)"
  note nb = list_neighbours [OF l]
  have qn: "q \<notin> set (new # head # xs @ a # b # ys)" using q disj by blast
  show "nxt (cdll_insert_node_head new head h) q = nxt h q \<and> prv (cdll_insert_node_head new head h) q = prv h q"
    unfolding cdll_insert_node_head_def by (rule add_node_outside) (use qn nb [of head] in auto)
  show "nxt (cdll_insert_node_tail new head h) q = nxt h q \<and> prv (cdll_insert_node_tail new head h) q = prv h q"
    unfolding cdll_insert_node_tail_def by (rule add_node_outside) (use qn nb [of head] in auto)
  show "nxt (cdll_delete_node a h) q = nxt h q \<and> prv (cdll_delete_node a h) q = prv h q"
    by (rule delete_node_outside) (use qn nb [of a] in auto)
  have l': "cdll_list (cdll_delete_node b h) head (xs @ a # ys)"
    using delete_list [of h head "xs @ [a]" b ys] l by simp
  have "nxt (cdll_delete_node b h) q = nxt h q \<and> prv (cdll_delete_node b h) q = prv h q"
    by (rule delete_node_outside) (use qn nb [of b] in auto)
  moreover have "nxt (cdll_insert_node_tail b a (cdll_delete_node b h)) q = nxt (cdll_delete_node b h) q \<and>
      prv (cdll_insert_node_tail b a (cdll_delete_node b h)) q = prv (cdll_delete_node b h) q"
    unfolding cdll_insert_node_tail_def
    by (rule add_node_outside) (use qn list_neighbours [OF l', of a] in auto)
  ultimately show "nxt (cdll_swap_nodes a b h) q = nxt h q \<and> prv (cdll_swap_nodes a b h) q = prv h q"
    by (simp add: cdll_swap_nodes_def)
qed

text \<open>
  C25. Every operation of \<^verbatim>\<open>cdll.c\<close> implements the operation on sequences that its comment
  names. On a heap where \<open>head\<close> stands before the nodes \<open>xs @ a # b # ys\<close>: inserting a
  node that is not in the list puts it first or last; deleting \<open>a\<close> removes it and leaves it
  a list of its own; swapping \<open>a\<close> with its successor exchanges the two. A list that has none
  of the nodes involved keeps its sequence.
\<close>

theorem cdll_refines_sequence:
  assumes l: "cdll_list h head (xs @ a # b # ys)" and new: "new \<notin> set (head # xs @ a # b # ys)"
    and other: "cdll_list h g zs" and disj: "set (g # zs) \<inter> set (new # head # xs @ a # b # ys) = {}"
  shows "cdll_list (cdll_insert_node_head new head h) head (new # xs @ a # b # ys) \<and>
    cdll_list (cdll_insert_node_tail new head h) head (xs @ a # b # ys @ [new]) \<and>
    cdll_list (cdll_delete_node a h) head (xs @ b # ys) \<and> cdll_list (cdll_delete_node a h) a [] \<and>
    cdll_list (cdll_swap_nodes a b h) head (xs @ b # a # ys) \<and>
    cdll_for_each h body head = Some (first_answer body (xs @ a # b # ys)) \<and>
    cdll_for_each_rev h body head = Some (first_answer body (rev (xs @ a # b # ys))) \<and>
    cdll_list (cdll_insert_node_head new head h) g zs \<and> cdll_list (cdll_insert_node_tail new head h) g zs \<and>
    cdll_list (cdll_delete_node a h) g zs \<and> cdll_list (cdll_swap_nodes a b h) g zs"
  using insert_head_list [OF l new] insert_tail_list [OF l new] delete_list [of h head xs a "b # ys"]
    swap_list [OF l] for_each_list [OF l, of body] for_each_rev_list [OF l, of body] l delete_single [of a h]
    keeps_other [OF l new other disj]
  by simp

text \<open>A ring of three nodes behind the head 0, a second list behind 9.\<close>

definition three_ring :: cdll where
  "three_ring = \<lparr> nxt = (\<lambda>p. if p = 0 then 1 else if p = 1 then 2 else if p = 2 then 3 else if p = 3 then 0 else p),
                  prv = (\<lambda>p. if p = 0 then 3 else if p = 1 then 0 else if p = 2 then 1 else if p = 3 then 2 else p) \<rparr>"

theorem cdll_refines_sequence_witness:
  "cdll_list (cdll_swap_nodes 2 3 three_ring) 0 [1, 3, 2] \<and> cdll_list (cdll_delete_node 2 three_ring) 9 [] \<and>
   cdll_for_each_rev three_ring Some 0 = Some (Some 3)"
  using cdll_refines_sequence [of three_ring 0 "[1]" 2 3 "[]" 4 9 "[]" Some]
  by (simp add: cdll_list_def three_ring_def)

end
