(* ===== verification/Scan_List.thy ===== *)
theory Scan_List
  imports Cdll Flash_Io "HOL-Library.Multiset"
begin

text \<open>
  The list of access points of \<^verbatim>\<open>find_local_ssid.c\<close>: the callback that collects scan results
  behind the global head \<^verbatim>\<open>knownnodes\<close>, the bubble sort on the linked list, the choice of the
  next access point to try, and the removal of the list. A \<^verbatim>\<open>struct my_params\<close> is the payload
  of the node it contains. The radio driver is a parameter: what \<^verbatim>\<open>cyw43_arch_init\<close> and
  \<^verbatim>\<open>cyw43_wifi_scan\<close> answer and the results it delivers. So is the allocator: every
  callback is given the address \<^verbatim>\<open>calloc\<close> would return. \<^verbatim>\<open>printf\<close> and \<^verbatim>\<open>printlist\<close> are left out.
\<close>

section \<open>State\<close>

abbreviation LWIP_POST_BUFSIZE :: nat where "LWIP_POST_BUFSIZE \<equiv> 32"
abbreviation LOCAL_SCAN_MIN_RSSI :: int where "LOCAL_SCAN_MIN_RSSI \<equiv> - 80"

record my_scan_result =
  ssid :: view
  channel :: nat
  rssi :: int

record my_params =
  found :: int
  res :: my_scan_result

record scan_state =
  links :: cdll
  params :: "addr \<Rightarrow> my_params"

abbreviation (input) knownnodes :: addr where "knownnodes \<equiv> 0"

section \<open>Sorting\<close>

definition compare_rssi :: "(addr \<Rightarrow> my_params) \<Rightarrow> addr \<Rightarrow> addr \<Rightarrow> int" where
  "compare_rssi ps nodea nodeb = (if rssi (res (ps nodea)) < rssi (res (ps nodeb)) then 1 else 0)"

text \<open>The \<^verbatim>\<open>while\<close> loop of one pass; it ends with the flag and the node \<^verbatim>\<open>curr\<close> stopped at.\<close>

partial_function (option) bubble_pass ::
    "(addr \<Rightarrow> addr \<Rightarrow> int) \<Rightarrow> addr \<Rightarrow> bool \<Rightarrow> addr \<Rightarrow> cdll \<Rightarrow> (bool \<times> addr \<times> cdll) option" where
  "bubble_pass compar lastn swapped cur h =
     (if nxt h cur \<noteq> lastn then
        if compar cur (nxt h cur) > 0 then
          bubble_pass compar lastn True cur (cdll_swap_nodes cur (nxt h cur) h)
        else bubble_pass compar lastn swapped (nxt h cur) h
      else Some (swapped, cur, h))"

partial_function (option) bubble_passes ::
    "(addr \<Rightarrow> addr \<Rightarrow> int) \<Rightarrow> addr \<Rightarrow> addr \<Rightarrow> cdll \<Rightarrow> cdll option" where
  "bubble_passes compar head lastn h = do {
     (swapped, cur, h1) \<leftarrow> bubble_pass compar lastn False (nxt h head) h;
     if swapped then bubble_passes compar head cur h1 else Some h1
   }"

definition bubblesort :: "(addr \<Rightarrow> addr \<Rightarrow> int) \<Rightarrow> addr \<Rightarrow> cdll \<Rightarrow> (addr \<times> cdll) option" where
  "bubblesort compar head h =
     (if cdll_empty h head then Some (head, h)
      else do { h1 \<leftarrow> bubble_passes compar head head h; Some (head, h1) })"

section \<open>Collecting scan results\<close>

text \<open>
  The bodies of the two searching loops. A \<^verbatim>\<open>strlen\<close> that does not end makes the whole call
  not end, which the answer \<^term>\<open>Some None\<close> of a body stands for.
\<close>

definition unique_body :: "(addr \<Rightarrow> my_params) \<Rightarrow> view \<Rightarrow> addr \<Rightarrow> int option option" where
  "unique_body ps name ll =
     (case (strlen (ssid (res (ps ll))), strlen name) of
        (Some a, Some b) \<Rightarrow>
          if a = b \<and> mem_equal name (ssid (res (ps ll))) a then Some (Some 0) else None
      | _ \<Rightarrow> Some None)"

definition unique_ssid :: "scan_state \<Rightarrow> view \<Rightarrow> int option" where
  "unique_ssid st name =
     (if cdll_empty (links st) knownnodes then Some 1
      else do {
        r \<leftarrow> cdll_for_each (links st) (unique_body (params st) name) knownnodes;
        case r of Some v \<Rightarrow> v | None \<Rightarrow> Some 1
      })"

definition better_body :: "(addr \<Rightarrow> my_params) \<Rightarrow> view \<Rightarrow> int \<Rightarrow> addr \<Rightarrow> addr option option" where
  "better_body ps name r ll =
     (case (strlen (ssid (res (ps ll))), strlen name) of
        (Some a, Some b) \<Rightarrow> if a = b \<and> r > rssi (res (ps ll)) then Some (Some ll) else None
      | _ \<Rightarrow> Some None)"

text \<open>The result is the node whose \<^verbatim>\<open>res\<close> is returned; the inner \<^term>\<open>None\<close> is \<^verbatim>\<open>NULL\<close>.\<close>

definition better_rssi :: "scan_state \<Rightarrow> view \<Rightarrow> int \<Rightarrow> addr option option" where
  "better_rssi st name r = do {
     x \<leftarrow> cdll_for_each (links st) (better_body (params st) name r) knownnodes;
     case x of Some (Some ll) \<Rightarrow> Some (Some ll) | Some None \<Rightarrow> None | None \<Rightarrow> Some None
   }"

text \<open>
  \<^verbatim>\<open>calloc\<close> zeroes the new node and \<open>fresh\<close> is its address; the name is copied at the size of
  the array. The callback always returns 0.
\<close>

definition new_params :: "my_scan_result \<Rightarrow> my_params" where
  "new_params result = \<lparr> found = 0, res = \<lparr> ssid = store (\<lambda>_. 0) 0 (take_view LWIP_POST_BUFSIZE (ssid result)),
                                            channel = channel result, rssi = rssi result \<rparr> \<rparr>"

definition scan_all_result :: "addr \<Rightarrow> my_scan_result option \<Rightarrow> scan_state \<Rightarrow> scan_state option" where
  "scan_all_result fresh result st = (case result of
     None \<Rightarrow> Some st
   | Some r \<Rightarrow> do {
       n \<leftarrow> strlen (ssid r);
       if rssi r < LOCAL_SCAN_MIN_RSSI \<or> n = 0 then Some st
       else do {
         uniq \<leftarrow> unique_ssid st (ssid r);
         if uniq \<noteq> 0 then
           Some \<lparr> links = cdll_insert_node_tail fresh knownnodes (cdll_init fresh (links st)),
                  params = (params st)(fresh := new_params r) \<rparr>
         else do {
           better \<leftarrow> better_rssi st (ssid r) (rssi r);
           case better of
             None \<Rightarrow> Some st
           | Some b \<Rightarrow>
               let p = params st b
               in Some (st\<lparr> params := (params st)(b := p\<lparr> res := (res p)\<lparr> channel := channel r, rssi := rssi r \<rparr> \<rparr>) \<rparr>)
         }
       }
     })"

text \<open>The results a scan delivers, each with the address for its node.\<close>

fun scan_callbacks :: "(addr \<times> my_scan_result option) list \<Rightarrow> scan_state \<Rightarrow> scan_state option" where
  "scan_callbacks [] st = Some st"
| "scan_callbacks ((fresh, r) # rs) st = do { st1 \<leftarrow> scan_all_result fresh r st; scan_callbacks rs st1 }"

text \<open>\<^verbatim>\<open>assert(err == 0)\<close> after starting the scan is the case of \<open>scan_err\<close> not 0.\<close>

definition scan_find_all_ssids ::
    "int \<Rightarrow> int \<Rightarrow> (addr \<times> my_scan_result option) list \<Rightarrow> scan_state \<Rightarrow> (int \<times> scan_state) option" where
  "scan_find_all_ssids init_err scan_err results st =
     (let st1 = st\<lparr> links := cdll_init knownnodes (links st) \<rparr>
      in if init_err \<noteq> 0 then Some (1, st1)
         else if scan_err \<noteq> 0 then None
         else do {
           st2 \<leftarrow> scan_callbacks results st1;
           if \<not> cdll_empty (links st2) knownnodes then do {
             (head, h) \<leftarrow> bubblesort (compare_rssi (params st2)) knownnodes (links st2);
             Some (0, st2\<lparr> links := h \<rparr>)
           }
           else Some (0, st2)
         })"

section \<open>Removing the list and choosing an access point\<close>

text \<open>The second component collects what is passed to \<^verbatim>\<open>free\<close>.\<close>

partial_function (option) remove_loop :: "addr \<Rightarrow> addr \<Rightarrow> cdll \<Rightarrow> addr list \<Rightarrow> (cdll \<times> addr list) option" where
  "remove_loop p vlist h freed =
     (if vlist = p then Some (h, freed)
      else let next_vlist = nxt h vlist
           in remove_loop p next_vlist (cdll_delete_node vlist h) (freed @ [vlist]))"

definition removelist :: "addr \<Rightarrow> cdll \<Rightarrow> (cdll \<times> addr list) option" where
  "removelist p h = remove_loop p (nxt h p) h []"

partial_function (option) best_ap_loop ::
    "'d flash_dev \<Rightarrow> rb_t \<Rightarrow> scan_state \<Rightarrow> addr \<Rightarrow> addr option \<Rightarrow> view \<Rightarrow> 'd io_state \<Rightarrow>
     (addr option \<times> view \<times> 'd io_state) option" where
  "best_ap_loop dev stk st ll best password io =
     (if ll = knownnodes then Some (best, password, io)
      else if found (params st ll) = 0 then
        let best1 = (case best of None \<Rightarrow> ll | Some b \<Rightarrow> b);
            best2 = (if rssi (res (params st ll)) > rssi (res (params st best1)) then ll else best1)
        in do {
          (err, password1, io1) \<leftarrow> flash_io_find_matching_ssid dev stk (ssid (res (params st best2))) password io;
          if err < 0 then best_ap_loop dev stk st (nxt (links st) ll) None password1 io1
          else Some (Some best2, password1, io1)
        }
      else best_ap_loop dev stk st (nxt (links st) ll) best password io)"

definition scan_find_best_ap ::
    "'d flash_dev \<Rightarrow> rb_t \<Rightarrow> view \<Rightarrow> scan_state \<Rightarrow> 'd io_state \<Rightarrow> (addr option \<times> view \<times> scan_state \<times> 'd io_state) option" where
  "scan_find_best_ap dev stk password st io = do {
     (best, password1, io1) \<leftarrow> best_ap_loop dev stk st (nxt (links st) knownnodes) None (store password 0 [0]) io;
     case best of
       Some b \<Rightarrow> Some (Some b, password1, st\<lparr> params := (params st)(b := (params st b)\<lparr> found := 42 \<rparr>) \<rparr>, io1)
     | None \<Rightarrow> Some (None, password1, st, io1)
   }"

section \<open>One pass of the bubble sort\<close>

fun bubble :: "(addr \<Rightarrow> 'k :: linorder) \<Rightarrow> addr \<Rightarrow> addr list \<Rightarrow> bool \<times> addr list \<times> addr" where
  "bubble f c [] = (False, [], c)"
| "bubble f c (y # ys) =
     (if f c > f y then let (s, l, e) = bubble f c ys in (True, y # l, e)
      else let (s, l, e) = bubble f y ys in (s, c # l, e))"

lemma bubble_pass_list:
  assumes "cdll_list h head (xs @ c # ys @ zs)" and cmp: "\<And>a b. compar a b > 0 \<longleftrightarrow> f a > f b"
    and "bubble f c ys = (s, l, e)"
  shows "\<exists>h'. bubble_pass compar (hd (zs @ [head])) sw c h = Some (sw \<or> s, e, h') \<and> cdll_list h' head (xs @ l @ e # zs)"
  using assms(1,3)
proof (induction ys arbitrary: xs c h sw s l e)
  case Nil
  have "nxt h c = hd (zs @ [head])" using cdll_list_at [of h head "xs @ [c]" zs] Nil.prems by simp
  with Nil.prems show ?case by (subst bubble_pass.simps) auto
next
  case (Cons y ys)
  have d: "distinct (head # xs @ c # (y # ys) @ zs)" by (rule cdll_list_distinct [OF Cons.prems(1)])
  have n: "nxt h c = y" using cdll_list_at [of h head "xs @ [c]" "y # ys @ zs"] Cons.prems by simp
  have neq: "y \<noteq> hd (zs @ [head])" using d by (cases zs) auto
  show ?case
  proof (cases "f c > f y")
    case True
    then obtain l' s' where b: "bubble f c ys = (s', l', e)" "s" "l = y # l'"
      using Cons.prems(2) by (auto split: prod.splits)
    have "cdll_list (cdll_swap_nodes c y h) head ((xs @ [y]) @ c # ys @ zs)"
      using swap_list [of h head xs c y "ys @ zs"] Cons.prems(1) by simp
    from Cons.IH [OF this b(1), of True] show ?thesis
      using True neq b by (subst bubble_pass.simps) (simp add: n cmp)
  next
    case False
    then obtain l' where b: "bubble f y ys = (s, l', e)" "l = c # l'"
      using Cons.prems(2) by (auto split: prod.splits)
    from Cons.IH [of h "xs @ [c]" y s l' e sw] Cons.prems(1) b show ?thesis
      using False neq by (subst bubble_pass.simps) (simp add: n cmp)
  qed
qed

lemma bubble_filter:
  "bubble f c ys = (s, l, e) \<Longrightarrow> filter (\<lambda>x. f x = k) (l @ [e]) = filter (\<lambda>x. f x = k) (c # ys)"
  by (induction f c ys arbitrary: s l e rule: bubble.induct) (auto split: prod.splits if_splits)

lemma bubble_mset: "bubble f c ys = (s, l, e) \<Longrightarrow> mset (l @ [e]) = mset (c # ys)"
  by (induction f c ys arbitrary: s l e rule: bubble.induct) (auto split: prod.splits if_splits)

lemma bubble_max: "bubble f c ys = (s, l, e) \<Longrightarrow> \<forall>x \<in> set (c # ys). f x \<le> f e"
  by (induction f c ys arbitrary: s l e rule: bubble.induct) (fastforce split: prod.splits if_splits)+

lemma bubble_unswapped: "bubble f c ys = (False, l, e) \<Longrightarrow> l @ [e] = c # ys \<and> sorted (map f (c # ys))"
proof (induction f c ys arbitrary: l e rule: bubble.induct)
  case (2 f c y ys)
  then obtain l' where "bubble f y ys = (False, l', e)" "l = c # l'" "f c \<le> f y"
    by (auto split: prod.splits if_splits)
  with 2 show ?case by (auto intro: order_trans)
qed simp

lemma bubble_swapped: "bubble f c ys = (True, l, e) \<Longrightarrow> l \<noteq> []"
  by (induction f c ys arbitrary: l e rule: bubble.induct) (auto split: prod.splits if_splits)

section \<open>The whole sort\<close>

lemma bubble_passes_sort:
  assumes l: "cdll_list h head (us @ zs)" and us: "us \<noteq> []" and cmp: "\<And>a b. compar a b > 0 \<longleftrightarrow> f a > f b"
    and zs: "sorted (map f zs)" and le: "\<forall>u \<in> set us. \<forall>z \<in> set zs. f u \<le> f z"
  shows "\<exists>h'. bubble_passes compar head (hd (zs @ [head])) h = Some h' \<and> cdll_list h' head (sort_key f (us @ zs))"
  using l us zs le
proof (induction "length us" arbitrary: us zs h rule: less_induct)
  case less
  obtain c ys where us: "us = c # ys" using less.prems(2) by (cases us) auto
  obtain s l e where b: "bubble f c ys = (s, l, e)" by (cases "bubble f c ys")
  have n: "nxt h head = c" using cdll_list_at [of h head "[]" "us @ zs"] less.prems(1) by (simp add: us)
  obtain h' where p: "bubble_pass compar (hd (zs @ [head])) False c h = Some (s, e, h')"
    and l': "cdll_list h' head (l @ e # zs)"
    using bubble_pass_list [OF _ cmp b, of h head "[]" zs False] less.prems(1) by (auto simp: us)
  have m: "mset (l @ [e]) = mset us" using bubble_mset [OF b] by (simp add: us)
  then have st: "set us = insert e (set l)" by (metis set_append set_mset_mset list.simps(15) Un_insert_right empty_set sup_bot_right)
  have max: "\<forall>x \<in> set us. f x \<le> f e" using bubble_max [OF b] by (simp add: us)
  show ?case
  proof (cases s)
    case True
    have "length l < length us" using arg_cong [OF m, of size] by simp
    moreover have "sorted (map f (e # zs))" "\<forall>u \<in> set l. \<forall>z \<in> set (e # zs). f u \<le> f z"
      using less.prems(3,4) max st by auto
    moreover have "l \<noteq> []" using bubble_swapped [of f c ys l e] b True by simp
    moreover have "cdll_list h' head (l @ e # zs)" by (rule l')
    ultimately obtain h'' where h: "bubble_passes compar head (hd ((e # zs) @ [head])) h' = Some h''"
      and l'': "cdll_list h'' head (sort_key f (l @ e # zs))"
      using less.hyps [of l h' "e # zs"] by blast
    have "sort_key f (l @ e # zs) = sort_key f (us @ zs)"
    proof (rule properties_for_sort_key)
      show "mset (sort_key f (us @ zs)) = mset (l @ e # zs)" using m by (simp add: us)
      fix k assume "k \<in> set (sort_key f (us @ zs))"
      show "filter (\<lambda>x. f k = f x) (sort_key f (us @ zs)) = filter (\<lambda>x. f k = f x) (l @ e # zs)"
      proof -
        have "filter (\<lambda>x. f x = f k) (l @ e # zs) = filter (\<lambda>x. f x = f k) (us @ zs)"
          using bubble_filter [OF b, of "f k"] unfolding us [symmetric]
          by (metis append.assoc append_Cons append_Nil filter_append)
        then show ?thesis by (simp only: eq_commute [of "f k"] sort_key_stable)
      qed
    qed simp
    with h l'' show ?thesis using True p n by (subst bubble_passes.simps) auto
  next
    case False
    then have u: "l @ [e] = us" "sorted (map f us)" using bubble_unswapped [of f c ys l e] b by (auto simp: us)
    have "sorted (map f (us @ zs))" using u(2) less.prems(3,4) by (auto simp: sorted_append)
    then have "sort_key f (us @ zs) = us @ zs" by (rule sort_key_id_if_sorted)
    moreover have "cdll_list h' head (us @ zs)" using l' unfolding u(1) [symmetric] by simp
    ultimately show ?thesis using False p n by (subst bubble_passes.simps) auto
  qed
qed

lemma bubblesort_list:
  assumes l: "cdll_list h head xs" and cmp: "\<And>a b. compar a b > 0 \<longleftrightarrow> f a > f b"
  shows "\<exists>h'. bubblesort compar head h = Some (head, h') \<and> cdll_list h' head (sort_key f xs)"
proof (cases "xs = []")
  case True
  then show ?thesis using l by (auto simp: bubblesort_def cdll_empty_iff [OF l])
next
  case False
  then show ?thesis
    using bubble_passes_sort [of h head xs "[]" compar f] l cmp by (auto simp: bubblesort_def cdll_empty_iff [OF l])
qed

text \<open>
  C26. The bubble sort on the linked list always returns, and is a stable sort: with the
  comparison of the program the nodes end up strongest signal first, and nodes of equal strength
  keep their order.
\<close>

theorem bubblesort_stable_sort:
  assumes l: "cdll_list h head xs"
  shows "\<exists>h'. bubblesort (compare_rssi ps) head h = Some (head, h') \<and>
    cdll_list h' head (sort_key (\<lambda>n. - rssi (res (ps n))) xs)"
  using l by (rule bubblesort_list) (simp add: compare_rssi_def)

definition three_aps :: "addr \<Rightarrow> my_params" where
  "three_aps n = \<lparr> found = 0, res = \<lparr> ssid = (\<lambda>_. 0), channel = 1, rssi = (if n = 2 then - 40 else - 60) \<rparr> \<rparr>"

theorem bubblesort_stable_sort_witness:
  "\<exists>h'. bubblesort (compare_rssi three_aps) 0 three_ring = Some (0, h') \<and> cdll_list h' 0 [2, 1, 3]"
proof -
  have "cdll_list three_ring 0 [1, 2, 3]" by (simp add: cdll_list_def three_ring_def)
  from bubblesort_stable_sort [OF this, of three_aps] show ?thesis
    by (simp add: three_aps_def)
qed

section \<open>Removing the list\<close>

lemma remove_loop_list:
  assumes "cdll_list h p xs"
  shows "\<exists>h'. remove_loop p (hd (xs @ [p])) h freed = Some (h', freed @ xs) \<and> cdll_list h' p []"
  using assms
proof (induction xs arbitrary: h freed)
  case Nil
  then show ?case by (subst remove_loop.simps) simp
next
  case (Cons x xs)
  have "x \<noteq> p" using Cons.prems by (auto simp: cdll_list_def)
  moreover have "nxt h x = hd (xs @ [p])" using cdll_list_at [of h p "[x]" xs] Cons.prems by simp
  moreover have "cdll_list (cdll_delete_node x h) p xs" using delete_list [of h p "[]" x xs] Cons.prems by simp
  ultimately show ?case
    using Cons.IH [of "cdll_delete_node x h" "freed @ [x]"] by (subst remove_loop.simps) (simp add: Let_def)
qed

lemma removelist_list: "cdll_list h p xs \<Longrightarrow> \<exists>h'. removelist p h = Some (h', xs) \<and> cdll_list h' p []"
  using remove_loop_list [of h p xs "[]"] cdll_list_at [of h p "[]" xs] by (auto simp: removelist_def)

text \<open>
  Removing a list returns, frees every node of it exactly once, in order, and leaves the head
  an empty list, so that the next scan starts from scratch without a leak.
\<close>

theorem removelist_frees_all:
  assumes "cdll_list h p xs"
  shows "\<exists>h'. removelist p h = Some (h', xs) \<and> distinct xs \<and> cdll_list h' p []"
  using removelist_list [OF assms] assms by (auto simp: cdll_list_def)

theorem removelist_frees_all_witness:
  "\<exists>h'. removelist 0 three_ring = Some (h', [1, 2, 3]) \<and> cdll_list h' 0 []"
  using removelist_frees_all [of three_ring 0 "[1, 2, 3]"] by (auto simp: cdll_list_def three_ring_def)

end
