(* ===== verification/Scan_Known.thy ===== *)
theory Scan_Known
  imports Scan_List
begin

text \<open>
  What the list of access points holds while a scan runs and when it is sorted: every name at
  most once, nothing weaker than the threshold, every name heard, the strongest first; and which
  access point the program tries next.
\<close>

section \<open>Names\<close>

text \<open>The characters of a C string.\<close>

definition cstr :: "view \<Rightarrow> byte list option" where
  "cstr s = map_option (\<lambda>n. take_view n s) (strlen s)"

lemma cstr_equal:
  assumes "strlen a = Some m" "strlen b = Some n"
  shows "m = n \<and> mem_equal b a m \<longleftrightarrow> cstr a = cstr b"
proof -
  have "cstr a = cstr b \<Longrightarrow> m = n"
    using assms length_take_view [of m a] length_take_view [of n b] by (simp add: cstr_def)
  then show ?thesis using assms by (auto simp: cstr_def mem_equal_def)
qed

lemma strlen_copy: "strlen s = Some n \<Longrightarrow> n < k \<Longrightarrow> strlen (store (\<lambda>_. 0) 0 (take_view k s)) = Some n"
  by (rule strlen_eq) (auto simp: store_def dest: strlen_Some)

lemma cstr_copy: "strlen s = Some n \<Longrightarrow> n < k \<Longrightarrow> cstr (store (\<lambda>_. 0) 0 (take_view k s)) = cstr s"
  using strlen_copy [of s n k] by (simp add: cstr_def take_view_eq_iff store_def)

section \<open>The invariant of the list\<close>

definition terminated :: "view \<Rightarrow> bool" where
  "terminated s \<longleftrightarrow> (\<exists>n < LWIP_POST_BUFSIZE. strlen s = Some n)"

abbreviation ap_name :: "(addr \<Rightarrow> my_params) \<Rightarrow> addr \<Rightarrow> byte list option" where
  "ap_name ps x \<equiv> cstr (ssid (res (ps x)))"

definition heard :: "my_scan_result \<Rightarrow> bool" where
  "heard r \<longleftrightarrow> LOCAL_SCAN_MIN_RSSI \<le> rssi r \<and> cstr (ssid r) \<noteq> Some []"

definition known_inv :: "scan_state \<Rightarrow> addr list \<Rightarrow> bool" where
  "known_inv st xs \<longleftrightarrow> cdll_list (links st) knownnodes xs \<and> distinct (map (ap_name (params st)) xs) \<and>
     (\<forall>x \<in> set xs. terminated (ssid (res (params st x))) \<and> heard (res (params st x)) \<and> found (params st x) = 0)"

lemma known_invD:
  assumes "known_inv st xs"
  shows "cdll_list (links st) knownnodes xs"
    and "distinct (map (ap_name (params st)) xs)"
    and "x \<in> set xs \<Longrightarrow> terminated (ssid (res (params st x)))"
    and "x \<in> set xs \<Longrightarrow> heard (res (params st x))"
    and "knownnodes \<notin> set xs"
    and "x \<in> set xs \<Longrightarrow> found (params st x) = 0"
  using assms by (auto simp: known_inv_def cdll_list_def)

lemma unique_answer:
  assumes "\<forall>x \<in> set xs. terminated (ssid (res (ps x)))" and "terminated name"
  shows "first_answer (unique_body ps name) xs = (if cstr name \<in> ap_name ps ` set xs then Some (Some 0) else None)"
  using assms(1)
proof (induction xs)
  case (Cons x xs)
  obtain a b where s: "strlen (ssid (res (ps x))) = Some a" "strlen name = Some b"
    using Cons.prems assms(2) by (auto simp: terminated_def)
  have "unique_body ps name x = (if ap_name ps x = cstr name then Some (Some 0) else None)"
    using cstr_equal [OF s] by (simp add: unique_body_def s)
  with Cons show ?case by auto
qed simp

lemma unique_ssid_spec:
  assumes k: "known_inv st xs" and t: "terminated name"
  shows "unique_ssid st name = Some (if cstr name \<in> ap_name (params st) ` set xs then 0 else 1)"
  using unique_answer [of xs "params st" name] known_invD(3) [OF k] t
  by (cases "xs = []") (auto simp: unique_ssid_def cdll_empty_iff [OF known_invD(1) [OF k]] for_each_list [OF known_invD(1) [OF k]])

lemma better_answer:
  assumes "\<forall>x \<in> set xs. terminated (ssid (res (ps x)))" and "terminated name"
  shows "first_answer (better_body ps name r) xs = None \<or>
    (\<exists>b \<in> set xs. first_answer (better_body ps name r) xs = Some (Some b) \<and> rssi (res (ps b)) < r)"
  using assms(1)
proof (induction xs)
  case (Cons x xs)
  obtain a b where "strlen (ssid (res (ps x))) = Some a" "strlen name = Some b"
    using Cons.prems assms(2) by (auto simp: terminated_def)
  with Cons show ?case by (auto simp: better_body_def)
qed simp

lemma better_rssi_spec:
  assumes k: "known_inv st xs" and t: "terminated name"
  shows "better_rssi st name r = Some None \<or>
    (\<exists>b \<in> set xs. better_rssi st name r = Some (Some b) \<and> rssi (res (params st b)) < r)"
  using better_answer [of xs "params st" name r] known_invD(3) [OF k] t
  by (auto simp: better_rssi_def for_each_list [OF known_invD(1) [OF k]])

lemma heard_strlen: "strlen (ssid r) = Some n \<Longrightarrow> heard r \<longleftrightarrow> \<not> (rssi r < LOCAL_SCAN_MIN_RSSI \<or> n = 0)"
  by (auto simp: heard_def cstr_def take_view_def)

lemma insert_known:
  assumes k: "known_inv st xs" and fresh: "fresh \<notin> set (knownnodes # xs)"
    and t: "terminated (ssid r)" and h: "heard r" and new: "cstr (ssid r) \<notin> ap_name (params st) ` set xs"
  shows "known_inv \<lparr> links = cdll_insert_node_tail fresh knownnodes (cdll_init fresh (links st)),
                     params = (params st)(fresh := new_params r) \<rparr> (xs @ [fresh])"
proof -
  have "cdll_list (cdll_init fresh (links st)) knownnodes xs"
    by (rule cdll_list_frame [OF known_invD(1) [OF k]]) (use fresh in \<open>auto simp: cdll_init_def heap_simps\<close>)
  then have l: "cdll_list (cdll_insert_node_tail fresh knownnodes (cdll_init fresh (links st))) knownnodes (xs @ [fresh])"
    using fresh by (rule insert_tail_list)
  obtain n where n: "n < LWIP_POST_BUFSIZE" "strlen (ssid r) = Some n" using t by (auto simp: terminated_def)
  have nm: "cstr (ssid (res (new_params r))) = cstr (ssid r)" "terminated (ssid (res (new_params r)))"
    using cstr_copy [OF n(2,1)] strlen_copy [OF n(2,1)] n(1) by (auto simp: new_params_def terminated_def)
  have hp: "heard (res (new_params r))" "found (new_params r) = 0" using h nm(1) by (simp_all add: heard_def new_params_def)
  have old: "map (ap_name ((params st)(fresh := new_params r))) xs = map (ap_name (params st)) xs"
    using fresh by auto
  show ?thesis using l old nm hp new known_invD(2-4,6) [OF k] fresh
    by (auto simp: known_inv_def simp del: map_eq_conv)
qed

lemma known_inv_params:
  assumes "known_inv st xs" and "\<And>x. ssid (res (ps x)) = ssid (res (params st x))" and "\<And>x. x \<in> set xs \<Longrightarrow> heard (res (ps x))"
    and "\<And>x. found (ps x) = found (params st x)"
  shows "known_inv (st\<lparr> params := ps \<rparr>) xs"
  using assms by (simp add: known_inv_def)

lemma update_known:
  assumes k: "known_inv st xs" and b: "b \<in> set xs" and r: "rssi (res (params st b)) < r"
  shows "known_inv (st\<lparr> params := (params st)(b := (params st b)\<lparr> res := (res (params st b))\<lparr> channel := c, rssi := r \<rparr> \<rparr>) \<rparr>) xs"
  by (rule known_inv_params [OF k]) (use known_invD(4) [OF k] known_invD(4) [OF k b] r in \<open>auto simp: heard_def\<close>)

text \<open>One scan result: the invariant is kept, and its name is known afterwards when it counts as heard.\<close>

lemma scan_all_result_step:
  assumes k: "known_inv st xs" and t: "terminated (ssid r)" and fresh: "fresh \<notin> set (knownnodes # xs)"
  obtains st' xs' where "scan_all_result fresh (Some r) st = Some st'" "known_inv st' xs'" "set xs' \<subseteq> insert fresh (set xs)"
    "ap_name (params st') ` set xs' = ap_name (params st) ` set xs \<union> (if heard r then {cstr (ssid r)} else {})"
proof -
  obtain n where n: "n < LWIP_POST_BUFSIZE" "strlen (ssid r) = Some n" using t by (auto simp: terminated_def)
  note u = unique_ssid_spec [OF k t] and hs = heard_strlen [OF n(2)]
  consider "\<not> heard r" | "heard r" "cstr (ssid r) \<notin> ap_name (params st) ` set xs"
    | "heard r" "cstr (ssid r) \<in> ap_name (params st) ` set xs" by blast
  then show ?thesis
  proof cases
    case 1
    then have "scan_all_result fresh (Some r) st = Some st" using hs n by (auto simp: scan_all_result_def)
    then show ?thesis using 1 k by (intro that [of st xs]) auto
  next
    case 2
    have nm: "cstr (ssid (res (new_params r))) = cstr (ssid r)"
      using cstr_copy [OF n(2,1)] by (simp add: new_params_def)
    have old: "ap_name ((params st)(fresh := new_params r)) ` set xs = ap_name (params st) ` set xs"
      using fresh by auto
    show ?thesis
      by (rule that [OF _ insert_known [OF k fresh t 2]])
        (use 2 hs n u nm old in \<open>auto simp: scan_all_result_def\<close>)
  next
    case 3
    from better_rssi_spec [OF k t, of "rssi r"] show ?thesis
    proof
      assume "better_rssi st (ssid r) (rssi r) = Some None"
      then have "scan_all_result fresh (Some r) st = Some st" using 3 hs n u by (auto simp: scan_all_result_def)
      then show ?thesis using 3 k by (intro that [of st xs]) auto
    next
      assume "\<exists>b \<in> set xs. better_rssi st (ssid r) (rssi r) = Some (Some b) \<and> rssi (res (params st b)) < rssi r"
      then obtain b where b: "b \<in> set xs" "better_rssi st (ssid r) (rssi r) = Some (Some b)" "rssi (res (params st b)) < rssi r"
        by blast
      show ?thesis
        by (rule that [OF _ update_known [OF k b(1,3), of "channel r"]])
          (use 3 hs n u b in \<open>auto simp: scan_all_result_def Let_def\<close>)
    qed
  qed
qed

lemma scan_callbacks_known:
  assumes "known_inv st xs" and "distinct (map fst rs)" and "set (map fst rs) \<inter> set (knownnodes # xs) = {}"
    and "\<forall>r. Some r \<in> set (map snd rs) \<longrightarrow> terminated (ssid r)"
  shows "\<exists>st' xs'. scan_callbacks rs st = Some st' \<and> known_inv st' xs' \<and>
    ap_name (params st') ` set xs' = ap_name (params st) ` set xs \<union> {cstr (ssid r) | r. Some r \<in> set (map snd rs) \<and> heard r}"
  using assms
proof (induction rs arbitrary: st xs)
  case (Cons ar rs)
  obtain a ro where ar: "ar = (a, ro)" by (cases ar)
  show ?case
  proof (cases ro)
    case None
    then show ?thesis using Cons.IH [OF Cons.prems(1)] Cons.prems by (simp add: ar scan_all_result_def)
  next
    case (Some r)
    obtain st' xs' where s: "scan_all_result a ro st = Some st'" "known_inv st' xs'" "set xs' \<subseteq> insert a (set xs)"
      "ap_name (params st') ` set xs' = ap_name (params st) ` set xs \<union> (if heard r then {cstr (ssid r)} else {})"
      using scan_all_result_step [OF Cons.prems(1), of r a] Cons.prems(3,4) by (auto simp: ar Some)
    have "set (map fst rs) \<inter> set (knownnodes # xs') = {}" using Cons.prems(2,3) s(3) by (auto simp: ar disjoint_iff)
    with Cons.IH [OF s(2)] Cons.prems obtain st'' xs'' where
      t: "scan_callbacks rs st' = Some st''" "known_inv st'' xs''"
      "ap_name (params st'') ` set xs'' = ap_name (params st') ` set xs' \<union> {cstr (ssid r) | r. Some r \<in> set (map snd rs) \<and> heard r}"
      by (auto simp: ar)
    have "{cstr (ssid q) | q. Some q \<in> set (map snd (ar # rs)) \<and> heard q} =
        (if heard r then {cstr (ssid r)} else {}) \<union> {cstr (ssid q) | q. Some q \<in> set (map snd rs) \<and> heard q}"
      by (auto simp: ar Some)
    with s t show ?thesis by (auto simp: ar)
  qed
qed auto

lemma known_inv_perm:
  assumes "known_inv st xs" "cdll_list h knownnodes (sort_key f xs)"
  shows "known_inv (st\<lparr> links := h \<rparr>) (sort_key f xs)"
proof -
  have "mset (map (ap_name (params st)) (sort_key f xs)) = mset (map (ap_name (params st)) xs)" by simp
  then have "distinct (map (ap_name (params st)) (sort_key f xs))"
    using known_invD(2) [OF assms(1)] by (metis mset_eq_imp_distinct_iff)
  then show ?thesis using assms by (auto simp: known_inv_def)
qed

lemma scan_result_list:
  assumes a: "distinct (map fst rs)" "knownnodes \<notin> set (map fst rs)"
    and t: "\<forall>r. Some r \<in> set (map snd rs) \<longrightarrow> terminated (ssid r)"
  shows "\<exists>st' xs. scan_find_all_ssids 0 0 rs st = Some (0, st') \<and> known_inv st' xs \<and>
    sorted (map (\<lambda>n. - rssi (res (params st' n))) xs) \<and>
    ap_name (params st') ` set xs = {cstr (ssid r) | r. Some r \<in> set (map snd rs) \<and> heard r}"
proof -
  let ?st = "st\<lparr> links := cdll_init knownnodes (links st) \<rparr>"
  have "known_inv ?st []" by (simp add: known_inv_def cdll_init_list)
  from scan_callbacks_known [OF this a(1) _ t] a(2) obtain st1 xs where
    c: "scan_callbacks rs ?st = Some st1" and k: "known_inv st1 xs"
    and n: "ap_name (params st1) ` set xs = {cstr (ssid r) | r. Some r \<in> set (map snd rs) \<and> heard r}"
    by auto
  let ?f = "\<lambda>n. - rssi (res (params st1 n))"
  have "\<exists>h. bubblesort (compare_rssi (params st1)) knownnodes (links st1) = Some (knownnodes, h) \<and>
      cdll_list h knownnodes (sort_key ?f xs)"
    by (rule bubblesort_list [OF known_invD(1) [OF k]]) (simp add: compare_rssi_def)
  then obtain h where h: "bubblesort (compare_rssi (params st1)) knownnodes (links st1) = Some (knownnodes, h)"
    "cdll_list h knownnodes (sort_key ?f xs)" by blast
  show ?thesis
  proof (cases "xs = []")
    case True
    then show ?thesis using c k n by (intro exI [of _ st1] exI [of _ "[]"]) (auto simp: scan_find_all_ssids_def cdll_empty_iff [OF known_invD(1) [OF k]])
  next
    case False
    then have "scan_find_all_ssids 0 0 rs st = Some (0, st1\<lparr> links := h \<rparr>)"
      using c h(1) by (simp add: scan_find_all_ssids_def cdll_empty_iff [OF known_invD(1) [OF k]])
    moreover have "known_inv (st1\<lparr> links := h \<rparr>) (sort_key ?f xs)" by (rule known_inv_perm [OF k h(2)])
    ultimately show ?thesis using n by (intro exI [of _ "st1\<lparr> links := h \<rparr>"] exI [of _ "sort_key ?f xs"]) auto
  qed
qed

text \<open>
  C27. A completed scan leaves exactly the names that were heard (at least -80 dBm, not anonymous),
  each once, in a list sorted from the strongest to the weakest recorded signal. It returns for any sequence of
  results, whatever the list was before; the hypotheses are that the driver's names are
  terminated within the array that takes them and that the allocator hands out distinct nodes.
\<close>

theorem scan_lists_heard_aps:
  assumes a: "distinct (map fst rs)" "knownnodes \<notin> set (map fst rs)"
    and t: "\<forall>r. Some r \<in> set (map snd rs) \<longrightarrow> terminated (ssid r)"
  shows "\<exists>st' xs. scan_find_all_ssids 0 0 rs st = Some (0, st') \<and> known_inv st' xs \<and>
    sorted (map (\<lambda>n. - rssi (res (params st' n))) xs) \<and>
    ap_name (params st') ` set xs = {cstr (ssid r) | r. Some r \<in> set (map snd rs) \<and> heard r}"
  by (rule scan_result_list [OF assms])

definition sighting :: "byte list \<Rightarrow> int \<Rightarrow> my_scan_result" where
  "sighting name r = \<lparr> ssid = view_of name, channel = 6, rssi = r \<rparr>"

lemma cstr_sighting: "0 \<notin> set name \<Longrightarrow> cstr (ssid (sighting name r)) = Some name"
  by (simp add: sighting_def cstr_def strlen_view_of take_view_view_of)

lemma terminated_sighting: "0 \<notin> set name \<Longrightarrow> length name < LWIP_POST_BUFSIZE \<Longrightarrow> terminated (ssid (sighting name r))"
  by (simp add: sighting_def terminated_def strlen_view_of)

lemma heard_sighting: "0 \<notin> set name \<Longrightarrow> heard (sighting name r) \<longleftrightarrow> - 80 \<le> r \<and> name \<noteq> []"
  by (simp add: heard_def cstr_sighting) (simp add: sighting_def)

lemma strlen_sighting: "c \<noteq> 0 \<Longrightarrow> strlen (ssid (sighting [c] r)) = Some 1"
  by (simp add: sighting_def strlen_view_of)

theorem scan_lists_heard_aps_witness:
  "\<exists>st' xs. scan_find_all_ssids 0 0 [(1, Some (sighting [0x61] (- 50))), (2, Some (sighting [0x62] (- 90)))] \<lparr> links = three_ring, params = three_aps \<rparr> = Some (0, st') \<and>
     known_inv st' xs \<and> ap_name (params st') ` set xs = {Some [0x61]}"
proof -
  let ?rs = "[(1, Some (sighting [0x61] (- 50))), (2, Some (sighting [0x62] (- 90)))]"
  have "{cstr (ssid r) | r. Some r \<in> set (map snd ?rs) \<and> heard r} = {Some [0x61]}"
    by (auto simp: cstr_sighting heard_sighting intro!: exI [of _ "sighting [0x61] (- 50)"])
  moreover have "\<forall>r. Some r \<in> set (map snd ?rs) \<longrightarrow> terminated (ssid r)" by (auto intro: terminated_sighting)
  ultimately show ?thesis using scan_lists_heard_aps [of ?rs "\<lparr> links = three_ring, params = three_aps \<rparr>"] by auto
qed

section \<open>A repeated name\<close>

text \<open>
  A stronger second sighting of a name that is already known is recorded on the first node of
  the list whose name has the same \<^emph>\<open>length\<close> and whose signal is weaker, whatever that name is:
  the loop compares lengths only. Behind a weaker node of an equally long name, the access
  point that was seen keeps its old signal.
\<close>

theorem repeat_updates_same_length:
  assumes k: "known_inv st (us @ b # vs)" and t: "terminated (ssid r)" and h: "heard r"
    and known: "cstr (ssid r) \<in> ap_name (params st) ` set (us @ b # vs)"
    and b: "strlen (ssid (res (params st b))) = strlen (ssid r)" "rssi (res (params st b)) < rssi r"
    and us: "\<forall>u \<in> set us. strlen (ssid (res (params st u))) \<noteq> strlen (ssid r) \<or> rssi r \<le> rssi (res (params st u))"
  shows "scan_all_result fresh (Some r) st = Some (st\<lparr> params := (params st)(b := (params st b)\<lparr>
           res := (res (params st b))\<lparr> channel := channel r, rssi := rssi r \<rparr> \<rparr>) \<rparr>)"
proof -
  obtain n where n: "n < LWIP_POST_BUFSIZE" "strlen (ssid r) = Some n" using t by (auto simp: terminated_def)
  have tm: "\<forall>x \<in> set (us @ b # vs). terminated (ssid (res (params st x)))" using known_invD(3) [OF k] by blast
  have "first_answer (better_body (params st) (ssid r) (rssi r)) (us @ b # vs) = Some (Some b)"
    using us tm by (induction us) (auto simp: better_body_def n b terminated_def)
  then have "better_rssi st (ssid r) (rssi r) = Some (Some b)"
    by (simp add: better_rssi_def for_each_list [OF known_invD(1) [OF k]])
  then show ?thesis
    using heard_strlen [OF n(2)] h n unique_ssid_spec [OF k t] known by (simp add: scan_all_result_def Let_def)
qed

definition two_aps :: scan_state where
  "two_aps = \<lparr> links = cdll_insert_node_tail 2 0 (cdll_init 2 (cdll_insert_node_tail 1 0 (cdll_init 1 (cdll_init 0 three_ring)))),
     params = ((\<lambda>_. new_params (sighting [0x62] (- 60)))(1 := new_params (sighting [0x61] (- 70)), 2 := new_params (sighting [0x62] (- 60)))) \<rparr>"

lemma two_aps_known: "known_inv two_aps [1, 2]"
proof -
  let ?a = "sighting [0x61] (- 70)" and ?b = "sighting [0x62] (- 60)"
  let ?st = "\<lparr> links = cdll_init 0 three_ring, params = (\<lambda>_. new_params ?b) \<rparr>"
  have "known_inv ?st []" by (simp add: known_inv_def cdll_init_list)
  then have k1: "known_inv \<lparr> links = cdll_insert_node_tail 1 0 (cdll_init 1 (cdll_init 0 three_ring)),
      params = (\<lambda>_. new_params ?b)(1 := new_params ?a) \<rparr> [1]"
    using insert_known [of ?st "[]" 1 ?a] by (simp add: terminated_sighting heard_sighting)
  moreover have "cstr (ssid (res (new_params ?a))) = Some [0x61]"
    by (simp add: new_params_def cstr_copy [OF strlen_sighting] cstr_sighting)
  ultimately show ?thesis
    using insert_known [OF k1, of 2 ?b] by (simp add: terminated_sighting heard_sighting two_aps_def cstr_sighting)
qed

theorem repeat_updates_same_length_witness:
  "\<exists>st'. scan_all_result 3 (Some (sighting [0x62] (- 50))) two_aps = Some st' \<and>
     rssi (res (params st' 1)) = - 50 \<and> rssi (res (params st' 2)) = - 60"
proof -
  have p: "ap_name (params two_aps) 2 = cstr (ssid (sighting [0x62] (- 50)))"
    by (simp add: two_aps_def new_params_def cstr_copy [OF strlen_sighting] cstr_sighting)
  have l: "strlen (ssid (res (params two_aps 1))) = strlen (ssid (sighting [0x62] (- 50)))"
    using strlen_sighting [of "0x62" "- 50"] by (simp add: two_aps_def new_params_def strlen_copy [OF strlen_sighting])
  have h: "heard (sighting [0x62] (- 50))" by (simp add: heard_sighting)
  have "rssi (res (params two_aps 1)) = - 70" "rssi (res (params two_aps 2)) = - 60"
    by (simp_all add: two_aps_def new_params_def sighting_def)
  then show ?thesis
    using repeat_updates_same_length [of two_aps "[]" 1 "[2]" "sighting [0x62] (- 50)" 3] two_aps_known
      terminated_sighting [of "[0x62]" "- 50"] h p l by (auto simp: sighting_def)
qed

section \<open>The next access point to try\<close>

text \<open>
  The choice on the sequence of nodes: the first node that was not tried before and whose name
  the flash has a password for.
\<close>

fun choose_ap ::
    "'d flash_dev \<Rightarrow> rb_t \<Rightarrow> (addr \<Rightarrow> my_params) \<Rightarrow> addr list \<Rightarrow> view \<Rightarrow> 'd io_state \<Rightarrow> (addr option \<times> view \<times> 'd io_state) option" where
  "choose_ap dev stk ps [] pw io = Some (None, pw, io)"
| "choose_ap dev stk ps (x # xs) pw io =
     (if found (ps x) = 0 then do {
        (err, pw1, io1) \<leftarrow> flash_io_find_matching_ssid dev stk (ssid (res (ps x))) pw io;
        if err < 0 then choose_ap dev stk ps xs pw1 io1 else Some (Some x, pw1, io1)
      }
      else choose_ap dev stk ps xs pw io)"

lemma best_ap_suffix:
  assumes "cdll_list (links st) knownnodes (as @ xs)"
  shows "best_ap_loop dev stk st (hd (xs @ [knownnodes])) None pw io = choose_ap dev stk (params st) xs pw io"
  using assms
proof (induction xs arbitrary: as pw io)
  case Nil
  show ?case by (subst best_ap_loop.simps) simp
next
  case (Cons x xs)
  have n: "nxt (links st) x = hd (xs @ [knownnodes])" using cdll_list_at [of "links st" 0 "as @ [x]" xs] Cons.prems(1) by simp
  have x: "x \<noteq> knownnodes" using Cons.prems(1) by (auto simp: cdll_list_def)
  have "best_ap_loop dev stk st (nxt (links st) x) None pw io = choose_ap dev stk (params st) xs pw io" for pw io
    unfolding n by (rule Cons.IH [of "as @ [x]"]) (use Cons.prems in simp)
  moreover have "hd ((x # xs) @ [knownnodes]) = x" by simp
  ultimately show ?case using x by (simp only:) (subst best_ap_loop.simps, simp cong: if_cong)
qed

lemma choose_ap_unused:
  "choose_ap dev stk ps xs pw io = Some (Some b, pw', io') \<Longrightarrow> b \<in> set xs \<and> found (ps b) = 0"
  by (induction xs arbitrary: pw io) (auto split: if_splits bind_splits prod.splits)

lemma filter_update_one:
  "distinct xs \<Longrightarrow> b \<in> set xs \<Longrightarrow> P b \<Longrightarrow> Suc (length (filter (\<lambda>x. x \<noteq> b \<and> P x) xs)) = length (filter P xs)"
proof (induction xs)
  case (Cons x xs)
  then show ?case by (cases "x = b") (auto intro!: arg_cong [of _ _ length] filter_cong)
qed simp

lemma find_best_ap_choice:
  assumes l: "cdll_list (links st) knownnodes xs"
  shows "scan_find_best_ap dev stk pw st io = do {
      (best, pw1, io1) \<leftarrow> choose_ap dev stk (params st) xs (store pw 0 [0]) io;
      Some (best, pw1, case best of Some b \<Rightarrow> st\<lparr> params := (params st)(b := (params st b)\<lparr> found := 42 \<rparr>) \<rparr> | None \<Rightarrow> st, io1)
    } \<and> (\<forall>b pw' st' io'. scan_find_best_ap dev stk pw st io = Some (Some b, pw', st', io') \<longrightarrow>
      links st' = links st \<and> b \<in> set xs \<and>
      Suc (length (filter (\<lambda>x. found (params st' x) = 0) xs)) = length (filter (\<lambda>x. found (params st x) = 0) xs))"
proof -
  have "nxt (links st) knownnodes = hd (xs @ [knownnodes])" using cdll_list_at [of _ _ "[]" xs] l by simp
  then have e: "scan_find_best_ap dev stk pw st io = do {
      (best, pw1, io1) \<leftarrow> choose_ap dev stk (params st) xs (store pw 0 [0]) io;
      Some (best, pw1, case best of Some b \<Rightarrow> st\<lparr> params := (params st)(b := (params st b)\<lparr> found := 42 \<rparr>) \<rparr> | None \<Rightarrow> st, io1) }"
    using best_ap_suffix [of st "[]" xs dev stk "store pw 0 [0]" io] l
    by (auto simp: scan_find_best_ap_def split: bind_split option.split)
  have "links st' = links st \<and> b \<in> set xs \<and>
      Suc (length (filter (\<lambda>x. found (params st' x) = 0) xs)) = length (filter (\<lambda>x. found (params st x) = 0) xs)"
    if "scan_find_best_ap dev stk pw st io = Some (Some b, pw', st', io')" for b pw' st' io'
  proof -
    from that have c: "choose_ap dev stk (params st) xs (store pw 0 [0]) io = Some (Some b, pw', io')"
      and s: "st' = st\<lparr> params := (params st)(b := (params st b)\<lparr> found := 42 \<rparr>) \<rparr>"
      unfolding e by (auto split: bind_splits option.splits)
    have "(\<lambda>x. found (params st' x) = 0) = (\<lambda>x. x \<noteq> b \<and> found (params st x) = 0)" by (auto simp: s)
    then show ?thesis
      using filter_update_one [of xs b "\<lambda>x. found (params st x) = 0"] choose_ap_unused [OF c] cdll_list_distinct [OF l] s by simp
  qed
  with e show ?thesis by blast
qed

text \<open>
  C28. On the sequence of access points, choosing the next one is taking the first that has not
  been tried and that the flash knows; the comparison of signals inside the loop never changes
  the choice, so on the sorted list it is the strongest. A chosen access point is marked, and
  the number of untried ones goes down by one: no access point is tried twice between two scans.
\<close>

theorem best_ap_is_first_known:
  assumes l: "cdll_list (links st) knownnodes xs"
  shows "scan_find_best_ap dev stk pw st io = do {
      (best, pw1, io1) \<leftarrow> choose_ap dev stk (params st) xs (store pw 0 [0]) io;
      Some (best, pw1, case best of Some b \<Rightarrow> st\<lparr> params := (params st)(b := (params st b)\<lparr> found := 42 \<rparr>) \<rparr> | None \<Rightarrow> st, io1)
    } \<and> (\<forall>b pw' st' io'. scan_find_best_ap dev stk pw st io = Some (Some b, pw', st', io') \<longrightarrow>
      links st' = links st \<and> b \<in> set xs \<and>
      Suc (length (filter (\<lambda>x. found (params st' x) = 0) xs)) = length (filter (\<lambda>x. found (params st x) = 0) xs))"
  by (rule find_best_ap_choice [OF l])

theorem best_ap_is_first_known_witness:
  "\<exists>pw io. scan_find_best_ap nor_array (storage_rb 1) (view_of [1]) \<lparr> links = three_ring, params = (\<lambda>n. (three_aps n)\<lparr> found := 42 \<rparr>) \<rparr>
       \<lparr> io_flash = blank_flash, pagebuff = (\<lambda>_. 0) \<rparr> =
     Some (None, pw, \<lparr> links = three_ring, params = (\<lambda>n. (three_aps n)\<lparr> found := 42 \<rparr>) \<rparr>, io)"
proof -
  have "cdll_list three_ring 0 [1, 2, 3]" by (simp add: cdll_list_def three_ring_def)
  with best_ap_is_first_known [of "\<lparr> links = three_ring, params = (\<lambda>n. (three_aps n)\<lparr> found := 42 \<rparr>) \<rparr>" "[1, 2, 3]"
      nor_array "storage_rb 1" "view_of [1]" "\<lparr> io_flash = blank_flash, pagebuff = (\<lambda>_. 0) \<rparr>"]
  show ?thesis by simp
qed

end
