(* ===== verification/Flash_Lookup.thy ===== *)
theory Flash_Lookup
  imports Flash_Store
begin

text \<open>
  Looking up a network: \<^verbatim>\<open>flash_io_find_matching_ssid\<close> on a store of credentials returns the password that was
  stored with the name, and the credentials \<^verbatim>\<open>flash_io_write_ssid\<close> stored are found again.
\<close>

section \<open>Finding a record by its first bytes\<close>

definition starts :: "byte \<Rightarrow> byte list \<Rightarrow> log_entry \<Rightarrow> bool" where
  "starts i bs en \<longleftrightarrow> wanted i en \<and> take (length bs) (ent_data en) = bs"

text \<open>When no record is shorter than what is looked for, the comparison never meets bytes of an earlier record.\<close>

lemma log_find_starts:
  assumes "\<forall>en \<in> set es. wanted i en \<longrightarrow> sz \<le> length (ent_data en)"
  shows "log_find i data sz scratch es =
    (if \<exists>en \<in> set es. starts i (take_view sz data) en then Some (length (takeWhile (\<lambda>en. \<not> starts i (take_view sz data) en) es)) else None)"
  using assms
proof (induction es arbitrary: scratch)
  case (Cons en es)
  have "mem_equal data (store scratch 0 (take sz (ent_data en))) sz \<longleftrightarrow> starts i (take_view sz data) en" if "wanted i en"
  proof -
    have "take_view sz (store scratch 0 (take sz (ent_data en))) = take sz (ent_data en)"
      using Cons.prems that by (intro nth_equalityI) (auto simp: store_def)
    then show ?thesis using that by (auto simp: mem_equal_def starts_def)
  qed
  then show ?case using Cons by (cases "wanted i en") (auto simp: Let_def starts_def)
qed simp

lemma find_reading:
  assumes inv: "ring_inv dev d rb s xs e m" and rd: "reading rb s xs e bs" and nf: "\<not> ring_full s xs e"
    and i: "i \<noteq> 0xff" "i \<noteq> 0" and sz: "0 < sz" "sz \<le> sub32 (number_of_bytes rb) HEADER_SIZE"
    and long: "\<forall>x \<in> set bs. wanted i (entry_of dev d rb x) \<longrightarrow> sz \<le> length (ent_data (entry_of dev d rb x))"
  shows "(\<forall>x \<in> set bs. \<not> starts i (take_view sz data) (entry_of dev d rb x)) \<Longrightarrow>
      \<exists>n sc. rb_find dev d rb i data sz scratch = Some (RB_BLANK_HDR, rb\<lparr>next_offs := n\<rparr>, sc)"
    and "bs = cs @ x # ds \<Longrightarrow> (\<forall>y \<in> set cs. \<not> starts i (take_view sz data) (entry_of dev d rb y)) \<Longrightarrow>
      starts i (take_view sz data) (entry_of dev d rb x) \<Longrightarrow>
      \<exists>n sc. rb_find dev d rb i data sz scratch = Some (int (hdr_pos x), rb\<lparr>next_offs := n\<rparr>, sc) \<and>
        reading (rb\<lparr>next_offs := n\<rparr>) s xs e ds"
proof -
  let ?L = "log_find i data sz scratch (map (entry_of dev d rb) bs)"
  have f: "rb_find dev d rb i data sz scratch = rb_find_loop dev d i data sz (FLASH_SECTOR (next_offs rb)) rb scratch"
    using i sz by (simp add: rb_find_def)
  obtain n sc where r: "rb_find dev d rb i data sz scratch = Some (case ?L of None \<Rightarrow> RB_BLANK_HDR | Some k \<Rightarrow> int (hdr_pos (bs ! k)), rb\<lparr>next_offs := n\<rparr>, sc)"
    and at: "\<forall>k. ?L = Some k \<longrightarrow> at_pos (rb\<lparr>next_offs := n\<rparr>) (hd (drop (Suc k) bs @ [e]))"
    using rb_find_loop_log [OF inv rd nf i sz reading_no_wrap [OF inv rd nf], of data scratch] unfolding f by blast
  note L = log_find_starts [of "map (entry_of dev d rb) bs" i sz data scratch]
  show "\<exists>n sc. rb_find dev d rb i data sz scratch = Some (RB_BLANK_HDR, rb\<lparr>next_offs := n\<rparr>, sc)"
    if "\<forall>x \<in> set bs. \<not> starts i (take_view sz data) (entry_of dev d rb x)" using r L long that by auto
  show "\<exists>n sc. rb_find dev d rb i data sz scratch = Some (int (hdr_pos x), rb\<lparr>next_offs := n\<rparr>, sc) \<and> reading (rb\<lparr>next_offs := n\<rparr>) s xs e ds"
    if b: "bs = cs @ x # ds" "\<forall>y \<in> set cs. \<not> starts i (take_view sz data) (entry_of dev d rb y)" "starts i (take_view sz data) (entry_of dev d rb x)"
  proof -
    have k: "?L = Some (length cs)" using L long b by (auto simp: takeWhile_append)
    moreover obtain as where "xs = as @ bs" using rd by (auto simp: reading_def)
    ultimately have "reading (rb\<lparr>next_offs := n\<rparr>) s xs e ds"
      using at nf b(1) unfolding reading_def by (auto intro!: exI [of _ "as @ cs @ [x]"])
    then show ?thesis using r k b(1) by auto
  qed
qed

section \<open>Keeping the newest record of a name\<close>

text \<open>Every entry but the last that satisfies \<open>P\<close> is dead.\<close>

fun keep_last :: "(log_entry \<Rightarrow> bool) \<Rightarrow> log_entry list \<Rightarrow> log_entry list" where
  "keep_last P [] = []"
| "keep_last P (en # es) = (if P en \<and> (\<exists>x \<in> set es. P x) then en\<lparr> ent_live := False \<rparr> else en) # keep_last P es"

lemma keep_last_append:
  "keep_last P (es @ fs) = (if \<exists>x \<in> set fs. P x then map (\<lambda>en. if P en then en\<lparr> ent_live := False \<rparr> else en) es else keep_last P es) @ keep_last P fs"
  by (induction es) auto

lemma keep_last_single: "length (filter P es) \<le> 1 \<Longrightarrow> keep_last P es = es"
  by (induction es) (auto simp: filter_empty_conv split: if_splits)

lemma dead [simp]: "\<not> wanted i (en\<lparr> ent_live := False \<rparr>)" "\<not> starts i bs (en\<lparr> ent_live := False \<rparr>)"
  by (simp_all add: starts_def wanted_def)

lemma keep_last_deleted:
  "\<exists>y \<in> set fs. starts i bs y \<Longrightarrow> starts i bs en \<Longrightarrow>
     keep_last (starts i bs) (es @ en\<lparr> ent_live := False \<rparr> # fs) = keep_last (starts i bs) (es @ en # fs)"
  by (simp add: keep_last_append)

lemma entry_of_geometry: "base_address rb' = base_address rb \<Longrightarrow> entry_of dev d rb' = entry_of dev d rb"
  by (rule ext) (simp add: entry_of_def hdr_at_def)

lemma used_sector_0:
  assumes "ring_inv dev d rb 0 xs e m" "xs \<noteq> []"
  shows "sec_res dev d rb 0 = RB_OK"
proof -
  obtain ys where xs: "xs = 0 # ys" using ring_invD(4) [OF assms(1)] assms(2) by (cases xs) auto
  then show ?thesis using visited_sector(2) [OF assms(1), of 0] by simp
qed

text \<open>The bookkeeping of one deletion: the first match in front of another one.\<close>

lemma delete_first_match:
  assumes dev: "nor_flash dev" and inv: "ring_inv dev d rb 0 xs e m" and nf: "\<not> ring_full 0 xs e" and m: "m < RB_INDEX_MASK"
    and i: "i \<noteq> 0xff" "i \<noteq> 0" and sz: "0 < sz" "sz \<le> sub32 (number_of_bytes rb) HEADER_SIZE"
    and long: "\<forall>x \<in> set xs. wanted i (entry_of dev d rb x) \<longrightarrow> sz \<le> length (ent_data (entry_of dev d rb x))"
    and xs: "xs = as @ x # ds" "\<forall>y \<in> set as. \<not> starts i (take_view sz data) (entry_of dev d rb y)"
      "starts i (take_view sz data) (entry_of dev d rb x)" and at: "next_offs rb = hdr_pos x"
  obtains rb' d' where "rb_delete dev d rb i data sz page = Some (RB_OK, rb', d')" "ring_inv dev d' rb' 0 xs e m"
    "reading rb' 0 xs e (x # ds)" "base_address rb' = base_address rb" "number_of_bytes rb' = number_of_bytes rb"
    "\<forall>y \<in> set xs. entry_of dev d' rb' y = (if y = x then (entry_of dev d rb x)\<lparr> ent_live := False \<rparr> else entry_of dev d rb y)"
proof -
  have lf: "log_find i data sz page (ring_log dev d rb xs) = Some (length as)"
    using log_find_starts [of "ring_log dev d rb xs" i sz data page] long xs by (auto simp: ring_log_def takeWhile_append)
  have x: "xs ! length as = x" "x \<in> set xs" using xs(1) by simp_all
  have used: "sec_res dev d rb 0 = RB_OK" by (rule used_sector_0 [OF inv]) (use xs(1) in simp)
  obtain rb' d' where r: "rb_delete dev d rb i data sz page = Some (RB_OK, rb', d')" "next_offs rb' = next_offs rb"
    "base_address rb' = base_address rb" "number_of_bytes rb' = number_of_bytes rb" "smudged dev d d' rb x" "ring_inv dev d' rb' 0 xs e m"
    using nor_flash.rb_delete_log [OF dev inv nf m used i sz, of data page] unfolding lf by (auto simp: x(1))
  have "reading rb' 0 xs e (x # ds)" using r(2) at xs(1) nf by (auto simp: reading_def at_pos_def)
  moreover have "\<forall>y \<in> set xs. entry_of dev d' rb' y = (if y = x then (entry_of dev d rb x)\<lparr> ent_live := False \<rparr> else entry_of dev d rb y)"
    using smudged_ring_inv(2) [OF inv x(2) r(5)] unfolding ring_log_def map_eq_conv entry_of_geometry [OF r(3)] .
  ultimately show ?thesis using that r by blast
qed

text \<open>The records of credentials a cursor has ahead, with none that is shorter than the bytes looked for.\<close>

definition looking :: "'d flash_dev \<Rightarrow> 'd \<Rightarrow> rb_t \<Rightarrow> nat list \<Rightarrow> nat \<Rightarrow> 32 word \<Rightarrow> nat \<Rightarrow> nat list \<Rightarrow> bool" where
  "looking dev d rb xs e m sz bs \<longleftrightarrow> ring_inv dev d rb 0 xs e m \<and> \<not> ring_full 0 xs e \<and> m < RB_INDEX_MASK \<and> reading rb 0 xs e bs \<and>
     0 < sz \<and> sz \<le> sub32 (number_of_bytes rb) HEADER_SIZE \<and>
     (\<forall>x \<in> set xs. wanted SSID_ID (entry_of dev d rb x) \<longrightarrow> sz \<le> length (ent_data (entry_of dev d rb x)))"

abbreviation credentials :: "'d flash_dev \<Rightarrow> 'd \<Rightarrow> rb_t \<Rightarrow> byte list \<Rightarrow> nat \<Rightarrow> bool" where
  "credentials dev d rb nb x \<equiv> starts SSID_ID nb (entry_of dev d rb x)"

lemma looking_subset: "looking dev d rb xs e m sz bs \<Longrightarrow> set bs \<subseteq> set xs"
  by (auto simp: looking_def reading_def)

lemma find_none:
  assumes l: "looking dev d rb xs e m sz bs" and n: "\<forall>x \<in> set bs. \<not> credentials dev d rb (take_view sz ss) x"
  obtains n sc where "rb_find dev d rb SSID_ID ss sz pg = Some (RB_BLANK_HDR, rb\<lparr>next_offs := n\<rparr>, sc)"
proof -
  note L = l [unfolded looking_def]
  have "\<exists>n sc. rb_find dev d rb SSID_ID ss sz pg = Some (RB_BLANK_HDR, rb\<lparr>next_offs := n\<rparr>, sc)"
    by (rule find_reading(1) [of dev d rb 0 xs e m bs]) (use L looking_subset [OF l] n in auto)
  with that show ?thesis by blast
qed

lemma find_first:
  assumes l: "looking dev d rb xs e m sz (cs @ x # ds)"
    and n: "\<forall>y \<in> set cs. \<not> credentials dev d rb (take_view sz ss) y" "credentials dev d rb (take_view sz ss) x"
  obtains n sc where "rb_find dev d rb SSID_ID ss sz pg = Some (int (hdr_pos x), rb\<lparr>next_offs := n\<rparr>, sc)"
    "looking dev d (rb\<lparr>next_offs := n\<rparr>) xs e m sz ds"
proof -
  note L = l [unfolded looking_def]
  have "\<exists>n sc. rb_find dev d rb SSID_ID ss sz pg = Some (int (hdr_pos x), rb\<lparr>next_offs := n\<rparr>, sc) \<and> reading (rb\<lparr>next_offs := n\<rparr>) 0 xs e ds"
    by (rule find_reading(2) [of dev d rb 0 xs e m "cs @ x # ds" _ _ cs x ds]) (use L looking_subset [OF l] n in auto)
  then obtain n sc where "rb_find dev d rb SSID_ID ss sz pg = Some (int (hdr_pos x), rb\<lparr>next_offs := n\<rparr>, sc)" "reading (rb\<lparr>next_offs := n\<rparr>) 0 xs e ds"
    by blast
  with that L show ?thesis by (simp add: looking_def)
qed

lemma erase_loop_single:
  assumes l: "looking dev d rb xs e m sz bs" and t: "0 \<le> terr"
    and one: "length (filter (credentials dev d rb (take_view sz ss)) bs) \<le> 1"
  shows "\<exists>pg. erase_redundant_loop dev ss sz rb terr \<lparr> io_flash = d, pagebuff = pg0 \<rparr> = Some (RB_OK, \<lparr> io_flash = d, pagebuff = pg \<rparr>)"
proof (cases "\<exists>x \<in> set bs. credentials dev d rb (take_view sz ss) x")
  case False
  obtain n sc where "rb_find dev d rb SSID_ID ss sz pg0 = Some (RB_BLANK_HDR, rb\<lparr>next_offs := n\<rparr>, sc)"
    by (rule find_none [OF l, of ss pg0]) (use False in auto)
  then show ?thesis using l t by (subst erase_redundant_loop.simps) (simp add: looking_def)
next
  case True
  then obtain cs x ds where bs: "bs = cs @ x # ds" "\<forall>y \<in> set cs. \<not> credentials dev d rb (take_view sz ss) y" "credentials dev d rb (take_view sz ss) x"
    by (rule split_list_first_propE)
  obtain n sc where f: "rb_find dev d rb SSID_ID ss sz pg0 = Some (int (hdr_pos x), rb\<lparr>next_offs := n\<rparr>, sc)" "looking dev d (rb\<lparr>next_offs := n\<rparr>) xs e m sz ds"
    by (rule find_first [OF l [unfolded bs(1)] bs(2,3)])
  obtain n2 sc2 where "rb_find dev d (rb\<lparr>next_offs := n\<rparr>) SSID_ID ss sz sc = Some (RB_BLANK_HDR, rb\<lparr>next_offs := n\<rparr>\<lparr>next_offs := n2\<rparr>, sc2)"
    by (rule find_none [OF f(2), of ss sc]) (use one bs in \<open>auto simp: filter_empty_conv\<close>)
  then show ?thesis using l t f(1) by (subst erase_redundant_loop.simps) (simp add: looking_def)
qed

lemma erase_loop_step:
  assumes dev: "nor_flash dev" and l: "looking dev d rb xs e m sz (cs @ x # ds)" and t: "0 \<le> terr"
    and xs: "xs = as @ cs @ x # ds" "\<forall>y \<in> set (as @ cs). \<not> credentials dev d rb (take_view sz ss) y"
      "credentials dev d rb (take_view sz ss) x" "\<exists>y \<in> set ds. credentials dev d rb (take_view sz ss) y"
  obtains rb' d' pg where "erase_redundant_loop dev ss sz rb terr \<lparr> io_flash = d, pagebuff = pg0 \<rparr> =
      erase_redundant_loop dev ss sz rb' (int (hdr_pos x)) \<lparr> io_flash = d', pagebuff = pg \<rparr>"
    "looking dev d' rb' xs e m sz (x # ds)" "base_address rb' = base_address rb" "number_of_bytes rb' = number_of_bytes rb"
    "\<forall>y \<in> set xs. entry_of dev d' rb' y = (if y = x then (entry_of dev d rb x)\<lparr> ent_live := False \<rparr> else entry_of dev d rb y)"
proof -
  note L = l [unfolded looking_def]
  obtain n sc where f: "rb_find dev d rb SSID_ID ss sz pg0 = Some (int (hdr_pos x), rb\<lparr>next_offs := n\<rparr>, sc)" "looking dev d (rb\<lparr>next_offs := n\<rparr>) xs e m sz ds"
    by (rule find_first [OF l, of ss pg0]) (use xs(2,3) in auto)
  from xs(4) obtain cs2 y ds2 where ds: "ds = cs2 @ y # ds2" "\<forall>z \<in> set cs2. \<not> credentials dev d rb (take_view sz ss) z" "credentials dev d rb (take_view sz ss) y"
    by (rule split_list_first_propE)
  obtain n2 sc2 where f2: "rb_find dev d (rb\<lparr>next_offs := n\<rparr>) SSID_ID ss sz sc = Some (int (hdr_pos y), rb\<lparr>next_offs := n\<rparr>\<lparr>next_offs := n2\<rparr>, sc2)"
    by (rule find_first [OF f(2) [unfolded ds(1)], of ss sc]) (use ds(2,3) in auto)
  let ?rb = "rb\<lparr>next_offs := hdr_pos x\<rparr>"
  obtain rb' d' where r: "rb_delete dev d ?rb SSID_ID ss sz sc2 = Some (RB_OK, rb', d')" "ring_inv dev d' rb' 0 xs e m"
    "reading rb' 0 xs e (x # ds)" "base_address rb' = base_address ?rb" "number_of_bytes rb' = number_of_bytes ?rb"
    "\<forall>y \<in> set xs. entry_of dev d' rb' y = (if y = x then (entry_of dev d ?rb x)\<lparr> ent_live := False \<rparr> else entry_of dev d ?rb y)"
    by (rule delete_first_match [OF dev, of d ?rb xs e m SSID_ID sz "as @ cs" x ds ss sc2]) (use L xs in auto)
  have "erase_redundant_loop dev ss sz rb terr \<lparr> io_flash = d, pagebuff = pg0 \<rparr> =
      erase_redundant_loop dev ss sz rb' (int (hdr_pos x)) \<lparr> io_flash = d', pagebuff = rb_page rb' \<rparr>"
    using L t f(1) f2 r(1) by (subst erase_redundant_loop.simps) simp
  moreover have "looking dev d' rb' xs e m sz (x # ds)" using L r by (auto simp: looking_def)
  ultimately show ?thesis using that r by simp
qed

lemma erase_redundant_loop_log:
  assumes dev: "nor_flash dev"
  shows "looking dev d rb xs e m sz bs \<Longrightarrow> xs = as @ bs \<Longrightarrow> \<forall>y \<in> set as. \<not> credentials dev d rb (take_view sz ss) y \<Longrightarrow> 0 \<le> terr \<Longrightarrow>
    \<exists>d' pg rb'. erase_redundant_loop dev ss sz rb terr \<lparr> io_flash = d, pagebuff = pg0 \<rparr> = Some (RB_OK, \<lparr> io_flash = d', pagebuff = pg \<rparr>) \<and>
      base_address rb' = base_address rb \<and> number_of_bytes rb' = number_of_bytes rb \<and>
      ring_inv dev d' rb' 0 xs e m \<and> ring_log dev d' rb' xs = keep_last (starts SSID_ID (take_view sz ss)) (ring_log dev d rb xs)"
proof (induction "length (filter (credentials dev d rb (take_view sz ss)) bs)" arbitrary: d rb bs as terr pg0 rule: less_induct)
  case less
  let ?P = "\<lambda>d rb. credentials dev d rb (take_view sz ss)"
  note l = less.prems(1) and xs = less.prems(2) and as = less.prems(3)
  show ?case
  proof (cases "length (filter (?P d rb) bs) \<le> 1")
    case False
    then have "\<exists>x \<in> set bs. ?P d rb x" by (cases "filter (?P d rb) bs") (auto simp: filter_eq_Cons_iff)
    then obtain cs x ds where bs: "bs = cs @ x # ds" "\<forall>y \<in> set cs. \<not> ?P d rb y" "?P d rb x" by (rule split_list_first_propE)
    have bs4: "\<exists>y \<in> set ds. ?P d rb y"
    proof (rule ccontr)
      assume "\<not> (\<exists>y \<in> set ds. ?P d rb y)"
      then have "filter (?P d rb) ds = []" by (auto simp: filter_empty_conv)
      with False bs show False by simp
    qed
    obtain rb' d' pg where st: "erase_redundant_loop dev ss sz rb terr \<lparr> io_flash = d, pagebuff = pg0 \<rparr> =
        erase_redundant_loop dev ss sz rb' (int (hdr_pos x)) \<lparr> io_flash = d', pagebuff = pg \<rparr>"
      "looking dev d' rb' xs e m sz (x # ds)" "base_address rb' = base_address rb" "number_of_bytes rb' = number_of_bytes rb"
      and en: "\<forall>y \<in> set xs. entry_of dev d' rb' y = (if y = x then (entry_of dev d rb x)\<lparr> ent_live := False \<rparr> else entry_of dev d rb y)"
      by (rule erase_loop_step [OF dev l [unfolded bs(1)] less.prems(4), of as ss pg0]) (use xs as bs bs4 in auto)
    have dx: "distinct xs" using l by (auto simp: looking_def intro: ring_inv_distinct)
    have P: "?P d' rb' y \<longleftrightarrow> y \<noteq> x \<and> ?P d rb y" if "y \<in> set xs" for y using en that by auto
    have ds: "filter (?P d' rb') (x # ds) = filter (?P d rb) ds"
      using P xs bs(1) dx by (auto intro!: filter_cong)
    have "\<forall>y \<in> set (as @ cs). \<not> ?P d' rb' y" using P as bs(2) xs bs(1) by auto
    then obtain d2 pg2 rb2 where r: "erase_redundant_loop dev ss sz rb' (int (hdr_pos x)) \<lparr> io_flash = d', pagebuff = pg \<rparr> = Some (RB_OK, \<lparr> io_flash = d2, pagebuff = pg2 \<rparr>)"
      "base_address rb2 = base_address rb'" "number_of_bytes rb2 = number_of_bytes rb'" "ring_inv dev d2 rb2 0 xs e m"
      "ring_log dev d2 rb2 xs = keep_last (starts SSID_ID (take_view sz ss)) (ring_log dev d' rb' xs)"
      using less.hyps [OF _ st(2), of "as @ cs" "int (hdr_pos x)" pg] xs bs ds by auto
    have lg0: "ring_log dev d rb xs = map (entry_of dev d rb) (as @ cs) @ entry_of dev d rb x # map (entry_of dev d rb) ds"
      using xs bs(1) by (simp add: ring_log_def)
    have lg: "ring_log dev d' rb' xs = map (entry_of dev d rb) (as @ cs) @ (entry_of dev d rb x)\<lparr> ent_live := False \<rparr> # map (entry_of dev d rb) ds"
      using en xs bs(1) dx by (auto simp: ring_log_def)
    have "keep_last (starts SSID_ID (take_view sz ss)) (ring_log dev d' rb' xs) = keep_last (starts SSID_ID (take_view sz ss)) (ring_log dev d rb xs)"
      unfolding lg lg0 by (rule keep_last_deleted) (use bs(3) bs4 in simp_all)
    then show ?thesis using st r by (intro exI [of _ d2] exI [of _ pg2] exI [of _ rb2]) simp
  next
    case True
    obtain pg where "erase_redundant_loop dev ss sz rb terr \<lparr> io_flash = d, pagebuff = pg0 \<rparr> = Some (RB_OK, \<lparr> io_flash = d, pagebuff = pg \<rparr>)"
      using erase_loop_single [OF l less.prems(4) True, of pg0] by blast
    moreover have "keep_last (starts SSID_ID (take_view sz ss)) (ring_log dev d rb xs) = ring_log dev d rb xs"
      by (rule keep_last_single) (use True xs as in \<open>auto simp: ring_log_def filter_map comp_def filter_empty_conv\<close>)
    ultimately show ?thesis using l by (intro exI [of _ d] exI [of _ pg] exI [of _ rb]) (simp add: looking_def)
  qed
qed

lemma flash_io_erase_redundant_log:
  assumes dev: "nor_flash dev" and inv: "store_inv dev (io_flash st) xs e m" and stk: "sector_index stk \<le> m" and ne: "xs \<noteq> []"
    and n: "strlen ss = Some n" "n < FLASH_PAGE_SIZE"
    and long: "\<forall>r \<in> set (records_of SSID_ID (store_log dev (io_flash st) xs)). n < length r"
  shows "\<exists>st'. flash_io_erase_redundant_ssids dev stk ss st = Some (RB_OK, st') \<and> store_inv dev (io_flash st') xs e m \<and>
    store_log dev (io_flash st') xs = keep_last (starts SSID_ID (take_view n ss @ [0])) (store_log dev (io_flash st) xs)"
proof -
  let ?d = "io_flash st"
  obtain rb where o: "rb_recreate dev ?d stk PERSISTENT_TABLE (PERSISTENT_LEN div FLASH_SECTOR_SIZE) CREATE_FAIL = (RB_OK, rb, ?d)"
    and rb: "ring_inv dev ?d rb 0 xs e m" "next_offs rb = 0" "base_address rb = base_address (storage_rb 4)"
      "number_of_bytes rb = number_of_bytes (storage_rb 4)" "\<forall>ys. ring_log dev ?d rb ys = store_log dev ?d ys"
    by (rule open_store [OF inv stk, of CREATE_FAIL]) (use ne in simp_all)
  have sn: "take_view (n + 1) ss = take_view n ss @ [0]"
    using strlen_Some [OF n(1)] by (auto simp: list_eq_iff_nth_eq nth_append less_Suc_eq)
  have "rb\<lparr>next_offs := 0\<rparr> = rb" using rb(2) by simp
  then have rd: "reading rb 0 xs e xs" using reading_start [OF rb(1)] by simp
  have "\<forall>x \<in> set xs. wanted SSID_ID (entry_of dev ?d rb x) \<longrightarrow> n + 1 \<le> length (ent_data (entry_of dev ?d rb x))"
    using long rb(5) [rule_format, of xs, symmetric] by (auto simp: records_of_def ring_log_def)
  then have l: "looking dev ?d rb xs e m (n + 1) xs"
    using inv rb(1) rd n(2) page_size_ok [OF ring_invD(1) [OF rb(1)]] by (simp add: looking_def store_inv_def)
  obtain d' pg rb' where r: "erase_redundant_loop dev ss (n + 1) rb 0 \<lparr> io_flash = ?d, pagebuff = pagebuff st \<rparr> = Some (RB_OK, \<lparr> io_flash = d', pagebuff = pg \<rparr>)"
    "base_address rb' = base_address rb" "number_of_bytes rb' = number_of_bytes rb" "ring_inv dev d' rb' 0 xs e m"
    "ring_log dev d' rb' xs = keep_last (starts SSID_ID (take_view n ss @ [0])) (ring_log dev ?d rb xs)"
    using erase_redundant_loop_log [OF dev l, of "[]" ss 0 "pagebuff st"] unfolding sn by auto
  have "flash_io_erase_redundant_ssids dev stk ss st = Some (RB_OK, \<lparr> io_flash = d', pagebuff = pg \<rparr>)"
    using o r(1) [folded io_state_eq] n(1) by (simp add: flash_io_erase_redundant_ssids_def Let_def)
  moreover have "ring_inv dev d' (storage_rb 4) 0 xs e m"
    by (rule ring_inv_cong [OF _ _ _ r(4)]) (use rb r in \<open>simp_all add: storage_rb_def\<close>)
  moreover have "store_log dev d' xs = ring_log dev d' rb' xs"
    unfolding store_log_def by (rule ring_log_geometry) (use rb r in simp)
  ultimately show ?thesis using inv r(5) rb(5) by (simp add: store_inv_def)
qed

section \<open>Reading the password\<close>

definition credential :: "byte list \<Rightarrow> byte list \<Rightarrow> byte list" where
  "credential n p = n @ [0] @ p @ [0]"

lemma strlen_credential:
  assumes "take_view (length (credential n p)) v = credential n p" "0 \<notin> set n" "0 \<notin> set p"
  shows "strlen v = Some (length n)" "strlen (advance v (length n + 1)) = Some (length p)"
    "take_view (length p + 1) (advance v (length n + 1)) = p @ [0]"
proof -
  have v: "v k = credential n p ! k" if "k < length n + length p + 2" for k
    using nth_take_view [of k "length (credential n p)" v] that unfolding assms(1) by (simp add: credential_def)
  show "strlen v = Some (length n)"
    by (rule strlen_eq) (use v assms(2) in \<open>auto simp: credential_def nth_append dest: nth_mem\<close>)
  have a: "v (length n + 1 + k) = (p @ [0]) ! k" if "k < length p + 1" for k
    using v [of "length n + 1 + k"] that by (simp add: credential_def nth_append)
  then show "strlen (advance v (length n + 1)) = Some (length p)"
    using assms(3) by (intro strlen_eq) (auto simp: advance_apply nth_append dest: nth_mem)
  show "take_view (length p + 1) (advance v (length n + 1)) = p @ [0]"
    using a by (auto simp: list_eq_iff_nth_eq advance_apply)
qed

text \<open>One round of the lookup: the next record that begins with the name.\<close>

lemma find_match_step:
  assumes l: "looking dev d rb xs e m sz (cs @ y # ds)" and t: "0 \<le> terr"
    and cs: "\<forall>x \<in> set cs. \<not> credentials dev d rb (take_view sz ss) x" and y: "credentials dev d rb (take_view sz ss) y"
    and c: "ent_data (entry_of dev d rb y) = credential n p" "0 \<notin> set n" "0 \<notin> set p" "length (credential n p) \<le> FLASH_PAGE_SIZE"
  obtains rb2 pg where "looking dev d rb2 xs e m sz ds" "entry_of dev d rb2 = entry_of dev d rb"
    "find_matching_loop dev ss sz pw rb terr \<lparr> io_flash = d, pagebuff = pg0 \<rparr> =
      (if sz = length n then Some (int (hdr_pos y), store pw 0 (p @ [0]), \<lparr> io_flash = d, pagebuff = pg \<rparr>)
       else find_matching_loop dev ss sz pw rb2 (int (hdr_pos y)) \<lparr> io_flash = d, pagebuff = pg \<rparr>)"
proof -
  note L = l [unfolded looking_def]
  obtain k sc where f: "rb_find dev d rb SSID_ID ss sz pg0 = Some (int (hdr_pos y), rb\<lparr>next_offs := k\<rparr>, sc)"
    "looking dev d (rb\<lparr>next_offs := k\<rparr>) xs e m sz ds" by (rule find_first [OF l cs y])
  let ?rb = "rb\<lparr>next_offs := hdr_pos y\<rparr>" and ?pg = "store sc 0 (credential n p)"
  have inv: "ring_inv dev d ?rb 0 xs e m" using L by simp
  obtain as where xs: "xs = as @ cs @ y # ds" using L by (auto simp: reading_def)
  have rd: "reading ?rb 0 xs e ([] @ y # ds)" using L xs by (auto simp: reading_def at_pos_def)
  have "\<exists>n2. rb_read dev d ?rb SSID_ID sc FLASH_PAGE_SIZE = Some (int (length (credential n p)), ?rb\<lparr>next_offs := n2\<rparr>, ?pg) \<and>
      at_pos (?rb\<lparr>next_offs := n2\<rparr>) (hd (ds @ [e]))"
    using read_first [OF inv rd, of SSID_ID "[]" y ds FLASH_PAGE_SIZE sc 0] y c page_size_ok [OF ring_invD(1) [OF inv]]
    by (auto simp: starts_def rb_read_def min_def)
  then obtain n2 where r: "rb_read dev d ?rb SSID_ID sc FLASH_PAGE_SIZE = Some (int (length (credential n p)), rb\<lparr>next_offs := n2\<rparr>, ?pg)"
    "at_pos (rb\<lparr>next_offs := n2\<rparr>) (hd (ds @ [e]))" by auto
  have "take_view (length (credential n p)) ?pg = credential n p" by (auto simp: list_eq_iff_nth_eq store_def)
  note sl = strlen_credential [OF this c(2,3)]
  have "looking dev d (rb\<lparr>next_offs := n2\<rparr>) xs e m sz ds" using L r(2) xs by (auto simp: looking_def reading_def)
  moreover have "find_matching_loop dev ss sz pw rb terr \<lparr> io_flash = d, pagebuff = pg0 \<rparr> =
      (if sz = length n then Some (int (hdr_pos y), store pw 0 (p @ [0]), \<lparr> io_flash = d, pagebuff = ?pg \<rparr>)
       else find_matching_loop dev ss sz pw (rb\<lparr>next_offs := n2\<rparr>) (int (hdr_pos y)) \<lparr> io_flash = d, pagebuff = ?pg \<rparr>)"
    using L t f(1) r(1) sl by (subst find_matching_loop.simps) (simp add: Let_def)
  ultimately show ?thesis using that [of "rb\<lparr>next_offs := n2\<rparr>" ?pg] by simp
qed

text \<open>All live records of networks are a name and a password, each with its terminator.\<close>

definition is_credential :: "byte list \<Rightarrow> bool" where
  "is_credential r \<longleftrightarrow> (\<exists>n p. r = credential n p \<and> 0 \<notin> set n \<and> 0 \<notin> set p) \<and> length r \<le> FLASH_PAGE_SIZE"

lemma is_credentialE:
  assumes "is_credential r"
  obtains n p where "r = credential n p" "0 \<notin> set n" "0 \<notin> set p" "length (credential n p) \<le> FLASH_PAGE_SIZE"
  using assms by (auto simp: is_credential_def)

lemma credential_starts: "0 \<notin> set n \<Longrightarrow> 0 \<notin> set a \<Longrightarrow> take (length a + 1) (credential n p) = a @ [0] \<longleftrightarrow> n = a"
proof
  assume z: "0 \<notin> set n" "0 \<notin> set a" and t: "take (length a + 1) (credential n p) = a @ [0]"
  have "credential n p = a @ [0] @ drop (length a + 1) (credential n p)"
    using append_take_drop_id [of "length a + 1" "credential n p"] unfolding t by simp
  then have "takeWhile (\<lambda>c. c \<noteq> 0) (credential n p) = takeWhile (\<lambda>c. c \<noteq> 0) (a @ [0] @ drop (length a + 1) (credential n p))" by (rule arg_cong)
  moreover have "takeWhile (\<lambda>c. c \<noteq> 0) (b @ [0] @ q) = b" if "0 \<notin> set b" for b q :: "byte list"
    using that by (induction b) auto
  ultimately show "n = a" using z by (simp add: credential_def)
qed (auto simp: credential_def)

lemma find_matching_loop_log:
  assumes name: "a = take_view sz ss" "0 \<notin> set a"
  shows "looking dev d rb xs e m sz bs \<Longrightarrow> 0 \<le> terr \<Longrightarrow> entry_of dev d rb = en \<Longrightarrow>
    \<forall>x \<in> set bs. wanted SSID_ID (en x) \<longrightarrow> is_credential (ent_data (en x)) \<Longrightarrow>
    \<exists>off pw' pg. find_matching_loop dev ss sz pw rb terr \<lparr> io_flash = d, pagebuff = pg0 \<rparr> = Some (off, pw', \<lparr> io_flash = d, pagebuff = pg \<rparr>) \<and>
      (case filter (\<lambda>x. starts SSID_ID (a @ [0]) (en x)) bs of
         [] \<Rightarrow> off < 0 \<and> pw' = pw
       | x # _ \<Rightarrow> 0 \<le> off \<and> (\<exists>p. ent_data (en x) = credential a p \<and> pw' = store pw 0 (p @ [0])))"
proof (induction "length bs" arbitrary: bs rb terr pg0 rule: less_induct)
  case less
  note l = less.prems(1) and cr = less.prems(4)
  have la: "length a = sz" using name(1) by simp
  have ext: "starts SSID_ID a (en x)" if "starts SSID_ID (a @ [0]) (en x)" for x
  proof -
    have "take (length a) (take (length a + 1) (ent_data (en x))) = a" using that by (simp add: starts_def)
    then show ?thesis using that by (simp add: starts_def min_def)
  qed
  show ?case
  proof (cases "\<exists>x \<in> set bs. starts SSID_ID a (en x)")
    case False
    obtain n sc where "rb_find dev d rb SSID_ID ss sz pg0 = Some (RB_BLANK_HDR, rb\<lparr>next_offs := n\<rparr>, sc)"
      by (rule find_none [OF l, of ss pg0]) (use False less.prems(3) name(1) in auto)
    then have "find_matching_loop dev ss sz pw rb terr \<lparr> io_flash = d, pagebuff = pg0 \<rparr> = Some (RB_BLANK_HDR, pw, \<lparr> io_flash = d, pagebuff = sc \<rparr>)"
      using l less.prems(2) by (subst find_matching_loop.simps) (simp add: looking_def)
    moreover have "filter (\<lambda>x. starts SSID_ID (a @ [0]) (en x)) bs = []" using False ext by (auto simp: filter_empty_conv)
    ultimately show ?thesis by simp
  next
    case True
    then obtain cs y ds where bs: "bs = cs @ y # ds" "starts SSID_ID a (en y)" "\<forall>x \<in> set cs. \<not> starts SSID_ID a (en x)"
      by (rule split_list_first_propE)
    obtain n p where c: "ent_data (en y) = credential n p" "0 \<notin> set n" "0 \<notin> set p" "length (credential n p) \<le> FLASH_PAGE_SIZE"
      using cr bs(1,2) by (auto simp: starts_def elim!: is_credentialE)
    have cs: "filter (\<lambda>x. starts SSID_ID (a @ [0]) (en x)) cs = []" using bs(3) ext by (auto simp: filter_empty_conv)
    obtain rb2 pg where s: "looking dev d rb2 xs e m sz ds" "entry_of dev d rb2 = entry_of dev d rb"
      "find_matching_loop dev ss sz pw rb terr \<lparr> io_flash = d, pagebuff = pg0 \<rparr> =
        (if sz = length n then Some (int (hdr_pos y), store pw 0 (p @ [0]), \<lparr> io_flash = d, pagebuff = pg \<rparr>)
         else find_matching_loop dev ss sz pw rb2 (int (hdr_pos y)) \<lparr> io_flash = d, pagebuff = pg \<rparr>)"
      by (rule find_match_step [OF l [unfolded bs(1)] less.prems(2), of ss n p pw pg0]) (use bs c name(1) less.prems(3) in auto)
    have st: "starts SSID_ID (a @ [0]) (en y) \<longleftrightarrow> n = a"
      using credential_starts [OF c(2) name(2), of p] bs(2) c(1) by (auto simp: starts_def)
    have pre: "take (length a) (credential n p) = a" using bs(2) c(1) by (simp add: starts_def)
    have na: "n = a \<longleftrightarrow> sz = length n"
      using pre la by (auto simp: credential_def)
    show ?thesis
    proof (cases "n = a")
      case True
      then show ?thesis using s(3) st c(1) na bs(1) cs by auto
    next
      case False
      then show ?thesis using s(3) st na bs(1) cs less.hyps [of ds rb2 "int (hdr_pos y)" pg] s(1,2) less.prems(3) cr by simp
    qed
  qed
qed

section \<open>Lookup\<close>

text \<open>The records of a name, and what the newest of them holds behind the name.\<close>

definition named :: "byte list \<Rightarrow> byte list \<Rightarrow> bool" where
  "named a r \<longleftrightarrow> take (length a + 1) r = a @ [0]"

definition newest :: "byte list \<Rightarrow> byte list list \<Rightarrow> byte list option" where
  "newest a rs = (if \<exists>r \<in> set rs. named a r then Some (drop (length a + 1) (last (filter (named a) rs))) else None)"

lemma newest_last: "newest a rs = (if filter (named a) rs = [] then None else Some (drop (length a + 1) (last (filter (named a) rs))))"
  by (auto simp: newest_def filter_empty_conv)

lemma filter_keep_last: "filter (starts i b) (keep_last (starts i b) es) = (if \<exists>x \<in> set es. starts i b x then [last (filter (starts i b) es)] else [])"
  by (induction es) (auto simp: filter_empty_conv)

lemma records_starts: "filter (named a) (records_of i es) = map ent_data (filter (starts i (a @ [0])) es)"
  by (induction es) (auto simp: records_of_def named_def starts_def)

lemma keep_last_wanted: "en \<in> set (keep_last (starts i b) es) \<Longrightarrow> wanted i en \<Longrightarrow> en \<in> set es"
  by (induction es) (auto split: if_splits)

lemma keep_last_others: "filter (\<lambda>r. \<not> named a r) (records_of i (keep_last (starts i (a @ [0])) es)) = filter (\<lambda>r. \<not> named a r) (records_of i es)"
  by (induction es) (auto simp: records_of_def starts_def named_def)

lemma newest_kept:
  "newest a (records_of i es) = (case filter (starts i (a @ [0])) (keep_last (starts i (a @ [0])) es) of
     [] \<Rightarrow> None | en # _ \<Rightarrow> Some (drop (length a + 1) (ent_data en)))"
proof -
  have "(\<exists>r \<in> set (records_of i es). named a r) \<longleftrightarrow> filter (named a) (records_of i es) \<noteq> []" by (auto simp: filter_empty_conv)
  also have "\<dots> \<longleftrightarrow> (\<exists>x \<in> set es. starts i (a @ [0]) x)" unfolding records_starts by (auto simp: filter_empty_conv)
  finally have e: "(\<exists>r \<in> set (records_of i es). named a r) \<longleftrightarrow> (\<exists>x \<in> set es. starts i (a @ [0]) x)" .
  show ?thesis
  proof (cases "\<exists>x \<in> set es. starts i (a @ [0]) x")
    case True
    then have "filter (starts i (a @ [0])) es \<noteq> []" by (auto simp: filter_empty_conv)
    then show ?thesis using True e by (simp add: newest_def filter_keep_last records_starts last_map)
  qed (simp add: newest_def filter_keep_last e)
qed

lemma find_matching_returns_newest:
  assumes dev: "nor_flash dev" and inv: "store_inv dev (io_flash st) xs e m" and stk: "sector_index stk \<le> m"
    and rs: "rs = records_of SSID_ID (store_log dev (io_flash st) xs)" "\<forall>r \<in> set rs. is_credential r \<and> length a < length r"
    and a: "strlen ss = Some (length a)" "take_view (length a) ss = a" "0 < length a" "length a < FLASH_PAGE_SIZE"
  shows "\<exists>err pw' st'. flash_io_find_matching_ssid dev stk ss pw st = Some (err, pw', st') \<and> store_inv dev (io_flash st') xs e m \<and>
    (case newest a rs of None \<Rightarrow> err < 0 \<and> pw' = pw | Some p \<Rightarrow> 0 \<le> err \<and> pw' = store pw 0 p) \<and>
    filter (\<lambda>r. \<not> named a r) (records_of SSID_ID (store_log dev (io_flash st') xs)) = filter (\<lambda>r. \<not> named a r) rs \<and>
    set (records_of SSID_ID (store_log dev (io_flash st') xs)) \<subseteq> set rs"
proof (cases "xs = []")
  case True
  obtain rb where "rb_recreate dev (io_flash st) stk PERSISTENT_TABLE (PERSISTENT_LEN div FLASH_SECTOR_SIZE) CREATE_FAIL = (RB_BLANK_HDR, rb, io_flash st)"
    by (rule open_store [OF inv stk, of CREATE_FAIL]) (use True in simp_all)
  then have "flash_io_find_matching_ssid dev stk ss pw st = Some (RB_BLANK_HDR, pw, st)"
    using a(1) by (simp add: flash_io_find_matching_ssid_def flash_io_erase_redundant_ssids_def Let_def erase_redundant_loop.simps)
  then show ?thesis using inv True rs(1) by (simp add: newest_def records_of_def store_log_def ring_log_def)
next
  case False
  let ?K = "keep_last (starts SSID_ID (a @ [0])) (store_log dev (io_flash st) xs)"
  obtain st1 where e: "flash_io_erase_redundant_ssids dev stk ss st = Some (RB_OK, st1)" and inv1: "store_inv dev (io_flash st1) xs e m"
    and lg: "store_log dev (io_flash st1) xs = ?K"
    using flash_io_erase_redundant_log [OF dev inv stk False a(1,4)] rs a(2) by auto
  let ?d = "io_flash st1"
  obtain rb where o: "rb_recreate dev ?d stk PERSISTENT_TABLE (PERSISTENT_LEN div FLASH_SECTOR_SIZE) CREATE_FAIL = (RB_OK, rb, ?d)"
    and rb: "ring_inv dev ?d rb 0 xs e m" "next_offs rb = 0" "\<forall>ys. ring_log dev ?d rb ys = store_log dev ?d ys"
    by (rule open_store [OF inv1 stk, of CREATE_FAIL]) (use False in simp_all)
  have K: "map (entry_of dev ?d rb) xs = ?K" using rb(3) lg by (simp add: ring_log_def)
  have cr: "is_credential (ent_data (entry_of dev ?d rb x)) \<and> length a < length (ent_data (entry_of dev ?d rb x))"
    if "x \<in> set xs" "wanted SSID_ID (entry_of dev ?d rb x)" for x
  proof -
    have "entry_of dev ?d rb x \<in> set ?K" using that(1) unfolding K [symmetric] by simp
    from keep_last_wanted [OF this that(2)] that(2) rs show ?thesis by (auto simp: records_of_def)
  qed
  have "rb\<lparr>next_offs := 0\<rparr> = rb" using rb(2) by simp
  then have rd: "reading rb 0 xs e xs" using reading_start [OF rb(1)] by simp
  then have l: "looking dev ?d rb xs e m (length a) xs"
    using inv1 rb(1) a(3,4) cr page_size_ok [OF ring_invD(1) [OF rb(1)]] by (auto simp: looking_def store_inv_def dest: less_imp_le)
  have z: "0 \<notin> set a" using strlen_Some [OF a(1)] a(2) by (metis in_set_conv_nth nth_take_view length_take_view)
  obtain off pw' pg where f: "find_matching_loop dev ss (length a) pw rb 0 \<lparr> io_flash = ?d, pagebuff = pagebuff st1 \<rparr> = Some (off, pw', \<lparr> io_flash = ?d, pagebuff = pg \<rparr>)"
    "case filter (\<lambda>x. starts SSID_ID (a @ [0]) (entry_of dev ?d rb x)) xs of [] \<Rightarrow> off < 0 \<and> pw' = pw
       | x # _ \<Rightarrow> 0 \<le> off \<and> (\<exists>p. ent_data (entry_of dev ?d rb x) = credential a p \<and> pw' = store pw 0 (p @ [0]))"
    using find_matching_loop_log [OF a(2) [symmetric] z l _ refl, of 0 pw "pagebuff st1"] cr by auto
  have "flash_io_find_matching_ssid dev stk ss pw st = Some (off, pw', \<lparr> io_flash = ?d, pagebuff = pg \<rparr>)"
    using a(1) e o f(1) [folded io_state_eq] by (simp add: flash_io_find_matching_ssid_def Let_def)
  moreover have "map (entry_of dev ?d rb) (filter (\<lambda>x. starts SSID_ID (a @ [0]) (entry_of dev ?d rb x)) xs) = filter (starts SSID_ID (a @ [0])) ?K"
    unfolding K [symmetric] by (simp add: filter_map comp_def)
  then have "case newest a rs of None \<Rightarrow> off < 0 \<and> pw' = pw | Some p \<Rightarrow> 0 \<le> off \<and> pw' = store pw 0 p"
    using f(2) unfolding rs(1) newest_kept by (auto simp: credential_def split: list.splits)
  moreover have "filter (\<lambda>r. \<not> named a r) (records_of SSID_ID (store_log dev ?d xs)) = filter (\<lambda>r. \<not> named a r) rs"
    unfolding lg rs(1) by (rule keep_last_others)
  moreover have "set (records_of SSID_ID (store_log dev ?d xs)) \<subseteq> set rs"
    using keep_last_wanted [of _ SSID_ID "a @ [0]" "store_log dev (io_flash st) xs"] unfolding lg rs(1) by (auto simp: records_of_def)
  ultimately show ?thesis using inv1 by auto
qed

lemma stored_credential:
  assumes "strlen ss = Some (length a)" "take_view (length a) ss = a" "strlen pw = Some (length p)" "take_view (length p) pw = p"
  shows "take_view (length (credential a p)) (store (store tmp 0 (take_view (length a + 1) ss)) (length a + 1) (take_view (length p + 1) pw)) = credential a p"
proof -
  have "take_view (length a + 1) ss = a @ [0]" "take_view (length p + 1) pw = p @ [0]"
    using strlen_Some [OF assms(1)] strlen_Some [OF assms(3)] assms(2,4)
    by (auto simp: list_eq_iff_nth_eq nth_append less_Suc_eq)
  then show ?thesis by (auto simp: list_eq_iff_nth_eq store_def credential_def nth_append)
qed

text \<open>Writing new credentials: the record is appended, older ones of the same name are dead.\<close>

lemma write_ssid_log:
  assumes dev: "nor_flash dev" and inv: "store_inv dev (io_flash st) xs e m" and stk: "sector_index stk \<le> m" and m: "m < 0xfffffe"
    and rs: "rs = records_of SSID_ID (store_log dev (io_flash st) xs)" "\<forall>r \<in> set rs. is_credential r \<and> length a < length r"
    and a: "strlen ss = Some (length a)" "take_view (length a) ss = a" "strlen pw = Some (length p)" "take_view (length p) pw = p"
    and len: "length (credential a p) \<le> 64" "record_fits e (length (credential a p))" "sector_end e < PERSISTENT_LEN"
    and new: "rs = [] \<or> last rs \<noteq> credential a p"
  obtains st' e' where "flash_io_write_ssid dev stk tmp ss pw st = Some (int (length (credential a p)), st')"
    "store_inv dev (io_flash st') (xs @ [e]) e' (m + 1)" "sector_index stk \<le> m + 1"
    "store_log dev (io_flash st') (xs @ [e]) = keep_last (starts SSID_ID (a @ [0]))
       (store_log dev (io_flash st) xs @ [\<lparr> ent_id = SSID_ID, ent_live = True, ent_data = credential a p \<rparr>])"
proof -
  let ?buf = "store (store tmp 0 (take_view (length a + 1) ss)) (length a + 1) (take_view (length p + 1) pw)" and ?n = "length (credential a p)"
  have cl: "?n = (length a + 1) + (length p + 1)" by (simp add: credential_def)
  note tv = stored_credential [OF a, of tmp]
  have i: "(SSID_ID :: byte) \<noteq> 0xff" "(SSID_ID :: byte) \<noteq> 0" by simp_all
  obtain st1 e' where w: "flash_io_write_flash_id dev stk SSID_ID PERSISTENT_TABLE PERSISTENT_LEN ?buf ?n st = Some (int ?n, st1)"
    "store_inv dev (io_flash st1) (xs @ [e]) e' (m + 1)"
    "store_log dev (io_flash st1) (xs @ [e]) = store_log dev (io_flash st) xs @ [\<lparr> ent_id = SSID_ID, ent_live = True, ent_data = credential a p \<rparr>]"
    using write_appends [OF dev inv stk m i len(2,3) _ rs(1), of ?buf] rs(2) len(1) new unfolding tv by (auto simp: is_credential_def)
  have stk1: "sector_index stk \<le> m + 1" using index_step(2,3) [OF order_refl m] stk by (meson less_imp_le order_trans)
  have "records_of SSID_ID (store_log dev (io_flash st1) (xs @ [e])) = rs @ [credential a p]"
    unfolding w(3) rs(1) by (simp add: records_of_def wanted_def)
  then have "\<forall>r \<in> set (records_of SSID_ID (store_log dev (io_flash st1) (xs @ [e]))). length a < length r" using rs(2) cl by auto
  then obtain st2 where r: "flash_io_erase_redundant_ssids dev stk ss st1 = Some (RB_OK, st2)" "store_inv dev (io_flash st2) (xs @ [e]) e' (m + 1)"
    "store_log dev (io_flash st2) (xs @ [e]) = keep_last (starts SSID_ID (a @ [0])) (store_log dev (io_flash st1) (xs @ [e]))"
    using flash_io_erase_redundant_log [OF dev w(2) stk1 _ a(1)] len(1) cl a(2) by auto
  have "flash_io_write_ssid dev stk tmp ss pw st = Some (int ?n, st2)"
    using a(1,3) len(1) w(1) r(1) unfolding flash_io_write_ssid_def cl by (simp add: Let_def)
  then show ?thesis using that r w(3) stk1 by simp
qed

text \<open>
  C5. A network the program was told about is known to it afterwards. \<^verbatim>\<open>flash_io_write_ssid\<close> with a name
  and a password, on a store with room, and then \<^verbatim>\<open>flash_io_find_matching_ssid\<close> with the name: the second
  call succeeds and leaves exactly that password, terminated, in the caller's buffer, also when the store held
  other passwords for the name. The first call has already deleted them: after it the only live record of
  the name is the new one. What the store says of every other name is
  unchanged. The hypotheses: the flash behaves like flash, the
  records of networks are names with passwords, and none of them is shorter than the new name.
\<close>

theorem stored_password_is_found:
  assumes dev: "nor_flash dev" and inv: "store_inv dev (io_flash st) xs e m" and stk: "sector_index stk \<le> m" and m: "m < 0xfffffe"
    and rs: "rs = records_of SSID_ID (store_log dev (io_flash st) xs)" "\<forall>r \<in> set rs. is_credential r \<and> length a < length r"
    and a: "strlen ss = Some (length a)" "take_view (length a) ss = a" "strlen pw = Some (length p)" "take_view (length p) pw = p" "0 < length a"
    and len: "length (credential a p) \<le> 64" "record_fits e (length (credential a p))" "sector_end e < PERSISTENT_LEN"
    and new: "rs = [] \<or> last rs \<noteq> credential a p"
  shows "\<exists>st1 err st2. flash_io_write_ssid dev stk tmp ss pw st = Some (int (length (credential a p)), st1) \<and>
    flash_io_find_matching_ssid dev stk ss buf st1 = Some (err, store buf 0 (p @ [0]), st2) \<and> 0 \<le> err \<and>
    filter (named a) (records_of SSID_ID (store_log dev (io_flash st1) (xs @ [e]))) = [credential a p] \<and>
    filter (\<lambda>r. \<not> named a r) (records_of SSID_ID (store_log dev (io_flash st2) (xs @ [e]))) = filter (\<lambda>r. \<not> named a r) rs"
proof -
  let ?new = "\<lparr> ent_id = SSID_ID, ent_live = True, ent_data = credential a p \<rparr>"
  let ?P = "starts SSID_ID (a @ [0])" and ?es = "store_log dev (io_flash st) xs"
  obtain st1 e' where w: "flash_io_write_ssid dev stk tmp ss pw st = Some (int (length (credential a p)), st1)"
    "store_inv dev (io_flash st1) (xs @ [e]) e' (m + 1)" "sector_index stk \<le> m + 1"
    "store_log dev (io_flash st1) (xs @ [e]) = keep_last ?P (?es @ [?new])"
    by (rule write_ssid_log [OF dev inv stk m rs a(1-4) len new, of tmp])
  let ?rs1 = "records_of SSID_ID (store_log dev (io_flash st1) (xs @ [e]))"
  have z: "0 \<notin> set a" "0 \<notin> set p" using strlen_Some [OF a(1)] a(2) strlen_Some [OF a(3)] a(4) by (metis in_set_conv_nth nth_take_view length_take_view)+
  have P: "?P ?new" by (simp add: starts_def wanted_def credential_def)
  have one: "filter (named a) ?rs1 = [credential a p]"
    unfolding w(4) records_starts filter_keep_last using P by auto
  then have nw: "newest a ?rs1 = Some (p @ [0])"
    by (simp add: newest_last credential_def)
  have "\<forall>r \<in> set ?rs1. is_credential r \<and> length a < length r"
  proof
    fix r assume "r \<in> set ?rs1"
    then obtain en where en: "en \<in> set (keep_last ?P (?es @ [?new]))" "wanted SSID_ID en" "r = ent_data en" unfolding w(4) by (auto simp: records_of_def)
    from keep_last_wanted [OF en(1,2)] en(2,3) rs have "r \<in> set rs \<or> r = credential a p" by (auto simp: records_of_def)
    then show "is_credential r \<and> length a < length r" using rs(2) z len(1) by (auto simp: is_credential_def credential_def)
  qed
  then obtain err pw' st2 where f: "flash_io_find_matching_ssid dev stk ss buf st1 = Some (err, pw', st2)" "0 \<le> err" "pw' = store buf 0 (p @ [0])"
    "filter (\<lambda>r. \<not> named a r) (records_of SSID_ID (store_log dev (io_flash st2) (xs @ [e]))) = filter (\<lambda>r. \<not> named a r) ?rs1"
    using find_matching_returns_newest [OF dev w(2,3) refl _ a(1,2,5), of buf] nw len(1) by (auto simp: credential_def)
  have "filter (\<lambda>r. \<not> named a r) ?rs1 = filter (\<lambda>r. \<not> named a r) (records_of SSID_ID (?es @ [?new]))"
    unfolding w(4) by (rule keep_last_others)
  also have "\<dots> = filter (\<lambda>r. \<not> named a r) rs" using rs(1) by (simp add: records_of_append) (simp add: records_of_def wanted_def named_def credential_def)
  finally show ?thesis using w(1) f one by auto
qed

text \<open>A blank store and the credentials \<^verbatim>\<open>net\<close>, \<^verbatim>\<open>pw\<close>.\<close>

abbreviation (input) blank_io :: "view io_state" where
  "blank_io \<equiv> \<lparr> io_flash = blank_flash, pagebuff = (\<lambda>_. 0) \<rparr>"

lemma sample_credential:
  "store_inv nor_array (io_flash blank_io) [] 0 0" "sector_index (storage_rb 1) \<le> 0" "(0 :: 32 word) < 0xfffffe"
  "\<forall>r \<in> set (records_of SSID_ID (store_log nor_array (io_flash blank_io) [])). is_credential r \<and> length (bytes_of ''net'') < length r"
  "strlen (view_of (bytes_of ''net'')) = Some (length (bytes_of ''net''))" "strlen (view_of (bytes_of ''pw'')) = Some (length (bytes_of ''pw''))"
  "0 < length (bytes_of ''net'')" "length (credential (bytes_of ''net'') (bytes_of ''pw'')) \<le> 64"
  "record_fits 0 (length (credential (bytes_of ''net'') (bytes_of ''pw'')))" "sector_end 0 < PERSISTENT_LEN"
  "records_of SSID_ID (store_log nor_array (io_flash blank_io) []) = []"
  using blank_store
  by (simp_all add: storage_rb_def record_fits_def sector_end_def store_log_def ring_log_def records_of_def bytes_of_def credential_def strlen_view_of)

lemmas sample_write = nor_array.nor_flash_axioms sample_credential(1-3) refl sample_credential(4,5) take_view_view_of sample_credential(6) take_view_view_of

theorem stored_password_is_found_witness:
  "\<exists>st1 err st2. flash_io_write_ssid nor_array (storage_rb 1) (\<lambda>_. 7) (view_of (bytes_of ''net'')) (view_of (bytes_of ''pw'')) blank_io = Some (7, st1) \<and>
     flash_io_find_matching_ssid nor_array (storage_rb 1) (view_of (bytes_of ''net'')) (\<lambda>_. 1) st1 = Some (err, store (\<lambda>_. 1) 0 (bytes_of ''pw'' @ [0]), st2) \<and>
     0 \<le> err"
proof -
  have "int (length (credential (bytes_of ''net'') (bytes_of ''pw''))) = 7" by (simp add: credential_def bytes_of_def)
  with stored_password_is_found [OF sample_write sample_credential(7-10) disjI1 [OF sample_credential(11)], of "\<lambda>_. 7" "\<lambda>_. 1"]
  show ?thesis by metis
qed

lemma sample_store:
  obtains st :: "view io_state" and e where "store_inv nor_array (io_flash st) [0] e 1" "sector_index (storage_rb 1) \<le> 1"
    "records_of SSID_ID (store_log nor_array (io_flash st) [0]) = [credential (bytes_of ''net'') (bytes_of ''pw'')]"
proof -
  let ?c = "credential (bytes_of ''net'') (bytes_of ''pw'')"
  obtain st e where "flash_io_write_ssid nor_array (storage_rb 1) (\<lambda>_. 7) (view_of (bytes_of ''net'')) (view_of (bytes_of ''pw'')) blank_io = Some (int (length ?c), st)"
    and st: "store_inv nor_array (io_flash st) ([] @ [0]) e (0 + 1)" "sector_index (storage_rb 1) \<le> 0 + 1"
    "store_log nor_array (io_flash st) ([] @ [0]) = keep_last (starts SSID_ID (bytes_of ''net'' @ [0]))
       (store_log nor_array (io_flash blank_io) [] @ [\<lparr> ent_id = SSID_ID, ent_live = True, ent_data = ?c \<rparr>])"
    by (rule write_ssid_log [OF sample_write sample_credential(8-10) disjI1 [OF sample_credential(11)], of "\<lambda>_. 7"])
  have "records_of SSID_ID (store_log nor_array (io_flash st) ([] @ [0])) = [?c]"
    unfolding st(3) by (simp add: store_log_def ring_log_def records_of_def wanted_def)
  then show ?thesis using st(1,2) that [of st e] by simp
qed

lemma sample_is_credential:
  "\<forall>r \<in> set [credential (bytes_of ''net'') (bytes_of ''pw'')]. is_credential r \<and> length (bytes_of ''net'') < length r"
  "newest (bytes_of ''net'') [credential (bytes_of ''net'') (bytes_of ''pw'')] = Some (bytes_of ''pw'' @ [0])"
proof -
  have "is_credential (credential (bytes_of ''net'') (bytes_of ''pw''))"
    unfolding is_credential_def
    by (intro conjI exI [of _ "bytes_of ''net''"] exI [of _ "bytes_of ''pw''"]) (simp_all add: credential_def bytes_of_def)
  then show "\<forall>r \<in> set [credential (bytes_of ''net'') (bytes_of ''pw'')]. is_credential r \<and> length (bytes_of ''net'') < length r"
    by (simp add: credential_def)
  show "newest (bytes_of ''net'') [credential (bytes_of ''net'') (bytes_of ''pw'')] = Some (bytes_of ''pw'' @ [0])"
    by (simp add: newest_last named_def credential_def)
qed

text \<open>
  Looking up a name. On a well-formed store \<^verbatim>\<open>flash_io_find_matching_ssid\<close> returns for every name: with the
  password of the newest record of exactly this name, not of a longer name that begins with it, or with an error and the buffer untouched
  when there is none. The call deletes older records of the name and
  leaves the records of all other names.
\<close>

theorem find_matching_newest:
  assumes "nor_flash dev" and "store_inv dev (io_flash st) xs e m" and "sector_index stk \<le> m"
    and "rs = records_of SSID_ID (store_log dev (io_flash st) xs)" "\<forall>r \<in> set rs. is_credential r \<and> length a < length r"
    and "strlen ss = Some (length a)" "take_view (length a) ss = a" "0 < length a" "length a < FLASH_PAGE_SIZE"
  shows "\<exists>err pw' st'. flash_io_find_matching_ssid dev stk ss pw st = Some (err, pw', st') \<and> store_inv dev (io_flash st') xs e m \<and>
    (case newest a rs of None \<Rightarrow> err < 0 \<and> pw' = pw | Some p \<Rightarrow> 0 \<le> err \<and> pw' = store pw 0 p) \<and>
    filter (\<lambda>r. \<not> named a r) (records_of SSID_ID (store_log dev (io_flash st') xs)) = filter (\<lambda>r. \<not> named a r) rs \<and>
    set (records_of SSID_ID (store_log dev (io_flash st') xs)) \<subseteq> set rs"
  by (rule find_matching_returns_newest [OF assms])

theorem find_matching_newest_witness:
  "\<exists>st err st'. flash_io_find_matching_ssid nor_array (storage_rb 1) (view_of (bytes_of ''net'')) (\<lambda>_. 1) st =
     Some (err, store (\<lambda>_. 1) 0 (bytes_of ''pw'' @ [0]), st') \<and> 0 \<le> err"
proof -
  obtain st :: "view io_state" and e where st: "store_inv nor_array (io_flash st) [0] e 1" "sector_index (storage_rb 1) \<le> 1"
    "records_of SSID_ID (store_log nor_array (io_flash st) [0]) = [credential (bytes_of ''net'') (bytes_of ''pw'')]" by (rule sample_store)
  have "length (bytes_of ''net'') < FLASH_PAGE_SIZE" by (simp add: bytes_of_def)
  from find_matching_newest [OF nor_array.nor_flash_axioms st(1,2) st(3) [symmetric] sample_is_credential(1) sample_credential(5) take_view_view_of sample_credential(7) this, of "\<lambda>_. 1"]
  show ?thesis unfolding sample_is_credential(2) by auto
qed

end
