(* ===== verification/Post_Handler.thy ===== *)
theory Post_Handler
  imports Flash_Io
begin

text \<open>
  \<^verbatim>\<open>post_handler.c\<close>: the three functions lwIP's web server calls for a POST request, and the decoding
  of the fields of the form. A \<^verbatim>\<open>pbuf\<close> is the list of the bytes of its chain. Each global array is
  the memory from its first byte on; what is stored from its size on has left the array.
\<close>

section \<open>Decoding a field\<close>

text \<open>\<^verbatim>\<open>strtol\<close> with base 16 and \<^verbatim>\<open>strncpy\<close> of two characters, from the C library.\<close>

definition xdigit :: "byte \<Rightarrow> nat option" where
  "xdigit c =
     (if 0x30 \<le> c \<and> c \<le> 0x39 then Some (unat c - 0x30)
      else if 0x41 \<le> c \<and> c \<le> 0x46 then Some (unat c - 0x41 + 10)
      else if 0x61 \<le> c \<and> c \<le> 0x66 then Some (unat c - 0x61 + 10)
      else None)"

fun xnumber :: "nat \<Rightarrow> byte list \<Rightarrow> nat" where
  "xnumber a [] = a"
| "xnumber a (c # cs) = (case xdigit c of None \<Rightarrow> a | Some d \<Rightarrow> xnumber (16 * a + d) cs)"

definition strtol16 :: "byte list \<Rightarrow> int" where
  "strtol16 s =
     (let t = dropWhile (\<lambda>c. c = 0x20 \<or> 9 \<le> c \<and> c \<le> 13) s;
          neg = (t \<noteq> [] \<and> hd t = 0x2d);
          u = (if t \<noteq> [] \<and> (hd t = 0x2d \<or> hd t = 0x2b) then tl t else t);
          w = (case u of
                 z # x # d # r \<Rightarrow> if z = 0x30 \<and> (x = 0x78 \<or> x = 0x58) \<and> xdigit d \<noteq> None then d # r else u
               | _ \<Rightarrow> u)
      in if neg then - int (xnumber 0 w) else int (xnumber 0 w))"

definition two_chars :: "view \<Rightarrow> nat \<Rightarrow> byte list" where
  "two_chars v k = (if v k = 0 then [] else if v (k + 1) = 0 then [v k] else [v k, v (k + 1)])"

text \<open>
  The loop of \<^verbatim>\<open>squash_hex_string\<close>, which is only called in place: \<^verbatim>\<open>input\<close> and \<^verbatim>\<open>output\<close> are the
  same array, read at \<open>loop\<close> and written at \<open>out\<close>. \<^verbatim>\<open>sprintf\<close> writes the character and a terminator.
\<close>

partial_function (option) squash_loop :: "view \<Rightarrow> nat \<Rightarrow> nat \<Rightarrow> view option" where
  "squash_loop v loop out =
     (if v loop = 0 then Some (store v out [0])
      else if v loop = 0x25 then
        let s = strtol16 (two_chars v (loop + 1)) in squash_loop (store v out [word_of_int s, 0]) (loop + 3) (out + 1)
      else squash_loop (store v out [v loop]) (loop + 1) (out + 1))"

definition squash_hex_string :: "view \<Rightarrow> view option" where
  "squash_hex_string v = squash_loop v 0 0"

section \<open>The buffers of lwIP\<close>

text \<open>
  \<open>memfind\<close> is \<^verbatim>\<open>pbuf_memfind\<close>. \<open>contiguous\<close> is \<^verbatim>\<open>pbuf_get_contiguous\<close> on a buffer, its size, a length
  and an offset: the memory it returns a pointer to, if any, and the buffer afterwards.
\<close>

record pbuf_ops =
  memfind :: "byte list \<Rightarrow> byte list \<Rightarrow> nat \<Rightarrow> nat"
  contiguous :: "byte list \<Rightarrow> view \<Rightarrow> nat \<Rightarrow> nat \<Rightarrow> nat \<Rightarrow> view option \<times> view"

definition get_post_string :: "pbuf_ops \<Rightarrow> byte list \<Rightarrow> view \<Rightarrow> nat \<Rightarrow> nat \<Rightarrow> nat \<Rightarrow> (bool \<times> view) option" where
  "get_post_string po p destmem destlen srclen src_offset =
     (case contiguous po p destmem destlen srclen src_offset of
        (None, b) \<Rightarrow> Some (False, b)
      | (Some w_ptr, b) \<Rightarrow> do {
          v \<leftarrow> squash_hex_string (store (store b 0 (take_view destlen w_ptr)) srclen [0]);
          Some (True, v)
        })"

abbreviation (input) LWIP_POST_BUFSIZE :: nat where "LWIP_POST_BUFSIZE \<equiv> 32"

definition u16_sub :: "nat \<Rightarrow> nat \<Rightarrow> nat" where
  "u16_sub a b = nat ((int a - int b) mod 2 ^ 16)"

text \<open>The names the callers look for all contain \<^verbatim>\<open>=\<close>, at \<open>mem_len - 1\<close>. The result is the offset and the length.\<close>

definition check_field :: "pbuf_ops \<Rightarrow> byte list \<Rightarrow> byte list \<Rightarrow> nat \<times> nat" where
  "check_field po p m =
     (if 0x3d \<in> set m then
        let mem_len = length (takeWhile (\<lambda>c. c \<noteq> 0x3d) m) + 1;
            name_offset = memfind po p (take mem_len m) 0
        in if name_offset \<noteq> 0xffff then
             let val = (name_offset + mem_len) mod 2 ^ 16;
                 tmp = memfind po p [0x26] val;
                 len_str = (if tmp \<noteq> 0xffff then u16_sub tmp val else u16_sub (length p) val)
             in (if len_str > 0 \<and> len_str < LWIP_POST_BUFSIZE then val else name_offset, len_str)
           else (name_offset, 0xffff)
      else (0xffff, 0xffff))"

section \<open>The callbacks\<close>

text \<open>A connection is a number, \<^term>\<open>None\<close> is \<^verbatim>\<open>NULL\<close>. \<open>net_name\<close> is what \<^verbatim>\<open>set_host_name\<close> was called with last.\<close>

record post_state =
  current_connection :: "nat option"
  valid_connection :: "nat option"
  valid_json :: "nat option"
  valid_config :: "nat option"
  wifi_ssid :: view
  wifi_password :: view
  local_host_name :: view
  config_changed :: int
  net_name :: "view option"

definition post_html_tags :: "byte list list" where
  "post_html_tags = [bytes_of ''configure'', bytes_of ''csprink'', bytes_of ''config'']"

text \<open>\<^verbatim>\<open>snprintf\<close> of a string into a buffer of a size.\<close>

definition snprintf_s :: "view \<Rightarrow> nat \<Rightarrow> byte list \<Rightarrow> view" where
  "snprintf_s v n s = (if n = 0 then v else store v 0 (take (n - 1) s @ [0]))"

text \<open>The loop over the legal names; a name that matches does not end it when the connection is the current one.\<close>

fun begin_loop :: "view \<Rightarrow> nat option \<Rightarrow> byte list list \<Rightarrow> post_state \<Rightarrow> post_state option" where
  "begin_loop uri connection [] ps = None"
| "begin_loop uri connection (t # ts) ps =
     (if take_view (length t) (advance uri 1) = t \<and> current_connection ps \<noteq> connection
      then Some (ps\<lparr> current_connection := connection, valid_connection := None \<rparr>)
      else begin_loop uri connection ts ps)"

definition httpd_post_begin :: "nat option \<Rightarrow> view \<Rightarrow> view \<Rightarrow> nat \<Rightarrow> post_state \<Rightarrow> int \<times> view \<times> post_state" where
  "httpd_post_begin connection uri response_uri response_uri_len ps =
     (case begin_loop uri connection post_html_tags ps of
        Some ps1 \<Rightarrow> (0, snprintf_s response_uri response_uri_len (bytes_of ''/page2.shtml''), ps1)
      | None \<Rightarrow> (- 6, response_uri, ps))"

text \<open>
  The two ways a form is taken over. The copies of the decoded strings onto themselves have no
  effect; \<open>tmp\<close> is the local array of \<^verbatim>\<open>flash_io_write_ssid\<close>.
\<close>

definition take_login ::
    "'d flash_dev \<Rightarrow> rb_t \<Rightarrow> view \<Rightarrow> pbuf_ops \<Rightarrow> nat option \<Rightarrow> byte list \<Rightarrow> nat \<times> nat \<Rightarrow> nat \<times> nat \<Rightarrow> nat \<times> nat \<Rightarrow>
     post_state \<Rightarrow> 'd io_state \<Rightarrow> (post_state \<times> 'd io_state) option" where
  "take_login dev stk tmp po connection p f_ssid f_pass f_host ps st = do {
     (w_ssid, b1) \<leftarrow> get_post_string po p (wifi_ssid ps) LWIP_POST_BUFSIZE (snd f_ssid) (fst f_ssid);
     (w_pass, b2) \<leftarrow> get_post_string po p (wifi_password ps) LWIP_POST_BUFSIZE (snd f_pass) (fst f_pass);
     (w_host, b3) \<leftarrow> get_post_string po p (local_host_name ps) 20 (snd f_host) (fst f_host);
     if w_ssid \<and> w_pass \<and> w_host then do {
       let c1 = store b1 (snd f_ssid) [0];
       let c2 = store b2 (snd f_pass) [0];
       (r1, st1) \<leftarrow> flash_io_write_ssid dev stk tmp c1 c2 st;
       let c3 = store b3 (snd f_host) [0];
       (r2, st2) \<leftarrow> flash_io_write_hostname dev stk c3 (snd f_host) st1;
       Some (ps\<lparr> wifi_ssid := c1, wifi_password := c2, local_host_name := c3, net_name := Some c3, valid_connection := connection \<rparr>, st2)
     }
     else Some (ps\<lparr> wifi_ssid := b1, wifi_password := b2, local_host_name := b3 \<rparr>, st)
   }"

definition take_config ::
    "'d flash_dev \<Rightarrow> rb_t \<Rightarrow> pbuf_ops \<Rightarrow> nat option \<Rightarrow> byte list \<Rightarrow> post_state \<Rightarrow> 'd io_state \<Rightarrow> (post_state \<times> 'd io_state) option" where
  "take_config dev stk po connection p ps st =
     (let (offset, len) = check_field po p (bytes_of ''config='')
      in if offset \<noteq> 0xffff then do {
           (ts, b) \<leftarrow> get_post_string po p (local_host_name ps) 20 len offset;
           if ts then do {
             (r, st1) \<leftarrow> flash_io_write_hostname dev stk b (len + 1) st;
             Some (ps\<lparr> local_host_name := b, valid_config := connection, net_name := Some b \<rparr>, st1)
           }
           else Some (ps\<lparr> local_host_name := b \<rparr>, st)
         }
         else Some (ps, st))"

definition httpd_post_receive_data ::
    "'d flash_dev \<Rightarrow> rb_t \<Rightarrow> view \<Rightarrow> pbuf_ops \<Rightarrow> nat option \<Rightarrow> byte list \<Rightarrow> post_state \<Rightarrow> 'd io_state \<Rightarrow>
     (int \<times> post_state \<times> 'd io_state) option" where
  "httpd_post_receive_data dev stk tmp po connection p ps st =
     (if current_connection ps = connection then
        let f_ssid = check_field po p (bytes_of ''ssid='');
            f_pass = check_field po p (bytes_of ''pass='');
            f_host = check_field po p (bytes_of ''host='')
        in if snd f_ssid > 0 \<and> snd f_ssid < LWIP_POST_BUFSIZE \<and> snd f_pass > 0 \<and> snd f_pass < LWIP_POST_BUFSIZE \<and>
              snd f_host > 0 \<and> snd f_host < LWIP_POST_BUFSIZE
           then map_option (Pair 0) (take_login dev stk tmp po connection p f_ssid f_pass f_host ps st)
           else map_option (Pair 0) (take_config dev stk po connection p ps st)
      else Some (- 6, ps, st))"

definition httpd_post_finished :: "nat option \<Rightarrow> view \<Rightarrow> nat \<Rightarrow> post_state \<Rightarrow> view \<times> post_state" where
  "httpd_post_finished connection response_uri response_uri_len ps =
     (let r = snprintf_s response_uri response_uri_len (bytes_of ''/page2.shtml'')
      in if current_connection ps = connection then
           let (r1, ps1) =
             (if valid_connection ps = connection
              then (snprintf_s r response_uri_len (bytes_of ''/index.shtml''), ps\<lparr> config_changed := 1 \<rparr>)
              else if current_connection ps = valid_json ps
              then (snprintf_s r response_uri_len (bytes_of ''/index.shtml''), ps)
              else if current_connection ps = valid_config ps
              then (snprintf_s r response_uri_len (bytes_of ''/config.shtml''), ps)
              else (r, ps))
           in (r1, ps1\<lparr> current_connection := None, valid_connection := None \<rparr>)
         else (r, ps))"

section \<open>Escaped text\<close>

text \<open>\<open>es\<close> is a way to write the bytes \<open>xs\<close>: each as itself or as a percent sign and two hexadecimal digits.\<close>

inductive escapes :: "byte list \<Rightarrow> byte list \<Rightarrow> bool" where
  escapes_Nil: "escapes [] []"
| escapes_raw: "c \<noteq> 0 \<Longrightarrow> c \<noteq> 0x25 \<Longrightarrow> escapes xs es \<Longrightarrow> escapes (c # xs) (c # es)"
| escapes_hex: "xdigit h = Some a \<Longrightarrow> xdigit l = Some b \<Longrightarrow> escapes xs es \<Longrightarrow> escapes (of_nat (16 * a + b) # xs) (0x25 # h # l # es)"

lemma xdigit_chars: "xdigit c = Some d \<Longrightarrow> c \<noteq> 0 \<and> c \<noteq> 0x20 \<and> \<not> (9 \<le> c \<and> c \<le> 13) \<and> c \<noteq> 0x2d \<and> c \<noteq> 0x2b"
  by (auto simp: xdigit_def word_le_nat_alt split: if_splits)

lemma strtol16_digits: "xdigit h = Some a \<Longrightarrow> xdigit l = Some b \<Longrightarrow> strtol16 [h, l] = int (16 * a + b)"
  using xdigit_chars [of h a] by (auto simp add: strtol16_def)

lemma escapes_shorter: "escapes xs es \<Longrightarrow> length xs \<le> length es"
  by (induction rule: escapes.induct) auto

lemma take_view_Cons: "take_view (length (c # es) + 1) (advance v k) = (c # es) @ [0] \<longleftrightarrow>
    v k = c \<and> take_view (length es + 1) (advance v (k + 1)) = es @ [0]"
proof -
  have "take_view (length (c # es) + 1) (advance v k) = v k # take_view (length es + 1) (advance v (k + 1))"
    using take_view_append [of 1 "length es + 1" "advance v k"] by (simp add: take_view_def)
  then show ?thesis by simp
qed

text \<open>
  Decoding in place: what is written never runs ahead of what is read. Behind the terminator of the
  encoded text nothing changes, and the terminator stays.
\<close>

lemma squash_loop_decodes:
  assumes "escapes xs es" "take_view (length es + 1) (advance v loop) = es @ [0]" "out \<le> loop"
  shows "\<exists>w. squash_loop v loop out = Some w \<and> take_view (length xs + 1) (advance w out) = xs @ [0] \<and>
    (\<forall>i < out. w i = v i) \<and> (\<forall>i > loop + length es. w i = v i) \<and> w (loop + length es) = 0"
  using assms
proof (induction arbitrary: v loop out rule: escapes.induct)
  case escapes_Nil
  then have "v loop = 0" by (simp add: take_view_def)
  then show ?case using escapes_Nil by (subst squash_loop.simps) (auto simp: take_view_def store_def)
next
  case (escapes_raw c xs es)
  let ?v = "store v out [c]"
  have v: "v loop = c" "take_view (length es + 1) (advance v (loop + 1)) = es @ [0]" using escapes_raw.prems(1) unfolding take_view_Cons by simp_all
  have "take_view (length es + 1) (advance ?v (loop + 1)) = es @ [0]"
    unfolding v(2) [symmetric] by (rule take_view_cong) (use escapes_raw.prems(2) in \<open>auto simp: store_def\<close>)
  moreover have "out + 1 \<le> loop + 1" using escapes_raw.prems(2) by simp
  ultimately obtain w where
    w: "squash_loop ?v (loop + 1) (out + 1) = Some w" "take_view (length xs + 1) (advance w (out + 1)) = xs @ [0]"
      "\<forall>i < out + 1. w i = ?v i" "\<forall>i > loop + 1 + length es. w i = ?v i" "w (loop + 1 + length es) = 0" using escapes_raw.IH by blast
  have "w out = c" using w(3) by (simp add: store_def)
  moreover have "squash_loop v loop out = Some w" using w(1) v(1) escapes_raw.hyps by (subst squash_loop.simps) simp
  ultimately show ?case using w(2-5) escapes_raw.prems(2) unfolding take_view_Cons by (auto simp: store_def)
next
  case (escapes_hex h a l b xs es)
  let ?c = "of_nat (16 * a + b) :: byte" and ?v = "store v out [of_nat (16 * a + b), 0]"
  have v: "v loop = 0x25" "v (loop + 1) = h" "v (loop + 2) = l" "take_view (length es + 1) (advance v (loop + 3)) = es @ [0]"
    using escapes_hex.prems(1) unfolding take_view_Cons by (simp_all add: numeral_eq_Suc)
  have "take_view (length es + 1) (advance ?v (loop + 3)) = es @ [0]"
    unfolding v(4) [symmetric] by (rule take_view_cong) (use escapes_hex.prems(2) in \<open>auto simp: store_def\<close>)
  moreover have "out + 1 \<le> loop + 3" using escapes_hex.prems(2) by simp
  ultimately obtain w where
    w: "squash_loop ?v (loop + 3) (out + 1) = Some w" "take_view (length xs + 1) (advance w (out + 1)) = xs @ [0]"
      "\<forall>i < out + 1. w i = ?v i" "\<forall>i > loop + 3 + length es. w i = ?v i" "w (loop + 3 + length es) = 0" using escapes_hex.IH by blast
  have "w out = ?c" using w(3) by (simp add: store_def)
  moreover have "strtol16 (two_chars v (loop + 1)) = int (16 * a + b)"
    using strtol16_digits [OF escapes_hex.hyps(1,2)] v(2,3) xdigit_chars [OF escapes_hex.hyps(1)] xdigit_chars [OF escapes_hex.hyps(2)]
    by (simp add: two_chars_def)
  then have "squash_loop v loop out = Some w" using w(1) v(1) by (subst squash_loop.simps) (simp add: Let_def)
  ultimately show ?case using w(2-5) escapes_hex.prems(2) unfolding take_view_Cons by (auto simp: store_def numeral_3_eq_3)
qed

text \<open>
  Decoding a percent-encoded field in place gives back the text. Whatever characters were escaped,
  the buffer afterwards holds the bytes of the text and a terminator, and nothing behind the encoded
  text has changed.
\<close>

theorem squash_decodes:
  assumes "escapes xs es" "take_view (length es + 1) v = es @ [0]"
  shows "\<exists>w. squash_hex_string v = Some w \<and> take_view (length xs + 1) w = xs @ [0] \<and> (\<forall>i > length es. w i = v i)"
  using squash_loop_decodes [OF assms(1), of v 0 0] assms(2) unfolding squash_hex_string_def by auto

theorem squash_decodes_witness:
  "\<exists>w. squash_hex_string (view_of (bytes_of ''a%20b%21'' @ [0])) = Some w \<and> take_view (length (bytes_of ''a b!'') + 1) w = bytes_of ''a b!'' @ [0]"
proof -
  have h: "escapes (0x20 # xs) (0x25 # 0x32 # 0x30 # es)" "escapes (0x21 # xs) (0x25 # 0x32 # 0x31 # es)" if "escapes xs es" for xs es
    using escapes_hex [of "0x32" 2 "0x30" 0 xs es] escapes_hex [of "0x32" 2 "0x31" 1 xs es] that by (simp_all add: xdigit_def)
  have e: "escapes (bytes_of ''a b!'') (bytes_of ''a%20b%21'')"
    unfolding bytes_of_def by (simp, intro escapes_raw h escapes_Nil) simp_all
  show ?thesis using squash_decodes [OF e, of "view_of (bytes_of ''a%20b%21'' @ [0])"] take_view_view_of [of "bytes_of ''a%20b%21'' @ [0]"]
    by (auto simp: bytes_of_def)
qed

section \<open>Fetching a field\<close>

text \<open>What the documentation of lwIP promises of \<open>pbuf_memfind\<close>: the first place of the bytes from a position on, or \<open>0xFFFF\<close>.\<close>

fun find_from :: "byte list \<Rightarrow> byte list \<Rightarrow> nat \<Rightarrow> nat option" where
  "find_from m [] i = None"
| "find_from m (x # xs) i = (if take (length m) (x # xs) = m then Some i else find_from m xs (i + 1))"

definition first_match :: "byte list \<Rightarrow> byte list \<Rightarrow> nat \<Rightarrow> nat" where
  "first_match p m s = (case find_from m (drop s p) s of None \<Rightarrow> 0xffff | Some i \<Rightarrow> i)"

text \<open>
  And of \<open>pbuf_get_contiguous\<close>: a pointer to the bytes, into the chain or to the buffer when they had to
  be copied there; \<^verbatim>\<open>NULL\<close> when the buffer is too small.
\<close>

definition pbufs_documented :: "pbuf_ops \<Rightarrow> bool" where
  "pbufs_documented po \<longleftrightarrow>
     (\<forall>p m s. m \<noteq> [] \<and> length p < 0xffff \<longrightarrow> memfind po p m s = first_match p m s) \<and>
     (\<forall>p buf n len off. len \<le> n \<and> off + len \<le> length p \<longrightarrow>
        (\<exists>w b. contiguous po p buf n len off = (Some w, b) \<and> take_view len w = take len (drop off p) \<and> (\<forall>i \<ge> n. b i = buf i))) \<and>
     (\<forall>p buf n len off. n < len \<longrightarrow> contiguous po p buf n len off = (None, buf))"

lemma get_post_string_decodes:
  assumes po: "pbufs_documented po" and e: "escapes xs es" and f: "take (length es) (drop off p) = es" "off + length es \<le> length p"
    and n: "length es \<le> n"
  shows "\<exists>w. get_post_string po p dest n (length es) off = Some (True, w) \<and> take_view (length xs + 1) w = xs @ [0] \<and>
    (\<forall>i > length es. i \<ge> n \<longrightarrow> w i = dest i) \<and> w (length es) = 0"
proof -
  obtain w b where c: "contiguous po p dest n (length es) off = (Some w, b)" "take_view (length es) w = es" "\<forall>i \<ge> n. b i = dest i"
    using po n f unfolding pbufs_documented_def by metis
  let ?v = "store (store b 0 (take_view n w)) (length es) [0]"
  have "take_view (length es + 1) ?v = es @ [0]"
  proof (rule nth_equalityI)
    fix i assume "i < length (take_view (length es + 1) ?v)"
    then have i: "i < length es + 1" by simp
    show "take_view (length es + 1) ?v ! i = (es @ [0]) ! i"
      using i n arg_cong [OF c(2), of "\<lambda>l. l ! i"] by (auto simp: store_def nth_append)
  qed simp
  then obtain u where u: "squash_loop ?v 0 0 = Some u" "take_view (length xs + 1) u = xs @ [0]" "\<forall>i > length es. u i = ?v i" "u (length es) = 0"
    using squash_loop_decodes [OF e, of ?v 0 0] by auto
  then show ?thesis using c(1,3) n
    by (intro exI [of _ u]) (auto simp: get_post_string_def squash_hex_string_def store_def)
qed

section \<open>Finding a field\<close>

text \<open>The body of a form, and the fields of a login: names of four letters, special characters escaped.\<close>

definition field_text :: "byte list \<times> byte list \<Rightarrow> byte list" where
  "field_text f = fst f @ [0x3d] @ snd f"

fun form :: "(byte list \<times> byte list) list \<Rightarrow> byte list" where
  "form [] = []"
| "form [f] = field_text f"
| "form (f # g # fs) = field_text f @ [0x26] @ form (g # fs)"

definition plain_field :: "byte list \<times> byte list \<Rightarrow> bool" where
  "plain_field f \<longleftrightarrow> length (fst f) = 4 \<and> {0x3d, 0x26} \<inter> (set (fst f) \<union> set (snd f)) = {}"

lemma form_split:
  "form (as @ f # bs) = concat (map (\<lambda>g. field_text g @ [0x26]) as) @ field_text f @ (if bs = [] then [] else 0x26 # form bs)"
proof (induction as)
  case Nil
  then show ?case by (cases bs) auto
next
  case (Cons a as)
  then show ?case by (cases as) auto
qed

lemma find_from_skip:
  "(\<And>i. i < length a \<Longrightarrow> take (length m) (drop i (a @ b)) \<noteq> m) \<Longrightarrow> find_from m (a @ b) k = find_from m b (k + length a)"
proof (induction a arbitrary: k)
  case (Cons x a)
  have "take (length m) (drop i (a @ b)) \<noteq> m" if "i < length a" for i using Cons.prems [of "Suc i"] that by simp
  moreover have "take (length m) (x # a @ b) \<noteq> m" using Cons.prems [of 0] by simp
  ultimately show ?case using Cons.IH by simp
qed simp

lemma find_from_here: "take (length m) xs = m \<Longrightarrow> m \<noteq> [] \<Longrightarrow> find_from m xs k = Some k"
  by (cases xs) auto

text \<open>A name and its equals sign are nowhere in another field: the only equals sign there follows another name.\<close>

lemma field_no_match:
  assumes f: "plain_field f" and n: "length n = 4" "{0x3d, 0x26} \<inter> set n = {}" "n \<noteq> fst f" and i: "i < length (field_text f @ [0x26])"
  shows "take (length (n @ [0x3d])) (drop i ((field_text f @ [0x26]) @ b)) \<noteq> n @ [0x3d]"
proof
  define X where "X = (field_text f @ [0x26]) @ b"
  let ?e = "length (fst f) + 1 + length (snd f)"
  assume "take (length (n @ [0x3d])) (drop i ((field_text f @ [0x26]) @ b)) = n @ [0x3d]"
  then have m: "take 5 (drop i X) = n @ [0x3d]" using n(1) by (simp add: X_def)
  have "length (take 5 (drop i X)) = 5" unfolding m using n(1) by simp
  then have "i + 5 \<le> length X" by simp
  then have at: "X ! (i + k) = (n @ [0x3d]) ! k" if "k < 5" for k using arg_cong [OF m, of "\<lambda>xs. xs ! k"] that by simp
  have lf: "length (fst f) = 4" and sf: "0x3d \<notin> set (snd f)" using f by (auto simp: plain_field_def)
  have X: "k < 4 \<Longrightarrow> X ! k = fst f ! k" "5 \<le> k \<Longrightarrow> k < ?e \<Longrightarrow> X ! k = snd f ! (k - 5)" "X ! ?e = 0x26" for k
    using lf by (auto simp: X_def field_text_def nth_append)
  have le: "i \<le> ?e" using i by (simp add: field_text_def)
  consider "i = 0" | "0 < i" "i + 4 < ?e" | "i + 4 = ?e" | "?e < i + 4" using lf by linarith
  then show False
  proof cases
    case 1
    have "n = fst f" by (rule nth_equalityI) (use at X(1) 1 n(1) lf in \<open>auto simp: nth_append\<close>)
    then show False using n(3) by simp
  next
    case 2
    then have "snd f ! (i - 1) = 0x3d" using at [of 4] X(2) [of "i + 4"] n(1) by (simp add: nth_append)
    moreover have "i - 1 < length (snd f)" using 2 lf by simp
    ultimately show False using sf nth_mem by metis
  next
    case 3
    then show False using at [of 4] X(3) n(1) unfolding 3 [symmetric] by (simp add: nth_append)
  next
    case 4
    then have "(n @ [0x3d]) ! (?e - i) = 0x26" using at [of "?e - i"] X(3) le by simp
    moreover have "?e - i < 4" using 4 le by linarith
    ultimately have "0x26 \<in> set n" using n(1) by (metis nth_append nth_mem)
    then show False using n(2) by simp
  qed
qed

lemma find_field:
  assumes "\<forall>g \<in> set as. plain_field g \<and> fst g \<noteq> fst f" "plain_field f"
  shows "find_from (fst f @ [0x3d]) (concat (map (\<lambda>g. field_text g @ [0x26]) as) @ field_text f @ t) k =
    Some (k + length (concat (map (\<lambda>g. field_text g @ [0x26]) as)))"
  using assms(1)
proof (induction as arbitrary: k)
  case Nil
  show ?case by (simp, rule find_from_here) (simp_all add: field_text_def)
next
  case (Cons g as)
  have f: "length (fst f) = 4" "{0x3d, 0x26} \<inter> set (fst f) = {}" using assms(2) by (auto simp: plain_field_def)
  let ?r = "concat (map (\<lambda>g. field_text g @ [0x26]) as) @ field_text f @ t"
  have "find_from (fst f @ [0x3d]) ((field_text g @ [0x26]) @ ?r) k = find_from (fst f @ [0x3d]) ?r (k + length (field_text g @ [0x26]))"
    by (rule find_from_skip, rule field_no_match [OF _ f]) (use Cons.prems in auto)
  then show ?case using Cons.IH Cons.prems by simp
qed

lemma find_amp: "0x26 \<notin> set v \<Longrightarrow> find_from [0x26] (v @ 0x26 # t) k = Some (k + length v)" "0x26 \<notin> set v \<Longrightarrow> find_from [0x26] v k = None"
  by (induction v arbitrary: k) auto

text \<open>Every field of a form is found, with its value.\<close>

lemma check_field_form:
  assumes po: "pbufs_documented po" and fs: "\<forall>g \<in> set fs. plain_field g" "distinct (map fst fs)" "(n, v) \<in> set fs"
    and v: "0 < length v" "length v < 32" and l: "length (form fs) < 0xffff"
  shows "\<exists>off. check_field po (form fs) (n @ [0x3d]) = (off, length v) \<and> off \<noteq> 0xffff \<and>
    take (length v) (drop off (form fs)) = v \<and> off + length v \<le> length (form fs)"
proof -
  obtain as bs where s: "fs = as @ (n, v) # bs" using fs(3) by (auto simp: in_set_conv_decomp)
  let ?a = "concat (map (\<lambda>g. field_text g @ [0x26]) as)" and ?t = "if bs = [] then [] else 0x26 # form bs"
  let ?val = "length ?a + 5"
  have B: "form fs = ?a @ n @ [0x3d] @ v @ ?t" using form_split [of as "(n, v)" bs] by (simp add: s field_text_def)
  have n: "length n = 4" "0x3d \<notin> set n" "0x26 \<notin> set v" using fs(1) s by (auto simp: plain_field_def)
  have na: "\<forall>g \<in> set as. plain_field g \<and> fst g \<noteq> n" using fs(1,2) s by force
  have "find_from (n @ [0x3d]) (form fs) 0 = Some (length ?a)"
    using find_field [of as "(n, v)" ?t 0] na fs(1) s B by (simp add: field_text_def)
  then have m: "memfind po (form fs) (n @ [0x3d]) 0 = length ?a" using po l by (simp add: pbufs_documented_def first_match_def)
  have d: "drop ?val (form fs) = v @ ?t" using n(1) unfolding B by simp
  have "memfind po (form fs) [0x26] ?val = (if bs = [] then 0xffff else ?val + length v)"
    using po l n(3) d find_amp [of v] by (simp add: pbufs_documented_def first_match_def)
  moreover have "length (form fs) = ?val + length v + length ?t" using n(1) unfolding B by simp
  moreover have "takeWhile (\<lambda>c. c \<noteq> 0x3d) (n @ [0x3d]) = n" using n(2) by (subst takeWhile_append2) auto
  ultimately have "check_field po (form fs) (n @ [0x3d]) = (?val, length v)"
    using m n(1) l v by (simp add: check_field_def Let_def u16_sub_def)
  moreover have "take (length v) (drop ?val (form fs)) = v" unfolding d by simp
  moreover have "?val + length v \<le> length (form fs)" unfolding B using n(1) by simp
  ultimately show ?thesis using l by (intro exI [of _ ?val]) simp
qed

section \<open>A login\<close>

lemma fetch_field:
  assumes po: "pbufs_documented po" and fs: "\<forall>g \<in> set fs. plain_field g" "distinct (map fst fs)" "(n, es) \<in> set fs" "length (form fs) < 0xffff"
    and e: "escapes xs es" "0 < length es" "length es < 32" "length es < sz"
  obtains off w where "check_field po (form fs) (n @ [0x3d]) = (off, length es)"
    "get_post_string po (form fs) dest sz (length es) off = Some (True, w)" "store w (length es) [0] = w"
    "take_view (length xs + 1) w = xs @ [0]" "\<forall>i \<ge> sz. w i = dest i"
proof -
  obtain off where o: "check_field po (form fs) (n @ [0x3d]) = (off, length es)" "take (length es) (drop off (form fs)) = es"
    "off + length es \<le> length (form fs)" using check_field_form [OF po fs(1-3) e(2,3) fs(4)] by auto
  obtain w where w: "get_post_string po (form fs) dest sz (length es) off = Some (True, w)" "take_view (length xs + 1) w = xs @ [0]"
    "\<forall>i > length es. i \<ge> sz \<longrightarrow> w i = dest i" "w (length es) = 0"
    using get_post_string_decodes [OF po e(1) o(2,3), of sz dest] e(4) by auto
  have "store w (length es) [0] i = w i" for i using w(4) by (cases "i = length es") (auto simp: store_def)
  then have "store w (length es) [0] = w" by blast
  then show ?thesis using that o(1) w e(4) by auto
qed

lemma begin_loop_finds:
  assumes "t \<in> set ts" "take_view (length t) (advance uri 1) = t" "current_connection ps \<noteq> connection"
  shows "begin_loop uri connection ts ps = Some (ps\<lparr> current_connection := connection, valid_connection := None \<rparr>)"
  using assms by (induction ts) auto

text \<open>The texts of the answers.\<close>

lemma snprintf_s_text: "length s < n \<Longrightarrow> take_view (length s + 1) (snprintf_s v n s) = s @ [0]"
  using take_view_store_0 [of "s @ [0]" 0 v] by (simp add: snprintf_s_def)

text \<open>
  C9. A login takes over the credentials. When a form posted to one of the legal names has the fields \<^verbatim>\<open>ssid\<close>,
  \<^verbatim>\<open>pass\<close> and \<^verbatim>\<open>host\<close>, in any order and among others, each value being any escaped writing of a text
  that is not empty and, escaped, shorter than 32 characters (20 for the host), then the three arrays
  afterwards hold exactly the three decoded texts with their terminators and no memory behind the
  arrays has changed; the credentials and the host name are handed to the flash store, the host name
  to the network interface; and finishing the request flags the new configuration, answers with
  \<^verbatim>\<open>/index.shtml\<close> and ends the session.
\<close>

theorem post_login_takes_over:
  assumes po: "pbufs_documented po" and fs: "\<forall>g \<in> set fs. plain_field g" "distinct (map fst fs)" "length (form fs) < 0xffff"
    and s: "(bytes_of ''ssid'', es) \<in> set fs" "escapes ssid es" "0 < length es" "length es < 32"
    and p: "(bytes_of ''pass'', ep) \<in> set fs" "escapes pass ep" "0 < length ep" "length ep < 32"
    and h: "(bytes_of ''host'', eh) \<in> set fs" "escapes host eh" "0 < length eh" "length eh < 20"
    and uri: "t \<in> set post_html_tags" "take_view (length t) (advance uri 1) = t" and c: "current_connection ps \<noteq> Some c"
  shows "\<exists>ps1 ws wp wh r. httpd_post_begin (Some c) uri resp 64 ps = (0, r, ps1) \<and>
    take_view (length ssid + 1) ws = ssid @ [0] \<and> (\<forall>i \<ge> 32. ws i = wifi_ssid ps i) \<and>
    take_view (length pass + 1) wp = pass @ [0] \<and> (\<forall>i \<ge> 32. wp i = wifi_password ps i) \<and>
    take_view (length host + 1) wh = host @ [0] \<and> (\<forall>i \<ge> 20. wh i = local_host_name ps i) \<and>
    httpd_post_receive_data dev stk tmp po (Some c) (form fs) ps1 st = do {
      (r1, st1) \<leftarrow> flash_io_write_ssid dev stk tmp ws wp st;
      (r2, st2) \<leftarrow> flash_io_write_hostname dev stk wh (length eh) st1;
      Some (0, ps1\<lparr> wifi_ssid := ws, wifi_password := wp, local_host_name := wh, net_name := Some wh, valid_connection := Some c \<rparr>, st2)
    } \<and>
    (let (r2, ps2) = httpd_post_finished (Some c) r 64
           (ps1\<lparr> wifi_ssid := ws, wifi_password := wp, local_host_name := wh, net_name := Some wh, valid_connection := Some c \<rparr>)
     in take_view 13 r2 = bytes_of ''/index.shtml'' @ [0] \<and> config_changed ps2 = 1 \<and> current_connection ps2 = None)"
proof -
  let ?ps1 = "ps\<lparr> current_connection := Some c, valid_connection := None \<rparr>"
  let ?r = "snprintf_s resp 64 (bytes_of ''/page2.shtml'')"
  have b: "httpd_post_begin (Some c) uri resp 64 ps = (0, ?r, ?ps1)"
    using begin_loop_finds [OF uri] c by (simp add: httpd_post_begin_def)
  have eq: "bytes_of ''ssid='' = bytes_of ''ssid'' @ [0x3d]" "bytes_of ''pass='' = bytes_of ''pass'' @ [0x3d]" "bytes_of ''host='' = bytes_of ''host'' @ [0x3d]"
    by (simp_all add: bytes_of_def)
  obtain os ws where S: "check_field po (form fs) (bytes_of ''ssid='') = (os, length es)"
    "get_post_string po (form fs) (wifi_ssid ps) 32 (length es) os = Some (True, ws)" "store ws (length es) [0] = ws"
    "take_view (length ssid + 1) ws = ssid @ [0]" "\<forall>i \<ge> 32. ws i = wifi_ssid ps i"
    unfolding eq by (rule fetch_field [OF po fs(1,2) s(1) fs(3) s(2-4), of 32 "wifi_ssid ps"]) (use s(4) in auto)
  obtain op wp where P: "check_field po (form fs) (bytes_of ''pass='') = (op, length ep)"
    "get_post_string po (form fs) (wifi_password ps) 32 (length ep) op = Some (True, wp)" "store wp (length ep) [0] = wp"
    "take_view (length pass + 1) wp = pass @ [0]" "\<forall>i \<ge> 32. wp i = wifi_password ps i"
    unfolding eq by (rule fetch_field [OF po fs(1,2) p(1) fs(3) p(2-4), of 32 "wifi_password ps"]) (use p(4) in auto)
  have h32: "length eh < 32" using h(4) by simp
  obtain oh wh where H: "check_field po (form fs) (bytes_of ''host='') = (oh, length eh)"
    "get_post_string po (form fs) (local_host_name ps) 20 (length eh) oh = Some (True, wh)" "store wh (length eh) [0] = wh"
    "take_view (length host + 1) wh = host @ [0]" "\<forall>i \<ge> 20. wh i = local_host_name ps i"
    unfolding eq by (rule fetch_field [OF po fs(1,2) h(1) fs(3) h(2,3) h32 h(4), of "local_host_name ps"]) auto
  have d: "httpd_post_receive_data dev stk tmp po (Some c) (form fs) ?ps1 st = do {
      (r1, st1) \<leftarrow> flash_io_write_ssid dev stk tmp ws wp st;
      (r2, st2) \<leftarrow> flash_io_write_hostname dev stk wh (length eh) st1;
      Some (0, ?ps1\<lparr> wifi_ssid := ws, wifi_password := wp, local_host_name := wh, net_name := Some wh, valid_connection := Some c \<rparr>, st2)
    }"
    using S(1-3) P(1-3) H(1-3) s(3,4) p(3,4) h(3) h32
    by (simp add: httpd_post_receive_data_def take_login_def map_option_bind case_prod_beta' comp_def)
  have ix: "length (bytes_of ''/index.shtml'') = 12" by (simp add: bytes_of_def)
  have f: "take_view 13 (snprintf_s v 64 (bytes_of ''/index.shtml'')) = bytes_of ''/index.shtml'' @ [0]" for v
    using snprintf_s_text [of "bytes_of ''/index.shtml''" 64 v] ix by simp
  show ?thesis by (intro exI [of _ ?ps1] exI [of _ ws] exI [of _ wp] exI [of _ wh] exI [of _ ?r])
    (use b S(4,5) P(4,5) H(4,5) d f in \<open>simp add: httpd_post_finished_def\<close>)
qed

text \<open>Buffers that are one piece, and the form \<^verbatim>\<open>host=h%21&ssid=net&pass=pw\<close> posted to \<^verbatim>\<open>/config\<close>.\<close>

definition plain_pbufs :: pbuf_ops where
  "plain_pbufs = \<lparr> memfind = first_match,
     contiguous = (\<lambda>p buf n len off. if n < len \<or> length p < off + len then (None, buf) else (Some (view_of (drop off p)), buf)) \<rparr>"

lemma plain_pbufs_documented: "pbufs_documented plain_pbufs"
proof -
  have "take_view len (view_of (drop off p)) = take len (drop off p)" if "off + len \<le> length p" for len off p
    by (rule nth_equalityI) (use that in \<open>auto simp: view_of_def\<close>)
  then show ?thesis by (auto simp: pbufs_documented_def plain_pbufs_def)
qed

definition sample_form :: "(byte list \<times> byte list) list" where
  "sample_form = [(bytes_of ''host'', bytes_of ''h%21''), (bytes_of ''ssid'', bytes_of ''net''), (bytes_of ''pass'', bytes_of ''pw'')]"

definition blank_post :: post_state where
  "blank_post = \<lparr> current_connection = None, valid_connection = None, valid_json = None, valid_config = None,
     wifi_ssid = (\<lambda>_. 0), wifi_password = (\<lambda>_. 0), local_host_name = (\<lambda>_. 0), config_changed = 0, net_name = None \<rparr>"

theorem post_login_takes_over_witness:
  "\<forall>dev stk tmp st. \<exists>ps1 ws wp wh r. httpd_post_begin (Some 7) (view_of (bytes_of ''/config'' @ [0])) (\<lambda>_. 0) 64 blank_post = (0, r, ps1) \<and>
     take_view (length (bytes_of ''h!'') + 1) wh = bytes_of ''h!'' @ [0] \<and>
     httpd_post_receive_data dev stk tmp plain_pbufs (Some 7) (form sample_form) ps1 st = do {
       (r1, st1) \<leftarrow> flash_io_write_ssid dev stk tmp ws wp st;
       (r2, st2) \<leftarrow> flash_io_write_hostname dev stk wh (length (bytes_of ''h%21'')) st1;
       Some (0, ps1\<lparr> wifi_ssid := ws, wifi_password := wp, local_host_name := wh, net_name := Some wh, valid_connection := Some 7 \<rparr>, st2)
     }"
proof (intro allI)
  fix dev :: "'a flash_dev" and stk tmp and st :: "'a io_state"
  have hx: "escapes (0x21 # xs) (0x25 # 0x32 # 0x31 # es)" if "escapes xs es" for xs es
    using escapes_hex [of "0x32" 2 "0x31" 1 xs es] that by (simp add: xdigit_def)
  have e: "escapes (bytes_of ''net'') (bytes_of ''net'')" "escapes (bytes_of ''pw'') (bytes_of ''pw'')" "escapes (bytes_of ''h!'') (bytes_of ''h%21'')"
    unfolding bytes_of_def by (simp_all, (intro escapes_raw hx escapes_Nil; simp)+)
  have pl: "\<forall>g \<in> set sample_form. plain_field g" "distinct (map fst sample_form)" "length (form sample_form) < 0xffff"
    by (simp_all add: sample_form_def plain_field_def bytes_of_def field_text_def)
  have m: "(bytes_of ''ssid'', bytes_of ''net'') \<in> set sample_form" "(bytes_of ''pass'', bytes_of ''pw'') \<in> set sample_form"
    "(bytes_of ''host'', bytes_of ''h%21'') \<in> set sample_form" by (simp_all add: sample_form_def)
  have t: "bytes_of ''config'' \<in> set post_html_tags" "take_view (length (bytes_of ''config'')) (advance (view_of (bytes_of ''/config'' @ [0])) 1) = bytes_of ''config''"
    by (simp_all add: post_html_tags_def bytes_of_def take_view_def upt_rec)
  have l: "0 < length (bytes_of ''net'')" "length (bytes_of ''net'') < 32" "0 < length (bytes_of ''pw'')" "length (bytes_of ''pw'') < 32"
    "0 < length (bytes_of ''h%21'')" "length (bytes_of ''h%21'') < 20" by (simp_all add: bytes_of_def)
  have c: "current_connection blank_post \<noteq> Some 7" by (simp add: blank_post_def)
  show "\<exists>ps1 ws wp wh r. httpd_post_begin (Some 7) (view_of (bytes_of ''/config'' @ [0])) (\<lambda>_. 0) 64 blank_post = (0, r, ps1) \<and>
     take_view (length (bytes_of ''h!'') + 1) wh = bytes_of ''h!'' @ [0] \<and>
     httpd_post_receive_data dev stk tmp plain_pbufs (Some 7) (form sample_form) ps1 st = do {
       (r1, st1) \<leftarrow> flash_io_write_ssid dev stk tmp ws wp st;
       (r2, st2) \<leftarrow> flash_io_write_hostname dev stk wh (length (bytes_of ''h%21'')) st1;
       Some (0, ps1\<lparr> wifi_ssid := ws, wifi_password := wp, local_host_name := wh, net_name := Some wh, valid_connection := Some 7 \<rparr>, st2)
     }"
    using post_login_takes_over [OF plain_pbufs_documented pl m(1) e(1) l(1,2) m(2) e(2) l(3,4) m(3) e(3) l(5,6) t c] by blast
qed

text \<open>
  A host name of exactly twenty escaped characters passes all checks; its terminator is then written
  behind the array.
\<close>

theorem host_name_overflow:
  assumes "pbufs_documented po" "escapes host eh" "take 20 (drop off p) = eh" "length eh = 20" "off + 20 \<le> length p"
  shows "\<exists>w. get_post_string po p dest 20 20 off = Some (True, w) \<and> w 20 = 0"
  using get_post_string_decodes [OF assms(1,2), of off p 20 dest] assms(3-5) by auto

end
