(* ===== verification/Wifi_Boot.thy ===== *)
theory Wifi_Boot
  imports Scan_Known Flash_Lookup Post_Handler Dhcp_Server
begin

text \<open>
  The start of the program, \<^verbatim>\<open>picow_web.c\<close>: the access point that waits for a visitor's credentials, and
  the two loops of \<^verbatim>\<open>main\<close> that scan, try the known networks and fall back to the access point.
\<close>

section \<open>State and surroundings\<close>

text \<open>What was done: the attempts on a node of the list with the driver's answers, and the seconds as an access point.\<close>

datatype boot_event = Tried addr "int list" | Served nat

text \<open>
  The globals \<^verbatim>\<open>knownnodes\<close>, \<^verbatim>\<open>wifi_ssid\<close>, \<^verbatim>\<open>wifi_password\<close>, \<^verbatim>\<open>config_changed\<close>, the flash and
  \<^verbatim>\<open>pagebuff\<close>; the local \<^verbatim>\<open>connected\<close>; the DHCP servers that were started; and what has happened so far.
\<close>

record 'd boot_state =
  ap_list :: scan_state
  globals :: post_state
  nv :: "'d io_state"
  dhcps :: "dhcp_server_t list"
  connected :: int
  history :: "boot_event list"

text \<open>
  The driver and the visitors. \<open>scans n\<close>: the callbacks of the \<open>n\<close>th scan with the nodes the allocator
  gives them, and what \<^verbatim>\<open>cyw43_arch_init\<close> and \<^verbatim>\<open>cyw43_wifi_scan\<close> returned before. \<open>answer n\<close>: what the \<open>n\<close>th call of
  \<^verbatim>\<open>cyw43_arch_wifi_connect_timeout_ms\<close> returns. \<open>visit n i\<close>: what the web server's callbacks do to
  the globals and the flash in second \<open>i\<close> of the \<open>n\<close>th session; \<open>late n\<close>: in the two seconds after a login.
  \<open>local_dhcp n\<close>: what \<^verbatim>\<open>dhcp_server\<close> holds on the stack, and \<open>udps n\<close> lwIP's answers.
\<close>

record 'd boot_env =
  scans :: "nat \<Rightarrow> int \<times> int \<times> (addr \<times> my_scan_result option) list"
  answer :: "nat \<Rightarrow> int"
  connect_failed :: int
  visit :: "nat \<Rightarrow> nat \<Rightarrow> post_state \<Rightarrow> 'd io_state \<Rightarrow> (post_state \<times> 'd io_state) option"
  late :: "nat \<Rightarrow> post_state \<Rightarrow> 'd io_state \<Rightarrow> (post_state \<times> 'd io_state) option"
  local_dhcp :: "nat \<Rightarrow> dhcp_server_t"
  udps :: "nat \<Rightarrow> udp_env"
  tempssid :: view

fun attempts :: "boot_event list \<Rightarrow> nat" where
  "attempts [] = 0"
| "attempts (Tried b rs # es) = length rs + attempts es"
| "attempts (Served s # es) = attempts es"

section \<open>The access point\<close>

definition SERVE_SECONDS :: nat where
  "SERVE_SECONDS = 1 + 3 * 60"

text \<open>
  The loop of \<^verbatim>\<open>be_access_point\<close> from second \<open>i\<close>, with \<open>k\<close> left: the seconds it lasted, the globals and the
  flash. A login ends it once the credentials are in flash.
\<close>

fun serve ::
    "'d flash_dev \<Rightarrow> rb_t \<Rightarrow> 'd boot_env \<Rightarrow> nat \<Rightarrow> nat \<Rightarrow> nat \<Rightarrow> post_state \<Rightarrow> 'd io_state \<Rightarrow> (nat \<times> post_state \<times> 'd io_state) option" where
  "serve dev stk env n i 0 ps io = Some (i, ps, io)"
| "serve dev stk env n i (Suc k) ps io = do {
     (ps1, io1) \<leftarrow> visit env n i ps io;
     if config_changed ps1 \<noteq> 0 then do {
       (ps2, io2) \<leftarrow> late env n ps1 io1;
       (err, io3) \<leftarrow> flash_io_write_ssid dev stk (tempssid env) (wifi_ssid ps2) (wifi_password ps2) io2;
       Some (i + 1, ps2, io3)
     }
     else serve dev stk env n (i + 1) k ps1 io1
   }"

definition be_access_point :: "'d flash_dev \<Rightarrow> rb_t \<Rightarrow> 'd boot_env \<Rightarrow> 'd boot_state \<Rightarrow> 'd boot_state option" where
  "be_access_point dev stk env st =
     (let n = length (dhcps st);
          ps = (globals st)\<lparr> config_changed := 0 \<rparr>;
          d = dhcp_server_init (udps env n) [192, 168, 4, 1] [255, 255, 255, 0] (local_dhcp env n)
      in do {
        (secs, ps1, io1) \<leftarrow> serve dev stk env n 0 SERVE_SECONDS ps (nv st);
        Some (st\<lparr> globals := ps1, nv := io1, dhcps := dhcps st @ [d], history := history st @ [Served secs] \<rparr>)
      })"

section \<open>Trying the known networks\<close>

text \<open>The answers to at most \<open>k\<close> calls: another call only after \<^verbatim>\<open>PICO_ERROR_CONNECT_FAILED\<close>.\<close>

fun try_connect :: "'d boot_env \<Rightarrow> nat \<Rightarrow> nat \<Rightarrow> int list" where
  "try_connect env n 0 = []"
| "try_connect env n (Suc k) =
     (let conres = answer env n in if conres \<noteq> connect_failed env then [conres] else conres # try_connect env (n + 1) k)"

text \<open>
  The inner loop of \<^verbatim>\<open>main\<close>. \<^term>\<open>None\<close>: a call in it does not return; \<^term>\<open>Some None\<close>: it is still running
  after so many rounds as the fuel allows.
\<close>

fun inner_loop :: "nat \<Rightarrow> 'd flash_dev \<Rightarrow> rb_t \<Rightarrow> 'd boot_env \<Rightarrow> 'd boot_state \<Rightarrow> 'd boot_state option option" where
  "inner_loop 0 dev stk env st = Some None"
| "inner_loop (Suc fuel) dev stk env st = do {
     (likelyAP, pw, sc, io) \<leftarrow> scan_find_best_ap dev stk (wifi_password (globals st)) (ap_list st) (nv st);
     let st1 = st\<lparr> ap_list := sc, nv := io, globals := (globals st)\<lparr> wifi_password := pw \<rparr> \<rparr>;
     case likelyAP of
       Some b \<Rightarrow>
         let name = store (wifi_ssid (globals st1)) 0 (take_view LWIP_POST_BUFSIZE (ssid (res (params sc b))));
             rs = try_connect env (attempts (history st1)) 4;
             st2 = st1\<lparr> globals := (globals st1)\<lparr> wifi_ssid := name \<rparr>, history := history st1 @ [Tried b rs] \<rparr>
         in if last rs \<noteq> 0 then do { st3 \<leftarrow> be_access_point dev stk env st2; inner_loop fuel dev stk env st3 }
            else Some (Some (st2\<lparr> connected := 1 \<rparr>))
     | None \<Rightarrow> do { st2 \<leftarrow> be_access_point dev stk env st1; Some (Some st2) }
   }"

text \<open>One round of the outer loop: the scan, whose result is ignored, the inner loop, and the list thrown away.\<close>

definition outer_round :: "nat \<Rightarrow> nat \<Rightarrow> 'd flash_dev \<Rightarrow> rb_t \<Rightarrow> 'd boot_env \<Rightarrow> 'd boot_state \<Rightarrow> 'd boot_state option option" where
  "outer_round fuel n dev stk env st = do {
     (err, sc) \<leftarrow> scan_find_all_ssids (fst (scans env n)) (fst (snd (scans env n))) (snd (snd (scans env n))) (ap_list st);
     r \<leftarrow> inner_loop fuel dev stk env (st\<lparr> ap_list := sc \<rparr>);
     case r of
       None \<Rightarrow> Some None
     | Some st1 \<Rightarrow> do {
         (h, freed) \<leftarrow> removelist knownnodes (links (ap_list st1));
         Some (Some (st1\<lparr> ap_list := (ap_list st1)\<lparr> links := h \<rparr> \<rparr>))
       }
   }"

text \<open>The outer loop, for so many rounds.\<close>

fun outer_loop :: "nat \<Rightarrow> nat \<Rightarrow> nat \<Rightarrow> 'd flash_dev \<Rightarrow> rb_t \<Rightarrow> 'd boot_env \<Rightarrow> 'd boot_state \<Rightarrow> 'd boot_state option option" where
  "outer_loop 0 fuel n dev stk env st = Some None"
| "outer_loop (Suc k) fuel n dev stk env st = do {
     r \<leftarrow> outer_round fuel n dev stk env st;
     case r of
       None \<Rightarrow> Some None
     | Some st1 \<Rightarrow> if connected st1 = 0 then outer_loop k fuel (n + 1) dev stk env st1 else Some (Some st1)
   }"

section \<open>What a round does\<close>

lemma serve_bound: "serve dev stk env n i k ps io = Some (secs, ps', io') \<Longrightarrow> secs \<le> i + k"
proof (induction k arbitrary: i ps io)
  case (Suc k)
  then show ?case by (auto split: bind_splits if_splits prod.splits dest!: Suc.IH)
qed simp

lemma be_access_point_frame:
  assumes "be_access_point dev stk env st = Some st'"
  shows "\<exists>secs d. ap_list st' = ap_list st \<and> connected st' = connected st \<and> secs \<le> SERVE_SECONDS \<and>
    history st' = history st @ [Served secs] \<and> dhcps st' = dhcps st @ [d]"
  using assms serve_bound [of dev stk env _ 0 SERVE_SECONDS]
  by (auto simp: be_access_point_def Let_def split: bind_splits prod.splits)

text \<open>At most four calls, the later ones only after \<^verbatim>\<open>PICO_ERROR_CONNECT_FAILED\<close>.\<close>

definition attempts_ok :: "'d boot_env \<Rightarrow> int list \<Rightarrow> bool" where
  "attempts_ok env rs \<longleftrightarrow> rs \<noteq> [] \<and> length rs \<le> 4 \<and> (\<forall>r \<in> set (butlast rs). r = connect_failed env)"

lemma try_connect_ok: "length (try_connect env n k) \<le> k \<and> (k > 0 \<longrightarrow> try_connect env n k \<noteq> []) \<and> (\<forall>r \<in> set (butlast (try_connect env n k)). r = connect_failed env)"
  by (induction k arbitrary: n) (auto simp: Let_def)

lemma try_connect_4: "attempts_ok env (try_connect env n 4)"
  using try_connect_ok [of env n 4] by (auto simp: attempts_ok_def)

text \<open>
  The events of a round: every failure is followed by a session as an access point, and the round ends
  with a success or, when nothing known is left, with a session.
\<close>

fun round_events :: "'d boot_env \<Rightarrow> bool \<Rightarrow> boot_event list \<Rightarrow> bool" where
  "round_events env ok [] = False"
| "round_events env ok (Served s # es) \<longleftrightarrow> \<not> ok \<and> es = [] \<and> s \<le> SERVE_SECONDS"
| "round_events env ok (Tried b rs # es) \<longleftrightarrow> attempts_ok env rs \<and>
     (if last rs = 0 then ok \<and> es = []
      else case es of Served s # es' \<Rightarrow> s \<le> SERVE_SECONDS \<and> round_events env ok es' | _ \<Rightarrow> False)"

fun tried :: "boot_event list \<Rightarrow> addr list" where
  "tried [] = []"
| "tried (Tried b rs # es) = b # tried es"
| "tried (Served s # es) = tried es"

abbreviation untried :: "'d boot_state \<Rightarrow> addr list \<Rightarrow> addr list" where
  "untried st xs \<equiv> filter (\<lambda>x. found (params (ap_list st) x) = 0) xs"

lemma find_best_ap_step:
  assumes l: "cdll_list (links sc) knownnodes xs" and r: "scan_find_best_ap dev stk pw sc io = Some (best, pw', sc', io')"
  shows "links sc' = links sc \<and> (case best of None \<Rightarrow> sc' = sc | Some b \<Rightarrow> b \<in> set xs \<and> found (params sc b) = 0 \<and>
    sc' = sc\<lparr> params := (params sc)(b := (params sc b)\<lparr> found := 42 \<rparr>) \<rparr>)"
proof -
  obtain pw1 io1 where c: "choose_ap dev stk (params sc) xs (store pw 0 [0]) io = Some (best, pw1, io1)"
    "sc' = (case best of Some b \<Rightarrow> sc\<lparr> params := (params sc)(b := (params sc b)\<lparr> found := 42 \<rparr>) \<rparr> | None \<Rightarrow> sc)"
    using r unfolding conjunct1 [OF find_best_ap_choice [OF l]] by (auto split: bind_splits prod.splits)
  then show ?thesis using choose_ap_unused [of dev stk "params sc" xs] by (auto split: option.splits)
qed

lemma inner_loop_round:
  assumes "cdll_list (links (ap_list st)) knownnodes xs" "length (untried st xs) < fuel" "connected st = 0"
    and "inner_loop fuel dev stk env st = Some r"
  shows "\<exists>st' es. r = Some st' \<and> history st' = history st @ es \<and> round_events env (connected st' \<noteq> 0) es \<and>
    distinct (tried es) \<and> set (tried es) \<subseteq> set (untried st xs) \<and> links (ap_list st') = links (ap_list st) \<and>
    length (dhcps st') = length (dhcps st) + length (filter (\<lambda>e. \<exists>s. e = Served s) es)"
  using assms
proof (induction fuel arbitrary: st)
  case (Suc fuel)
  obtain best pw sc io where b: "scan_find_best_ap dev stk (wifi_password (globals st)) (ap_list st) (nv st) = Some (best, pw, sc, io)"
    using Suc.prems(4) by (auto split: bind_splits)
  note f = find_best_ap_step [OF Suc.prems(1) b]
  show ?case
  proof (cases best)
    case None
    then obtain st2 where st2: "be_access_point dev stk env (st\<lparr> ap_list := sc, nv := io, globals := (globals st)\<lparr> wifi_password := pw \<rparr> \<rparr>) = Some st2" "r = Some st2"
      using Suc.prems(4) by (auto simp: b Let_def split: bind_splits)
    then show ?thesis using be_access_point_frame [OF st2(1)] f Suc.prems(3) None by auto
  next
    case (Some a)
    let ?rs = "try_connect env (attempts (history st)) 4"
    let ?st2 = "st\<lparr> ap_list := sc, nv := io, globals := (globals st)\<lparr> wifi_password := pw,
       wifi_ssid := store (wifi_ssid (globals st)) 0 (take_view LWIP_POST_BUFSIZE (ssid (res (params sc a)))) \<rparr>, history := history st @ [Tried a ?rs] \<rparr>"
    have a: "a \<in> set xs" "found (params (ap_list st) a) = 0" "links sc = links (ap_list st)"
      "params sc = (params (ap_list st))(a := (params (ap_list st) a)\<lparr> found := 42 \<rparr>)" using f Some by auto
    show ?thesis
    proof (cases "last ?rs = 0")
      case True
      then have "r = Some (?st2\<lparr> connected := 1 \<rparr>)" using Suc.prems(4) by (simp add: b Let_def Some)
      then show ?thesis using a True try_connect_4 by (intro exI [of _ "?st2\<lparr> connected := 1 \<rparr>"] exI [of _ "[Tried a ?rs]"]) auto
    next
      case False
      then obtain st3 where st3: "be_access_point dev stk env ?st2 = Some st3" "inner_loop fuel dev stk env st3 = Some r"
        using Suc.prems(4) by (auto simp: b Let_def Some split: bind_splits)
      obtain secs d where s: "ap_list st3 = sc" "connected st3 = 0" "secs \<le> SERVE_SECONDS"
        "history st3 = history st @ [Tried a ?rs, Served secs]" "dhcps st3 = dhcps st @ [d]"
        using be_access_point_frame [OF st3(1)] Suc.prems(3) by auto
      have u: "(\<lambda>x. found (params (ap_list st3) x) = 0) = (\<lambda>x. x \<noteq> a \<and> found (params (ap_list st) x) = 0)" using s(1) a(4) by auto
      have "Suc (length (untried st3 xs)) = length (untried st xs)"
        unfolding u by (rule filter_update_one) (use cdll_list_distinct [OF Suc.prems(1)] a in auto)
      then obtain st' es where r: "r = Some st'" "history st' = history st3 @ es" "round_events env (connected st' \<noteq> 0) es"
        "distinct (tried es)" "set (tried es) \<subseteq> set (untried st3 xs)" "links (ap_list st') = links (ap_list st3)"
        "length (dhcps st') = length (dhcps st3) + length (filter (\<lambda>e. \<exists>s. e = Served s) es)"
        using Suc.IH [OF _ _ s(2) st3(2)] Suc.prems(1,2) s(1) a(3) by auto
      then have "set (tried es) \<subseteq> set (untried st xs) - {a}" unfolding u by auto
      then show ?thesis using r s a(1,2,3) False try_connect_4
        by (intro exI [of _ st'] exI [of _ "Tried a ?rs # Served secs # es"]) auto
    qed
  qed
qed simp

text \<open>The name of a node.\<close>

abbreviation nm_of :: "(addr \<Rightarrow> my_params) \<Rightarrow> addr \<Rightarrow> byte list" where
  "nm_of ps x \<equiv> the (ap_name ps x)"

text \<open>
  Where every call of a round returns: the store is a well-formed log of credentials, none shorter than the
  names on the list, which are terminated and not empty; and nobody logs in or changes the flash during a session.
\<close>

definition orderly_store :: "'d flash_dev \<Rightarrow> rb_t \<Rightarrow> addr list \<Rightarrow> (addr \<Rightarrow> my_params) \<Rightarrow> 'd io_state \<Rightarrow> bool" where
  "orderly_store dev stk xs ps io \<longleftrightarrow> nor_flash dev \<and>
     (\<exists>ys e m. store_inv dev (io_flash io) ys e m \<and> sector_index stk \<le> m \<and>
        (\<forall>r \<in> set (records_of SSID_ID (store_log dev (io_flash io) ys)). is_credential r \<and> (\<forall>x \<in> set xs. length (nm_of ps x) < length r))) \<and>
     (\<forall>x \<in> set xs. terminated (ssid (res (ps x))) \<and> nm_of ps x \<noteq> [])"

definition no_login :: "'d boot_env \<Rightarrow> bool" where
  "no_login env \<longleftrightarrow> (\<forall>n i ps io. config_changed ps = 0 \<longrightarrow> (\<exists>ps'. visit env n i ps io = Some (ps', io) \<and> config_changed ps' = 0))"

lemma find_matching_orderly:
  assumes "orderly_store dev stk xs ps io" "x \<in> set xs"
  shows "\<exists>err pw' io'. flash_io_find_matching_ssid dev stk (ssid (res (ps x))) pw io = Some (err, pw', io') \<and> orderly_store dev stk xs ps io'"
proof -
  let ?a = "nm_of ps x"
  obtain ys e m where o: "nor_flash dev" "store_inv dev (io_flash io) ys e m" "sector_index stk \<le> m"
    "\<forall>r \<in> set (records_of SSID_ID (store_log dev (io_flash io) ys)). is_credential r \<and> (\<forall>x \<in> set xs. length (nm_of ps x) < length r)"
    "\<forall>x \<in> set xs. terminated (ssid (res (ps x))) \<and> nm_of ps x \<noteq> []" using assms(1) unfolding orderly_store_def by blast
  obtain n where n: "n < LWIP_POST_BUFSIZE" "strlen (ssid (res (ps x))) = Some n" using o(5) assms(2) by (auto simp: terminated_def)
  then have a: "strlen (ssid (res (ps x))) = Some (length ?a)" "take_view (length ?a) (ssid (res (ps x))) = ?a" "0 < length ?a" "length ?a < FLASH_PAGE_SIZE"
    using o(5) assms(2) by (cases n; auto simp: cstr_def)+
  have "\<forall>r \<in> set (records_of SSID_ID (store_log dev (io_flash io) ys)). is_credential r \<and> length ?a < length r" using o(4) assms(2) by simp
  from find_matching_returns_newest [OF o(1-3) refl this a, of pw] obtain err pw' io'
    where f: "flash_io_find_matching_ssid dev stk (ssid (res (ps x))) pw io = Some (err, pw', io')" "store_inv dev (io_flash io') ys e m"
      "set (records_of SSID_ID (store_log dev (io_flash io') ys)) \<subseteq> set (records_of SSID_ID (store_log dev (io_flash io) ys))" by blast
  have "orderly_store dev stk xs ps io'" unfolding orderly_store_def using o f(2,3) by blast
  then show ?thesis using f(1) by blast
qed

lemma choose_ap_returns:
  assumes "orderly_store dev stk ys ps io" "set xs \<subseteq> set ys"
  shows "\<exists>best pw' io'. choose_ap dev stk ps xs pw io = Some (best, pw', io') \<and> orderly_store dev stk ys ps io'"
  using assms
proof (induction xs arbitrary: io pw)
  case (Cons x xs)
  then obtain err pw' io' where "flash_io_find_matching_ssid dev stk (ssid (res (ps x))) pw io = Some (err, pw', io')" "orderly_store dev stk ys ps io'"
    using find_matching_orderly [of dev stk ys ps io x pw] by auto
  then show ?case using Cons by simp
qed simp

lemma find_best_ap_returns:
  assumes l: "cdll_list (links sc) knownnodes xs" and o: "orderly_store dev stk xs (params sc) io"
  shows "\<exists>best pw' sc' io'. scan_find_best_ap dev stk pw sc io = Some (best, pw', sc', io') \<and> orderly_store dev stk xs (params sc') io'"
proof -
  obtain best pw1 io1 where c: "choose_ap dev stk (params sc) xs (store pw 0 [0]) io = Some (best, pw1, io1)" "orderly_store dev stk xs (params sc) io1"
    using choose_ap_returns [OF o] by blast
  have "orderly_store dev stk xs ((params sc)(b := (params sc b)\<lparr> found := 42 \<rparr>)) io1" for b
  proof -
    have r: "res (((params sc)(b := (params sc b)\<lparr> found := 42 \<rparr>)) x) = res (params sc x)" for x by simp
    show ?thesis using c(2) unfolding orderly_store_def r .
  qed
  then show ?thesis using c unfolding conjunct1 [OF find_best_ap_choice [OF l]] by (auto split: option.splits)
qed

lemma serve_no_login:
  assumes "no_login env"
  shows "config_changed ps = 0 \<Longrightarrow> \<exists>secs ps'. serve dev stk env n i k ps io = Some (secs, ps', io)"
proof (induction k arbitrary: i ps)
  case (Suc k)
  then obtain ps' where "visit env n i ps io = Some (ps', io)" "config_changed ps' = 0" using assms unfolding no_login_def by blast
  then show ?case using Suc.IH by simp
qed simp

lemma be_access_point_returns:
  assumes "no_login env"
  shows "\<exists>st'. be_access_point dev stk env st = Some st' \<and> ap_list st' = ap_list st \<and> nv st' = nv st"
  using serve_no_login [OF assms, of "(globals st)\<lparr> config_changed := 0 \<rparr>" dev stk "length (dhcps st)" 0 SERVE_SECONDS "nv st"]
  by (auto simp: be_access_point_def Let_def)

lemma inner_loop_returns:
  assumes "cdll_list (links (ap_list st)) knownnodes xs" "orderly_store dev stk xs (params (ap_list st)) (nv st)" "no_login env"
  shows "inner_loop fuel dev stk env st \<noteq> None"
  using assms(1,2)
proof (induction fuel arbitrary: st)
  case (Suc fuel)
  obtain best pw sc io where b: "scan_find_best_ap dev stk (wifi_password (globals st)) (ap_list st) (nv st) = Some (best, pw, sc, io)"
    "orderly_store dev stk xs (params sc) io" using find_best_ap_returns [OF Suc.prems] by blast
  have l: "links sc = links (ap_list st)" using find_best_ap_step [OF Suc.prems(1) b(1)] by simp
  have k: "\<exists>s'. be_access_point dev stk env s = Some s' \<and> inner_loop fuel dev stk env s' \<noteq> None" if "ap_list s = sc" "nv s = io" for s
    using be_access_point_returns [OF assms(3), of dev stk s] Suc.IH Suc.prems(1) b(2) l that by fastforce
  let ?st1 = "st\<lparr> ap_list := sc, nv := io, globals := (globals st)\<lparr> wifi_password := pw \<rparr> \<rparr>"
  show ?case
  proof (cases best)
    case None
    then show ?thesis using k [of ?st1] b(1) by (auto simp: Let_def)
  next
    case (Some a)
    then show ?thesis
      using k [of "?st1\<lparr> globals := (globals ?st1)\<lparr> wifi_ssid := store (wifi_ssid (globals st)) 0 (take_view LWIP_POST_BUFSIZE (ssid (res (params sc a)))) \<rparr>,
        history := history st @ [Tried a (try_connect env (attempts (history st)) 4)] \<rparr>"] b(1) by (auto simp: Let_def)
  qed
qed simp

text \<open>
  C13. One round of \<^verbatim>\<open>main\<close> between two scans. The inner loop ends: it makes at most one round more than
  there are untried access points in the list. Each access point of the list is tried at most once,
  with one call of the driver and up to three more after \<^verbatim>\<open>PICO_ERROR_CONNECT_FAILED\<close>; after every access point that
  did not answer the program is an access point itself for at most 181 seconds before it tries the
  next one; the round ends connected with the first success, or unconnected with a session after the last
  known access point. Every session starts one more DHCP server, and none is taken down. Nothing is assumed of the driver, the visitors and the
  flash for this, except that the calls of them return (otherwise the model is \<^term>\<open>None\<close>); and they
  all do, so that the round ends, when the store is orderly and nobody logs in meanwhile.
\<close>

theorem round_ends_and_tries_once:
  assumes "cdll_list (links (ap_list st)) knownnodes xs" "length xs < fuel" "connected st = 0"
  shows "case inner_loop fuel dev stk env st of
      None \<Rightarrow> \<not> (orderly_store dev stk xs (params (ap_list st)) (nv st) \<and> no_login env)
    | Some None \<Rightarrow> False
    | Some (Some st') \<Rightarrow> \<exists>es. history st' = history st @ es \<and> round_events env (connected st' \<noteq> 0) es \<and>
        distinct (tried es) \<and> set (tried es) \<subseteq> set xs \<and>
        length (dhcps st') = length (dhcps st) + length (filter (\<lambda>e. \<exists>s. e = Served s) es)"
proof (cases "inner_loop fuel dev stk env st")
  case (Some r)
  have "length (untried st xs) < fuel" using assms(2) length_filter_le [of _ xs] by (rule le_less_trans [rotated])
  from inner_loop_round [OF assms(1) this assms(3) Some] show ?thesis using Some by auto
qed (use inner_loop_returns [OF assms(1), of dev stk env fuel] in auto)

text \<open>A surrounding in which nobody visits and the driver accepts every connection.\<close>

definition quiet :: "'d boot_env" where
  "quiet = \<lparr> scans = (\<lambda>_. (0, 0, [(1, Some (sighting (bytes_of ''net'') (- 50)))])), answer = (\<lambda>_. 0), connect_failed = - 8,
     visit = (\<lambda>_ _ ps io. Some (ps, io)), late = (\<lambda>_ ps io. Some (ps, io)),
     local_dhcp = (\<lambda>_. \<lparr> ip = [], nm = [], lease = [], udp = None \<rparr>),
     udps = (\<lambda>_. \<lparr> new_pcb = None, pbuf_ok = True, bind_err = 0, send_err = 0 \<rparr>), tempssid = (\<lambda>_. 0) \<rparr>"

lemma serve_quiet: "config_changed ps = 0 \<Longrightarrow> serve dev stk quiet n i k ps io = Some (i + k, ps, io)"
  by (induction k arbitrary: i) (simp_all add: quiet_def)

definition all_tried :: "view boot_state" where
  "all_tried = \<lparr> ap_list = \<lparr> links = three_ring, params = (\<lambda>n. (three_aps n)\<lparr> found := 42 \<rparr>) \<rparr>, globals = blank_post,
     nv = \<lparr> io_flash = blank_flash, pagebuff = (\<lambda>_. 0) \<rparr>, dhcps = [], connected = 0, history = [] \<rparr>"

theorem round_ends_and_tries_once_witness:
  "\<exists>st' es. inner_loop 4 nor_array (storage_rb 1) quiet all_tried = Some (Some st') \<and> history st' = es \<and>
     round_events (quiet :: view boot_env) (connected st' \<noteq> 0) es \<and> distinct (tried es) \<and> set (tried es) \<subseteq> {1, 2, 3} \<and>
     length (dhcps st') = length (filter (\<lambda>e. \<exists>s. e = Served s) es)"
proof -
  have l: "cdll_list (links (ap_list all_tried)) knownnodes [1, 2, 3]" by (simp add: all_tried_def cdll_list_def three_ring_def)
  have "scan_find_best_ap nor_array (storage_rb 1) (wifi_password (globals all_tried)) (ap_list all_tried) (nv all_tried) =
      Some (None, store (wifi_password (globals all_tried)) 0 [0], ap_list all_tried, nv all_tried)"
    using conjunct1 [OF find_best_ap_choice [OF l]] by (simp add: all_tried_def)
  then have "inner_loop 4 nor_array (storage_rb 1) quiet all_tried \<noteq> None"
    by (simp add: numeral_eq_Suc be_access_point_def Let_def serve_quiet all_tried_def blank_post_def)
  then show ?thesis
    using round_ends_and_tries_once [OF l, where fuel = 4 and dev = nor_array and stk = "storage_rb 1" and env = quiet] by (auto simp: all_tried_def split: option.splits)
qed

section \<open>Connecting\<close>

lemma cstr_stored: "strlen s = Some n \<Longrightarrow> n < k \<Longrightarrow> cstr (store v 0 (take_view k s)) = cstr s"
proof -
  assume n: "strlen s = Some n" "n < k"
  then have "strlen (store v 0 (take_view k s)) = Some n" by (intro strlen_eq) (auto simp: store_def dest: strlen_Some)
  then show ?thesis using n by (simp add: cstr_def take_view_eq_iff store_def)
qed

text \<open>On a well-formed store the choice is the first untried access point the store has a password for.\<close>

lemma choose_ap_newest:
  assumes dev: "nor_flash dev" and stk: "sector_index stk \<le> m"
    and aps: "\<forall>x \<in> set xs. found (ps x) = 0 \<and> terminated (ssid (res (ps x))) \<and> nm_of ps x \<noteq> []"
    and rs: "\<forall>r \<in> set rs. is_credential r \<and> (\<forall>x \<in> set xs. length (nm_of ps x) < length r)"
  shows "store_inv dev (io_flash io) ys e m \<Longrightarrow> rs = records_of SSID_ID (store_log dev (io_flash io) ys) \<Longrightarrow>
    \<exists>best pw' io'. choose_ap dev stk ps xs pw io = Some (best, pw', io') \<and>
      best = find (\<lambda>x. newest (nm_of ps x) rs \<noteq> None) xs \<and>
      (case best of None \<Rightarrow> pw' = pw | Some b \<Rightarrow> \<exists>p. newest (nm_of ps b) rs = Some p \<and> pw' = store pw 0 p)"
  using aps rs
proof (induction xs arbitrary: io)
  case (Cons x xs)
  let ?a = "nm_of ps x"
  obtain n where n: "n < LWIP_POST_BUFSIZE" "strlen (ssid (res (ps x))) = Some n" using Cons.prems(3) by (auto simp: terminated_def)
  then have a: "strlen (ssid (res (ps x))) = Some (length ?a)" "take_view (length ?a) (ssid (res (ps x))) = ?a" "0 < length ?a" "length ?a < FLASH_PAGE_SIZE"
    using Cons.prems(3) by (cases n; simp add: cstr_def)+
  have "\<forall>r \<in> set rs. is_credential r \<and> length ?a < length r" using Cons.prems(4) by simp
  from find_matching_returns_newest [OF dev Cons.prems(1) stk Cons.prems(2) this a, of pw]
  obtain err pw' io' where f: "flash_io_find_matching_ssid dev stk (ssid (res (ps x))) pw io = Some (err, pw', io')" "store_inv dev (io_flash io') ys e m"
    "case newest ?a rs of None \<Rightarrow> err < 0 \<and> pw' = pw | Some p \<Rightarrow> 0 \<le> err \<and> pw' = store pw 0 p"
    "filter (\<lambda>r. \<not> named ?a r) (records_of SSID_ID (store_log dev (io_flash io') ys)) = filter (\<lambda>r. \<not> named ?a r) rs"
    "set (records_of SSID_ID (store_log dev (io_flash io') ys)) \<subseteq> set rs" by auto
  have x: "found (ps x) = 0" using Cons.prems(3) by simp
  show ?case
  proof (cases "newest ?a rs")
    case None
    then have none: "\<forall>r \<in> set rs. \<not> named ?a r" by (auto simp: newest_def split: if_splits)
    then have "rs = records_of SSID_ID (store_log dev (io_flash io') ys)"
      using f(4,5) by (metis (no_types, lifting) filter_True subsetD)
    then show ?thesis using Cons.IH [OF f(2)] f(1,3) None x Cons.prems(3,4) by simp
  next
    case (Some p)
    then show ?thesis using f x by simp
  qed
qed simp

text \<open>The first round when the driver accepts the first choice.\<close>

lemma connect_to_choice:
  assumes sc: "scan_find_all_ssids 0 0 rs (ap_list st) = Some (0, sc)" "known_inv sc xs"
    and env: "scans env n = (0, 0, rs)" "answer env (attempts (history st)) = 0" "connect_failed env \<noteq> 0"
    and c: "choose_ap dev stk (params sc) xs (store (wifi_password (globals st)) 0 [0]) (nv st) = Some (Some b, pw, io)"
  shows "\<exists>st'. outer_loop (Suc k) (Suc fuel) n dev stk env st = Some (Some st') \<and> connected st' = 1 \<and>
    history st' = history st @ [Tried b [0]] \<and> cstr (wifi_ssid (globals st')) = ap_name (params sc) b \<and>
    wifi_password (globals st') = pw \<and> dhcps st' = dhcps st \<and> cdll_list (links (ap_list st')) knownnodes []"
proof -
  note l = known_invD(1) [OF sc(2)]
  let ?sc = "sc\<lparr> params := (params sc)(b := (params sc b)\<lparr> found := 42 \<rparr>) \<rparr>"
  have "try_connect env (attempts (history st)) 4 = [0]" using env by (simp add: numeral_eq_Suc Let_def)
  moreover have "scan_find_best_ap dev stk (wifi_password (globals st)) sc (nv st) = Some (Some b, pw, ?sc, io)"
    unfolding conjunct1 [OF find_best_ap_choice [OF l]] c by simp
  moreover obtain h where "removelist knownnodes (links sc) = Some (h, xs)" "cdll_list h knownnodes []"
    using removelist_list [OF l] by blast
  moreover have "cstr (store (wifi_ssid (globals st)) 0 (take_view 32 (ssid (res (params sc b))))) = ap_name (params sc) b"
    using known_invD(3) [OF sc(2)] conjunct1 [OF choose_ap_unused [OF c]] cstr_stored unfolding terminated_def by blast
  ultimately show ?thesis using env(1) sc(1) by (auto simp: outer_round_def Let_def)
qed



end
