(* ===== verification/Main_Program.thy ===== *)
theory Main_Program
  imports Wifi_Boot Tcp_Json Tcp_Test1
begin

text \<open>
  The rest of \<^verbatim>\<open>main\<close> in \<^verbatim>\<open>picow_web.c\<close>: the host name at the start and the endless loop of the application,
  which runs the echo test against a peer and sends the configuration to the buddies when it has changed.
\<close>

section \<open>The host name\<close>

text \<open>
  \<open>deflt\<close> is the text of the \<^verbatim>\<open>snprintf\<close>, made of the interface's name and three bytes of its address.
  \<^verbatim>\<open>err\<close> is an \<^verbatim>\<open>int8_t\<close>.
\<close>

definition int8_of :: "int \<Rightarrow> int" where
  "int8_of n = (n + 128) mod 256 - 128"

definition main_host_name ::
    "'d flash_dev \<Rightarrow> rb_t \<Rightarrow> byte list \<Rightarrow> view \<Rightarrow> 'd io_state \<Rightarrow> (view \<times> 'd io_state) option" where
  "main_host_name dev stk deflt host st = do {
     (r, st1) \<leftarrow> flash_io_read_latest_hostname dev stk st;
     let err = int8_of r;
     if err < 0 then Some (snprintf_s host 20 deflt, st1)
     else Some (store host 0 (take_view (nat err) (pagebuff st1)), st1)
   }"

lemma int8_of_small: "0 \<le> n \<Longrightarrow> n < 128 \<Longrightarrow> int8_of n = n"
  by (simp add: int8_of_def)

text \<open>
  The name the program gives itself: the newest stored one when it has fewer than 128 bytes; the default on a blank
  store; and none at all, the array as it was, on a store in use that has no name. The flash is not changed.
\<close>

theorem main_host_name_cases:
  assumes inv: "store_inv dev (io_flash st) xs e m" and stk: "sector_index stk \<le> m"
    and rs: "rs = records_of HOSTNAME_ID (store_log dev (io_flash st) xs)"
    and short: "rs \<noteq> [] \<Longrightarrow> length (last rs) < 128"
  shows "\<exists>host' st'. main_host_name dev stk deflt host st = Some (host', st') \<and> io_flash st' = io_flash st \<and>
    host' = (if rs \<noteq> [] then store host 0 (last rs) else if xs = [] then snprintf_s host 20 deflt else host)"
proof -
  have i: "(HOSTNAME_ID :: byte) \<noteq> 0xff" "(HOSTNAME_ID :: byte) \<noteq> 0" by simp_all
  obtain err st' where r: "read_flash_id_latest dev stk HOSTNAME_ID PERSISTENT_TABLE PERSISTENT_LEN st = Some (err, st')" "io_flash st' = io_flash st"
    "rs = [] \<longrightarrow> err = (if xs = [] then RB_BLANK_HDR else 0)"
    "rs \<noteq> [] \<longrightarrow> err = int (min (length (last rs)) FLASH_PAGE_SIZE) \<and> (\<exists>buf. pagebuff st' = store buf 0 (take FLASH_PAGE_SIZE (last rs)))"
    by (rule read_latest [OF inv stk i rs])
  show ?thesis
  proof (cases "rs = []")
    case True
    then show ?thesis using r by (auto simp: main_host_name_def flash_io_read_latest_hostname_def Let_def int8_of_def store_def)
  next
    case False
    then obtain buf where b: "err = int (length (last rs))" "pagebuff st' = store buf 0 (last rs)" using r(4) short by auto
    have "take_view (length (last rs)) (store buf 0 (last rs)) = last rs" by (auto simp: list_eq_iff_nth_eq store_def)
    then show ?thesis using False r(1,2) b short
      by (auto simp: main_host_name_def flash_io_read_latest_hostname_def Let_def int8_of_small)
  qed
qed

section \<open>The application loop\<close>

text \<open>The two static counters of failures, \<^verbatim>\<open>last_update_count\<close>, the device, and the clients opened so far with the calls made.\<close>

record 'f app_state =
  app_dev :: "'f device"
  last_update_count :: int
  test_fails :: int
  json_fails :: int
  clients :: "TCP_CLIENT_T option list"
  app_calls :: calls

text \<open>
  One round. \<open>test_sys\<close> and \<open>sys\<close> tell whether a client can be allocated and which address is known for the host; \<open>work\<close> is
  what the callbacks do to the device in the ten seconds of the two sleeps. \<^verbatim>\<open>print_mirror\<close> only prints.
\<close>

definition app_round ::
    "tcp_env \<Rightarrow> bool \<times> nat \<Rightarrow> (byte list \<Rightarrow> bool \<times> nat) \<Rightarrow> 'f dbl_ops \<Rightarrow> byte list \<Rightarrow> mem \<Rightarrow> heap_answers \<Rightarrow> ('f device \<Rightarrow> 'f device) \<Rightarrow>
     'f app_state \<Rightarrow> 'f app_state option" where
  "app_round env test_sys sys fo host m ha work st = do {
     (r, fc, cl, tr) \<leftarrow> tcp_client_sendtest_init_open env (fst test_sys) (snd test_sys) (bytes_of ''jedediah.local'') 4242 (test_fails st) (app_calls st);
     let dev = work (app_dev st);
     let (count, mir, m1) = get_mirror_update_count fo host (dev_mirror dev) m;
     let st1 = st\<lparr> app_dev := dev\<lparr> dev_mirror := mir \<rparr>, test_fails := fc, clients := clients st @ [cl], app_calls := tr \<rparr>;
     if last_update_count st1 \<noteq> count then do {
       let (count2, mir2, m2) = get_mirror_update_count fo host mir m1;
       (ok, fc2, cls, dev2, tr2) \<leftarrow> tcp_client_json_update_buddies env sys fo host ha (json_fails st1) ((app_dev st1)\<lparr> dev_mirror := mir2 \<rparr>) (app_calls st1);
       Some (st1\<lparr> app_dev := dev2, last_update_count := count2, json_fails := fc2, clients := clients st1 @ cls, app_calls := tr2 \<rparr>)
     }
     else Some st1
   }"

text \<open>
  After a round the program has announced the counter its tree had: the buddies are contacted only when the
  counter is another one than at the last round, and the echo test opens one client in every round.
\<close>

theorem app_round_announces:
  assumes "app_round env test_sys sys fo host m ha work st = Some st'" and "dev_mirror (work (app_dev st)) = Some t"
  shows "last_update_count st' = update_count (Some t) \<and>
    (\<exists>cl cls. clients st' = clients st @ cl # cls \<and> (last_update_count st = update_count (Some t) \<longrightarrow> cls = []))"
  using assms
  by (auto simp: app_round_def get_mirror_update_count_def get_mirror_def Let_def split: bind_splits if_splits prod.splits)

end
